(* ===== verification/HC_Prelude.thy ===== *)
theory HC_Prelude
  imports Main "HOL-Library.Word" "HOL-Library.Multiset"
begin

text \<open>
  The prelude of the development: the machine types of the C++ sources, the exceptions
  the code can throw (\<^verbatim>\<open>include/highcache/common/error.h\<close> and the standard library's own),
  the collections of facts the component theories extend, and the generic lemmas on
  lists, association lists and words that they share.
\<close>

section \<open>Machine types\<close>

text \<open>
  The server is built for 64-bit Linux: \<^verbatim>\<open>std::size_t\<close> and \<^verbatim>\<open>std::uint64_t\<close> are both
  64-bit words, so every counter wraps around. A \<^verbatim>\<open>std::string\<close> is a list of bytes.
\<close>

type_synonym u8 = "8 word"
type_synonym u16 = "16 word"
type_synonym u32 = "32 word"
type_synonym u64 = "64 word"
type_synonym bytes = "8 word list"

section \<open>Errors\<close>

datatype error_code = Invalid_argument | Config_io | Config_parse | Network

definition to_string_error_code :: "error_code \<Rightarrow> string" where
  "to_string_error_code code =
     (case code of
        Invalid_argument \<Rightarrow> ''invalid_argument''
      | Config_io \<Rightarrow> ''config_io''
      | Config_parse \<Rightarrow> ''config_parse''
      | Network \<Rightarrow> ''network'')"

text \<open>
  Exceptions as values: the standard library's \<^verbatim>\<open>std::bad_alloc\<close>, \<^verbatim>\<open>std::length_error\<close>,
  \<^verbatim>\<open>std::overflow_error\<close>, \<^verbatim>\<open>std::invalid_argument\<close>, \<^verbatim>\<open>std::runtime_error\<close> with their
  messages, and the project's \<^verbatim>\<open>HighCacheError\<close> with its code.
\<close>

datatype exn =
    Bad_alloc
  | Length_error string
  | Overflow_error string
  | Std_invalid_argument string
  | Runtime_error string
  | High_cache_error error_code string

section \<open>Collections of facts\<close>

named_theorems heap_frame \<open>what an operation leaves unchanged in the free store\<close>
named_theorems word_bounds \<open>machine arithmetic read as arithmetic on natural numbers\<close>

section \<open>Lists and association lists\<close>

lemma filter_fst_distinct:
  "distinct (map fst xs) \<Longrightarrow> distinct (map fst (filter P xs))"
  by (induction xs) auto

lemma filter_snd_distinct:
  "distinct (map snd xs) \<Longrightarrow> distinct (map snd (filter P xs))"
  by (induction xs) auto

lemma map_of_filter_neq:
  "map_of (filter (\<lambda>x. fst x \<noteq> k) xs) = (map_of xs)(k := None)"
  by (induction xs) (auto simp: fun_eq_iff)

lemma distinct_fst_unique:
  "distinct (map fst xs) \<Longrightarrow> (k, v) \<in> set xs \<Longrightarrow> (k, w) \<in> set xs \<Longrightarrow> v = w"
  by (metis eq_key_imp_eq_value)

lemma distinct_snd_unique:
  assumes "distinct (map snd xs)" and "(i, k) \<in> set xs" and "(j, k) \<in> set xs"
  shows "i = j"
  using assms by (metis distinct_map inj_on_eq_iff prod.inject snd_conv)

lemma sum_list_filter_split:
  fixes f :: "'a \<Rightarrow> nat"
  shows "(\<Sum>x\<leftarrow>xs. f x) = (\<Sum>x\<leftarrow>filter P xs. f x) + (\<Sum>x\<leftarrow>filter (\<lambda>x. \<not> P x) xs. f x)"
  by (induction xs) auto

text \<open>In an association list with distinct keys, exactly one pair carries a given key.\<close>

lemma filter_key_singleton:
  "distinct (map fst xs) \<Longrightarrow> map_of xs k = Some v \<Longrightarrow> filter (\<lambda>x. fst x = k) xs = [(k, v)]"
proof (induction xs)
  case Nil
  then show ?case by simp
next
  case (Cons x xs)
  have empty: "k \<notin> fst ` set xs \<Longrightarrow> filter (\<lambda>x. fst x = k) xs = []" for k
    by (auto simp: filter_empty_conv image_iff)
  show ?case
  proof (cases "fst x = k")
    case True
    with Cons.prems have "x = (k, v)" and "k \<notin> fst ` set xs" by (auto split: if_splits)
    with empty show ?thesis by auto
  next
    case False
    with Cons show ?thesis by (auto split: if_splits)
  qed
qed

lemma sum_list_remove_key:
  fixes f :: "'a \<times> 'b \<Rightarrow> nat"
  assumes "distinct (map fst xs)" and "map_of xs k = Some v"
  shows "(\<Sum>x\<leftarrow>xs. f x) = f (k, v) + (\<Sum>x\<leftarrow>filter (\<lambda>x. fst x \<noteq> k) xs. f x)"
  using sum_list_filter_split [of f xs "\<lambda>x. fst x = k"]
  by (simp add: filter_key_singleton [OF assms])

section \<open>Words read as natural numbers\<close>

lemma unat_of_nat_u64 [word_bounds]:
  "n < 2 ^ 64 \<Longrightarrow> unat (of_nat n :: u64) = n"
  by (simp add: unat_of_nat take_bit_nat_eq_self)

lemma unat_sub_u64 [word_bounds]:
  "unat b \<le> unat a \<Longrightarrow> unat (a - b :: u64) = unat a - unat b"
  by (metis unat_sub word_le_nat_alt)

lemma unat_add_u64 [word_bounds]:
  "unat a + unat b < 2 ^ 64 \<Longrightarrow> unat (a + b :: u64) = unat a + unat b"
  by (simp add: unat_word_ariths)

lemma unat_lt_u64 [simp]: "unat (a :: u64) < 2 ^ 64"
  using unsigned_less [of a] by simp

end
