(* ===== verification/Free_Store.thy ===== *)
theory Free_Store
  imports HC_Prelude "HOL-Library.Monad_Syntax"
begin

text \<open>
  The C++ run-time the cache is written against: \<^verbatim>\<open>operator new\<close> and \<^verbatim>\<open>operator delete\<close>,
  byte copies into and out of a block, and the \<^verbatim>\<open>FreeNode\<close> link that
  \<^verbatim>\<open>src/memory/slab_allocator.cpp\<close> places into a free block.

  A pointer is a block identifier and an offset. A cell holds one byte of a value, the
  link of a free node, or nothing that may be read. Undefined behaviour (an access
  outside a live block, a read of an undefined cell, a \<^verbatim>\<open>delete\<close> of something that was
  not allocated) has no result: the operation is \<^term>\<open>None\<close>. Failing allocations are
  an input of the model: the field \<open>oom\<close> lists, for the allocations still to come,
  which of them throw \<^verbatim>\<open>std::bad_alloc\<close>; when the list is used up all succeed. The same
  list also decides the allocations made by strings and containers.
\<close>

section \<open>Definitions\<close>

datatype ptr = Ptr (blk: nat) (off: nat)

datatype cell = Undef | Byte u8 | Next "ptr option"

record heap =
  next_block :: nat
  blocks :: "nat \<Rightarrow> nat option"
  cells :: "nat \<Rightarrow> nat \<Rightarrow> cell"
  oom :: "bool list"

definition empty_heap :: "bool list \<Rightarrow> heap" where
  "empty_heap outcomes =
     \<lparr>next_block = 0, blocks = (\<lambda>_. None), cells = (\<lambda>_ _. Undef), oom = outcomes\<rparr>"

text \<open>One request for memory: does it succeed?\<close>

definition request_memory :: "heap \<Rightarrow> bool \<times> heap" where
  "request_memory h =
     (case oom h of
        [] \<Rightarrow> (True, h)
      | fails # rest \<Rightarrow> (\<not> fails, h\<lparr>oom := rest\<rparr>))"

text \<open>An allocation made inside a standard string or container.\<close>

definition container_alloc :: "heap \<Rightarrow> (exn + unit) \<times> heap" where
  "container_alloc h =
     (case request_memory h of
        (True, h') \<Rightarrow> (Inr (), h')
      | (False, h') \<Rightarrow> (Inl Bad_alloc, h'))"

definition operator_new :: "nat \<Rightarrow> heap \<Rightarrow> (exn + ptr) \<times> heap" where
  "operator_new n h =
     (case request_memory h of
        (False, h') \<Rightarrow> (Inl Bad_alloc, h')
      | (True, h') \<Rightarrow>
          (Inr (Ptr (next_block h') 0),
           h'\<lparr>next_block := Suc (next_block h'),
              blocks := (blocks h')(next_block h' := Some n),
              cells := (cells h')(next_block h' := (\<lambda>_. Undef))\<rparr>))"

definition operator_delete :: "ptr \<Rightarrow> heap \<Rightarrow> heap option" where
  "operator_delete p h =
     (if off p = 0 \<and> blocks h (blk p) \<noteq> None
      then Some (h\<lparr>blocks := (blocks h)(blk p := None)\<rparr>)
      else None)"

definition in_bounds :: "heap \<Rightarrow> ptr \<Rightarrow> nat \<Rightarrow> bool" where
  "in_bounds h p n =
     (case blocks h (blk p) of None \<Rightarrow> False | Some sz \<Rightarrow> off p + n \<le> sz)"

definition store_cells :: "ptr \<Rightarrow> cell list \<Rightarrow> heap \<Rightarrow> heap option" where
  "store_cells p cs h =
     (if in_bounds h p (length cs)
      then Some (h\<lparr>cells := (\<lambda>b i.
             if b = blk p \<and> off p \<le> i \<and> i < off p + length cs
             then cs ! (i - off p) else cells h b i)\<rparr>)
      else None)"

definition memcpy_to :: "ptr \<Rightarrow> bytes \<Rightarrow> heap \<Rightarrow> heap option" where
  "memcpy_to p bs h = store_cells p (map Byte bs) h"

definition load_cells :: "heap \<Rightarrow> ptr \<Rightarrow> nat \<Rightarrow> cell list option" where
  "load_cells h p n =
     (if in_bounds h p n
      then Some (map (\<lambda>i. cells h (blk p) (off p + i)) [0..<n])
      else None)"

fun cell_byte :: "cell \<Rightarrow> u8 option" where
  "cell_byte (Byte x) = Some x"
| "cell_byte _ = None"

definition load_bytes :: "heap \<Rightarrow> ptr \<Rightarrow> nat \<Rightarrow> bytes option" where
  "load_bytes h p n =
     (case load_cells h p n of None \<Rightarrow> None | Some cs \<Rightarrow> those (map cell_byte cs))"

text \<open>
  A \<^verbatim>\<open>FreeNode\<close> is one 8-byte pointer with 8-byte alignment; placing it into a block
  destroys the eight cells it occupies.
\<close>

abbreviation (input) free_node_size :: nat where
  "free_node_size \<equiv> 8"

definition store_next :: "ptr \<Rightarrow> ptr option \<Rightarrow> heap \<Rightarrow> heap option" where
  "store_next p nxt h =
     (if off p mod 8 = 0
      then store_cells p (Next nxt # replicate (free_node_size - 1) Undef) h
      else None)"

definition load_next :: "heap \<Rightarrow> ptr \<Rightarrow> (ptr option) option" where
  "load_next h p =
     (if off p mod 8 = 0 \<and> in_bounds h p free_node_size
      then (case cells h (blk p) (off p) of Next nxt \<Rightarrow> Some nxt | _ \<Rightarrow> None)
      else None)"

text \<open>The cells a region of \<open>n\<close> bytes at \<open>p\<close> occupies.\<close>

definition region :: "ptr \<Rightarrow> nat \<Rightarrow> (nat \<times> nat) set" where
  "region p n = Pair (blk p) ` {off p ..< off p + n}"

text \<open>Block identifiers from \<^term>\<open>next_block h\<close> on have never been handed out.\<close>

definition heap_wf :: "heap \<Rightarrow> bool" where
  "heap_wf h \<longleftrightarrow> (\<forall>b \<ge> next_block h. blocks h b = None)"

text \<open>Two stores agree on a set of cells: same bounds of the blocks, same contents.\<close>

definition agree_on :: "(nat \<times> nat) set \<Rightarrow> heap \<Rightarrow> heap \<Rightarrow> bool" where
  "agree_on A h h' \<longleftrightarrow>
     (\<forall>(b, i) \<in> A. blocks h' b = blocks h b \<and> cells h' b i = cells h b i)"

section \<open>Basic facts\<close>

lemma request_memory_fields [simp]:
  assumes "request_memory h = (r, h')"
  shows "next_block h' = next_block h" and "blocks h' = blocks h" and "cells h' = cells h"
  using assms by (auto simp: request_memory_def split: list.splits)

lemma container_alloc_fields:
  assumes "container_alloc h = (r, h')"
  shows "next_block h' = next_block h" and "blocks h' = blocks h" and "cells h' = cells h"
    and "r = Inl Bad_alloc \<or> r = Inr ()"
  using assms by (auto simp: container_alloc_def split: prod.splits bool.splits)

lemma container_alloc_nil [simp]: "oom h = [] \<Longrightarrow> container_alloc h = (Inr (), h)"
  by (simp add: container_alloc_def request_memory_def)

lemma heap_wf_empty [simp]: "heap_wf (empty_heap outs)"
  by (simp add: heap_wf_def empty_heap_def)

lemma oom_empty_heap [simp]: "oom (empty_heap outs) = outs"
  by (simp add: empty_heap_def)

lemma heap_wf_live: "heap_wf h \<Longrightarrow> blocks h b = Some n \<Longrightarrow> b < next_block h"
  by (rule ccontr) (auto simp: heap_wf_def)

lemma in_bounds_agree:
  "blocks h' (blk p) = blocks h (blk p) \<Longrightarrow> in_bounds h' p n = in_bounds h p n"
  by (simp add: in_bounds_def)

lemma in_bounds_mono: "in_bounds h p n \<Longrightarrow> m \<le> n \<Longrightarrow> in_bounds h p m"
  by (auto simp: in_bounds_def split: option.splits)

lemma region_iff: "(b, i) \<in> region p n \<longleftrightarrow> b = blk p \<and> off p \<le> i \<and> i < off p + n"
  by (auto simp: region_def)

lemma base_in_region: "0 < n \<Longrightarrow> (blk p, off p) \<in> region p n"
  by (simp only: region_iff) simp

lemma region_0 [simp]: "region p 0 = {}"
  by (auto simp: region_def)

lemma region_mono: "m \<le> n \<Longrightarrow> region p m \<subseteq> region p n"
  by (auto simp: region_def)

lemma agree_on_refl [simp]: "agree_on A h h"
  by (auto simp: agree_on_def)

lemma agree_on_mono: "agree_on B h h' \<Longrightarrow> A \<subseteq> B \<Longrightarrow> agree_on A h h'"
  by (fastforce simp: agree_on_def)

lemma agree_on_trans: "agree_on A h h' \<Longrightarrow> agree_on A h' h'' \<Longrightarrow> agree_on A h h''"
  by (fastforce simp: agree_on_def)

lemma agree_on_request [simp]:
  "request_memory h = (r, h') \<Longrightarrow> agree_on A h h'"
  by (auto simp: agree_on_def)

lemma agree_on_fields:
  "blocks h' = blocks h \<Longrightarrow> cells h' = cells h \<Longrightarrow> agree_on A h h'"
  by (auto simp: agree_on_def)

lemma load_bytes_agree [heap_frame]:
  assumes "agree_on (region p n) h h'" and "0 < n"
  shows "load_bytes h' p n = load_bytes h p n"
proof -
  have "(blk p, off p) \<in> region p n" using assms(2) by (rule base_in_region)
  with assms(1) have "blocks h' (blk p) = blocks h (blk p)"
    by (fastforce simp: agree_on_def)
  moreover have "cells h' (blk p) (off p + i) = cells h (blk p) (off p + i)" if "i < n" for i
    using assms(1) that by (fastforce simp: agree_on_def region_def)
  then have "map (\<lambda>i. cells h' (blk p) (off p + i)) [0..<n]
      = map (\<lambda>i. cells h (blk p) (off p + i)) [0..<n]"
    by simp
  ultimately show ?thesis
    by (simp only: load_bytes_def load_cells_def in_bounds_def)
qed

lemma load_next_agree [heap_frame]:
  assumes "agree_on (region p free_node_size) h h'"
  shows "load_next h' p = load_next h p"
proof -
  have "(blk p, off p) \<in> region p free_node_size" by (rule base_in_region) simp
  with assms have "blocks h' (blk p) = blocks h (blk p)"
    and "cells h' (blk p) (off p) = cells h (blk p) (off p)"
    by (fastforce simp: agree_on_def)+
  then show ?thesis by (simp add: load_next_def in_bounds_def)
qed

section \<open>Storing and loading\<close>

lemma store_cells_fields:
  assumes "store_cells p cs h = Some h'"
  shows "next_block h' = next_block h" and "blocks h' = blocks h" and "oom h' = oom h"
  using assms by (auto simp: store_cells_def split: if_splits)

lemma store_cells_frame [heap_frame]:
  assumes "store_cells p cs h = Some h'" and "A \<inter> region p (length cs) = {}"
  shows "agree_on A h h'"
  using assms
  by (fastforce simp: store_cells_def agree_on_def region_def split: if_splits)

lemma those_map_Some: "those (map Some xs) = Some xs"
  by (induction xs) auto

lemma load_store_bytes:
  assumes "memcpy_to p bs h = Some h'"
  shows "load_bytes h' p (length bs) = Some bs"
proof -
  have bound: "in_bounds h' p (length bs)"
    using assms by (auto simp: memcpy_to_def store_cells_def in_bounds_def split: if_splits)
  have "cells h' (blk p) (off p + i) = Byte (bs ! i)" if "i < length bs" for i
    using assms that by (auto simp: memcpy_to_def store_cells_def split: if_splits)
  then have "map (\<lambda>i. cells h' (blk p) (off p + i)) [0..<length bs] = map Byte bs"
    by (intro nth_equalityI) simp_all
  then show ?thesis
    using bound by (simp add: load_bytes_def load_cells_def comp_def those_map_Some)
qed

lemma memcpy_defined: "in_bounds h p (length bs) \<Longrightarrow> \<exists>h'. memcpy_to p bs h = Some h'"
  by (simp add: memcpy_to_def store_cells_def)

lemma store_next_defined:
  "in_bounds h p free_node_size \<Longrightarrow> off p mod 8 = 0 \<Longrightarrow> \<exists>h'. store_next p nxt h = Some h'"
  by (simp add: store_next_def store_cells_def)

lemma load_store_next:
  assumes "store_next p nxt h = Some h'"
  shows "load_next h' p = Some nxt"
  using assms
  by (auto simp: store_next_def load_next_def store_cells_def in_bounds_def
      split: if_splits option.splits)

lemma store_next_fields:
  assumes "store_next p nxt h = Some h'"
  shows "next_block h' = next_block h" and "blocks h' = blocks h" and "oom h' = oom h"
  using assms store_cells_fields by (auto simp: store_next_def split: if_splits)

lemma store_next_frame [heap_frame]:
  assumes "store_next p nxt h = Some h'" and "A \<inter> region p free_node_size = {}"
  shows "agree_on A h h'"
proof (rule store_cells_frame)
  show "store_cells p (Next nxt # replicate (free_node_size - 1) Undef) h = Some h'"
    using assms(1) by (simp add: store_next_def split: if_splits)
qed (use assms(2) in simp)

section \<open>Allocation\<close>

lemma operator_new_cases:
  assumes "operator_new n h = (r, h')"
  obtains (fail) "r = Inl Bad_alloc" and "next_block h' = next_block h"
      and "blocks h' = blocks h" and "cells h' = cells h"
    | (ok) "r = Inr (Ptr (next_block h) 0)" and "next_block h' = Suc (next_block h)"
      and "blocks h' = (blocks h)(next_block h := Some n)"
      and "cells h' = (cells h)(next_block h := (\<lambda>_. Undef))"
proof (cases "request_memory h")
  case (Pair b h1)
  note fields = request_memory_fields [OF Pair]
  show thesis
  proof (cases b)
    case True
    then show thesis using ok assms Pair fields by (auto simp: operator_new_def)
  next
    case False
    then show thesis using fail assms Pair fields by (auto simp: operator_new_def)
  qed
qed

lemma operator_new_frame [heap_frame]:
  assumes "operator_new n h = (r, h')" and "\<forall>(b, i) \<in> A. b < next_block h"
  shows "agree_on A h h'"
  using assms(1)
  by (cases rule: operator_new_cases) (use assms(2) in \<open>auto simp: agree_on_def\<close>)

lemma operator_delete_frame [heap_frame]:
  assumes "operator_delete p h = Some h'" and "\<forall>(b, i) \<in> A. b \<noteq> blk p"
  shows "agree_on A h h'"
  using assms by (auto simp: operator_delete_def agree_on_def split: if_splits)

end
