(* ===== verification/Value_Allocator.thy ===== *)
theory Value_Allocator
  imports Free_Store
begin

text \<open>
  The interface \<^verbatim>\<open>ValueAllocator\<close> of \<^verbatim>\<open>include/highcache/memory/value_allocator.h\<close>, as a locale:
  what the cache may rely on when it asks any allocator for a block, fills it and gives
  it back. The \<^verbatim>\<open>SystemAllocator\<close> of \<^verbatim>\<open>src/memory/value_allocator.cpp\<close> is its first
  interpretation; the slab allocator and the run-time choice between the two follow in
  their own theories.
\<close>

section \<open>Metrics and backends\<close>

record value_allocator_metrics =
  allocated_bytes :: u64
  used_bytes :: u64
  free_bytes :: u64
  allocation_count :: u64
  deallocation_count :: u64
  internal_fragmentation :: u64
  slab_count :: u64

definition zero_metrics :: value_allocator_metrics where
  "zero_metrics =
     \<lparr>allocated_bytes = 0, used_bytes = 0, free_bytes = 0, allocation_count = 0,
      deallocation_count = 0, internal_fragmentation = 0, slab_count = 0\<rparr>"

datatype allocator_backend = Backend_system | Backend_slab

definition parse_allocator_backend :: "string \<Rightarrow> exn + allocator_backend" where
  "parse_allocator_backend value =
     (if value = ''system'' then Inr Backend_system
      else if value = ''slab'' then Inr Backend_slab
      else Inl (High_cache_error Invalid_argument ''unsupported value allocator backend''))"

definition to_string_backend :: "allocator_backend \<Rightarrow> string" where
  "to_string_backend backend =
     (case backend of Backend_system \<Rightarrow> ''system'' | Backend_slab \<Rightarrow> ''slab'')"

section \<open>The system allocator\<close>

record system_allocator =
  sys_metrics :: value_allocator_metrics

definition new_system_allocator :: system_allocator where
  "new_system_allocator = \<lparr>sys_metrics = zero_metrics\<rparr>"

definition system_allocate ::
    "nat \<Rightarrow> system_allocator \<Rightarrow> heap \<Rightarrow> ((exn + ptr option) \<times> system_allocator \<times> heap) option" where
  "system_allocate sz a h =
     (if sz = 0 then Some (Inr None, a, h)
      else case operator_new sz h of
        (Inl e, h') \<Rightarrow> Some (Inl e, a, h')
      | (Inr pointer, h') \<Rightarrow>
          (let m = sys_metrics a;
               m' = m\<lparr>allocated_bytes := allocated_bytes m + of_nat sz,
                      used_bytes := used_bytes m + of_nat sz,
                      allocation_count := allocation_count m + 1\<rparr>
           in Some (Inr (Some pointer), a\<lparr>sys_metrics := m'\<rparr>, h')))"

definition system_deallocate ::
    "ptr option \<Rightarrow> nat \<Rightarrow> system_allocator \<Rightarrow> heap \<Rightarrow> (system_allocator \<times> heap) option" where
  "system_deallocate pointer sz a h =
     (case pointer of
        None \<Rightarrow> (if sz = 0 then Some (a, h) else None)
      | Some p \<Rightarrow>
          (if sz = 0 then None
           else case operator_delete p h of
             None \<Rightarrow> None
           | Some h' \<Rightarrow>
               (let m = sys_metrics a;
                    m' = m\<lparr>allocated_bytes := allocated_bytes m - of_nat sz,
                           used_bytes := used_bytes m - of_nat sz,
                           deallocation_count := deallocation_count m + 1\<rparr>
                in Some (a\<lparr>sys_metrics := m'\<rparr>, h'))))"

text \<open>Its destructor has nothing to give back.\<close>

definition system_destroy :: "system_allocator \<Rightarrow> heap \<Rightarrow> heap option" where
  "system_destroy a h = Some h"

section \<open>Outstanding allocations\<close>

text \<open>
  The blocks a client holds are a finite map from pointers to the sizes it asked for.
  The footprint is every cell the client may touch through them.
\<close>

type_synonym outstanding = "ptr \<Rightarrow> nat option"

definition footprint :: "outstanding \<Rightarrow> (nat \<times> nat) set" where
  "footprint L = {x. \<exists>p n. L p = Some n \<and> x \<in> region p n}"

definition live_sum :: "(nat \<Rightarrow> u64) \<Rightarrow> outstanding \<Rightarrow> u64" where
  "live_sum f L = (\<Sum>p \<in> dom L. f (the (L p)))"

text \<open>What the metrics say about the outstanding allocations, exact even when a counter wraps.\<close>

definition metrics_ok :: "outstanding \<Rightarrow> value_allocator_metrics \<Rightarrow> bool" where
  "metrics_ok L m \<longleftrightarrow>
     used_bytes m = live_sum of_nat L \<and>
     allocated_bytes m = used_bytes m + free_bytes m + internal_fragmentation m \<and>
     allocation_count m = deallocation_count m + of_nat (card (dom L))"

lemma live_sum_empty [simp]: "live_sum f Map.empty = 0"
  by (simp add: live_sum_def)

lemma live_sum_insert:
  assumes "finite (dom L)" and "L p = None"
  shows "live_sum f (L(p \<mapsto> n)) = live_sum f L + f n"
proof -
  have "p \<notin> dom L" using assms(2) by auto
  then have "(\<Sum>q \<in> dom L. f (the ((L(p \<mapsto> n)) q))) = live_sum f L"
    unfolding live_sum_def by (intro sum.cong) auto
  with \<open>p \<notin> dom L\<close> assms(1) show ?thesis by (simp add: live_sum_def)
qed

lemma live_sum_delete:
  assumes "finite (dom L)" and "L p = Some n"
  shows "live_sum f (L(p := None)) = live_sum f L - f n"
proof -
  have "L = (L(p := None))(p \<mapsto> n)" using assms(2) by auto
  then have "live_sum f L = live_sum f (L(p := None)) + f n"
    using live_sum_insert [of "L(p := None)" p f n] assms(1) by simp
  then show ?thesis by simp
qed

lemma footprint_upd: "footprint (L(p \<mapsto> n)) \<subseteq> footprint L \<union> region p n"
  by (auto simp: footprint_def split: if_splits)

lemma footprint_delete: "footprint (L(p := None)) \<subseteq> footprint L"
  by (auto simp: footprint_def split: if_splits)

lemma region_in_footprint: "L p = Some n \<Longrightarrow> region p n \<subseteq> footprint L"
  by (auto simp: footprint_def)

lemma metrics_ok_zero [simp]: "metrics_ok Map.empty zero_metrics"
  by (simp add: metrics_ok_def zero_metrics_def)

section \<open>The contract\<close>

locale value_alloc =
  fixes allocate :: "nat \<Rightarrow> 'a \<Rightarrow> heap \<Rightarrow> ((exn + ptr option) \<times> 'a \<times> heap) option"
    and deallocate :: "ptr option \<Rightarrow> nat \<Rightarrow> 'a \<Rightarrow> heap \<Rightarrow> ('a \<times> heap) option"
    and destroy :: "'a \<Rightarrow> heap \<Rightarrow> heap option"
    and metrics :: "'a \<Rightarrow> value_allocator_metrics"
    and invar :: "outstanding \<Rightarrow> 'a \<Rightarrow> heap \<Rightarrow> bool"
  assumes allocate_zero: "allocate 0 a h = Some (Inr None, a, h)"
    and deallocate_null: "deallocate None 0 a h = Some (a, h)"
    and allocate_defined:
      "invar L a h \<Longrightarrow> 0 < n \<Longrightarrow> \<exists>r a' h'. allocate n a h = Some (r, a', h')"
    and allocate_fails:
      "invar L a h \<Longrightarrow> 0 < n \<Longrightarrow> allocate n a h = Some (Inl e, a', h') \<Longrightarrow>
         e = Bad_alloc \<and> invar L a' h' \<and> agree_on (footprint L) h h'"
    and allocate_succeeds:
      "invar L a h \<Longrightarrow> 0 < n \<Longrightarrow> allocate n a h = Some (Inr r, a', h') \<Longrightarrow>
         \<exists>p. r = Some p \<and> L p = None \<and> invar (L(p \<mapsto> n)) a' h' \<and>
             agree_on (footprint L) h h'"
    and deallocate_live:
      "invar L a h \<Longrightarrow> L p = Some n \<Longrightarrow>
         \<exists>a' h'. deallocate (Some p) n a h = Some (a', h') \<and>
                 invar (L(p := None)) a' h' \<and>
                 agree_on (footprint (L(p := None))) h h'"
    and live_finite: "invar L a h \<Longrightarrow> finite (dom L)"
    and live_bounds: "invar L a h \<Longrightarrow> L p = Some n \<Longrightarrow> 0 < n \<and> in_bounds h p n"
    and live_disjoint:
      "invar L a h \<Longrightarrow> L p = Some m \<Longrightarrow> L q = Some n \<Longrightarrow> p \<noteq> q \<Longrightarrow>
         region p m \<inter> region q n = {}"
    and invar_write:
      "invar L a h \<Longrightarrow> L p = Some n \<Longrightarrow> length cs = n \<Longrightarrow> store_cells p cs h = Some h' \<Longrightarrow>
         invar L a h'"
    and invar_oom:
      "invar L a h \<Longrightarrow> next_block h' = next_block h \<Longrightarrow> blocks h' = blocks h \<Longrightarrow>
         cells h' = cells h \<Longrightarrow> invar L a h'"
    and metrics_exact: "invar L a h \<Longrightarrow> metrics_ok L (metrics a)"
    and destroy_clean:
      "invar Map.empty a h \<Longrightarrow> \<exists>h'. destroy a h = Some h' \<and> blocks h' = (\<lambda>_. None)"
begin

text \<open>A fresh block lies outside everything the client already held.\<close>

lemma fresh_region:
  assumes "invar (L(p \<mapsto> n)) a h" and "L p = None"
  shows "footprint L \<inter> region p n = {}"
proof -
  have "region q m \<inter> region p n = {}" if "L q = Some m" for q m
    using live_disjoint [OF assms(1), of q m p n] that assms(2) by (cases "q = p") auto
  then show ?thesis by (auto simp: footprint_def)
qed

text \<open>
  The pattern of every value the cache stores: allocate, then copy the bytes. The copy is
  defined, reads back exactly, and disturbs no other value.
\<close>

lemma allocate_copy:
  assumes inv: "invar L a h" and ne: "bs \<noteq> []"
    and al: "allocate (length bs) a h = Some (Inr q, a', h')"
  shows "\<exists>p h''. q = Some p \<and> L p = None \<and> memcpy_to p bs h' = Some h'' \<and>
           invar (L(p \<mapsto> length bs)) a' h'' \<and>
           load_bytes h'' p (length bs) = Some bs \<and> agree_on (footprint L) h h''"
proof -
  from ne have pos: "0 < length bs" by simp
  from allocate_succeeds [OF inv pos al] obtain p where
    p: "q = Some p" "L p = None" and inv': "invar (L(p \<mapsto> length bs)) a' h'"
    and frame: "agree_on (footprint L) h h'" by blast
  have "in_bounds h' p (length bs)" using live_bounds [OF inv', of p] by simp
  then obtain h'' where copy: "memcpy_to p bs h' = Some h''" using memcpy_defined by blast
  then have store: "store_cells p (map Byte bs) h' = Some h''" by (simp add: memcpy_to_def)
  have "invar (L(p \<mapsto> length bs)) a' h''"
    by (rule invar_write [OF inv' _ _ store]) auto
  moreover have "agree_on (footprint L) h' h''"
    by (rule store_cells_frame [OF store]) (use fresh_region [OF inv' p(2)] in simp)
  ultimately show ?thesis
    using p copy load_store_bytes [OF copy] agree_on_trans [OF frame] by blast
qed

text \<open>The bytes of a block that is still held survive what happens to the others.\<close>

lemma load_frame:
  assumes "invar L a h" and "L p = Some n" and "agree_on (footprint L) h h'"
  shows "load_bytes h' p n = load_bytes h p n"
proof (rule load_bytes_agree)
  show "agree_on (region p n) h h'"
    using assms(3) by (rule agree_on_mono) (rule region_in_footprint, rule assms(2))
  show "0 < n" using live_bounds [OF assms(1,2)] by simp
qed

text \<open>
  As long as the bytes held fit the address space, the assertions on \<^verbatim>\<open>used_bytes\<close> in the
  deallocation paths hold: the counter is at least the size being returned.
\<close>

lemma used_bytes_covers:
  assumes inv: "invar L a h" and p: "L p = Some n"
    and fits: "(\<Sum>q \<in> dom L. the (L q)) < 2 ^ 64"
  shows "n \<le> unat (used_bytes (metrics a))"
proof -
  have fin: "finite (dom L)" using live_finite [OF inv] .
  have "used_bytes (metrics a) = live_sum of_nat L"
    using metrics_exact [OF inv] by (simp add: metrics_ok_def)
  also have "\<dots> = of_nat (\<Sum>q \<in> dom L. the (L q))" by (simp add: live_sum_def)
  finally have "unat (used_bytes (metrics a)) = (\<Sum>q \<in> dom L. the (L q))"
    using fits by (simp only: unat_of_nat_u64)
  moreover have "the (L p) \<le> (\<Sum>q \<in> dom L. the (L q))"
    using fin p by (intro member_le_sum) auto
  ultimately show ?thesis using p by simp
qed

end

section \<open>The system allocator meets the contract\<close>

text \<open>Every block on the heap is one that the client holds.\<close>

definition system_inv :: "outstanding \<Rightarrow> system_allocator \<Rightarrow> heap \<Rightarrow> bool" where
  "system_inv L a h \<longleftrightarrow>
     heap_wf h \<and> finite (dom L) \<and>
     (\<forall>p n. L p = Some n \<longrightarrow> off p = 0 \<and> 0 < n \<and> blocks h (blk p) = Some n) \<and>
     (\<forall>b. blocks h b \<noteq> None \<longrightarrow> L (Ptr b 0) \<noteq> None) \<and>
     metrics_ok L (sys_metrics a)"

lemma system_inv_below:
  assumes "system_inv L a h"
  shows "\<forall>(b, i) \<in> footprint L. b < next_block h"
proof -
  have "blk p < next_block h" if "L p = Some n" for p n
  proof (rule ccontr)
    assume "\<not> blk p < next_block h"
    with assms have "blocks h (blk p) = None" by (auto simp: system_inv_def heap_wf_def)
    moreover have "blocks h (blk p) = Some n" using assms that by (auto simp: system_inv_def)
    ultimately show False by simp
  qed
  then show ?thesis by (auto simp: footprint_def region_def)
qed

lemma metrics_ok_insert:
  assumes "metrics_ok L m" and "finite (dom L)" and "L p = None"
    and "used_bytes m' = used_bytes m + of_nat n"
    and "allocated_bytes m' = used_bytes m' + free_bytes m' + internal_fragmentation m'"
    and "allocation_count m' = allocation_count m + 1"
    and "deallocation_count m' = deallocation_count m"
  shows "metrics_ok (L(p \<mapsto> n)) m'"
proof -
  have "p \<notin> dom L" using assms(3) by auto
  then show ?thesis
    using assms live_sum_insert [OF assms(2,3), of of_nat n] by (simp add: metrics_ok_def)
qed

lemma metrics_ok_delete:
  assumes "metrics_ok L m" and fin: "finite (dom L)" and "L p = Some n"
    and "used_bytes m' = used_bytes m - of_nat n"
    and "allocated_bytes m' = used_bytes m' + free_bytes m' + internal_fragmentation m'"
    and "allocation_count m' = allocation_count m"
    and "deallocation_count m' = deallocation_count m + 1"
  shows "metrics_ok (L(p := None)) m'"
proof -
  have "dom (L(p := None)) = dom L - {p}" by auto
  moreover have "card (dom L) = Suc (card (dom L - {p}))"
    using fin assms(3) by (intro card.remove) auto
  ultimately show ?thesis
    using assms live_sum_delete [OF fin assms(3), of of_nat] by (simp add: metrics_ok_def)
qed

lemma system_allocate_result:
  assumes inv: "system_inv L a h" and n: "0 < n"
    and al: "system_allocate n a h = Some (r, a', h')"
  shows "agree_on (footprint L) h h'"
    and "r = Inl e \<Longrightarrow> e = Bad_alloc \<and> system_inv L a' h'"
    and "r = Inr q \<Longrightarrow> \<exists>p. q = Some p \<and> L p = None \<and> system_inv (L(p \<mapsto> n)) a' h'"
proof -
  obtain r1 h1 where new: "operator_new n h = (r1, h1)" by (cases "operator_new n h")
  from al n new have h1: "h' = h1"
    by (auto simp: system_allocate_def Let_def split: sum.splits)
  show "agree_on (footprint L) h h'"
    unfolding h1 using new system_inv_below [OF inv] by (rule operator_new_frame)
  from new have "(r = Inl e \<longrightarrow> e = Bad_alloc \<and> system_inv L a' h') \<and>
      (r = Inr q \<longrightarrow> (\<exists>p. q = Some p \<and> L p = None \<and> system_inv (L(p \<mapsto> n)) a' h'))"
  proof (cases rule: operator_new_cases)
    case fail
    then show ?thesis
      using al n new inv h1 by (auto simp: system_allocate_def system_inv_def heap_wf_def)
  next
    case ok
    have unused: "blocks h (next_block h) = None"
      using inv by (simp add: system_inv_def heap_wf_def)
    have fresh: "L (Ptr (next_block h) 0) = None"
      using inv unused unfolding system_inv_def
      by (metis not_None_eq ptr.sel(1))
    from al n new ok(1) have r: "r = Inr (Some (Ptr (next_block h) 0))"
      and a': "sys_metrics a' = (sys_metrics a)\<lparr>allocated_bytes := allocated_bytes (sys_metrics a) + of_nat n,
                used_bytes := used_bytes (sys_metrics a) + of_nat n,
                allocation_count := allocation_count (sys_metrics a) + 1\<rparr>"
      by (auto simp: system_allocate_def Let_def)
    have "metrics_ok (L((Ptr (next_block h) 0) \<mapsto> n)) (sys_metrics a')"
      using inv fresh unfolding a'
      by (intro metrics_ok_insert [where m = "sys_metrics a"])
         (auto simp: system_inv_def metrics_ok_def)
    moreover have "blocks h (blk p) = Some m \<Longrightarrow> blk p \<noteq> next_block h" for p m
      using inv by (auto simp: system_inv_def heap_wf_def)
    ultimately have "system_inv (L((Ptr (next_block h) 0) \<mapsto> n)) a' h'"
      using inv ok(2-) n h1 by (auto simp: system_inv_def heap_wf_def)
    with r fresh show ?thesis by auto
  qed
  then show "r = Inl e \<Longrightarrow> e = Bad_alloc \<and> system_inv L a' h'"
    and "r = Inr q \<Longrightarrow> \<exists>p. q = Some p \<and> L p = None \<and> system_inv (L(p \<mapsto> n)) a' h'"
    by auto
qed

lemma system_deallocate_result:
  assumes inv: "system_inv L a h" and p: "L p = Some n"
  shows "\<exists>a' h'. system_deallocate (Some p) n a h = Some (a', h') \<and>
           system_inv (L(p := None)) a' h' \<and> agree_on (footprint (L(p := None))) h h'"
proof -
  from inv p have live: "off p = 0" "0 < n" "blocks h (blk p) = Some n"
    by (auto simp: system_inv_def)
  have other: "blk q \<noteq> blk p" if "L q = Some m" "q \<noteq> p" for q m
    using inv that live by (auto simp: system_inv_def ptr.expand)
  let ?h = "h\<lparr>blocks := (blocks h)(blk p := None)\<rparr>"
  have del: "operator_delete p h = Some ?h" using live by (simp add: operator_delete_def)
  have "agree_on (footprint (L(p := None))) h ?h"
    by (rule operator_delete_frame [OF del])
       (use other in \<open>auto simp: footprint_def region_def split: if_splits\<close>)
  moreover define m where "m = (sys_metrics a)\<lparr>
      allocated_bytes := allocated_bytes (sys_metrics a) - of_nat n,
      used_bytes := used_bytes (sys_metrics a) - of_nat n,
      deallocation_count := deallocation_count (sys_metrics a) + 1\<rparr>"
  have "system_deallocate (Some p) n a h = Some (a\<lparr>sys_metrics := m\<rparr>, ?h)"
    using live del by (simp add: system_deallocate_def Let_def m_def)
  moreover have "metrics_ok (L(p := None)) m"
    using inv p unfolding m_def
    by (intro metrics_ok_delete [where m = "sys_metrics a" and n = n])
       (auto simp: system_inv_def metrics_ok_def)
  then have "system_inv (L(p := None)) (a\<lparr>sys_metrics := m\<rparr>) ?h"
    using inv other live by (auto simp: system_inv_def heap_wf_def)
  ultimately show ?thesis by blast
qed

interpretation sys_alloc: value_alloc system_allocate system_deallocate system_destroy sys_metrics system_inv
proof (unfold_locales, goal_cases)
  case (3 L a h n)
  then show ?case
    by (auto simp: system_allocate_def Let_def split: prod.splits sum.splits)
next
  case (4 L a h n e a' h')
  then show ?case using system_allocate_result(1,2) [of L a h n "Inl e" a' h'] by blast
next
  case (5 L a h n q a' h')
  then show ?case
    using system_allocate_result(1,3) [of L a h n "Inr q" a' h'] by blast
next
  case (6 L a h p n)
  then show ?case by (rule system_deallocate_result)
next
  case (8 L a h p n)
  then show ?case by (auto simp: system_inv_def in_bounds_def)
next
  case (9 L a h p m q n)
  then show ?case by (auto simp: system_inv_def region_def ptr.expand)
next
  case (10 L a h p n cs h')
  then show ?case using store_cells_fields [of p cs h h'] by (auto simp: system_inv_def heap_wf_def)
next
  case (11 L a h h')
  then show ?case by (auto simp: system_inv_def heap_wf_def)
qed (auto simp: system_allocate_def system_deallocate_def system_destroy_def system_inv_def)

end
