(* ===== verification/Slab_Allocator.thy ===== *)
theory Slab_Allocator
  imports Value_Allocator
begin

text \<open>
  The slab allocator of \<^verbatim>\<open>src/memory/slab_allocator.cpp\<close>: eight size classes, each with an
  intrusive free list threaded through the free objects of its 1 MiB slabs, and a
  fallback to \<^verbatim>\<open>operator new\<close> for larger values. The free list is a linked structure in the
  modelled free store: \<^verbatim>\<open>deallocate\<close> overwrites the first bytes of the object it takes
  back. The theory shows that the allocator meets the contract of the value allocators:
  no object is handed out twice, no link is read from memory that holds a value, values
  are never disturbed, and the metrics balance.
\<close>

section \<open>Definitions\<close>

definition slab_size :: nat where
  "slab_size = 1024 * 1024"

definition size_classes :: "nat list" where
  "size_classes = [64, 128, 256, 512, 1024, 2048, 4096, 8192]"

definition max_class_size :: nat where
  "max_class_size = last size_classes"

record slab_class =
  object_size :: nat
  free_head :: "ptr option"
  slabs :: "ptr list"

definition new_slab_class :: "nat \<Rightarrow> slab_class" where
  "new_slab_class sz = \<lparr>object_size = sz, free_head = None, slabs = []\<rparr>"

definition class_deallocate :: "ptr \<Rightarrow> slab_class \<Rightarrow> heap \<Rightarrow> (slab_class \<times> heap) option" where
  "class_deallocate pointer sc h =
     (case store_next pointer (free_head sc) h of
        None \<Rightarrow> None
      | Some h' \<Rightarrow> Some (sc\<lparr>free_head := Some pointer\<rparr>, h'))"

text \<open>The loop of \<^verbatim>\<open>add_slab\<close>: every object of the new slab goes onto the free list.\<close>

fun free_objects :: "ptr \<Rightarrow> nat list \<Rightarrow> slab_class \<Rightarrow> heap \<Rightarrow> (slab_class \<times> heap) option" where
  "free_objects data [] sc h = Some (sc, h)"
| "free_objects data (index # rest) sc h =
     (case class_deallocate (Ptr (blk data) (off data + index * object_size sc)) sc h of
        None \<Rightarrow> None
      | Some (sc', h') \<Rightarrow> free_objects data rest sc' h')"

text \<open>
  \<^verbatim>\<open>make_unique<Slab>\<close> allocates the \<^verbatim>\<open>Slab\<close> object and, in its constructor, the backing
  memory; \<^verbatim>\<open>slabs_.push_back\<close> may throw, and then the new slab is destroyed again.
\<close>

definition add_slab :: "slab_class \<Rightarrow> heap \<Rightarrow> ((exn + unit) \<times> slab_class \<times> heap) option" where
  "add_slab sc h =
     (case container_alloc h of
        (Inl e, h1) \<Rightarrow> Some (Inl e, sc, h1)
      | (Inr _, h1) \<Rightarrow>
     (case operator_new slab_size h1 of
        (Inl e, h2) \<Rightarrow> Some (Inl e, sc, h2)
      | (Inr data, h2) \<Rightarrow>
     (case container_alloc h2 of
        (Inl e, h3) \<Rightarrow>
          (case operator_delete data h3 of None \<Rightarrow> None | Some h4 \<Rightarrow> Some (Inl e, sc, h4))
      | (Inr _, h3) \<Rightarrow>
          (case free_objects data [0..<slab_size div object_size sc]
                  (sc\<lparr>slabs := slabs sc @ [data]\<rparr>) h3 of
             None \<Rightarrow> None
           | Some (sc', h4) \<Rightarrow> Some (Inr (), sc', h4)))))"

definition class_allocate :: "slab_class \<Rightarrow> heap \<Rightarrow> ((exn + ptr) \<times> slab_class \<times> heap) option" where
  "class_allocate sc h =
     (case (if free_head sc = None then add_slab sc h else Some (Inr (), sc, h)) of
        None \<Rightarrow> None
      | Some (Inl e, sc', h') \<Rightarrow> Some (Inl e, sc', h')
      | Some (Inr _, sc', h') \<Rightarrow>
          (case free_head sc' of
             None \<Rightarrow> None
           | Some block \<Rightarrow>
               (case load_next h' block of
                  None \<Rightarrow> None
                | Some nxt \<Rightarrow> Some (Inr block, sc'\<lparr>free_head := nxt\<rparr>, h'))))"

record slab_allocator =
  classes :: "slab_class list"
  slab_metrics :: value_allocator_metrics

definition new_slab_allocator :: slab_allocator where
  "new_slab_allocator =
     \<lparr>classes = map new_slab_class size_classes, slab_metrics = zero_metrics\<rparr>"

definition class_index :: "nat \<Rightarrow> nat" where
  "class_index requested =
     (case find (\<lambda>index. requested \<le> size_classes ! index) [0..<length size_classes] of
        Some index \<Rightarrow> index
      | None \<Rightarrow> length size_classes - 1)"

definition allocation_size :: "nat \<Rightarrow> nat" where
  "allocation_size requested =
     (if requested = 0 \<or> requested > max_class_size then requested
      else size_classes ! class_index requested)"

definition slab_allocate ::
    "nat \<Rightarrow> slab_allocator \<Rightarrow> heap \<Rightarrow> ((exn + ptr option) \<times> slab_allocator \<times> heap) option" where
  "slab_allocate sz a h =
     (let m = slab_metrics a in
      if sz = 0 then Some (Inr None, a, h)
      else if sz > max_class_size then
        (case operator_new sz h of
           (Inl e, h') \<Rightarrow> Some (Inl e, a, h')
         | (Inr pointer, h') \<Rightarrow>
             Some (Inr (Some pointer),
                   a\<lparr>slab_metrics := m\<lparr>allocated_bytes := allocated_bytes m + of_nat sz,
                                       used_bytes := used_bytes m + of_nat sz,
                                       allocation_count := allocation_count m + 1\<rparr>\<rparr>, h'))
      else
        (let index = class_index sz;
             class_size = size_classes ! index;
             slabs_before = length (slabs (classes a ! index))
         in case class_allocate (classes a ! index) h of
              None \<Rightarrow> None
            | Some (Inl e, sc, h') \<Rightarrow> Some (Inl e, a\<lparr>classes := (classes a)[index := sc]\<rparr>, h')
            | Some (Inr pointer, sc, h') \<Rightarrow>
                (let m1 = (if length (slabs sc) \<noteq> slabs_before
                           then m\<lparr>allocated_bytes := allocated_bytes m + of_nat slab_size,
                                  free_bytes := free_bytes m + of_nat slab_size,
                                  slab_count := slab_count m + 1\<rparr>
                           else m);
                     m2 = m1\<lparr>used_bytes := used_bytes m1 + of_nat sz,
                             free_bytes := free_bytes m1 - of_nat class_size,
                             internal_fragmentation :=
                               internal_fragmentation m1 + (of_nat class_size - of_nat sz),
                             allocation_count := allocation_count m1 + 1\<rparr>
                 in Some (Inr (Some pointer),
                          a\<lparr>classes := (classes a)[index := sc], slab_metrics := m2\<rparr>, h'))))"

definition slab_deallocate ::
    "ptr option \<Rightarrow> nat \<Rightarrow> slab_allocator \<Rightarrow> heap \<Rightarrow> (slab_allocator \<times> heap) option" where
  "slab_deallocate pointer sz a h =
     (let m = slab_metrics a in
      case pointer of
        None \<Rightarrow> (if sz = 0 then Some (a, h) else None)
      | Some p \<Rightarrow>
          if sz = 0 then None
          else if sz > max_class_size then
            (case operator_delete p h of
               None \<Rightarrow> None
             | Some h' \<Rightarrow>
                 Some (a\<lparr>slab_metrics := m\<lparr>allocated_bytes := allocated_bytes m - of_nat sz,
                                            used_bytes := used_bytes m - of_nat sz,
                                            deallocation_count := deallocation_count m + 1\<rparr>\<rparr>, h'))
          else
            (let index = class_index sz;
                 class_size = size_classes ! index;
                 fragmentation = of_nat class_size - of_nat sz
             in case class_deallocate p (classes a ! index) h of
                  None \<Rightarrow> None
                | Some (sc, h') \<Rightarrow>
                    Some (a\<lparr>classes := (classes a)[index := sc],
                            slab_metrics :=
                              m\<lparr>used_bytes := used_bytes m - of_nat sz,
                                free_bytes := free_bytes m + of_nat class_size,
                                internal_fragmentation := internal_fragmentation m - fragmentation,
                                deallocation_count := deallocation_count m + 1\<rparr>\<rparr>, h')))"

text \<open>
  The destructor: the members \<^verbatim>\<open>classes_\<close>, from the last to the first, give back their slabs. What
  large values have got is theirs to give back before.
\<close>

fun delete_slabs :: "ptr list \<Rightarrow> heap \<Rightarrow> heap option" where
  "delete_slabs [] h = Some h"
| "delete_slabs (data # rest) h =
     (case operator_delete data h of None \<Rightarrow> None | Some h' \<Rightarrow> delete_slabs rest h')"

fun destroy_classes :: "slab_class list \<Rightarrow> heap \<Rightarrow> heap option" where
  "destroy_classes [] h = Some h"
| "destroy_classes (sc # rest) h =
     (case delete_slabs (slabs sc) h of None \<Rightarrow> None | Some h' \<Rightarrow> destroy_classes rest h')"

definition slab_destroy :: "slab_allocator \<Rightarrow> heap \<Rightarrow> heap option" where
  "slab_destroy a h = destroy_classes (rev (classes a)) h"

section \<open>Size classes\<close>

lemma length_size_classes [simp]: "length size_classes = 8"
  by (simp add: size_classes_def)

lemma max_class_size_eq: "max_class_size = 8192"
  by (simp add: max_class_size_def size_classes_def)

lemma less_8_cases:
  "(i::nat) < 8 \<longleftrightarrow> i = 0 \<or> i = 1 \<or> i = 2 \<or> i = 3 \<or> i = 4 \<or> i = 5 \<or> i = 6 \<or> i = 7"
  by auto

lemma size_classes_at: "i < 8 \<Longrightarrow> size_classes ! i = 64 * 2 ^ i"
  by (auto simp: less_8_cases size_classes_def)

lemma size_class_shape:
  assumes "i < 8"
  shows "8 \<le> size_classes ! i" and "size_classes ! i mod 8 = 0"
    and "size_classes ! i dvd slab_size" and "0 < slab_size div size_classes ! i"
  using assms
  by (auto simp: less_8_cases size_classes_def slab_size_def intro: dvdI)

text \<open>The loop of \<^verbatim>\<open>class_index\<close> finds the smallest class that holds the request.\<close>

lemma class_index_spec:
  assumes "n \<le> max_class_size"
  shows "class_index n < 8" and "n \<le> size_classes ! class_index n"
    and "j < class_index n \<Longrightarrow> size_classes ! j < n"
proof -
  let ?P = "\<lambda>i. n \<le> size_classes ! i"
  have "?P 7" using assms by (simp add: max_class_size_def size_classes_def)
  then obtain i where i: "find ?P [0..<8] = Some i"
    by (cases "find ?P [0..<8]") (auto simp: find_None_iff)
  then have ci: "class_index n = i" by (simp add: class_index_def)
  from i have "i < 8 \<and> ?P i \<and> (\<forall>j < i. \<not> ?P j)"
    by (auto simp: find_Some_iff)
  then show "class_index n < 8" and "n \<le> size_classes ! class_index n"
    and "j < class_index n \<Longrightarrow> size_classes ! j < n"
    using ci by auto
qed

section \<open>The free list of one class\<close>

fun free_chain :: "heap \<Rightarrow> ptr option \<Rightarrow> ptr list \<Rightarrow> bool" where
  "free_chain h head [] \<longleftrightarrow> head = None"
| "free_chain h head (p # ps) \<longleftrightarrow>
     head = Some p \<and> (\<exists>nxt. load_next h p = Some nxt \<and> free_chain h nxt ps)"

text \<open>All objects of the slabs of a class, in use or free.\<close>

definition objects :: "slab_class \<Rightarrow> ptr set" where
  "objects sc = {Ptr (blk d) (i * object_size sc) | d i.
                   d \<in> set (slabs sc) \<and> i < slab_size div object_size sc}"

abbreviation class_blocks :: "slab_class \<Rightarrow> nat set" where
  "class_blocks sc \<equiv> blk ` set (slabs sc)"

text \<open>
  The invariant of a class, for the set \<open>U\<close> of its objects that are in use: the free list
  is a well-formed chain without repetition, and it holds exactly the other objects.
\<close>

definition class_inv :: "ptr set \<Rightarrow> slab_class \<Rightarrow> heap \<Rightarrow> bool" where
  "class_inv U sc h \<longleftrightarrow>
     object_size sc \<in> set size_classes \<and>
     (\<forall>d \<in> set (slabs sc). off d = 0 \<and> blocks h (blk d) = Some slab_size) \<and>
     (\<exists>ps. free_chain h (free_head sc) ps \<and> distinct ps \<and>
           set ps \<inter> U = {} \<and> set ps \<union> U = objects sc)"

lemma object_size_shape:
  assumes "object_size sc \<in> set size_classes"
  shows "8 \<le> object_size sc" and "object_size sc mod 8 = 0"
    and "object_size sc dvd slab_size" and "0 < slab_size div object_size sc"
proof -
  from assms obtain i where "i < 8" and "object_size sc = size_classes ! i"
    by (metis in_set_conv_nth length_size_classes)
  then show "8 \<le> object_size sc" and "object_size sc mod 8 = 0"
    and "object_size sc dvd slab_size" and "0 < slab_size div object_size sc"
    using size_class_shape by simp_all
qed

lemma class_invI:
  assumes "object_size sc \<in> set size_classes"
    and "\<And>d. d \<in> set (slabs sc) \<Longrightarrow> off d = 0 \<and> blocks h (blk d) = Some slab_size"
    and "free_chain h (free_head sc) ps" and "distinct ps"
    and "set ps \<inter> U = {}" and "set ps \<union> U = objects sc"
  shows "class_inv U sc h"
  unfolding class_inv_def using assms by blast

lemma class_invE:
  assumes "class_inv U sc h"
  obtains ps where "free_chain h (free_head sc) ps" "distinct ps" "set ps \<inter> U = {}"
    "set ps \<union> U = objects sc" "object_size sc \<in> set size_classes"
    "\<And>d. d \<in> set (slabs sc) \<Longrightarrow> off d = 0 \<and> blocks h (blk d) = Some slab_size"
  using assms unfolding class_inv_def by blast

lemma object_fits:
  assumes "object_size sc \<in> set size_classes" and "i < slab_size div object_size sc"
  shows "i * object_size sc + object_size sc \<le> slab_size"
proof -
  have "Suc i * object_size sc \<le> (slab_size div object_size sc) * object_size sc"
    using assms(2) by (intro mult_le_mono1) simp
  also have "\<dots> = slab_size" using object_size_shape(3) [OF assms(1)] by simp
  finally show ?thesis by simp
qed

lemma objects_disjoint:
  assumes "p \<in> objects sc" and "q \<in> objects sc" and "p \<noteq> q"
  shows "region p (object_size sc) \<inter> region q (object_size sc) = {}"
proof -
  let ?s = "object_size sc"
  obtain i where p: "off p = i * ?s" using assms(1) unfolding objects_def by fastforce
  obtain j where q: "off q = j * ?s" using assms(2) unfolding objects_def by fastforce
  show ?thesis
  proof (cases "blk p = blk q")
    case True
    with assms(3) p q have "i \<noteq> j" by (metis ptr.expand)
    then have "Suc i * ?s \<le> j * ?s \<or> Suc j * ?s \<le> i * ?s"
      by (metis Suc_leI linorder_neqE_nat mult_le_mono1)
    with p q show ?thesis by (auto simp: region_def)
  next
    case False
    then show ?thesis by (auto simp: region_def)
  qed
qed

lemma object_bounds:
  assumes "class_inv U sc h" and "p \<in> objects sc"
  shows "in_bounds h p (object_size sc)" and "off p mod 8 = 0" and "blk p \<in> class_blocks sc"
proof -
  from assms(1) have sz: "object_size sc \<in> set size_classes" by (simp add: class_inv_def)
  from assms(2) obtain d i where d: "d \<in> set (slabs sc)" "p = Ptr (blk d) (i * object_size sc)"
    and i: "i < slab_size div object_size sc" by (auto simp: objects_def)
  from assms(1) d have "blocks h (blk p) = Some slab_size" by (auto simp: class_inv_def)
  with d object_fits [OF sz i] show "in_bounds h p (object_size sc)"
    by (simp add: in_bounds_def)
  show "off p mod 8 = 0"
    using d object_size_shape(2) [OF sz] by (metis mod_mult_right_eq mult_0_right ptr.sel(2) mod_0)
  show "blk p \<in> class_blocks sc" using d by auto
qed

lemma free_chain_agree [heap_frame]:
  assumes "free_chain h head ps" and "agree_on (\<Union>p \<in> set ps. region p 8) h h'"
  shows "free_chain h' head ps"
  using assms
proof (induction ps arbitrary: head)
  case (Cons p ps)
  from Cons.prems(1) obtain nxt where nxt: "head = Some p" "load_next h p = Some nxt"
    "free_chain h nxt ps" by auto
  have "load_next h' p = load_next h p"
    using Cons.prems(2) by (intro load_next_agree) (auto intro: agree_on_mono)
  moreover have "free_chain h' nxt ps"
    using Cons.IH [OF nxt(3)] Cons.prems(2) by (auto intro: agree_on_mono)
  ultimately show ?case using nxt by simp
qed simp

text \<open>A class depends on nothing but its own blocks.\<close>

lemma class_inv_agree [heap_frame]:
  assumes inv: "class_inv U sc h" and agree: "agree_on (class_blocks sc \<times> UNIV) h h'"
  shows "class_inv U sc h'"
proof -
  from inv obtain ps where ps: "free_chain h (free_head sc) ps" "distinct ps"
    "set ps \<inter> U = {}" "set ps \<union> U = objects sc"
    by (auto simp: class_inv_def)
  have "(\<Union>p \<in> set ps. region p 8) \<subseteq> class_blocks sc \<times> UNIV"
  proof -
    have "blk p \<in> class_blocks sc" if "p \<in> set ps" for p
      using object_bounds(3) [OF inv] ps(4) that by blast
    then show ?thesis by (auto simp: region_def)
  qed
  then have "free_chain h' (free_head sc) ps"
    using free_chain_agree [OF ps(1)] agree_on_mono [OF agree] by blast
  moreover have "blocks h' (blk d) = blocks h (blk d)" if "d \<in> set (slabs sc)" for d
    using agree that by (auto simp: agree_on_def)
  ultimately show ?thesis
    using inv ps(2-4) by (intro class_invI [where ps = ps]) (auto simp: class_inv_def)
qed

text \<open>A client may overwrite an object it holds.\<close>

lemma class_inv_write:
  assumes inv: "class_inv U sc h" and p: "p \<in> U" and n: "length cs \<le> object_size sc"
    and store: "store_cells p cs h = Some h'"
  shows "class_inv U sc h'"
proof -
  from inv obtain ps where ps: "free_chain h (free_head sc) ps" "distinct ps"
    "set ps \<inter> U = {}" "set ps \<union> U = objects sc" and sz: "object_size sc \<in> set size_classes"
    by (auto simp: class_inv_def)
  have "region q 8 \<inter> region p (length cs) = {}" if "q \<in> set ps" for q
  proof -
    have "q \<in> objects sc" "p \<in> objects sc" "q \<noteq> p" using ps p that by auto
    then have "region q (object_size sc) \<inter> region p (object_size sc) = {}"
      by (rule objects_disjoint)
    then show ?thesis
      using region_mono [OF object_size_shape(1) [OF sz]] region_mono [OF n] by blast
  qed
  then have "agree_on (\<Union>q \<in> set ps. region q 8) h h'"
    by (intro store_cells_frame [OF store]) auto
  then have "free_chain h' (free_head sc) ps" by (rule free_chain_agree [OF ps(1)])
  then show ?thesis
    using inv ps(2-4) store_cells_fields(2) [OF store]
    by (intro class_invI [where ps = ps]) (auto simp: class_inv_def)
qed

section \<open>Taking an object back\<close>

lemma class_deallocate_inv:
  assumes inv: "class_inv U sc h" and p: "p \<in> U"
  shows "\<exists>sc' h'. class_deallocate p sc h = Some (sc', h') \<and> class_inv (U - {p}) sc' h' \<and>
           object_size sc' = object_size sc \<and> slabs sc' = slabs sc \<and>
           next_block h' = next_block h \<and> blocks h' = blocks h \<and>
           (\<forall>A. A \<inter> region p (object_size sc) = {} \<longrightarrow> agree_on A h h')"
proof -
  from inv obtain ps where ps: "free_chain h (free_head sc) ps" "distinct ps"
    "set ps \<inter> U = {}" "set ps \<union> U = objects sc" and sz: "object_size sc \<in> set size_classes"
    by (auto simp: class_inv_def)
  have po: "p \<in> objects sc" using ps p by auto
  have bound: "in_bounds h p 8"
    using in_bounds_mono [OF object_bounds(1) [OF inv po] object_size_shape(1) [OF sz]] .
  obtain h' where st: "store_next p (free_head sc) h = Some h'"
    using store_next_defined [OF bound object_bounds(2) [OF inv po]] by blast
  have "region q 8 \<inter> region p 8 = {}" if "q \<in> set ps" for q
  proof -
    have "q \<in> objects sc" "q \<noteq> p" using ps p that by auto
    from objects_disjoint [OF this(1) po this(2)] show ?thesis
      using region_mono [OF object_size_shape(1) [OF sz]] by blast
  qed
  then have "agree_on (\<Union>q \<in> set ps. region q 8) h h'"
    by (intro store_next_frame [OF st]) auto
  then have chain: "free_chain h' (Some p) (p # ps)"
    using free_chain_agree [OF ps(1)] load_store_next [OF st] by auto
  have frame: "agree_on A h h'" if "A \<inter> region p (object_size sc) = {}" for A
    using that region_mono [OF object_size_shape(1) [OF sz], of p]
    by (intro store_next_frame [OF st]) blast
  let ?sc = "sc\<lparr>free_head := Some p\<rparr>"
  have "objects ?sc = objects sc" by (simp add: objects_def)
  then have "distinct (p # ps)" "set (p # ps) \<inter> (U - {p}) = {}"
    "set (p # ps) \<union> (U - {p}) = objects ?sc"
    using ps p by auto
  then have "class_inv (U - {p}) ?sc h'"
    using chain store_next_fields(2) [OF st] inv sz
    by (intro class_invI [where ps = "p # ps"]) (simp_all add: class_inv_def)
  moreover have "class_deallocate p sc h = Some (?sc, h')"
    using st by (simp add: class_deallocate_def)
  ultimately show ?thesis using frame store_next_fields [OF st] by auto
qed

section \<open>Adding a slab\<close>

lemma multiples_apart:
  assumes "(i::nat) \<noteq> j" and "m \<le> s"
  shows "region (Ptr b (i * s)) m \<inter> region (Ptr b (j * s)) m = {}"
proof -
  have "Suc i * s \<le> j * s \<or> Suc j * s \<le> i * s"
    using assms(1) by (metis Suc_leI linorder_neqE_nat mult_le_mono1)
  then show ?thesis using assms(2) by (auto simp: region_def)
qed

lemma free_objects_chain:
  assumes "free_chain h (free_head sc) ps" and "object_size sc \<in> set size_classes"
    and "off data = 0" and "blocks h (blk data) = Some slab_size"
    and "\<forall>i \<in> set is. i < slab_size div object_size sc" and "distinct is"
    and "\<forall>q \<in> set ps. blk q = blk data \<longrightarrow> (\<exists>j. off q = j * object_size sc \<and> j \<notin> set is)"
  shows "\<exists>sc' h'. free_objects data is sc h = Some (sc', h') \<and>
           free_chain h' (free_head sc')
             (rev (map (\<lambda>i. Ptr (blk data) (i * object_size sc)) is) @ ps) \<and>
           object_size sc' = object_size sc \<and> slabs sc' = slabs sc \<and>
           next_block h' = next_block h \<and> blocks h' = blocks h \<and>
           agree_on {(b, i). b \<noteq> blk data} h h'"
  using assms
proof (induction "is" arbitrary: sc h ps)
  case Nil
  then show ?case by simp
next
  case (Cons i rest)
  let ?s = "object_size sc" and ?p = "Ptr (blk data) (i * object_size sc)"
  have s: "8 \<le> ?s" "?s mod 8 = 0" using object_size_shape Cons.prems(2) by auto
  have i: "i < slab_size div ?s" using Cons.prems(5) by simp
  have "i * ?s + ?s \<le> slab_size" using object_fits [OF Cons.prems(2) i] .
  then have "in_bounds h ?p 8" using Cons.prems(4) s(1) by (simp add: in_bounds_def)
  moreover have "off ?p mod 8 = 0" using s(2) by (metis mod_mult_right_eq mult_0_right ptr.sel(2) mod_0)
  ultimately obtain h1 where st: "store_next ?p (free_head sc) h = Some h1"
    by (meson store_next_defined)
  let ?sc = "sc\<lparr>free_head := Some ?p\<rparr>"
  have "region q 8 \<inter> region ?p 8 = {}" if q: "q \<in> set ps" for q
  proof (cases "blk q = blk data")
    case True
    with Cons.prems(7) q obtain j where j: "off q = j * ?s" "j \<noteq> i" by auto
    then have "q = Ptr (blk data) (j * ?s)" using True by (metis ptr.collapse)
    then show ?thesis using multiples_apart [OF j(2) s(1)] by simp
  next
    case False
    then show ?thesis by (auto simp: region_def)
  qed
  then have "agree_on (\<Union>q \<in> set ps. region q 8) h h1"
    by (intro store_next_frame [OF st]) auto
  then have chain: "free_chain h1 (Some ?p) (?p # ps)"
    using free_chain_agree [OF Cons.prems(1)] load_store_next [OF st] by auto
  have bl: "blocks h1 = blocks h" "next_block h1 = next_block h"
    using store_next_fields [OF st] by auto
  have keep: "agree_on {(b, i). b \<noteq> blk data} h h1"
    by (rule store_next_frame [OF st]) (auto simp: region_def)
  have "\<exists>sc' h'. free_objects data rest ?sc h1 = Some (sc', h') \<and>
      free_chain h' (free_head sc')
        (rev (map (\<lambda>i. Ptr (blk data) (i * object_size ?sc)) rest) @ ?p # ps) \<and>
      object_size sc' = object_size ?sc \<and> slabs sc' = slabs ?sc \<and>
      next_block h' = next_block h1 \<and> blocks h' = blocks h1 \<and>
      agree_on {(b, i). b \<noteq> blk data} h1 h'"
  proof (rule Cons.IH)
    show "free_chain h1 (free_head ?sc) (?p # ps)" using chain by simp
    show "\<forall>q \<in> set (?p # ps). blk q = blk data \<longrightarrow>
        (\<exists>j. off q = j * object_size ?sc \<and> j \<notin> set rest)"
      using Cons.prems(6,7) by auto
  qed (use Cons.prems bl in auto)
  then show ?case
    using st bl agree_on_trans [OF keep]
    by (auto simp: class_deallocate_def Cons.prems(3))
qed

text \<open>
  Adding a slab either fails and leaves the class as it was, or makes every object of one
  fresh block available. Blocks that existed before are untouched.
\<close>

lemma fresh_slab_inv:
  assumes inv: "class_inv U sc h" and wf: "heap_wf h" and empty: "free_head sc = None"
    and new: "blocks h1 = (blocks h)(next_block h := Some slab_size)"
    and data: "data = Ptr (next_block h) 0"
  shows "\<exists>sc' h'. free_objects data [0..<slab_size div object_size sc]
             (sc\<lparr>slabs := slabs sc @ [data]\<rparr>) h1 = Some (sc', h') \<and>
           class_inv U sc' h' \<and> free_head sc' \<noteq> None \<and>
           object_size sc' = object_size sc \<and> slabs sc' = slabs sc @ [data] \<and>
           next_block h' = next_block h1 \<and> blocks h' = blocks h1 \<and>
           agree_on {(b, i). b \<noteq> blk data} h1 h'"
proof -
  let ?is = "[0..<slab_size div object_size sc]" and ?sc = "sc\<lparr>slabs := slabs sc @ [data]\<rparr>"
  let ?ps = "rev (map (\<lambda>i. Ptr (blk data) (i * object_size sc)) ?is)"
  from inv have sz: "object_size sc \<in> set size_classes" by (simp add: class_inv_def)
  have s: "0 < object_size sc" "0 < slab_size div object_size sc"
    using object_size_shape [OF sz] by auto
  have old: "U = objects sc" using inv empty by (elim class_invE) (auto elim: free_chain.elims)
  have "\<exists>sc' h'. free_objects data ?is ?sc h1 = Some (sc', h') \<and>
      free_chain h' (free_head sc')
        (rev (map (\<lambda>i. Ptr (blk data) (i * object_size ?sc)) ?is) @ []) \<and>
      object_size sc' = object_size ?sc \<and> slabs sc' = slabs ?sc \<and>
      next_block h' = next_block h1 \<and> blocks h' = blocks h1 \<and>
      agree_on {(b, i). b \<noteq> blk data} h1 h'"
    by (rule free_objects_chain) (use empty sz new data in auto)
  then obtain sc' h' where run: "free_objects data ?is ?sc h1 = Some (sc', h')"
    and chain: "free_chain h' (free_head sc') ?ps"
    and same: "object_size sc' = object_size sc" "slabs sc' = slabs sc @ [data]"
      "next_block h' = next_block h1" "blocks h' = blocks h1"
    and frame: "agree_on {(b, i). b \<noteq> blk data} h1 h'" by auto
  have sound: "blk d < next_block h" if "d \<in> set (slabs sc)" for d
    using inv wf that by (elim class_invE) (fastforce simp: heap_wf_def not_le [symmetric])
  have objs: "objects sc' = set ?ps \<union> objects sc"
    unfolding objects_def same using s by (auto simp: data) (metis ptr.sel(1))
  have apart: "set ?ps \<inter> objects sc = {}"
    using sound by (fastforce simp: objects_def data)
  have "class_inv U sc' h'"
  proof (rule class_invI)
    show "free_chain h' (free_head sc') ?ps" by (rule chain)
    show "distinct ?ps" using s by (auto simp: distinct_map inj_on_def)
    show "off d = 0 \<and> blocks h' (blk d) = Some slab_size" if "d \<in> set (slabs sc')" for d
      using that inv sound [of d] by (elim class_invE) (auto simp: same new data)
  qed (use sz same objs apart old in auto)
  moreover have "?ps \<noteq> []" using s by simp
  then have "free_head sc' \<noteq> None" using chain by (cases ?ps) auto
  ultimately show ?thesis using run same frame by blast
qed

lemma add_slab_cases:
  assumes inv: "class_inv U sc h" and wf: "heap_wf h" and empty: "free_head sc = None"
  obtains (fail) h' where "add_slab sc h = Some (Inl Bad_alloc, sc, h')" and "heap_wf h'"
      and "next_block h \<le> next_block h'" and "agree_on {(b, i). b < next_block h} h h'" and "blocks h' = blocks h"
    | (ok) sc' h' where "add_slab sc h = Some (Inr (), sc', h')" and "heap_wf h'"
      and "next_block h < next_block h'" and "agree_on {(b, i). b < next_block h} h h'"
      and "class_inv U sc' h'" and "free_head sc' \<noteq> None"
      and "object_size sc' = object_size sc" and "slabs sc' = slabs sc @ [Ptr (next_block h) 0]"
      and "blocks h' = (blocks h)(next_block h := Some slab_size)"
proof (cases "container_alloc h")
  case (Pair r1 h1)
  note f1 = container_alloc_fields [OF Pair]
  show thesis
  proof (cases r1)
    case (Inl e)
    then show thesis
      using fail [of h1] Pair f1 wf by (auto simp: add_slab_def heap_wf_def agree_on_def)
  next
    case r1: (Inr u)
    obtain r2 h2 where new: "operator_new slab_size h1 = (r2, h2)"
      by (cases "operator_new slab_size h1")
    from new show thesis
    proof (cases rule: operator_new_cases)
      case fail2: fail
      then show thesis
        using fail [of h2] Pair r1 new f1 wf by (auto simp: add_slab_def heap_wf_def agree_on_def)
    next
      case ok2: ok
      obtain r3 h3 where p3: "container_alloc h2 = (r3, h3)" by (cases "container_alloc h2")
      note f3 = container_alloc_fields [OF p3]
      show thesis
      proof (cases r3)
        case (Inl e)
        let ?h = "h3\<lparr>blocks := (blocks h3)(next_block h := None)\<rparr>"
        have "add_slab sc h = Some (Inl Bad_alloc, sc, ?h)"
          using Pair r1 new ok2 p3 Inl f1 f3 by (simp add: add_slab_def operator_delete_def)
        moreover have "(blocks h)(next_block h := None) = blocks h"
          using wf by (auto simp: heap_wf_def fun_eq_iff)
        ultimately show thesis
          using fail [of ?h] ok2 f1 f3 wf by (auto simp: heap_wf_def agree_on_def)
      next
        case r3: (Inr u3)
        have "blocks h3 = (blocks h)(next_block h := Some slab_size)" using ok2 f1 f3 by simp
        from fresh_slab_inv [OF inv wf empty this refl] obtain sc' h' where
          run: "free_objects (Ptr (next_block h) 0) [0..<slab_size div object_size sc]
             (sc\<lparr>slabs := slabs sc @ [Ptr (next_block h) 0]\<rparr>) h3 = Some (sc', h')"
          and res: "class_inv U sc' h'" "free_head sc' \<noteq> None"
           "object_size sc' = object_size sc" "slabs sc' = slabs sc @ [Ptr (next_block h) 0]"
           "next_block h' = next_block h3" "blocks h' = blocks h3"
           and frame: "agree_on {(b, i). b \<noteq> next_block h} h3 h'" by auto
        have "add_slab sc h = Some (Inr (), sc', h')"
          using Pair r1 new ok2 p3 r3 f1 run by (simp add: add_slab_def)
        moreover have "agree_on {(b, i). b < next_block h} h h'"
          using frame ok2 f1 f3 by (auto simp: agree_on_def)
        ultimately show thesis
          using ok [of sc' h'] res ok2 f1 f3 wf by (auto simp: heap_wf_def)
      qed
    qed
  qed
qed

section \<open>Handing out an object\<close>

lemma class_pop:
  assumes inv: "class_inv U sc h" and ne: "free_head sc = Some p"
  shows "\<exists>nxt. load_next h p = Some nxt \<and> p \<notin> U \<and> p \<in> objects sc \<and>
           class_inv (insert p U) (sc\<lparr>free_head := nxt\<rparr>) h"
proof -
  from inv obtain ps where ps: "free_chain h (free_head sc) ps" "distinct ps"
    "set ps \<inter> U = {}" "set ps \<union> U = objects sc" "object_size sc \<in> set size_classes"
    "\<And>d. d \<in> set (slabs sc) \<Longrightarrow> off d = 0 \<and> blocks h (blk d) = Some slab_size"
    by (rule class_invE) blast
  from ps(1) ne obtain qs nxt where qs: "ps = p # qs" "load_next h p = Some nxt"
    "free_chain h nxt qs" by (cases ps) auto
  have "class_inv (insert p U) (sc\<lparr>free_head := nxt\<rparr>) h"
    using ps qs by (intro class_invI [where ps = qs]) (auto simp: objects_def)
  then show ?thesis using ps qs by auto
qed

lemma class_allocate_cases:
  assumes inv: "class_inv U sc h" and wf: "heap_wf h"
  obtains (fail) h' where "class_allocate sc h = Some (Inl Bad_alloc, sc, h')"
      and "heap_wf h'" and "next_block h \<le> next_block h'"
      and "agree_on {(b, i). b < next_block h} h h'" and "blocks h' = blocks h"
    | (ok) p sc' h' where "class_allocate sc h = Some (Inr p, sc', h')" and "heap_wf h'"
      and "agree_on {(b, i). b < next_block h} h h'"
      and "class_inv (insert p U) sc' h'" and "p \<notin> U" and "p \<in> objects sc'"
      and "object_size sc' = object_size sc"
      and "slabs sc' = slabs sc \<and> blocks h' = blocks h \<or>
           slabs sc' = slabs sc @ [Ptr (next_block h) 0] \<and> blocks h' = (blocks h)(next_block h := Some slab_size)"
proof (cases "free_head sc")
  case None
  from inv wf None show thesis
  proof (cases rule: add_slab_cases)
    case (fail h')
    then show thesis using that(1) [of h'] None by (simp add: class_allocate_def)
  next
    case (ok sc' h')
    then obtain p where p: "free_head sc' = Some p" by auto
    from class_pop [OF ok(5) p] obtain nxt where nxt: "load_next h' p = Some nxt" "p \<notin> U"
      "p \<in> objects sc'" "class_inv (insert p U) (sc'\<lparr>free_head := nxt\<rparr>) h'" by blast
    have "class_allocate sc h = Some (Inr p, sc'\<lparr>free_head := nxt\<rparr>, h')"
      using None ok(1) p nxt(1) by (simp add: class_allocate_def)
    then show thesis
      using that(2) [of p "sc'\<lparr>free_head := nxt\<rparr>" h'] ok nxt by (simp add: objects_def)
  qed
next
  case (Some p)
  from class_pop [OF inv Some] obtain nxt where nxt: "load_next h p = Some nxt" "p \<notin> U"
    "p \<in> objects sc" "class_inv (insert p U) (sc\<lparr>free_head := nxt\<rparr>) h" by blast
  have "class_allocate sc h = Some (Inr p, sc\<lparr>free_head := nxt\<rparr>, h)"
    using Some nxt(1) by (simp add: class_allocate_def)
  then show thesis
    using that(2) [of p "sc\<lparr>free_head := nxt\<rparr>" h] wf nxt by (simp add: objects_def)
qed

section \<open>The whole allocator\<close>

definition class_live :: "outstanding \<Rightarrow> nat \<Rightarrow> ptr set" where
  "class_live L i = {p. \<exists>n. L p = Some n \<and> n \<le> max_class_size \<and> class_index n = i}"

text \<open>
  The layout of memory: every class is well-formed for the objects of its size that are
  outstanding, no block serves two classes, and a large value has a block of its own.
\<close>

definition slab_layout :: "outstanding \<Rightarrow> slab_class list \<Rightarrow> heap \<Rightarrow> bool" where
  "slab_layout L cs h \<longleftrightarrow>
     heap_wf h \<and> finite (dom L) \<and> length cs = 8 \<and>
     (\<forall>i < 8. object_size (cs ! i) = size_classes ! i \<and> class_inv (class_live L i) (cs ! i) h) \<and>
     (\<forall>i < 8. \<forall>j < 8. i \<noteq> j \<longrightarrow> class_blocks (cs ! i) \<inter> class_blocks (cs ! j) = {}) \<and>
     (\<forall>p n. L p = Some n \<longrightarrow> 0 < n) \<and>
     (\<forall>p n. L p = Some n \<longrightarrow> max_class_size < n \<longrightarrow>
        off p = 0 \<and> blocks h (blk p) = Some n \<and> (\<forall>i < 8. blk p \<notin> class_blocks (cs ! i)))"

definition slab_metrics_ok :: "outstanding \<Rightarrow> slab_class list \<Rightarrow> value_allocator_metrics \<Rightarrow> bool" where
  "slab_metrics_ok L cs m \<longleftrightarrow>
     metrics_ok L m \<and>
     internal_fragmentation m = live_sum (\<lambda>n. of_nat (allocation_size n) - of_nat n) L \<and>
     slab_count m = of_nat (\<Sum>i < 8. length (slabs (cs ! i)))"

text \<open>Every block on the heap is a slab, listed once, or a large value that is held by the client.\<close>

definition slab_owned :: "outstanding \<Rightarrow> slab_class list \<Rightarrow> heap \<Rightarrow> bool" where
  "slab_owned L cs h \<longleftrightarrow>
     (\<forall>i < 8. distinct (slabs (cs ! i))) \<and>
     (\<forall>b. blocks h b \<noteq> None \<longrightarrow>
        (\<exists>i < 8. b \<in> class_blocks (cs ! i)) \<or> (\<exists>n. L (Ptr b 0) = Some n \<and> max_class_size < n))"

definition slab_inv :: "outstanding \<Rightarrow> slab_allocator \<Rightarrow> heap \<Rightarrow> bool" where
  "slab_inv L a h \<longleftrightarrow>
     slab_layout L (classes a) h \<and> slab_owned L (classes a) h \<and> slab_metrics_ok L (classes a) (slab_metrics a)"

lemma slab_layout_class:
  assumes "slab_layout L cs h" and "i < 8"
  shows "object_size (cs ! i) = size_classes ! i" and "class_inv (class_live L i) (cs ! i) h"
  using assms by (auto simp: slab_layout_def)

lemma slab_layout_blocks:
  assumes "slab_layout L cs h" and "i < 8" and "b \<in> class_blocks (cs ! i)"
  shows "b < next_block h"
proof -
  have "class_inv (class_live L i) (cs ! i) h" using slab_layout_class assms(1,2) by blast
  then have "blocks h b = Some slab_size" using assms(3) by (elim class_invE) auto
  moreover have "heap_wf h" using assms(1) by (simp add: slab_layout_def)
  ultimately show ?thesis by (rule heap_wf_live [rotated])
qed

lemma slab_layout_large:
  assumes "slab_layout L cs h" and "L p = Some n" and "max_class_size < n"
  shows "off p = 0" and "blocks h (blk p) = Some n" and "i < 8 \<Longrightarrow> blk p \<notin> class_blocks (cs ! i)"
    and "blk p < next_block h"
proof -
  show "off p = 0" and b: "blocks h (blk p) = Some n"
    and "i < 8 \<Longrightarrow> blk p \<notin> class_blocks (cs ! i)"
    using assms by (auto simp: slab_layout_def)
  show "blk p < next_block h"
    using b assms(1) by (intro heap_wf_live) (simp_all add: slab_layout_def)
qed

lemma slab_layout_small:
  assumes "slab_layout L cs h" and "L p = Some n" and "n \<le> max_class_size"
  shows "p \<in> class_live L (class_index n)" and "p \<in> objects (cs ! class_index n)"
    and "n \<le> object_size (cs ! class_index n)" and "blk p \<in> class_blocks (cs ! class_index n)"
proof -
  let ?i = "class_index n"
  have i: "?i < 8" "n \<le> size_classes ! ?i" using class_index_spec [OF assms(3)] by auto
  have inv: "class_inv (class_live L ?i) (cs ! ?i) h" using slab_layout_class(2) [OF assms(1) i(1)] .
  show live: "p \<in> class_live L ?i" using assms(2,3) by (auto simp: class_live_def)
  then show p: "p \<in> objects (cs ! ?i)" using inv by (elim class_invE) auto
  show "n \<le> object_size (cs ! ?i)" using i(2) slab_layout_class(1) [OF assms(1) i(1)] by simp
  show "blk p \<in> class_blocks (cs ! ?i)" using object_bounds(3) [OF inv p] .
qed

lemma slab_layout_disjoint:
  assumes lay: "slab_layout L cs h" and p: "L p = Some m" and q: "L q = Some n" and ne: "p \<noteq> q"
  shows "region p m \<inter> region q n = {}"
proof (cases "blk p = blk q")
  case False
  then show ?thesis by (auto simp: region_def)
next
  case same: True
  have small: "m \<le> max_class_size \<and> n \<le> max_class_size"
  proof (rule ccontr)
    assume "\<not> ?thesis"
    then consider "max_class_size < m" "max_class_size < n" | "max_class_size < m" "n \<le> max_class_size"
      | "m \<le> max_class_size" "max_class_size < n" by linarith
    then show False
    proof cases
      case 1
      then have "off p = 0" "off q = 0" using slab_layout_large(1) [OF lay] p q by auto
      with same ne show False by (metis ptr.expand)
    next
      case 2
      then show False
        using slab_layout_large(3) [OF lay p] slab_layout_small(4) [OF lay q] same
          class_index_spec(1) by metis
    next
      case 3
      then show False
        using slab_layout_large(3) [OF lay q] slab_layout_small(4) [OF lay p] same
          class_index_spec(1) by metis
    qed
  qed
  let ?i = "class_index m" and ?j = "class_index n"
  have ij: "?i < 8" "?j < 8" using small class_index_spec(1) by auto
  note sp = slab_layout_small [OF lay p] and sq = slab_layout_small [OF lay q]
  have "?i = ?j"
  proof (rule ccontr)
    assume "?i \<noteq> ?j"
    with lay ij have "class_blocks (cs ! ?i) \<inter> class_blocks (cs ! ?j) = {}"
      by (auto simp: slab_layout_def)
    with sp(4) sq(4) small same show False by auto
  qed
  then have "region p (object_size (cs ! ?i)) \<inter> region q (object_size (cs ! ?i)) = {}"
    using objects_disjoint [OF _ _ ne] sp(2) sq(2) small by auto
  then show ?thesis
    using region_mono [of m "object_size (cs ! ?i)" p] region_mono [of n "object_size (cs ! ?i)" q]
      sp(3) sq(3) small \<open>?i = ?j\<close> by auto
qed

lemma slab_layout_bounds:
  assumes lay: "slab_layout L cs h" and p: "L p = Some n"
  shows "0 < n \<and> in_bounds h p n"
proof (cases "n \<le> max_class_size")
  case True
  note small = slab_layout_small [OF lay p True]
  have "in_bounds h p (object_size (cs ! class_index n))"
    using object_bounds(1) [OF slab_layout_class(2) [OF lay] small(2)] class_index_spec(1) [OF True]
    by blast
  with small(3) show ?thesis using lay p by (auto simp: slab_layout_def intro: in_bounds_mono)
next
  case False
  then have "max_class_size < n" by simp
  with slab_layout_large [OF lay p] lay p show ?thesis
    by (auto simp: slab_layout_def in_bounds_def)
qed

text \<open>
  The step every operation on a class shares: one class is replaced, the blocks of the
  others and the large values are left alone.
\<close>

lemma slab_layout_update:
  assumes lay: "slab_layout L cs h" and i: "i < 8"
    and sz: "object_size sc = object_size (cs ! i)" and inv: "class_inv (class_live L' i) sc h'"
    and wf: "heap_wf h'" and fin: "finite (dom L')"
    and others: "\<And>j. j < 8 \<Longrightarrow> j \<noteq> i \<Longrightarrow> class_live L' j = class_live L j"
    and fresh: "class_blocks sc \<subseteq> class_blocks (cs ! i) \<union> {b. next_block h \<le> b}"
    and frame: "agree_on {(b, x). b < next_block h \<and> b \<notin> class_blocks (cs ! i)} h h'"
    and pos: "\<And>p n. L' p = Some n \<Longrightarrow> 0 < n"
    and large: "\<And>p n. L' p = Some n \<Longrightarrow> max_class_size < n \<Longrightarrow> L p = Some n"
  shows "slab_layout L' (cs[i := sc]) h'"
proof -
  have len: "length cs = 8" using lay by (simp add: slab_layout_def)
  have sep: "class_blocks (cs ! j) \<inter> class_blocks sc = {}" if j: "j < 8" "j \<noteq> i" for j
  proof -
    have "class_blocks (cs ! j) \<inter> class_blocks (cs ! i) = {}"
      using lay i j by (auto simp: slab_layout_def)
    with fresh slab_layout_blocks [OF lay j(1)] show ?thesis by fastforce
  qed
  have cls: "class_inv (class_live L' j) (cs ! j) h'" if j: "j < 8" "j \<noteq> i" for j
  proof (rule class_inv_agree)
    show "class_inv (class_live L' j) (cs ! j) h"
      using slab_layout_class(2) [OF lay j(1)] others [OF j] by simp
    have "class_blocks (cs ! j) \<inter> class_blocks (cs ! i) = {}"
      using lay i j by (auto simp: slab_layout_def)
    then show "agree_on (class_blocks (cs ! j) \<times> UNIV) h h'"
      using slab_layout_blocks [OF lay j(1)] by (intro agree_on_mono [OF frame]) auto
  qed
  have big: "off p = 0 \<and> blocks h' (blk p) = Some n \<and>
      (\<forall>j < 8. blk p \<notin> class_blocks (cs[i := sc] ! j))"
    if p: "L' p = Some n" "max_class_size < n" for p n
  proof -
    note pl = slab_layout_large [OF lay large [OF p] p(2)]
    have "blocks h' (blk p) = blocks h (blk p)"
      using frame pl(3) [OF i] pl(4) by (auto simp: agree_on_def)
    moreover have "blk p \<notin> class_blocks sc" using fresh pl(3) [OF i] pl(4) by fastforce
    ultimately show ?thesis using pl(1-3) len i by (auto simp: nth_list_update)
  qed
  have cl: "object_size (cs[i := sc] ! j) = size_classes ! j \<and>
      class_inv (class_live L' j) (cs[i := sc] ! j) h'" if "j < 8" for j
    using that i inv cls [of j] sz slab_layout_class(1) [OF lay] len by (cases "j = i") auto
  have se: "class_blocks (cs[i := sc] ! j) \<inter> class_blocks (cs[i := sc] ! k) = {}"
    if "j < 8" "k < 8" "j \<noteq> k" for j k
  proof -
    have "class_blocks (cs ! j) \<inter> class_blocks (cs ! k) = {}"
      using lay that by (auto simp: slab_layout_def)
    then show ?thesis using that i len sep [of j] sep [of k] by (auto simp: nth_list_update)
  qed
  show ?thesis
    unfolding slab_layout_def using wf fin len cl se pos big by simp
qed

lemma class_live_insert:
  assumes "L p = None"
  shows "class_live (L(p \<mapsto> n)) j =
     (if n \<le> max_class_size \<and> class_index n = j then insert p (class_live L j) else class_live L j)"
  using assms by (auto simp: class_live_def)

lemma class_live_delete:
  assumes "L p = Some n"
  shows "class_live (L(p := None)) j =
     (if n \<le> max_class_size \<and> class_index n = j then class_live L j - {p} else class_live L j)"
  using assms by (auto simp: class_live_def)

lemma slab_footprint_below:
  assumes lay: "slab_layout L cs h"
  shows "footprint L \<subseteq> {(b, i). b < next_block h}"
proof -
  have "heap_wf h" using lay by (simp add: slab_layout_def)
  moreover have "blocks h (blk p) \<noteq> None" if "L p = Some n" for p n
    using slab_layout_bounds [OF lay that] by (auto simp: in_bounds_def split: option.splits)
  ultimately have "blk p < next_block h" if "L p = Some n" for p n
    using heap_wf_live that by blast
  then show ?thesis by (auto simp: footprint_def region_def)
qed

subsection \<open>Small values\<close>

lemma slab_pop_fresh:
  assumes lay: "slab_layout L cs h" and i: "i < 8" and p: "p \<in> objects sc" and nu: "p \<notin> class_live L i"
    and fresh: "class_blocks sc \<subseteq> class_blocks (cs ! i) \<union> {b. next_block h \<le> b}"
  shows "L p = None"
proof (rule ccontr)
  assume "L p \<noteq> None"
  then obtain m where m: "L p = Some m" by blast
  have "blk p < next_block h"
    using slab_footprint_below [OF lay] region_in_footprint [of L p m] m base_in_region [of m p]
      slab_layout_bounds [OF lay m] by fastforce
  moreover have "blk p \<in> class_blocks sc" using p by (auto simp: objects_def)
  ultimately have bi: "blk p \<in> class_blocks (cs ! i)" using fresh by fastforce
  show False
  proof (cases "m \<le> max_class_size")
    case True
    note small = slab_layout_small [OF lay m True]
    have "class_index m = i"
    proof (rule ccontr)
      assume "class_index m \<noteq> i"
      with lay i class_index_spec(1) [OF True]
      have "class_blocks (cs ! class_index m) \<inter> class_blocks (cs ! i) = {}"
        by (auto simp: slab_layout_def)
      with small(4) bi show False by auto
    qed
    with small(1) nu show False by simp
  next
    case False
    then show False using slab_layout_large(3) [OF lay m _ i] bi by simp
  qed
qed

lemma slab_small_allocate:
  assumes lay: "slab_layout L cs h" and n: "0 < n" "n \<le> max_class_size"
  obtains (fail) h' where "class_allocate (cs ! class_index n) h
        = Some (Inl Bad_alloc, cs ! class_index n, h')"
      and "slab_layout L cs h'" and "agree_on (footprint L) h h'" and "blocks h' = blocks h"
    | (ok) p sc h' where "class_allocate (cs ! class_index n) h = Some (Inr p, sc, h')"
      and "L p = None" and "slab_layout (L(p \<mapsto> n)) (cs[class_index n := sc]) h'"
      and "agree_on (footprint L) h h'"
      and "slabs sc = slabs (cs ! class_index n) \<and> blocks h' = blocks h \<or>
           slabs sc = slabs (cs ! class_index n) @ [Ptr (next_block h) 0] \<and>
             blocks h' = (blocks h)(next_block h := Some slab_size)"
proof -
  let ?i = "class_index n" let ?U = "class_live L ?i"
  have i: "?i < 8" using class_index_spec(1) [OF n(2)] .
  have inv: "class_inv ?U (cs ! ?i) h" using slab_layout_class(2) [OF lay i] .
  have wf: "heap_wf h" and fin: "finite (dom L)" and pos: "\<And>p n. L p = Some n \<Longrightarrow> 0 < n"
    using lay by (auto simp: slab_layout_def)
  from inv wf show thesis
  proof (cases rule: class_allocate_cases)
    case (fail h')
    have "class_inv ?U (cs ! ?i) h'"
      using slab_layout_blocks [OF lay i]
      by (intro class_inv_agree [OF inv] agree_on_mono [OF fail(4)]) auto
    then have "slab_layout L (cs[?i := cs ! ?i]) h'"
      using fail by (intro slab_layout_update [OF lay i])
        (auto intro: agree_on_mono fin pos)
    then show thesis
      using that(1) [of h'] fail(1,5) agree_on_mono [OF fail(4) slab_footprint_below [OF lay]] by simp
  next
    case (ok p sc h')
    have fresh: "class_blocks sc \<subseteq> class_blocks (cs ! ?i) \<union> {b. next_block h \<le> b}"
      using ok(8) by auto
    have pn: "L p = None" using slab_pop_fresh [OF lay i ok(6,5) fresh] .
    have "slab_layout (L(p \<mapsto> n)) (cs[?i := sc]) h'"
    proof (rule slab_layout_update [OF lay i])
      show "class_inv (class_live (L(p \<mapsto> n)) ?i) sc h'"
        using ok(4) n(2) pn by (simp add: class_live_insert)
      show "agree_on {(b, x). b < next_block h \<and> b \<notin> class_blocks (cs ! ?i)} h h'"
        using ok(3) by (rule agree_on_mono) auto
    qed (use ok fresh fin n pos pn in \<open>auto simp: class_live_insert split: if_splits\<close>)
    then show thesis
      using that(2) [OF ok(1) pn _ _ ok(8)]
        agree_on_mono [OF ok(3) slab_footprint_below [OF lay]] by simp
  qed
qed

lemma slab_small_deallocate:
  assumes lay: "slab_layout L cs h" and p: "L p = Some n" and n: "n \<le> max_class_size"
  obtains sc h' where "class_deallocate p (cs ! class_index n) h = Some (sc, h')"
    and "slab_layout (L(p := None)) (cs[class_index n := sc]) h'"
    and "agree_on (footprint (L(p := None))) h h'"
    and "slabs sc = slabs (cs ! class_index n)" and "blocks h' = blocks h"
proof -
  let ?i = "class_index n" let ?U = "class_live L ?i"
  have i: "?i < 8" using class_index_spec(1) [OF n] .
  have inv: "class_inv ?U (cs ! ?i) h" using slab_layout_class(2) [OF lay i] .
  note small = slab_layout_small [OF lay p n]
  from class_deallocate_inv [OF inv small(1)] obtain sc h' where
    run: "class_deallocate p (cs ! ?i) h = Some (sc, h')" and inv': "class_inv (?U - {p}) sc h'"
    and same: "object_size sc = object_size (cs ! ?i)" "slabs sc = slabs (cs ! ?i)"
      "next_block h' = next_block h" "blocks h' = blocks h"
    and frame: "\<And>A. A \<inter> region p (object_size (cs ! ?i)) = {} \<Longrightarrow> agree_on A h h'"
    by blast
  have "slab_layout (L(p := None)) (cs[?i := sc]) h'"
  proof (rule slab_layout_update [OF lay i same(1)])
    show "class_inv (class_live (L(p := None)) ?i) sc h'"
      using inv' p n by (simp add: class_live_delete)
    show "agree_on {(b, x). b < next_block h \<and> b \<notin> class_blocks (cs ! ?i)} h h'"
      using small(4) by (intro frame) (auto simp: region_def)
    show "heap_wf h'" using lay same by (auto simp: slab_layout_def heap_wf_def)
  qed (use lay p same in \<open>auto simp: class_live_delete slab_layout_def split: if_splits\<close>)
  moreover have "agree_on (footprint (L(p := None))) h h'"
  proof (rule frame)
    have "region q m \<inter> region p (object_size (cs ! ?i)) = {}" if q: "L q = Some m" "q \<noteq> p" for q m
    proof (cases "m \<le> max_class_size \<and> class_index m = ?i")
      case True
      then have "q \<in> objects (cs ! ?i)" "m \<le> object_size (cs ! ?i)"
        using slab_layout_small(2,3) [OF lay q(1)] by auto
      then show ?thesis
        using objects_disjoint [OF _ small(2) q(2)] region_mono [of m "object_size (cs ! ?i)" q]
        by blast
    next
      case False
      have "blk q \<noteq> blk p"
      proof (cases "m \<le> max_class_size")
        case True
        then have "class_index m \<noteq> ?i" "class_index m < 8"
          using False class_index_spec(1) by auto
        then have "class_blocks (cs ! class_index m) \<inter> class_blocks (cs ! ?i) = {}"
          using lay i by (auto simp: slab_layout_def)
        then show ?thesis using slab_layout_small(4) [OF lay q(1) True] small(4) by (metis disjoint_iff)
      next
        case False
        then show ?thesis using slab_layout_large(3) [OF lay q(1) _ i] small(4) by auto
      qed
      then show ?thesis by (auto simp: region_def)
    qed
    then show "footprint (L(p := None)) \<inter> region p (object_size (cs ! ?i)) = {}"
      by (auto simp: footprint_def split: if_splits)
  qed
  ultimately show thesis using that run same(2,4) by blast
qed

subsection \<open>Large values\<close>

lemma slab_layout_agree:
  assumes lay: "slab_layout L cs h" and wf: "heap_wf h'"
    and frame: "agree_on {(b, i). b < next_block h} h h'"
  shows "slab_layout L cs h'"
proof -
  have fin: "finite (dom L)" and pos: "\<And>p n. L p = Some n \<Longrightarrow> 0 < n"
    using lay by (auto simp: slab_layout_def)
  have "slab_layout L (cs[0 := cs ! 0]) h'"
  proof (rule slab_layout_update [OF lay])
    show "class_inv (class_live L 0) (cs ! 0) h'"
      using slab_layout_blocks [OF lay, of 0]
      by (intro class_inv_agree [OF slab_layout_class(2) [OF lay]] agree_on_mono [OF frame]) auto
    show "agree_on {(b, x). b < next_block h \<and> b \<notin> class_blocks (cs ! 0)} h h'"
      using frame by (rule agree_on_mono) auto
  qed (use fin pos wf in auto)
  then show ?thesis by simp
qed

lemma slab_large_allocate:
  assumes lay: "slab_layout L cs h" and n: "max_class_size < n"
    and new: "operator_new n h = (r, h')"
  obtains (fail) "r = Inl Bad_alloc" and "slab_layout L cs h'" and "agree_on (footprint L) h h'"
      and "blocks h' = blocks h"
    | (ok) p where "r = Inr p" and "L p = None" and "slab_layout (L(p \<mapsto> n)) cs h'"
      and "agree_on (footprint L) h h'" and "p = Ptr (next_block h) 0"
      and "blocks h' = (blocks h)(next_block h := Some n)"
proof -
  have wf: "heap_wf h" using lay by (simp add: slab_layout_def)
  have frame: "agree_on {(b, i). b < next_block h} h h'"
    using operator_new_frame [OF new] by auto
  then have foot: "agree_on (footprint L) h h'"
    using slab_footprint_below [OF lay] by (rule agree_on_mono)
  from new show thesis
  proof (cases rule: operator_new_cases)
    case fail
    then have "heap_wf h'" using wf by (simp add: heap_wf_def)
    then show thesis using that(1) fail(1,3) slab_layout_agree [OF lay _ frame] foot by blast
  next
    case ok
    let ?p = "Ptr (next_block h) 0"
    have wf': "heap_wf h'" using wf ok by (auto simp: heap_wf_def)
    then have lay': "slab_layout L cs h'" using slab_layout_agree [OF lay _ frame] by blast
    have fresh: "L ?p = None"
    proof (rule ccontr)
      assume "L ?p \<noteq> None"
      then obtain m where "L ?p = Some m" by blast
      then have "in_bounds h ?p m" using slab_layout_bounds [OF lay] by blast
      then show False using wf by (simp add: in_bounds_def heap_wf_def)
    qed
    have "next_block h \<notin> class_blocks (cs ! i)" if "i < 8" for i
      using slab_layout_blocks [OF lay that] by blast
    then have "slab_layout (L(?p \<mapsto> n)) cs h'"
      using lay' fresh n ok(3) unfolding slab_layout_def by (simp add: class_live_insert)
    then show thesis using that(2) ok(1,3) fresh foot by blast
  qed
qed

lemma slab_large_deallocate:
  assumes lay: "slab_layout L cs h" and p: "L p = Some n" and n: "max_class_size < n"
  obtains h' where "operator_delete p h = Some h'" and "slab_layout (L(p := None)) cs h'"
    and "agree_on (footprint (L(p := None))) h h'" and "blocks h' = (blocks h)(blk p := None)"
proof -
  note large = slab_layout_large [OF lay p n]
  define h' where "h' = h\<lparr>blocks := (blocks h)(blk p := None)\<rparr>"
  have del: "operator_delete p h = Some h'" using large by (simp add: operator_delete_def h'_def)
  have frame: "agree_on A h h'" if "\<forall>(b, i) \<in> A. b \<noteq> blk p" for A
    using operator_delete_frame [OF del that] .
  have len: "length cs = 8" using lay by (simp add: slab_layout_def)
  have other: "blk q \<noteq> blk p" if "L q = Some m" "q \<noteq> p" for q m
  proof (cases "m \<le> max_class_size")
    case True
    then show ?thesis
      using slab_layout_small(4) [OF lay that(1) True] large(3) class_index_spec(1) by metis
  next
    case False
    then have "off q = 0" using slab_layout_large(1) [OF lay that(1)] by simp
    with large(1) that(2) show ?thesis by (metis ptr.expand)
  qed
  have "class_inv (class_live (L(p := None)) i) (cs ! i) h'" if "i < 8" for i
  proof -
    have "class_inv (class_live L i) (cs ! i) h'"
      using large(3) [OF that]
      by (intro class_inv_agree [OF slab_layout_class(2) [OF lay that]] frame)
         (metis (mono_tags, lifting) case_prodI2 mem_Sigma_iff)
    then show ?thesis using p n by (simp add: class_live_delete)
  qed
  moreover have "heap_wf h'" using lay by (auto simp: slab_layout_def heap_wf_def h'_def)
  moreover have "off q = 0 \<and> blocks h' (blk q) = Some m \<and> (\<forall>i < 8. blk q \<notin> class_blocks (cs ! i))"
    if q: "(L(p := None)) q = Some m" "max_class_size < m" for q m
  proof -
    from q(1) have "L q = Some m" "q \<noteq> p" by (auto split: if_splits)
    with slab_layout_large [OF lay _ q(2)] other show ?thesis by (auto simp: h'_def)
  qed
  moreover have "(L(p := None)) q = Some m \<Longrightarrow> 0 < m" for q m
    using slab_layout_bounds [OF lay, of q m] by (auto split: if_splits)
  ultimately have "slab_layout (L(p := None)) cs h'"
    using lay unfolding slab_layout_def by simp
  moreover have "agree_on (footprint (L(p := None))) h h'"
    using other by (intro frame) (auto simp: footprint_def region_def split: if_splits)
  moreover have "blocks h' = (blocks h)(blk p := None)" by (simp add: h'_def)
  ultimately show thesis using that del by blast
qed

subsection \<open>Ownership\<close>

lemma slab_owned_same: "slab_owned L cs h \<Longrightarrow> blocks h' = blocks h \<Longrightarrow> slab_owned L cs h'"
  by (simp add: slab_owned_def)

lemma slab_owned_class:
  assumes own: "slab_owned L cs h" and lay: "slab_layout L cs h" and i: "i < 8"
    and grown: "slabs sc = slabs (cs ! i) \<and> blocks h' = blocks h \<or>
      slabs sc = slabs (cs ! i) @ [Ptr (next_block h) 0] \<and> blocks h' = (blocks h)(next_block h := Some slab_size)"
    and large: "\<And>q m. L q = Some m \<Longrightarrow> max_class_size < m \<Longrightarrow> L' q = Some m"
  shows "slab_owned L' (cs[i := sc]) h'"
proof -
  have len: "length cs = 8" using lay by (simp add: slab_layout_def)
  have "Ptr (next_block h) 0 \<notin> set (slabs (cs ! i))" using slab_layout_blocks [OF lay i] by force
  then have "distinct (slabs (cs[i := sc] ! j))" if "j < 8" for j
    using that own grown len by (cases "j = i") (auto simp: slab_owned_def)
  moreover have "(\<exists>j < 8. b \<in> class_blocks (cs[i := sc] ! j)) \<or> (\<exists>n. L' (Ptr b 0) = Some n \<and> max_class_size < n)"
    if b: "blocks h' b \<noteq> None" for b
  proof (cases "b \<in> class_blocks sc")
    case True
    then show ?thesis using i len by (intro disjI1 exI [of _ i]) simp
  next
    case False
    then have "blocks h b \<noteq> None" "b \<notin> class_blocks (cs ! i)" using b grown by (auto split: if_splits)
    then show ?thesis using own large len unfolding slab_owned_def by (metis nth_list_update_neq)
  qed
  ultimately show ?thesis by (simp add: slab_owned_def)
qed

lemma slab_owned_new:
  assumes "slab_owned L cs h" and "max_class_size < n" and "blocks h' = (blocks h)(b := Some n)"
  shows "slab_owned (L(Ptr b 0 \<mapsto> n)) cs h'"
  using assms by (auto simp: slab_owned_def)

lemma slab_owned_delete:
  assumes "slab_owned L cs h" and "off p = 0" and "blocks h' = (blocks h)(blk p := None)"
  shows "slab_owned (L(p := None)) cs h'"
  using assms by (auto simp: slab_owned_def ptr.expand)

lemma delete_slabs_ok:
  assumes "distinct ds" and "\<forall>d \<in> set ds. off d = 0 \<and> blocks h (blk d) \<noteq> None"
  shows "\<exists>h'. delete_slabs ds h = Some h' \<and> blocks h' = (\<lambda>b. if b \<in> blk ` set ds then None else blocks h b)"
  using assms
proof (induction ds arbitrary: h)
  case (Cons d ds)
  let ?h = "h\<lparr>blocks := (blocks h)(blk d := None)\<rparr>"
  have "operator_delete d h = Some ?h" using Cons.prems(2) by (simp add: operator_delete_def)
  moreover have "\<forall>e \<in> set ds. off e = 0 \<and> blocks ?h (blk e) \<noteq> None"
  proof
    fix e assume e: "e \<in> set ds"
    then have "e \<noteq> d" using Cons.prems(1) by auto
    then have "blk e \<noteq> blk d" using e Cons.prems(2) by (auto simp: ptr.expand)
    then show "off e = 0 \<and> blocks ?h (blk e) \<noteq> None" using e Cons.prems(2) by simp
  qed
  ultimately show ?case using Cons.IH [of ?h] Cons.prems(1) by (auto simp: fun_eq_iff)
qed simp

lemma destroy_classes_ok:
  assumes "sorted_wrt (\<lambda>a b. class_blocks a \<inter> class_blocks b = {}) cs"
    and "\<forall>sc \<in> set cs. distinct (slabs sc) \<and> (\<forall>d \<in> set (slabs sc). off d = 0 \<and> blocks h (blk d) \<noteq> None)"
  shows "\<exists>h'. destroy_classes cs h = Some h' \<and>
           blocks h' = (\<lambda>b. if \<exists>sc \<in> set cs. b \<in> class_blocks sc then None else blocks h b)"
  using assms
proof (induction cs arbitrary: h)
  case (Cons sc cs)
  from delete_slabs_ok [of "slabs sc" h] Cons.prems(2) obtain h1 where
    h1: "delete_slabs (slabs sc) h = Some h1" "blocks h1 = (\<lambda>b. if b \<in> class_blocks sc then None else blocks h b)" by auto
  have "off d = 0 \<and> blocks h1 (blk d) \<noteq> None" if "c \<in> set cs" "d \<in> set (slabs c)" for c d
    using that Cons.prems h1(2) by fastforce
  with Cons.IH [of h1] Cons.prems obtain h2 where
    "destroy_classes cs h1 = Some h2" "blocks h2 = (\<lambda>b. if \<exists>sc \<in> set cs. b \<in> class_blocks sc then None else blocks h1 b)"
    by auto
  with h1 show ?case by (auto simp: fun_eq_iff)
qed simp

lemma slab_destroy_clean:
  assumes lay: "slab_layout Map.empty (classes a) h" and own: "slab_owned Map.empty (classes a) h"
  shows "\<exists>h'. slab_destroy a h = Some h' \<and> blocks h' = (\<lambda>_. None)"
proof -
  let ?cs = "classes a"
  have len: "length ?cs = 8" using lay by (simp add: slab_layout_def)
  have "sorted_wrt (\<lambda>a b. class_blocks b \<inter> class_blocks a = {}) ?cs"
    using lay len by (auto simp: sorted_wrt_iff_nth_less slab_layout_def)
  then have "sorted_wrt (\<lambda>a b. class_blocks a \<inter> class_blocks b = {}) (rev ?cs)" by (simp add: sorted_wrt_rev)
  moreover have "distinct (slabs sc) \<and> (\<forall>d \<in> set (slabs sc). off d = 0 \<and> blocks h (blk d) \<noteq> None)"
    if "sc \<in> set (rev ?cs)" for sc
  proof -
    from that obtain i where "i < 8" "sc = ?cs ! i" using len by (metis in_set_conv_nth set_rev)
    with slab_layout_class(2) [OF lay this(1)] own show ?thesis by (auto simp: slab_owned_def elim!: class_invE)
  qed
  ultimately obtain h' where "destroy_classes (rev ?cs) h = Some h'"
    "blocks h' = (\<lambda>b. if \<exists>sc \<in> set (rev ?cs). b \<in> class_blocks sc then None else blocks h b)"
    using destroy_classes_ok [of "rev ?cs" h] by blast
  moreover have "\<exists>sc \<in> set ?cs. b \<in> class_blocks sc" if "blocks h b \<noteq> None" for b
    using own that len unfolding slab_owned_def by (metis nth_mem option.distinct(1))
  ultimately show ?thesis by (fastforce simp: slab_destroy_def fun_eq_iff)
qed

subsection \<open>Metrics\<close>

lemma sum_slabs_update:
  assumes "i < 8" and "length cs = 8"
  shows "(\<Sum>j < 8. length (slabs (cs[i := sc] ! j))) + length (slabs (cs ! i))
       = (\<Sum>j < 8. length (slabs (cs ! j))) + length (slabs sc)"
proof -
  have "(\<Sum>j < 8. length (slabs (cs[i := sc] ! j)))
      = length (slabs sc) + (\<Sum>j \<in> {..<8} - {i}. length (slabs (cs[i := sc] ! j)))"
    using assms by (subst sum.remove [of _ i]) auto
  also have "(\<Sum>j \<in> {..<8} - {i}. length (slabs (cs[i := sc] ! j)))
      = (\<Sum>j \<in> {..<8} - {i}. length (slabs (cs ! j)))"
    by (intro sum.cong) auto
  finally show ?thesis
    using assms by (subst (2) sum.remove [of _ i]) auto
qed

lemma allocation_size_small:
  "0 < n \<Longrightarrow> n \<le> max_class_size \<Longrightarrow> allocation_size n = size_classes ! class_index n"
  by (simp add: allocation_size_def)

lemma allocation_size_large: "max_class_size < n \<Longrightarrow> allocation_size n = n"
  by (simp add: allocation_size_def)

lemma slab_metrics_insert:
  assumes m: "slab_metrics_ok L cs m" and fin: "finite (dom L)" and p: "L p = None"
    and "used_bytes m' = used_bytes m + of_nat n"
    and "allocated_bytes m' - free_bytes m' =
           allocated_bytes m - free_bytes m + of_nat (allocation_size n)"
    and "internal_fragmentation m' =
           internal_fragmentation m + (of_nat (allocation_size n) - of_nat n)"
    and "allocation_count m' = allocation_count m + 1"
    and "deallocation_count m' = deallocation_count m"
    and "slab_count m' = of_nat (\<Sum>i < 8. length (slabs (cs' ! i)))"
  shows "slab_metrics_ok (L(p \<mapsto> n)) cs' m'"
proof -
  from m have "allocated_bytes m - free_bytes m = used_bytes m + internal_fragmentation m"
    by (simp add: slab_metrics_ok_def metrics_ok_def)
  with assms(4-6) have "allocated_bytes m' - free_bytes m' = used_bytes m' + internal_fragmentation m'"
    by simp
  then have "allocated_bytes m' = used_bytes m' + free_bytes m' + internal_fragmentation m'"
    by (simp add: algebra_simps)
  then have "metrics_ok (L(p \<mapsto> n)) m'"
    using assms by (intro metrics_ok_insert [where m = m]) (auto simp: slab_metrics_ok_def)
  then show ?thesis
    using assms live_sum_insert [OF fin p] by (simp add: slab_metrics_ok_def)
qed

lemma slab_metrics_delete:
  assumes m: "slab_metrics_ok L cs m" and fin: "finite (dom L)" and p: "L p = Some n"
    and "used_bytes m' = used_bytes m - of_nat n"
    and "allocated_bytes m' - free_bytes m' =
           allocated_bytes m - free_bytes m - of_nat (allocation_size n)"
    and "internal_fragmentation m' =
           internal_fragmentation m - (of_nat (allocation_size n) - of_nat n)"
    and "allocation_count m' = allocation_count m"
    and "deallocation_count m' = deallocation_count m + 1"
    and "slab_count m' = of_nat (\<Sum>i < 8. length (slabs (cs' ! i)))"
  shows "slab_metrics_ok (L(p := None)) cs' m'"
proof -
  from m have "allocated_bytes m - free_bytes m = used_bytes m + internal_fragmentation m"
    by (simp add: slab_metrics_ok_def metrics_ok_def)
  with assms(4-6) have "allocated_bytes m' - free_bytes m' = used_bytes m' + internal_fragmentation m'"
    by simp
  then have "allocated_bytes m' = used_bytes m' + free_bytes m' + internal_fragmentation m'"
    by (simp add: algebra_simps)
  then have "metrics_ok (L(p := None)) m'"
    using assms by (intro metrics_ok_delete [where m = m and n = n]) (auto simp: slab_metrics_ok_def)
  then show ?thesis
    using assms live_sum_delete [OF fin p] by (simp add: slab_metrics_ok_def)
qed

section \<open>The slab allocator meets the contract\<close>

lemma slab_inv_new: "slab_inv Map.empty new_slab_allocator (empty_heap outs)"
proof -
  have "object_size (new_slab_class sz) = sz" "slabs (new_slab_class sz) = []"
    "free_head (new_slab_class sz) = None" for sz
    by (simp_all add: new_slab_class_def)
  moreover have "class_inv {} (new_slab_class (size_classes ! i)) (empty_heap outs)" if "i < 8" for i
    using that by (intro class_invI [where ps = "[]"])
      (simp_all add: new_slab_class_def objects_def)
  ultimately show ?thesis
    by (simp add: slab_inv_def slab_layout_def slab_owned_def slab_metrics_ok_def new_slab_allocator_def class_live_def)
       (simp add: zero_metrics_def empty_heap_def)
qed

lemma slab_allocate_result:
  assumes inv: "slab_inv L a h" and n: "0 < n"
  obtains (fail) a' h' where "slab_allocate n a h = Some (Inl Bad_alloc, a', h')"
      and "slab_inv L a' h'" and "agree_on (footprint L) h h'"
    | (ok) p a' h' where "slab_allocate n a h = Some (Inr (Some p), a', h')"
      and "L p = None" and "slab_inv (L(p \<mapsto> n)) a' h'" and "agree_on (footprint L) h h'"
proof -
  let ?cs = "classes a" and ?m = "slab_metrics a" and ?i = "class_index n"
  from inv have lay: "slab_layout L ?cs h" and own: "slab_owned L ?cs h" and met: "slab_metrics_ok L ?cs ?m"
    by (auto simp: slab_inv_def)
  have fin: "finite (dom L)" and len: "length ?cs = 8" using lay by (auto simp: slab_layout_def)
  have cnt: "slab_count ?m = of_nat (\<Sum>i < 8. length (slabs (?cs ! i)))"
    using met by (simp add: slab_metrics_ok_def)
  show thesis
  proof (cases "max_class_size < n")
    case large: True
    obtain r h' where new: "operator_new n h = (r, h')" by (cases "operator_new n h")
    from lay large new show thesis
    proof (cases rule: slab_large_allocate)
      case fail
      then show thesis
        using that(1) [of a h'] new n large met slab_owned_same [OF own] by (simp add: slab_allocate_def slab_inv_def)
    next
      case (ok p)
      let ?a = "a\<lparr>slab_metrics := ?m\<lparr>allocated_bytes := allocated_bytes ?m + of_nat n,
        used_bytes := used_bytes ?m + of_nat n, allocation_count := allocation_count ?m + 1\<rparr>\<rparr>"
      have "slab_metrics_ok (L(p \<mapsto> n)) ?cs (slab_metrics ?a)"
        using cnt by (intro slab_metrics_insert [OF met fin ok(2)])
          (simp_all add: allocation_size_large [OF large])
      then show thesis
        using that(2) [of p ?a h'] ok new n large slab_owned_new [OF own large ok(6)]
        by (simp add: slab_allocate_def slab_inv_def Let_def)
    qed
  next
    case False
    then have small: "n \<le> max_class_size" by simp
    have i: "?i < 8" using class_index_spec(1) [OF small] .
    from lay n small show thesis
    proof (cases rule: slab_small_allocate)
      case (fail h')
      then show thesis
        using that(1) [of a h'] n False met slab_owned_same [OF own]
        by (simp add: slab_allocate_def slab_inv_def Let_def)
    next
      case (ok p sc h')
      let ?grown = "length (slabs sc) \<noteq> length (slabs (?cs ! ?i))"
      define m1 where "m1 = (if ?grown then ?m\<lparr>allocated_bytes := allocated_bytes ?m + of_nat slab_size,
          free_bytes := free_bytes ?m + of_nat slab_size, slab_count := slab_count ?m + 1\<rparr> else ?m)"
      define m2 where "m2 = m1\<lparr>used_bytes := used_bytes m1 + of_nat n,
          free_bytes := free_bytes m1 - of_nat (size_classes ! ?i),
          internal_fragmentation :=
            internal_fragmentation m1 + (of_nat (size_classes ! ?i) - of_nat n),
          allocation_count := allocation_count m1 + 1\<rparr>"
      let ?a = "a\<lparr>classes := ?cs[?i := sc], slab_metrics := m2\<rparr>"
      have run: "slab_allocate n a h = Some (Inr (Some p), ?a, h')"
        using ok(1) n False by (simp add: slab_allocate_def Let_def m1_def m2_def)
      have "(\<Sum>j < 8. length (slabs (?cs[?i := sc] ! j)))
          = (\<Sum>j < 8. length (slabs (?cs ! j))) + (if ?grown then 1 else 0)"
        using sum_slabs_update [OF i len, of sc] ok(5) by auto
      then have "slab_count m2 = of_nat (\<Sum>j < 8. length (slabs (?cs[?i := sc] ! j)))"
        using cnt by (simp add: m2_def m1_def)
      then have "slab_metrics_ok (L(p \<mapsto> n)) (?cs[?i := sc]) m2"
        by (intro slab_metrics_insert [OF met fin ok(2)])
           (simp_all add: allocation_size_small [OF n small] m2_def m1_def)
      moreover have "slab_owned (L(p \<mapsto> n)) (?cs[?i := sc]) h'"
        by (rule slab_owned_class [OF own lay i ok(5)]) (use ok(2) in auto)
      ultimately show thesis using that(2) [OF run ok(2) _ ok(4)] ok(3) by (simp add: slab_inv_def)
    qed
  qed
qed

lemma slab_deallocate_result:
  assumes inv: "slab_inv L a h" and p: "L p = Some n"
  shows "\<exists>a' h'. slab_deallocate (Some p) n a h = Some (a', h') \<and>
           slab_inv (L(p := None)) a' h' \<and> agree_on (footprint (L(p := None))) h h'"
proof -
  let ?cs = "classes a" and ?m = "slab_metrics a" and ?i = "class_index n"
  from inv have lay: "slab_layout L ?cs h" and own: "slab_owned L ?cs h" and met: "slab_metrics_ok L ?cs ?m"
    by (auto simp: slab_inv_def)
  have fin: "finite (dom L)" and len: "length ?cs = 8" and n: "0 < n"
    using lay slab_layout_bounds [OF lay p] by (auto simp: slab_layout_def)
  have cnt: "slab_count ?m = of_nat (\<Sum>i < 8. length (slabs (?cs ! i)))"
    using met by (simp add: slab_metrics_ok_def)
  show ?thesis
  proof (cases "max_class_size < n")
    case large: True
    from lay p large obtain h' where del: "operator_delete p h = Some h'"
      and lay': "slab_layout (L(p := None)) ?cs h'" and frame: "agree_on (footprint (L(p := None))) h h'"
      and gone: "blocks h' = (blocks h)(blk p := None)"
      by (rule slab_large_deallocate)
    note own' = slab_owned_delete [OF own slab_layout_large(1) [OF lay p large] gone]
    define m where "m = ?m\<lparr>allocated_bytes := allocated_bytes ?m - of_nat n,
      used_bytes := used_bytes ?m - of_nat n, deallocation_count := deallocation_count ?m + 1\<rparr>"
    have "slab_metrics_ok (L(p := None)) ?cs m"
      using cnt by (intro slab_metrics_delete [OF met fin p])
        (simp_all add: m_def allocation_size_large [OF large])
    then show ?thesis
      using lay' own' frame del n large by (simp add: slab_deallocate_def slab_inv_def Let_def m_def)
  next
    case False
    then have small: "n \<le> max_class_size" by simp
    have i: "?i < 8" using class_index_spec(1) [OF small] .
    from lay p small obtain sc h' where run: "class_deallocate p (?cs ! ?i) h = Some (sc, h')"
      and lay': "slab_layout (L(p := None)) (?cs[?i := sc]) h'"
      and frame: "agree_on (footprint (L(p := None))) h h'" and sl: "slabs sc = slabs (?cs ! ?i)"
      and same: "blocks h' = blocks h"
      by (rule slab_small_deallocate)
    have own': "slab_owned (L(p := None)) (?cs[?i := sc]) h'"
      by (rule slab_owned_class [OF own lay i]) (use sl same p small in auto)
    define m where "m = ?m\<lparr>used_bytes := used_bytes ?m - of_nat n,
      free_bytes := free_bytes ?m + of_nat (size_classes ! ?i),
      internal_fragmentation :=
        internal_fragmentation ?m - (of_nat (size_classes ! ?i) - of_nat n),
      deallocation_count := deallocation_count ?m + 1\<rparr>"
    have "slab_count m = of_nat (\<Sum>j < 8. length (slabs (?cs[?i := sc] ! j)))"
      using sum_slabs_update [OF i len, of sc] cnt by (simp add: sl m_def)
    then have "slab_metrics_ok (L(p := None)) (?cs[?i := sc]) m"
      by (intro slab_metrics_delete [OF met fin p])
         (simp_all add: m_def allocation_size_small [OF n small])
    then show ?thesis
      using lay' own' frame run n False by (simp add: slab_deallocate_def slab_inv_def Let_def m_def)
  qed
qed

lemma slab_layout_write:
  assumes lay: "slab_layout L cs h" and p: "L p = Some n" and cs: "length xs = n"
    and st: "store_cells p xs h = Some h'"
  shows "slab_layout L cs h'"
proof -
  have same: "next_block h' = next_block h" "blocks h' = blocks h"
    using store_cells_fields [OF st] by auto
  have "class_inv (class_live L i) (cs ! i) h'" if i: "i < 8" for i
  proof (cases "n \<le> max_class_size \<and> class_index n = i")
    case True
    then show ?thesis
      using class_inv_write [OF slab_layout_class(2) [OF lay i] _ _ st] cs
        slab_layout_small [OF lay p] by auto
  next
    case False
    have "blk p \<notin> class_blocks (cs ! i)"
    proof (cases "n \<le> max_class_size")
      case True
      then have "class_index n \<noteq> i" "class_index n < 8" using False class_index_spec(1) by auto
      then have "class_blocks (cs ! class_index n) \<inter> class_blocks (cs ! i) = {}"
        using lay i by (auto simp: slab_layout_def)
      then show ?thesis using slab_layout_small(4) [OF lay p True] by (metis disjoint_iff)
    next
      case False
      then show ?thesis using slab_layout_large(3) [OF lay p _ i] by simp
    qed
    then have "class_blocks (cs ! i) \<times> UNIV \<inter> region p (length xs) = {}"
      unfolding region_def by (metis (no_types, lifting) Int_emptyI SigmaD1 imageE)
    then show ?thesis
      by (intro class_inv_agree [OF slab_layout_class(2) [OF lay i]] store_cells_frame [OF st])
  qed
  then show ?thesis using lay same unfolding slab_layout_def heap_wf_def by simp
qed

lemma slab_layout_cong:
  assumes "slab_layout L cs h" and "next_block h' = next_block h"
    and "blocks h' = blocks h" and "cells h' = cells h"
  shows "slab_layout L cs h'"
  using assms(2-) by (intro slab_layout_agree [OF assms(1)] agree_on_fields)
    (use assms(1) in \<open>auto simp: slab_layout_def heap_wf_def\<close>)

text \<open>
  What giving a block back makes of it: an object of a slab is the next one its class hands
  out, without asking the system for memory; the block of a large value is deleted.
\<close>

lemma slab_deallocate_small_reuse:
  assumes "slab_deallocate (Some p) n a h = Some (a', h')" and "slab_inv L a h"
    and "n \<le> max_class_size" and m: "0 < m" "m \<le> max_class_size" "class_index m = class_index n"
  shows "\<exists>a''. slab_allocate m a' h' = Some (Inr (Some p), a'', h')"
proof -
  let ?i = "class_index n"
  have i: "?i < length (classes a)"
    using class_index_spec(1) [OF assms(3)] assms(2) by (simp add: slab_inv_def slab_layout_def)
  from assms(1,3) obtain sc where run: "class_deallocate p (classes a ! ?i) h = Some (sc, h')"
    and cs: "classes a' = (classes a)[?i := sc]"
    by (auto simp: slab_deallocate_def Let_def split: if_splits option.splits)
  then have "free_head sc = Some p" and "load_next h' p = Some (free_head (classes a ! ?i))"
    by (auto simp: class_deallocate_def split: option.splits dest: load_store_next)
  then have "class_allocate sc h' = Some (Inr p, sc\<lparr>free_head := free_head (classes a ! ?i)\<rparr>, h')"
    by (simp add: class_allocate_def)
  then show ?thesis using m cs i by (simp add: slab_allocate_def Let_def)
qed

lemma slab_deallocate_large_frees:
  assumes "slab_deallocate (Some p) n a h = Some (a', h')" and "max_class_size < n"
  shows "blocks h' = (blocks h)(blk p := None)"
  using assms by (auto simp: slab_deallocate_def operator_delete_def Let_def split: if_splits option.splits)

interpretation slab_alloc: value_alloc slab_allocate slab_deallocate slab_destroy slab_metrics slab_inv
proof (unfold_locales, goal_cases)
  case (3 L a h n)
  then show ?case using slab_allocate_result [of L a h n] by blast
next
  case (4 L a h n e a' h')
  from 4(1,2) show ?case by (cases rule: slab_allocate_result) (use 4(3) in auto)
next
  case (5 L a h n r a' h')
  from 5(1,2) show ?case by (cases rule: slab_allocate_result) (use 5(3) in auto)
next
  case (6 L a h p n)
  then show ?case by (rule slab_deallocate_result)
next
  case (7 L a h)
  then show ?case by (simp add: slab_inv_def slab_layout_def)
next
  case (8 L a h p n)
  then show ?case using slab_layout_bounds by (auto simp: slab_inv_def)
next
  case (9 L a h p m q n)
  then show ?case
    using slab_layout_disjoint [of L "classes a" h p m q n] by (simp add: slab_inv_def)
next
  case (10 L a h p n cs h')
  then show ?case
    using slab_layout_write [of L "classes a" h p n cs h'] slab_owned_same store_cells_fields(2) [of p cs h h']
    by (auto simp: slab_inv_def)
next
  case (11 L a h h')
  then show ?case
    using slab_layout_cong [of L "classes a" h h'] slab_owned_same [of L "classes a" h h'] by (auto simp: slab_inv_def)
next
  case (12 L a h)
  then show ?case by (simp add: slab_inv_def slab_metrics_ok_def)
next
  case (13 a h)
  then show ?case using slab_destroy_clean by (simp add: slab_inv_def)
qed (simp_all add: slab_allocate_def slab_deallocate_def)

end
