(* ===== verification/Allocator_Backend.thy ===== *)
theory Allocator_Backend
  imports Slab_Allocator
begin

text \<open>
  The allocator a shard owns: \<^verbatim>\<open>make_value_allocator\<close> of \<^verbatim>\<open>src/memory/value_allocator.cpp\<close>
  chooses a backend at run time and the virtual calls dispatch on it. The dispatching
  operations meet the contract of the value allocators because each backend does.
\<close>

section \<open>Definitions\<close>

datatype value_allocator = System system_allocator | Slab slab_allocator

definition make_value_allocator :: "allocator_backend \<Rightarrow> value_allocator" where
  "make_value_allocator backend =
     (case backend of
        Backend_system \<Rightarrow> System new_system_allocator
      | Backend_slab \<Rightarrow> Slab new_slab_allocator)"

fun va_allocate ::
    "nat \<Rightarrow> value_allocator \<Rightarrow> heap \<Rightarrow> ((exn + ptr option) \<times> value_allocator \<times> heap) option" where
  "va_allocate sz (System a) h =
     map_option (\<lambda>(r, a', h'). (r, System a', h')) (system_allocate sz a h)"
| "va_allocate sz (Slab a) h =
     map_option (\<lambda>(r, a', h'). (r, Slab a', h')) (slab_allocate sz a h)"

fun va_deallocate ::
    "ptr option \<Rightarrow> nat \<Rightarrow> value_allocator \<Rightarrow> heap \<Rightarrow> (value_allocator \<times> heap) option" where
  "va_deallocate p sz (System a) h =
     map_option (\<lambda>(a', h'). (System a', h')) (system_deallocate p sz a h)"
| "va_deallocate p sz (Slab a) h =
     map_option (\<lambda>(a', h'). (Slab a', h')) (slab_deallocate p sz a h)"

fun va_destroy :: "value_allocator \<Rightarrow> heap \<Rightarrow> heap option" where
  "va_destroy (System a) h = system_destroy a h"
| "va_destroy (Slab a) h = slab_destroy a h"

fun va_metrics :: "value_allocator \<Rightarrow> value_allocator_metrics" where
  "va_metrics (System a) = sys_metrics a"
| "va_metrics (Slab a) = slab_metrics a"

fun va_inv :: "outstanding \<Rightarrow> value_allocator \<Rightarrow> heap \<Rightarrow> bool" where
  "va_inv L (System a) h = system_inv L a h"
| "va_inv L (Slab a) h = slab_inv L a h"

section \<open>The contract\<close>

interpretation va: value_alloc va_allocate va_deallocate va_destroy va_metrics va_inv
proof (unfold_locales, goal_cases)
  case (1 a h)
  then show ?case
    by (cases a) (simp_all add: sys_alloc.allocate_zero slab_alloc.allocate_zero)
next
  case (2 a h)
  then show ?case
    by (cases a) (simp_all add: sys_alloc.deallocate_null slab_alloc.deallocate_null)
next
  case (3 L a h n)
  then show ?case
    by (cases a) (auto dest!: sys_alloc.allocate_defined slab_alloc.allocate_defined)
next
  case (4 L a h n e a' h')
  then show ?case
    by (cases a) (auto dest: sys_alloc.allocate_fails slab_alloc.allocate_fails)
next
  case (5 L a h n r a' h')
  show ?case
  proof (cases a)
    case (System s)
    with 5 obtain s' where "system_allocate n s h = Some (Inr r, s', h')" and "a' = System s'"
      by auto
    then show ?thesis using sys_alloc.allocate_succeeds [of L s h n r s' h'] 5 System by auto
  next
    case (Slab s)
    with 5 obtain s' where "slab_allocate n s h = Some (Inr r, s', h')" and "a' = Slab s'"
      by auto
    then show ?thesis using slab_alloc.allocate_succeeds [of L s h n r s' h'] 5 Slab by auto
  qed
next
  case (6 L a h p n)
  then show ?case
    using sys_alloc.deallocate_live [of L _ h p n] slab_alloc.deallocate_live [of L _ h p n]
    by (cases a) fastforce+
next
  case (7 L a h)
  then show ?case by (cases a) (auto dest: sys_alloc.live_finite slab_alloc.live_finite)
next
  case (8 L a h p n)
  then show ?case by (cases a) (auto dest: sys_alloc.live_bounds slab_alloc.live_bounds)
next
  case (9 L a h p m q n)
  then show ?case
    using sys_alloc.live_disjoint [of L _ h p m q n] slab_alloc.live_disjoint [of L _ h p m q n]
    by (cases a) simp_all
next
  case (10 L a h p n cs h')
  then show ?case
    by (cases a) (auto dest: sys_alloc.invar_write slab_alloc.invar_write)
next
  case (11 L a h h')
  then show ?case by (cases a) (auto dest: sys_alloc.invar_oom slab_alloc.invar_oom)
next
  case (12 L a h)
  then show ?case by (cases a) (auto dest: sys_alloc.metrics_exact slab_alloc.metrics_exact)
next
  case (13 a h)
  then show ?case by (cases a) (auto dest: sys_alloc.destroy_clean slab_alloc.destroy_clean)
qed

lemma empty_heap_blocks [simp]: "blocks (empty_heap outs) b = None"
  by (simp add: empty_heap_def)

lemma va_inv_new: "va_inv Map.empty (make_value_allocator backend) (empty_heap outs)"
  by (cases backend)
     (simp_all add: make_value_allocator_def slab_inv_new system_inv_def new_system_allocator_def)

end
