(* ===== verification/Cache_Entry.thy ===== *)
theory Cache_Entry
  imports Allocator_Backend
begin

text \<open>
  \<^verbatim>\<open>CacheEntry\<close> of \<^verbatim>\<open>include/highcache/cache/cache_entry.h\<close> and \<^verbatim>\<open>src/cache/cache.cpp\<close>: the
  owner of one value in allocator memory. The theory gives its constructor, destructor,
  moves and swap, and the invariant of a population of such objects over one
  allocator: every block the allocator has handed out belongs to exactly one live object,
  and every object can be read. This is what excludes leaks, double frees and reads of
  freed memory for the cache built on top.
\<close>

section \<open>Definitions\<close>

record cache_entry =
  has_allocator :: bool
  entry_data :: "ptr option"
  entry_size :: nat

definition make_entry ::
    "bytes \<Rightarrow> value_allocator \<Rightarrow> heap \<Rightarrow> ((exn + cache_entry) \<times> value_allocator \<times> heap) option" where
  "make_entry value al h =
     (case va_allocate (length value) al h of
        None \<Rightarrow> None
      | Some (Inl e, al', h') \<Rightarrow> Some (Inl e, al', h')
      | Some (Inr data, al', h') \<Rightarrow>
          (let self = \<lparr>has_allocator = True, entry_data = data, entry_size = length value\<rparr>
           in if length value \<noteq> 0
              then (case data of
                      None \<Rightarrow> None
                    | Some p \<Rightarrow>
                        (case memcpy_to p value h' of
                           None \<Rightarrow> None
                         | Some h'' \<Rightarrow> Some (Inr self, al', h'')))
              else Some (Inr self, al', h')))"

definition destroy_entry ::
    "cache_entry \<Rightarrow> value_allocator \<Rightarrow> heap \<Rightarrow> (value_allocator \<times> heap) option" where
  "destroy_entry self al h =
     (if has_allocator self then va_deallocate (entry_data self) (entry_size self) al h
      else Some (al, h))"

text \<open>The destructors of a collection of entries, one after the other.\<close>

fun destroy_entries ::
    "cache_entry list \<Rightarrow> value_allocator \<Rightarrow> heap \<Rightarrow> (value_allocator \<times> heap) option" where
  "destroy_entries [] al h = Some (al, h)"
| "destroy_entries (e # es) al h =
     (case destroy_entry e al h of
        None \<Rightarrow> None
      | Some (al', h') \<Rightarrow> destroy_entries es al' h')"

definition moved_from :: cache_entry where
  "moved_from = \<lparr>has_allocator = False, entry_data = None, entry_size = 0\<rparr>"

text \<open>The move constructor: the new object and what is left of the other.\<close>

definition move_entry :: "cache_entry \<Rightarrow> cache_entry \<times> cache_entry" where
  "move_entry other = (other, moved_from)"

text \<open>Move assignment to a different object.\<close>

definition move_assign_entry ::
    "cache_entry \<Rightarrow> cache_entry \<Rightarrow> value_allocator \<Rightarrow> heap \<Rightarrow>
       (cache_entry \<times> cache_entry \<times> value_allocator \<times> heap) option" where
  "move_assign_entry self other al h =
     (case destroy_entry self al h of
        None \<Rightarrow> None
      | Some (al', h') \<Rightarrow> Some (other, moved_from, al', h'))"

definition entry_value :: "heap \<Rightarrow> cache_entry \<Rightarrow> bytes option" where
  "entry_value h self =
     (if entry_size self = 0 then Some []
      else case entry_data self of None \<Rightarrow> None | Some p \<Rightarrow> load_bytes h p (entry_size self))"

text \<open>\<^verbatim>\<open>replace_value\<close> swaps data and size; both objects use the same allocator.\<close>

definition replace_value :: "cache_entry \<Rightarrow> cache_entry \<Rightarrow> cache_entry \<times> cache_entry" where
  "replace_value self replacement =
     (self\<lparr>entry_data := entry_data replacement, entry_size := entry_size replacement\<rparr>,
      replacement\<lparr>entry_data := entry_data self, entry_size := entry_size self\<rparr>)"

section \<open>A population of entries over one allocator\<close>

definition entry_wf :: "cache_entry \<Rightarrow> bool" where
  "entry_wf e \<longleftrightarrow> has_allocator e \<and> (entry_data e = None \<longleftrightarrow> entry_size e = 0)"

fun entry_blocks :: "cache_entry list \<Rightarrow> (ptr \<times> nat) list" where
  "entry_blocks [] = []"
| "entry_blocks (e # es) =
     (case entry_data e of None \<Rightarrow> entry_blocks es | Some p \<Rightarrow> (p, entry_size e) # entry_blocks es)"

definition mem_inv :: "value_allocator \<Rightarrow> heap \<Rightarrow> cache_entry list \<Rightarrow> bool" where
  "mem_inv al h es \<longleftrightarrow>
     distinct (map fst (entry_blocks es)) \<and> va_inv (map_of (entry_blocks es)) al h \<and>
     (\<forall>e \<in> set es. entry_wf e \<and> entry_value h e \<noteq> None)"

text \<open>Every value that was readable before still reads the same.\<close>

definition same_values :: "cache_entry list \<Rightarrow> heap \<Rightarrow> heap \<Rightarrow> bool" where
  "same_values es h h' \<longleftrightarrow> (\<forall>e \<in> set es. entry_value h' e = entry_value h e)"

lemma same_values_refl [simp]: "same_values es h h"
  by (simp add: same_values_def)

lemma same_values_trans:
  "same_values es h h' \<Longrightarrow> same_values es h' h'' \<Longrightarrow> same_values es h h''"
  by (simp add: same_values_def)

lemma same_values_mono: "same_values es h h' \<Longrightarrow> set fs \<subseteq> set es \<Longrightarrow> same_values fs h h'"
  by (auto simp: same_values_def)

lemma mset_entry_blocks:
  "mset (entry_blocks es) =
     mset (concat (map (\<lambda>e. case entry_data e of None \<Rightarrow> [] | Some p \<Rightarrow> [(p, entry_size e)]) es))"
  by (induction es) (auto split: option.splits)

lemma entry_blocks_perm: "mset es = mset fs \<Longrightarrow> mset (entry_blocks es) = mset (entry_blocks fs)"
  by (simp only: mset_entry_blocks mset_concat map_map mset_map flip: sum_mset_sum_list)

lemma mem_inv_perm:
  assumes "mem_inv al h es" and "mset fs = mset es"
  shows "mem_inv al h fs"
proof -
  have perm: "mset (entry_blocks fs) = mset (entry_blocks es)"
    using assms(2) by (rule entry_blocks_perm)
  then have "mset (map fst (entry_blocks fs)) = mset (map fst (entry_blocks es))" by simp
  then have dist: "distinct (map fst (entry_blocks fs))"
    using assms(1) mset_eq_imp_distinct_iff unfolding mem_inv_def by blast
  have "map_of (entry_blocks fs) = map_of (entry_blocks es)"
    using dist assms(1) mset_eq_setD [OF perm] unfolding mem_inv_def
    by (subst map_of_inject_set) auto
  then show ?thesis
    using assms(1) dist mset_eq_setD [OF assms(2)] by (simp add: mem_inv_def)
qed

lemma entry_blocks_member:
  "e \<in> set es \<Longrightarrow> entry_data e = Some p \<Longrightarrow> (p, entry_size e) \<in> set (entry_blocks es)"
  by (induction es) (auto split: option.splits)

lemma mem_inv_values:
  assumes inv: "mem_inv al h es" and agree: "agree_on (footprint (map_of (entry_blocks es))) h h'"
  shows "same_values es h h'"
  unfolding same_values_def
proof
  fix e assume e: "e \<in> set es"
  show "entry_value h' e = entry_value h e"
  proof (cases "entry_data e")
    case None
    then show ?thesis using e inv by (auto simp: mem_inv_def entry_wf_def entry_value_def)
  next
    case (Some p)
    have "map_of (entry_blocks es) p = Some (entry_size e)"
      using inv entry_blocks_member [OF e Some] by (simp add: mem_inv_def)
    with inv agree have "load_bytes h' p (entry_size e) = load_bytes h p (entry_size e)"
      by (intro va.load_frame [where a = al]) (auto simp: mem_inv_def)
    with Some show ?thesis by (simp add: entry_value_def)
  qed
qed

lemma mem_inv_agree:
  assumes "mem_inv al h es" and "agree_on (footprint (map_of (entry_blocks es))) h h'"
    and "va_inv (map_of (entry_blocks es)) al' h'"
  shows "mem_inv al' h' es"
  using assms mem_inv_values [OF assms(1,2)] by (auto simp: mem_inv_def same_values_def)

section \<open>Constructing, destroying, swapping\<close>

lemma mem_inv_empty: "va_inv Map.empty al h \<Longrightarrow> mem_inv al h []"
  by (simp add: mem_inv_def)

lemma mem_inv_oom:
  assumes "mem_inv al h es" and "next_block h' = next_block h" and "blocks h' = blocks h"
    and "cells h' = cells h"
  shows "mem_inv al h' es" and "same_values es h h'"
proof -
  have agree: "agree_on A h h'" for A using assms(3,4) by (rule agree_on_fields)
  have "va_inv (map_of (entry_blocks es)) al h" using assms(1) by (simp add: mem_inv_def)
  then have "va_inv (map_of (entry_blocks es)) al h'" using assms(2-4) by (rule va.invar_oom)
  then show "mem_inv al h' es" by (rule mem_inv_agree [OF assms(1) agree])
  show "same_values es h h'" using assms(1) agree by (rule mem_inv_values)
qed

lemma make_entry_cases:
  assumes inv: "mem_inv al h es"
  obtains (fail) al' h' where "make_entry v al h = Some (Inl Bad_alloc, al', h')"
      and "mem_inv al' h' es" and "same_values es h h'"
    | (ok) e al' h' where "make_entry v al h = Some (Inr e, al', h')"
      and "mem_inv al' h' (e # es)" and "same_values es h h'"
      and "entry_value h' e = Some v" and "entry_size e = length v"
proof (cases "v = []")
  case True
  let ?e = "\<lparr>has_allocator = True, entry_data = None, entry_size = 0\<rparr>"
  have "make_entry v al h = Some (Inr ?e, al, h)"
    using True by (simp add: make_entry_def va.allocate_zero)
  moreover have "mem_inv al h (?e # es)"
    using inv by (simp add: mem_inv_def entry_wf_def entry_value_def)
  ultimately show thesis using that(2) True by (simp add: entry_value_def)
next
  case False
  let ?L = "map_of (entry_blocks es)"
  have va: "va_inv ?L al h" and len: "0 < length v" using inv False by (auto simp: mem_inv_def)
  from va.allocate_defined [OF va len] obtain r al' h' where
    run: "va_allocate (length v) al h = Some (r, al', h')" by blast
  show thesis
  proof (cases r)
    case (Inl e)
    with va.allocate_fails [OF va len] run
    have f: "e = Bad_alloc" "va_inv ?L al' h'" "agree_on (footprint ?L) h h'" by auto
    have "mem_inv al' h' es" by (rule mem_inv_agree [OF inv f(3,2)])
    moreover have "make_entry v al h = Some (Inl Bad_alloc, al', h')"
      using run Inl f(1) by (simp add: make_entry_def)
    ultimately show thesis using that(1) mem_inv_values [OF inv f(3)] by blast
  next
    case (Inr q)
    with va.allocate_copy [OF va False] run obtain p h'' where
      p: "q = Some p" "?L p = None" and copy: "memcpy_to p v h' = Some h''"
      and va': "va_inv (?L(p \<mapsto> length v)) al' h''"
      and load: "load_bytes h'' p (length v) = Some v" and frame: "agree_on (footprint ?L) h h''"
      by blast
    let ?e = "\<lparr>has_allocator = True, entry_data = Some p, entry_size = length v\<rparr>"
    have same: "same_values es h h''" by (rule mem_inv_values [OF inv frame])
    have "make_entry v al h = Some (Inr ?e, al', h'')"
      using run Inr p copy len by (simp add: make_entry_def)
    moreover have "p \<notin> fst ` set (entry_blocks es)" using p(2) by (simp add: map_of_eq_None_iff)
    then have "mem_inv al' h'' (?e # es)"
      using inv va' load same False
      by (auto simp: mem_inv_def entry_wf_def entry_value_def same_values_def)
    ultimately show thesis using that(2) same load len by (simp add: entry_value_def)
  qed
qed

lemma destroy_entry_result:
  assumes inv: "mem_inv al h (e # es)"
  shows "\<exists>al' h'. destroy_entry e al h = Some (al', h') \<and> mem_inv al' h' es \<and> same_values es h h'"
proof (cases "entry_data e")
  case None
  then show ?thesis
    using inv by (auto simp: mem_inv_def entry_wf_def destroy_entry_def va.deallocate_null)
next
  case (Some p)
  let ?L = "map_of (entry_blocks (e # es))"
  have va: "va_inv ?L al h" and p: "?L p = Some (entry_size e)"
    using inv Some by (auto simp: mem_inv_def)
  have rest: "?L(p := None) = map_of (entry_blocks es)"
  proof -
    have "map_of (entry_blocks es) p = None"
      using inv Some by (simp add: mem_inv_def map_of_eq_None_iff)
    then show ?thesis using Some by (auto simp: fun_eq_iff)
  qed
  from va.deallocate_live [OF va p] obtain al' h' where
    run: "va_deallocate (Some p) (entry_size e) al h = Some (al', h')"
    and va': "va_inv (map_of (entry_blocks es)) al' h'"
    and frame: "agree_on (footprint (map_of (entry_blocks es))) h h'"
    unfolding rest by blast
  have vals: "same_values es h h'"
    unfolding same_values_def
  proof
    fix x assume x: "x \<in> set es"
    show "entry_value h' x = entry_value h x"
    proof (cases "entry_data x")
      case None
      then show ?thesis using x inv by (auto simp: mem_inv_def entry_wf_def entry_value_def)
    next
      case (Some q)
      have "map_of (entry_blocks es) q = Some (entry_size x)"
        using inv entry_blocks_member [OF x Some] \<open>entry_data e = Some p\<close> by (simp add: mem_inv_def)
      then have "load_bytes h' q (entry_size x) = load_bytes h q (entry_size x)"
        using va.live_bounds [OF va', of q "entry_size x"]
          agree_on_mono [OF frame, of "region q (entry_size x)"]
          region_in_footprint [of "map_of (entry_blocks es)" q "entry_size x"]
        by (intro load_bytes_agree) auto
      with Some show ?thesis by (simp add: entry_value_def)
    qed
  qed
  have "mem_inv al' h' es"
    using inv va' vals Some by (auto simp: mem_inv_def same_values_def)
  then show ?thesis
    using run inv Some vals by (auto simp: destroy_entry_def mem_inv_def entry_wf_def)
qed

text \<open>A moved-from object owns nothing, so its destructor does nothing.\<close>

lemma destroy_entries_ok:
  assumes "mem_inv al h es"
  shows "\<exists>al' h'. destroy_entries es al h = Some (al', h') \<and> va_inv Map.empty al' h'"
  using assms
proof (induction es arbitrary: al h)
  case Nil
  then show ?case by (simp add: mem_inv_def)
next
  case (Cons e es)
  from destroy_entry_result [OF Cons.prems] obtain al' h' where
    "destroy_entry e al h = Some (al', h')" and "mem_inv al' h' es" by blast
  with Cons.IH show ?case by simp
qed

lemma destroy_moved_from: "destroy_entry (snd (move_entry e)) al h = Some (al, h)"
  by (simp add: move_entry_def moved_from_def destroy_entry_def)

text \<open>Swapping the values of two live objects leaves the population as it was.\<close>

lemma replace_value_perm:
  assumes "entry_wf e" and "entry_wf r" and "replace_value e r = (e', r')"
  shows "e' = r" and "r' = e"
  using assms by (auto simp: replace_value_def entry_wf_def)

end
