(* ===== verification/Timing_Wheel.thy ===== *)
theory Timing_Wheel
  imports Free_Store
begin

text \<open>
  The single-level timing wheel of \<^verbatim>\<open>src/timer/timing_wheel.cpp\<close>: sixty slots of timer
  events, each event with the number of whole revolutions it still has to wait. The
  theory shows that an event scheduled with a time to live of \<open>ttl\<close> milliseconds
  fires at exactly the tick number \<open>ttl / 1000\<close>, rounded up, and at no other, whatever
  else is in the wheel.
\<close>

section \<open>Definitions\<close>

record timer_event =
  te_key :: bytes
  te_generation :: u64
  remaining_rounds :: u64

record timing_wheel =
  slots :: "timer_event list list"
  current_slot :: u64

abbreviation (input) slot_count :: nat where
  "slot_count \<equiv> 60"

abbreviation (input) resolution_milliseconds :: u64 where
  "resolution_milliseconds \<equiv> 1000"

definition new_timing_wheel :: timing_wheel where
  "new_timing_wheel = \<lparr>slots = replicate slot_count [], current_slot = 0\<rparr>"

definition ttl_ticks :: "u64 \<Rightarrow> u64" where
  "ttl_ticks ttl_milliseconds =
     ttl_milliseconds div resolution_milliseconds +
     (if ttl_milliseconds mod resolution_milliseconds \<noteq> 0 then 1 else 0)"

text \<open>
  The assertion \<^verbatim>\<open>ttl.count() > 0\<close> is the caller's duty; the wheel's contract below assumes it.
\<close>

definition schedule ::
    "bytes \<Rightarrow> u64 \<Rightarrow> u64 \<Rightarrow> timing_wheel \<Rightarrow> heap \<Rightarrow> (exn + unit) \<times> timing_wheel \<times> heap" where
  "schedule key gen ttl w h =
     (let ticks = ttl_ticks ttl;
          target_slot = unat ((current_slot w + ticks mod of_nat slot_count) mod of_nat slot_count);
          rounds = (ticks - 1) div of_nat slot_count;
          event = \<lparr>te_key = key, te_generation = gen, remaining_rounds = rounds\<rparr>
      in case container_alloc h of
           (Inl e, h') \<Rightarrow> (Inl e, w, h')
         | (Inr _, h') \<Rightarrow>
             (Inr (),
              w\<lparr>slots := (slots w)[target_slot := slots w ! target_slot @ [event]]\<rparr>, h'))"

text \<open>
  The loop of \<^verbatim>\<open>tick\<close> over one slot: an event with rounds left stays and loses one, the
  others are collected in order.
\<close>

fun expire_events :: "timer_event list \<Rightarrow> timer_event list \<times> timer_event list" where
  "expire_events [] = ([], [])"
| "expire_events (event # rest) =
     (let (expired, kept) = expire_events rest
      in if remaining_rounds event > 0
         then (expired, event\<lparr>remaining_rounds := remaining_rounds event - 1\<rparr> # kept)
         else (event # expired, kept))"

text \<open>
  \<^verbatim>\<open>expired.reserve\<close> comes before the wheel moves: when it throws, nothing has changed.
  Reserving no elements allocates nothing.
\<close>

definition wheel_tick ::
    "timing_wheel \<Rightarrow> heap \<Rightarrow> (exn + timer_event list) \<times> timing_wheel \<times> heap" where
  "wheel_tick w h =
     (let next_slot = (current_slot w + 1) mod of_nat slot_count;
          events = slots w ! unat next_slot
      in case (if events = [] then (Inr (), h) else container_alloc h) of
           (Inl e, h') \<Rightarrow> (Inl e, w, h')
         | (Inr _, h') \<Rightarrow>
             (let (expired, kept) = expire_events events
              in (Inr expired,
                  w\<lparr>current_slot := next_slot, slots := (slots w)[unat next_slot := kept]\<rparr>, h')))"

section \<open>Pending events\<close>

text \<open>
  What a wheel means: the events it holds, each with the number of ticks until it fires.
\<close>

definition ticks_left :: "timing_wheel \<Rightarrow> nat \<Rightarrow> timer_event \<Rightarrow> nat" where
  "ticks_left w i e =
     (i + 59 - unat (current_slot w)) mod slot_count + 1 + slot_count * unat (remaining_rounds e)"

definition pending :: "timing_wheel \<Rightarrow> (bytes \<times> u64 \<times> nat) list" where
  "pending w =
     concat (map (\<lambda>i. map (\<lambda>e. (te_key e, te_generation e, ticks_left w i e)) (slots w ! i))
                 [0..<slot_count])"

definition wheel_inv :: "timing_wheel \<Rightarrow> bool" where
  "wheel_inv w \<longleftrightarrow> length (slots w) = slot_count \<and> unat (current_slot w) < slot_count"

section \<open>The contract of an expiry queue\<close>

locale expiry_queue =
  fixes sched :: "bytes \<Rightarrow> u64 \<Rightarrow> u64 \<Rightarrow> 'w \<Rightarrow> heap \<Rightarrow> (exn + unit) \<times> 'w \<times> heap"
    and tick :: "'w \<Rightarrow> heap \<Rightarrow> (exn + timer_event list) \<times> 'w \<times> heap"
    and queue :: "'w \<Rightarrow> (bytes \<times> u64 \<times> nat) list"
    and invar :: "'w \<Rightarrow> bool"
  assumes sched_ok:
      "invar w \<Longrightarrow> 0 < unat ttl \<Longrightarrow> sched k g ttl w h = (Inr u, w', h') \<Longrightarrow>
         invar w' \<and> mset (queue w') = add_mset (k, g, unat (ttl_ticks ttl)) (mset (queue w))"
    and sched_fail: "sched k g ttl w h = (Inl e, w', h') \<Longrightarrow> w' = w \<and> e = Bad_alloc"
    and sched_heap:
      "sched k g ttl w h = (r, w', h') \<Longrightarrow>
         next_block h' = next_block h \<and> blocks h' = blocks h \<and> cells h' = cells h"
    and tick_ok:
      "invar w \<Longrightarrow> tick w h = (Inr evs, w', h') \<Longrightarrow>
         invar w' \<and>
         map (\<lambda>e. (te_key e, te_generation e)) evs =
           map (\<lambda>(k, g, d). (k, g)) (filter (\<lambda>(k, g, d). d = 1) (queue w)) \<and>
         queue w' = map (\<lambda>(k, g, d). (k, g, d - 1)) (filter (\<lambda>(k, g, d). d \<noteq> 1) (queue w))"
    and tick_fail: "tick w h = (Inl e, w', h') \<Longrightarrow> w' = w \<and> e = Bad_alloc"
    and tick_heap:
      "tick w h = (fired, w', h') \<Longrightarrow>
         next_block h' = next_block h \<and> blocks h' = blocks h \<and> cells h' = cells h"
    and queue_positive: "invar w \<Longrightarrow> (k, g, d) \<in> set (queue w) \<Longrightarrow> 0 < d"
begin

text \<open>A number of ticks in a row, and what each of them fired.\<close>

fun run :: "nat \<Rightarrow> 'w \<Rightarrow> heap \<Rightarrow> ((bytes \<times> u64) list list \<times> 'w \<times> heap) option" where
  "run 0 w h = Some ([], w, h)"
| "run (Suc n) w h =
     (case tick w h of
        (Inl e, w', h') \<Rightarrow> None
      | (Inr evs, w', h') \<Rightarrow>
          (case run n w' h' of
             None \<Rightarrow> None
           | Some (fs, w'', h'') \<Rightarrow>
               Some (map (\<lambda>e. (te_key e, te_generation e)) evs # fs, w'', h'')))"

text \<open>The \<open>i\<close>-th tick fires exactly the events that had \<open>i\<close> ticks left at the start.\<close>

lemma run_fires:
  assumes "invar w" and "run n w h = Some (fs, w', h')"
  shows "invar w' \<and> length fs = n \<and>
    (\<forall>i < n. fs ! i = map (\<lambda>(k, g, d). (k, g)) (filter (\<lambda>(k, g, d). d = Suc i) (queue w))) \<and>
    queue w' = map (\<lambda>(k, g, d). (k, g, d - n)) (filter (\<lambda>(k, g, d). n < d) (queue w))"
  using assms
proof (induction n arbitrary: w h fs)
  case 0
  have "filter (\<lambda>(k, g, d). 0 < d) (queue w) = queue w"
    using queue_positive [OF 0(1)] by (intro filter_True) auto
  with 0 show ?case by (simp add: case_prod_unfold)
next
  case (Suc n)
  from Suc.prems(2) obtain evs w1 h1 gs where t: "tick w h = (Inr evs, w1, h1)"
    and r: "run n w1 h1 = Some (gs, w', h')"
    and fs: "fs = map (\<lambda>e. (te_key e, te_generation e)) evs # gs"
    by (auto split: prod.splits sum.splits option.splits)
  note ok = tick_ok [OF Suc.prems(1) t]
  note IH = Suc.IH [OF conjunct1 [OF ok] r]
  have pos: "(k, g, d) \<in> set (queue w) \<Longrightarrow> 0 < d" for k g d
    using queue_positive [OF Suc.prems(1)] .
  have later: "fs ! Suc i = map (\<lambda>(k, g, d). (k, g)) (filter (\<lambda>(k, g, d). d = Suc (Suc i)) (queue w))"
    if "i < n" for i
    using IH that ok pos
    by (auto simp: fs filter_map comp_def case_prod_unfold filter_filter intro!: map_cong filter_cong)
  have "fs ! i = map (\<lambda>(k, g, d). (k, g)) (filter (\<lambda>(k, g, d). d = Suc i) (queue w))"
    if "i < Suc n" for i
    using that later ok by (cases i) (auto simp: fs)
  moreover have "queue w' = map (\<lambda>(k, g, d). (k, g, d - Suc n)) (filter (\<lambda>(k, g, d). Suc n < d) (queue w))"
    using IH ok by (auto simp: filter_map comp_def case_prod_unfold filter_filter intro!: map_cong filter_cong)
  ultimately show ?case using IH fs by simp
qed

end

section \<open>Machine arithmetic of the wheel\<close>

lemma unat_ttl_ticks [word_bounds]:
  "unat (ttl_ticks ttl) = unat ttl div 1000 + (if unat ttl mod 1000 \<noteq> 0 then 1 else 0)"
proof -
  have "unat (ttl div 1000) = unat ttl div 1000" by (simp add: unat_div_distrib)
  moreover have "unat (ttl mod 1000) = unat ttl mod 1000" by (simp add: unat_mod_distrib)
  then have "(ttl mod 1000 \<noteq> 0) = (unat ttl mod 1000 \<noteq> 0)" by (metis unat_eq_zero)
  moreover have "unat ttl div 1000 \<le> 2 ^ 64 div 1000"
    using unat_lt_u64 [of ttl] by (intro div_le_mono) (rule less_imp_le)
  then have "unat ttl div 1000 + 1 < 2 ^ 64" by simp
  ultimately show ?thesis by (simp add: ttl_ticks_def unat_add_u64)
qed

lemma ttl_ticks_positive: "0 < unat ttl \<Longrightarrow> 0 < unat (ttl_ticks ttl)"
  by (cases "unat ttl mod 1000 = 0") (auto simp: unat_ttl_ticks elim!: dvdE simp flip: dvd_eq_mod_eq_0)

lemma unat_target_slot [word_bounds]:
  assumes "unat c < 60"
  shows "unat ((c + ticks mod 60) mod 60 :: u64) = (unat c + unat ticks mod 60) mod 60"
proof -
  have "unat (ticks mod 60) = unat ticks mod 60" by (simp add: unat_mod_distrib)
  moreover have "unat c + unat ticks mod 60 < 2 ^ 64"
  proof -
    have "unat ticks mod 60 < 60" by simp
    with assms have "unat c + unat ticks mod 60 < 120" by linarith
    then show ?thesis by simp
  qed
  ultimately show ?thesis by (simp add: unat_mod_distrib unat_add_u64)
qed

lemma unat_rounds [word_bounds]:
  assumes "0 < unat ticks"
  shows "unat ((ticks - 1) div 60 :: u64) = (unat ticks - 1) div 60"
proof -
  have "unat (ticks - 1) = unat ticks - 1"
    using assms by (subst unat_sub_u64) simp_all
  then show ?thesis by (simp add: unat_div_distrib)
qed

lemma mod_60_small: "(x::nat) < 120 \<Longrightarrow> x mod 60 = (if x < 60 then x else x - 60)"
  by (simp add: le_mod_geq not_less)

lemma wheel_distance:
  assumes c: "(c::nat) < 60" and "0 < t"
  shows "((c + t mod 60) mod 60 + 59 - c) mod 60 + 1 + 60 * ((t - 1) div 60) = t"
proof -
  obtain s where t: "t = Suc s" using assms(2) by (cases t) auto
  define r where "r = s mod 60"
  have r: "r < 60" by (simp add: r_def)
  have "t mod 60 = (if Suc r = 60 then 0 else Suc r)" by (simp add: t r_def mod_Suc)
  then have "((c + t mod 60) mod 60 + 59 - c) mod 60 = r"
    using c r by (auto simp: mod_60_small)
  then show ?thesis using t by (simp add: r_def)
qed

lemma unat_next_slot [word_bounds]:
  assumes "unat c < 60"
  shows "unat ((c + 1) mod 60 :: u64) = Suc (unat c) mod 60"
proof -
  have "unat (c + 1) = unat c + 1" using assms by (subst unat_add_u64) simp_all
  then show ?thesis by (simp add: unat_mod_distrib)
qed

section \<open>Scheduling\<close>

lemma mset_concat_update:
  assumes "i < n" and "mset (g i) = add_mset x (mset (f i))" and "\<And>j. j \<noteq> i \<Longrightarrow> g j = f j"
  shows "mset (concat (map g [0..<n])) = add_mset x (mset (concat (map f [0..<n])))"
  using assms(1)
proof (induction n)
  case (Suc n)
  show ?case
  proof (cases "i = n")
    case True
    then have "map g [0..<n] = map f [0..<n]" using assms(3) by auto
    with True assms(2) show ?thesis by (simp del: map_eq_conv)
  next
    case False
    with Suc have "mset (concat (map g [0..<n])) = add_mset x (mset (concat (map f [0..<n])))"
      by simp
    with False assms(3) [of n] show ?thesis by simp
  qed
qed simp

lemma schedule_pending:
  assumes inv: "wheel_inv w" and ttl: "0 < unat ttl"
    and s: "schedule k g ttl w h = (Inr u, w', h')"
  shows "wheel_inv w' \<and>
    mset (pending w') = add_mset (k, g, unat (ttl_ticks ttl)) (mset (pending w))"
proof -
  let ?c = "unat (current_slot w)" and ?t = "unat (ttl_ticks ttl)"
  let ?s = "(?c + ?t mod 60) mod 60"
  let ?e = "\<lparr>te_key = k, te_generation = g, remaining_rounds = (ttl_ticks ttl - 1) div 60\<rparr>"
  have c: "?c < 60" and len: "length (slots w) = 60" using inv by (auto simp: wheel_inv_def)
  have w': "w' = w\<lparr>slots := (slots w)[?s := slots w ! ?s @ [?e]]\<rparr>"
    using s by (auto simp: schedule_def Let_def unat_target_slot [OF c] split: prod.splits sum.splits)
  have left: "ticks_left w' i e = ticks_left w i e" for i e by (simp add: w' ticks_left_def)
  have "ticks_left w ?s ?e = ?t"
    using wheel_distance [OF c ttl_ticks_positive [OF ttl]]
    by (simp add: ticks_left_def unat_rounds [OF ttl_ticks_positive [OF ttl]])
  then have "mset (pending w') = add_mset (k, g, ?t) (mset (pending w))"
    unfolding pending_def
    by (intro mset_concat_update [where i = ?s]) (simp_all add: left, simp_all add: w' len)
  then show ?thesis using inv by (simp add: w' wheel_inv_def)
qed

section \<open>Ticking\<close>

lemma expire_events_fired:
  "map f (fst (expire_events es)) = map f (filter (\<lambda>e. remaining_rounds e = 0) es)"
  by (induction es) (auto simp: Let_def case_prod_unfold word_neq_0_conv)

lemma expire_events_kept:
  "snd (expire_events es) =
     map (\<lambda>e. e\<lparr>remaining_rounds := remaining_rounds e - 1\<rparr>) (filter (\<lambda>e. remaining_rounds e \<noteq> 0) es)"
  by (induction es) (auto simp: Let_def case_prod_unfold word_neq_0_conv)

lemma concat_only:
  "n < m \<Longrightarrow> concat (map (\<lambda>i. if i = n then xs else []) [0..<m]) = xs"
proof (induction m)
  case (Suc m)
  have "concat (map (\<lambda>i. if i = m then xs else []) [0..<m]) = []" by simp
  with Suc show ?case by (cases "n = m") auto
qed simp

lemma ticks_left_next:
  assumes "unat (current_slot w) < 60" and "i = Suc (unat (current_slot w)) mod 60"
    and "unat (current_slot w') = i"
  shows "ticks_left w i e = 1 + 60 * unat (remaining_rounds e)"
    and "ticks_left w' i e = 60 + 60 * unat (remaining_rounds e)"
proof -
  have "(i + 59 - unat (current_slot w)) mod 60 = 0"
    using assms(1,2) by (auto simp: mod_60_small)
  then show "ticks_left w i e = 1 + 60 * unat (remaining_rounds e)" by (simp add: ticks_left_def)
  show "ticks_left w' i e = 60 + 60 * unat (remaining_rounds e)"
    using assms(2,3) by (simp add: ticks_left_def)
qed

lemma ticks_left_other:
  assumes "unat (current_slot w) < 60" and "i < 60" and "i \<noteq> Suc (unat (current_slot w)) mod 60"
    and "unat (current_slot w') = Suc (unat (current_slot w)) mod 60"
  shows "ticks_left w i e \<noteq> 1" and "ticks_left w' i e = ticks_left w i e - 1"
proof -
  let ?c = "unat (current_slot w)"
  have "(i + 59 - ?c) mod 60 \<noteq> 0"
    using assms(1-3) by (auto simp: mod_60_small split: if_splits)
  then show "ticks_left w i e \<noteq> 1" by (simp add: ticks_left_def)
  have "(i + 59 - Suc ?c mod 60) mod 60 + 1 = (i + 59 - ?c) mod 60"
    using assms(1-3) by (auto simp: mod_60_small split: if_splits)
  then show "ticks_left w' i e = ticks_left w i e - 1" by (simp add: ticks_left_def assms(4))
qed

lemma wheel_tick_pending:
  assumes inv: "wheel_inv w" and t: "wheel_tick w h = (Inr evs, w', h')"
  shows "wheel_inv w' \<and>
    map (\<lambda>e. (te_key e, te_generation e)) evs =
      map (\<lambda>(k, g, d). (k, g)) (filter (\<lambda>(k, g, d). d = 1) (pending w)) \<and>
    pending w' = map (\<lambda>(k, g, d). (k, g, d - 1)) (filter (\<lambda>(k, g, d). d \<noteq> 1) (pending w))"
proof -
  let ?c = "unat (current_slot w)" let ?n = "Suc ?c mod 60"
  have c: "?c < 60" and len: "length (slots w) = 60" using inv by (auto simp: wheel_inv_def)
  let ?es = "slots w ! ?n"
  have evs: "evs = fst (expire_events ?es)"
    and w': "w' = w\<lparr>current_slot := (current_slot w + 1) mod 60, slots := (slots w)[?n := snd (expire_events ?es)]\<rparr>"
    using t by (auto simp: wheel_tick_def Let_def unat_next_slot [OF c] split: prod.splits sum.splits)
  have cur: "unat (current_slot w') = ?n" by (simp add: w' unat_next_slot [OF c])
  have one: "ticks_left w ?n e = 1 \<longleftrightarrow> remaining_rounds e = 0" for e
    using ticks_left_next(1) [OF c refl cur] by (simp add: unat_eq_zero)
  let ?f = "\<lambda>w i e. (te_key e, te_generation e, ticks_left w i e)"
  have fire: "map (\<lambda>(k, g, d). (k, g)) (filter (\<lambda>(k, g, d). d = 1) (map (?f w i) (slots w ! i)))
      = (if i = ?n then map (\<lambda>e. (te_key e, te_generation e)) evs else [])" if "i < 60" for i
  proof (cases "i = ?n")
    case True
    then show ?thesis by (simp add: filter_map comp_def one [simplified] evs expire_events_fired)
  next
    case False
    then show ?thesis
      using ticks_left_other(1) [OF c that _ cur] by (simp add: filter_map comp_def filter_empty_conv)
  qed
  have keep: "map (?f w' i) (slots w' ! i) =
      map (\<lambda>(k, g, d). (k, g, d - 1)) (filter (\<lambda>(k, g, d). d \<noteq> 1) (map (?f w i) (slots w ! i)))"
    if i: "i < 60" for i
  proof (cases "i = ?n")
    case True
    have "slots w' ! ?n = snd (expire_events ?es)" by (simp add: w' len)
    moreover have "60 + 60 * unat (r - 1) = 60 * unat r" if "r \<noteq> 0" for r :: u64
    proof -
      have "1 \<le> unat r" using that by (simp add: Suc_le_eq unat_gt_0)
      then show ?thesis by (subst unat_sub_u64) simp_all
    qed
    ultimately show ?thesis
      by (simp add: True expire_events_kept filter_map comp_def one ticks_left_next [OF c refl cur])
         (auto simp: unat_gt_0)
  next
    case False
    have "filter (\<lambda>e. ticks_left w i e \<noteq> 1) (slots w ! i) = slots w ! i"
      using ticks_left_other(1) [OF c i False cur] by simp
    moreover have "slots w' ! i = slots w ! i" using False by (simp add: w')
    ultimately show ?thesis
      by (simp add: filter_map comp_def ticks_left_other(2) [OF c i False cur])
  qed
  have "map (\<lambda>(k, g, d). (k, g)) (filter (\<lambda>(k, g, d). d = 1) (pending w))
      = concat (map (\<lambda>i. if i = ?n then map (\<lambda>e. (te_key e, te_generation e)) evs else []) [0..<60])"
    unfolding pending_def filter_concat map_concat map_map comp_def
    using fire by (intro arg_cong [where f = concat] map_cong) auto
  also have "\<dots> = map (\<lambda>e. (te_key e, te_generation e)) evs" by (rule concat_only) simp
  finally have "map (\<lambda>e. (te_key e, te_generation e)) evs =
      map (\<lambda>(k, g, d). (k, g)) (filter (\<lambda>(k, g, d). d = 1) (pending w))" ..
  moreover have "pending w' = map (\<lambda>(k, g, d). (k, g, d - 1)) (filter (\<lambda>(k, g, d). d \<noteq> 1) (pending w))"
    unfolding pending_def filter_concat map_concat map_map comp_def
    using keep by (intro arg_cong [where f = concat] map_cong) auto
  ultimately show ?thesis using inv by (simp add: wheel_inv_def w' unat_next_slot [OF c])
qed

section \<open>The wheel is an expiry queue\<close>

lemma wheel_inv_new: "wheel_inv new_timing_wheel"
  by (simp add: wheel_inv_def new_timing_wheel_def)

lemma pending_new [simp]: "pending new_timing_wheel = []"
  by (simp add: pending_def new_timing_wheel_def)

interpretation wheel: expiry_queue schedule wheel_tick pending wheel_inv
proof (unfold_locales, goal_cases)
  case (1 w ttl k g h u w' h')
  then show ?case by (rule schedule_pending)
next
  case (2 k g ttl w h e w' h')
  then show ?case
    using container_alloc_fields(4) [of h]
    by (auto simp: schedule_def Let_def split: prod.splits sum.splits)
next
  case (3 k g ttl w h r w' h')
  then show ?case
    by (auto simp: schedule_def Let_def dest: container_alloc_fields split: prod.splits sum.splits)
next
  case (4 w h evs w' h')
  then show ?case by (rule wheel_tick_pending)
next
  case (5 w h e w' h')
  then show ?case
    using container_alloc_fields(4) [of h]
    by (auto simp: wheel_tick_def Let_def split: prod.splits sum.splits if_splits)
next
  case (6 w h r w' h')
  then show ?case
    by (auto simp: wheel_tick_def Let_def dest: container_alloc_fields
        split: prod.splits sum.splits if_splits)
next
  case (7 w k g d)
  then show ?case by (auto simp: pending_def ticks_left_def)
qed

text \<open>Ticks in a row on the wheel itself: what each of them fired.\<close>

fun wheel_ticks ::
    "nat \<Rightarrow> timing_wheel \<Rightarrow> heap \<Rightarrow> ((bytes \<times> u64) list list \<times> timing_wheel \<times> heap) option" where
  "wheel_ticks 0 w h = Some ([], w, h)"
| "wheel_ticks (Suc n) w h =
     (case wheel_tick w h of
        (Inl e, w', h') \<Rightarrow> None
      | (Inr evs, w', h') \<Rightarrow>
          (case wheel_ticks n w' h' of
             None \<Rightarrow> None
           | Some (fs, w'', h'') \<Rightarrow>
               Some (map (\<lambda>e. (te_key e, te_generation e)) evs # fs, w'', h'')))"

lemma wheel_ticks_run: "wheel_ticks n w h = wheel.run n w h"
  by (induction n arbitrary: w h) (auto split: prod.splits sum.splits)

lemma wheel_ticks_succeed: "oom h = [] \<Longrightarrow> \<exists>fs w'. wheel_ticks n w h = Some (fs, w', h)"
proof (induction n arbitrary: w)
  case (Suc n)
  obtain evs w1 where t: "wheel_tick w h = (Inr evs, w1, h)"
  proof -
    define i where "i = (current_slot w + 1) mod of_nat slot_count"
    obtain ex kept where "expire_events (slots w ! unat i) = (ex, kept)" by fastforce
    then have "wheel_tick w h = (Inr ex, w\<lparr>current_slot := i, slots := (slots w)[unat i := kept]\<rparr>, h)"
      using Suc.prems unfolding wheel_tick_def Let_def i_def [symmetric] by auto
    then show thesis by (rule that)
  qed
  from Suc.IH [OF Suc.prems, of w1] t show ?case by auto
qed simp

end
