(* ===== verification/Cache.thy ===== *)
theory Cache
  imports Cache_Entry Timing_Wheel
begin

text \<open>
  The class \<^verbatim>\<open>Cache\<close> of \<^verbatim>\<open>include/highcache/cache/cache.h\<close> and \<^verbatim>\<open>src/cache/cache.cpp\<close>: an
  intrusive LRU cache with per-entry generations and a timing wheel. The definitions
  follow the member functions statement by statement, exceptions included.

  The recency list is a \<^verbatim>\<open>std::list\<close>: its nodes have identities, which the iterators in the
  map refer to. \<^verbatim>\<open>entries_\<close> is an association list in unspecified order. A step that would
  use an invalid iterator, run into a failed assertion, or touch memory it does not own
  has no result (\<^term>\<open>None\<close>). An exception is \<^term>\<open>Inl\<close> together with the state the
  unwinding leaves behind: the destructors of the local objects have run.
\<close>

section \<open>Data\<close>

datatype cache_status =
    C_ok | C_not_found | C_invalid_key | C_key_too_large | C_value_too_large
  | C_item_too_large | C_invalid_ttl

definition to_string_cache_status :: "cache_status \<Rightarrow> string" where
  "to_string_cache_status status =
     (case status of
        C_ok \<Rightarrow> ''ok''
      | C_not_found \<Rightarrow> ''not_found''
      | C_invalid_key \<Rightarrow> ''invalid_key''
      | C_key_too_large \<Rightarrow> ''key_too_large''
      | C_value_too_large \<Rightarrow> ''value_too_large''
      | C_item_too_large \<Rightarrow> ''item_too_large''
      | C_invalid_ttl \<Rightarrow> ''invalid_ttl'')"

record stored_entry =
  se_entry :: cache_entry
  recency_position :: nat
  se_generation :: u64

record cache =
  capacity_bytes :: u64
  c_allocator :: value_allocator
  c_heap :: heap
  memory_usage_bytes :: u64
  hit_count :: u64
  miss_count :: u64
  eviction_count :: u64
  expired_count :: u64
  generation_source :: u64
  wheel :: timing_wheel
  recency :: "(nat \<times> bytes) list"
  next_node :: nat
  entries :: "(bytes \<times> stored_entry) list"

abbreviation (input) max_key_length :: nat where
  "max_key_length \<equiv> 250"

abbreviation (input) max_value_length :: nat where
  "max_value_length \<equiv> 1024 * 1024"

text \<open>
  The constructor with a given allocator; without one the cache owns a slab allocator.
\<close>

definition new_cache :: "u64 \<Rightarrow> value_allocator \<Rightarrow> heap \<Rightarrow> cache" where
  "new_cache capacity al h =
     \<lparr>capacity_bytes = capacity, c_allocator = al, c_heap = h, memory_usage_bytes = 0,
      hit_count = 0, miss_count = 0, eviction_count = 0, expired_count = 0,
      generation_source = 0, wheel = new_timing_wheel, recency = [], next_node = 0,
      entries = []\<rparr>"

definition new_cache_owning :: "u64 \<Rightarrow> heap \<Rightarrow> cache" where
  "new_cache_owning capacity h = new_cache capacity (Slab new_slab_allocator) h"

section \<open>Helpers\<close>

definition validate_key :: "bytes \<Rightarrow> cache_status" where
  "validate_key key =
     (if key = [] then C_invalid_key
      else if length key > max_key_length then C_key_too_large
      else C_ok)"

text \<open>The charge of a key and a value, from their sizes.\<close>

definition entry_charge :: "nat \<Rightarrow> nat \<Rightarrow> u64" where
  "entry_charge key_size value_size = of_nat key_size + of_nat value_size"

definition find_entry :: "bytes \<Rightarrow> cache \<Rightarrow> stored_entry option" where
  "find_entry key c = map_of (entries c) key"

definition update_entry :: "bytes \<Rightarrow> (stored_entry \<Rightarrow> stored_entry) \<Rightarrow> cache \<Rightarrow> cache" where
  "update_entry key f c =
     c\<lparr>entries := map (\<lambda>(k, se). (k, if k = key then f se else se)) (entries c)\<rparr>"

text \<open>An allocation by a string, a list node or the hash table.\<close>

definition cache_alloc :: "cache \<Rightarrow> (exn + unit) \<times> cache" where
  "cache_alloc c = (case container_alloc (c_heap c) of (r, h) \<Rightarrow> (r, c\<lparr>c_heap := h\<rparr>))"

definition new_entry :: "bytes \<Rightarrow> cache \<Rightarrow> ((exn + cache_entry) \<times> cache) option" where
  "new_entry value c =
     map_option (\<lambda>(r, al, h). (r, c\<lparr>c_allocator := al, c_heap := h\<rparr>))
       (make_entry value (c_allocator c) (c_heap c))"

text \<open>The destructor of an entry the cache does not hold (any more).\<close>

definition drop_entry :: "cache_entry \<Rightarrow> cache \<Rightarrow> cache option" where
  "drop_entry e c =
     map_option (\<lambda>(al, h). c\<lparr>c_allocator := al, c_heap := h\<rparr>)
       (destroy_entry e (c_allocator c) (c_heap c))"

text \<open>
  \<^verbatim>\<open>splice\<close> moves the node the entry's iterator names to the front; the iterator of the
  entry is then set to the first node.
\<close>

definition mark_mru :: "bytes \<Rightarrow> cache \<Rightarrow> cache option" where
  "mark_mru key c =
     (case find_entry key c of
        None \<Rightarrow> None
      | Some se \<Rightarrow>
          (case map_of (recency c) (recency_position se) of
             None \<Rightarrow> None
           | Some node_key \<Rightarrow>
               (let spliced = (recency_position se, node_key) #
                      filter (\<lambda>x. fst x \<noteq> recency_position se) (recency c)
                in Some (update_entry key (\<lambda>s. s\<lparr>recency_position := fst (hd spliced)\<rparr>)
                           (c\<lparr>recency := spliced\<rparr>)))))"

definition remove_entry :: "bytes \<Rightarrow> cache \<Rightarrow> cache option" where
  "remove_entry key c =
     (case find_entry key c of
        None \<Rightarrow> None
      | Some se \<Rightarrow>
          (let charge = entry_charge (length key) (entry_size (se_entry se))
           in if recency_position se \<notin> fst ` set (recency c) then None
              else drop_entry (se_entry se)
                     (c\<lparr>memory_usage_bytes := memory_usage_bytes c - charge,
                        recency := filter (\<lambda>x. fst x \<noteq> recency_position se) (recency c),
                        entries := filter (\<lambda>x. fst x \<noteq> key) (entries c)\<rparr>)))"

definition evict_lru :: "cache \<Rightarrow> cache option" where
  "evict_lru c =
     (if recency c = [] then None
      else let lru_key = snd (last (recency c))
           in case find_entry lru_key c of
                None \<Rightarrow> None
              | Some _ \<Rightarrow>
                  map_option (\<lambda>c'. c'\<lparr>eviction_count := eviction_count c' + 1\<rparr>)
                    (remove_entry lru_key c))"

text \<open>
  The two eviction loops of \<^verbatim>\<open>set\<close>: on an overwrite the old charge of the entry is
  credited, on an insertion nothing is.
\<close>

partial_function (option) evict_while :: "u64 \<Rightarrow> u64 \<Rightarrow> cache \<Rightarrow> cache option" where
  "evict_while credit room c =
     (if memory_usage_bytes c - credit > room
      then Option.bind (evict_lru c) (evict_while credit room)
      else Some c)"

declare evict_while.simps [code]

definition next_generation :: "cache \<Rightarrow> (exn + u64) \<times> cache" where
  "next_generation c =
     (if generation_source c = - 1
      then (Inl (Overflow_error ''cache entry generation exhausted''), c)
      else (let g = generation_source c + 1 in (Inr g, c\<lparr>generation_source := g\<rparr>)))"

text \<open>
  The next generation and, for a positive time to live, its timer; the argument
  \<^verbatim>\<open>std::string(key)\<close> of \<^verbatim>\<open>schedule\<close> is allocated first.
\<close>

definition next_timer :: "bytes \<Rightarrow> u64 \<Rightarrow> cache \<Rightarrow> (exn + u64) \<times> cache" where
  "next_timer key ttl c =
     (case next_generation c of
        (Inl e, c1) \<Rightarrow> (Inl e, c1)
      | (Inr generation, c1) \<Rightarrow>
          (if sint ttl > 0
           then (case cache_alloc c1 of
                   (Inl e, c2) \<Rightarrow> (Inl e, c2)
                 | (Inr _, c2) \<Rightarrow>
                     (case schedule key generation ttl (wheel c2) (c_heap c2) of
                        (Inl e, w, h) \<Rightarrow> (Inl e, c2\<lparr>wheel := w, c_heap := h\<rparr>)
                      | (Inr _, w, h) \<Rightarrow> (Inr generation, c2\<lparr>wheel := w, c_heap := h\<rparr>)))
           else (Inr generation, c1)))"

section \<open>Operations\<close>

text \<open>Leaving a scope that owns an entry with an exception in flight.\<close>

definition unwind :: "cache_entry \<Rightarrow> exn \<Rightarrow> cache \<Rightarrow> ((exn + cache_status) \<times> cache) option" where
  "unwind e x c = map_option (\<lambda>c'. (Inl x, c')) (drop_entry e c)"

text \<open>
  Overwriting, once nothing can throw any more: the iterator found first has to survive
  the evictions. The replaced value ends up in the by-value parameter of \<^verbatim>\<open>replace_value\<close>
  and is destroyed with it.
\<close>

definition overwrite ::
    "bytes \<Rightarrow> cache_entry \<Rightarrow> u64 \<Rightarrow> u64 \<Rightarrow> u64 \<Rightarrow> cache \<Rightarrow> cache option" where
  "overwrite key replacement generation old_charge new_charge c =
     do {
       c1 \<leftarrow> mark_mru key c;
       c2 \<leftarrow> evict_while old_charge (capacity_bytes c1 - new_charge) c1;
       existing \<leftarrow> find_entry key c2;
       (let (e, parameter) = replace_value (se_entry existing) replacement
        in do {
          c3 \<leftarrow> drop_entry parameter (update_entry key (\<lambda>s. s\<lparr>se_entry := e\<rparr>) c2);
          (let c4 = update_entry key (\<lambda>s. s\<lparr>se_generation := generation\<rparr>) c3
           in Some (c4\<lparr>memory_usage_bytes := memory_usage_bytes c4 - old_charge + new_charge\<rparr>))
        })
     }"

definition set_existing ::
    "bytes \<Rightarrow> bytes \<Rightarrow> u64 \<Rightarrow> u64 \<Rightarrow> stored_entry \<Rightarrow> cache \<Rightarrow> ((exn + cache_status) \<times> cache) option" where
  "set_existing key value ttl new_charge existing c =
     (case new_entry value c of
        None \<Rightarrow> None
      | Some (Inl x, c1) \<Rightarrow> Some (Inl x, c1)
      | Some (Inr replacement, c1) \<Rightarrow>
          (let old_charge = entry_charge (length key) (entry_size (se_entry existing))
           in case next_timer key ttl c1 of
                (Inl x, c2) \<Rightarrow> unwind replacement x c2
              | (Inr generation, c2) \<Rightarrow>
                  map_option (\<lambda>c'. (Inr C_ok, c'))
                    (overwrite key replacement generation old_charge new_charge c2)))"

text \<open>
  Inserting: when the hash table cannot take the new node, the entry dies with it, the
  list node is popped and the exception goes on.
\<close>

definition link_new ::
    "bytes \<Rightarrow> cache_entry \<Rightarrow> u64 \<Rightarrow> u64 \<Rightarrow> cache \<Rightarrow> ((exn + cache_status) \<times> cache) option" where
  "link_new key e generation new_charge c =
     (case cache_alloc c of
        (Inl x, c1) \<Rightarrow> unwind e x c1
      | (Inr _, c1) \<Rightarrow>
          (let node = next_node c1;
               c2 = c1\<lparr>recency := (node, key) # recency c1, next_node := node + 1\<rparr>
           in case cache_alloc c2 of
                (Inl x, c3) \<Rightarrow>
                  map_option (\<lambda>(r, c4). (r, c4\<lparr>recency := tl (recency c4)\<rparr>)) (unwind e x c3)
              | (Inr _, c3) \<Rightarrow>
                  (case find_entry key c3 of
                     Some _ \<Rightarrow> None
                   | None \<Rightarrow>
                       (let stored = \<lparr>se_entry = e, recency_position = fst (hd (recency c3)),
                                      se_generation = generation\<rparr>
                        in Some (Inr C_ok,
                             c3\<lparr>entries := (key, stored) # entries c3,
                                memory_usage_bytes := memory_usage_bytes c3 + new_charge\<rparr>)))))"

definition set_new ::
    "bytes \<Rightarrow> bytes \<Rightarrow> u64 \<Rightarrow> u64 \<Rightarrow> cache \<Rightarrow> ((exn + cache_status) \<times> cache) option" where
  "set_new key value ttl new_charge c =
     (case cache_alloc c of
        (Inl x, c1) \<Rightarrow> Some (Inl x, c1)
      | (Inr _, c1) \<Rightarrow>
          (case cache_alloc c1 of
             (Inl x, c2) \<Rightarrow> Some (Inl x, c2)
           | (Inr _, c2) \<Rightarrow>
               (case new_entry value c2 of
                  None \<Rightarrow> None
                | Some (Inl x, c3) \<Rightarrow> Some (Inl x, c3)
                | Some (Inr e, c3) \<Rightarrow>
                    (case next_timer key ttl c3 of
                       (Inl x, c4) \<Rightarrow> unwind e x c4
                     | (Inr generation, c4) \<Rightarrow>
                         do {
                           c5 \<leftarrow> evict_while 0 (capacity_bytes c4 - new_charge) c4;
                           link_new key e generation new_charge c5
                         }))))"

definition cache_set ::
    "bytes \<Rightarrow> bytes \<Rightarrow> u64 \<Rightarrow> cache \<Rightarrow> ((exn + cache_status) \<times> cache) option" where
  "cache_set key value ttl c =
     (let key_status = validate_key key;
          new_charge = entry_charge (length key) (length value)
      in if key_status \<noteq> C_ok then Some (Inr key_status, c)
         else if length value > max_value_length then Some (Inr C_value_too_large, c)
         else if sint ttl < 0 then Some (Inr C_invalid_ttl, c)
         else if new_charge > capacity_bytes c then Some (Inr C_item_too_large, c)
         else case cache_alloc c of
                (Inl x, c1) \<Rightarrow> Some (Inl x, c1)
              | (Inr _, c1) \<Rightarrow>
                  (case find_entry key c1 of
                     Some existing \<Rightarrow> set_existing key value ttl new_charge existing c1
                   | None \<Rightarrow> set_new key value ttl new_charge c1))"

text \<open>\<^verbatim>\<open>get\<close> writes to the caller's string: the result carries its new contents.\<close>

definition cache_get ::
    "bytes \<Rightarrow> bytes \<Rightarrow> cache \<Rightarrow> ((exn + cache_status) \<times> bytes \<times> cache) option" where
  "cache_get key output c =
     (let key_status = validate_key key
      in if key_status \<noteq> C_ok then Some (Inr key_status, output, c)
         else case cache_alloc c of
           (Inl x, c1) \<Rightarrow> Some (Inl x, output, c1)
         | (Inr _, c1) \<Rightarrow>
             (case find_entry key c1 of
                None \<Rightarrow> Some (Inr C_not_found, output, c1\<lparr>miss_count := miss_count c1 + 1\<rparr>)
              | Some se \<Rightarrow>
                  do {
                    value \<leftarrow> entry_value (c_heap c1) (se_entry se);
                    (case (if value = [] then (Inr (), c1) else cache_alloc c1) of
                       (Inl x, c2) \<Rightarrow> Some (Inl x, output, c2)
                     | (Inr _, c2) \<Rightarrow>
                         do {
                           c3 \<leftarrow> mark_mru key c2;
                           Some (Inr C_ok, value, c3\<lparr>hit_count := hit_count c3 + 1\<rparr>)
                         })
                  }))"

definition cache_erase :: "bytes \<Rightarrow> cache \<Rightarrow> ((exn + cache_status) \<times> cache) option" where
  "cache_erase key c =
     (let key_status = validate_key key
      in if key_status \<noteq> C_ok then Some (Inr key_status, c)
         else case cache_alloc c of
           (Inl x, c1) \<Rightarrow> Some (Inl x, c1)
         | (Inr _, c1) \<Rightarrow>
             (case find_entry key c1 of
                None \<Rightarrow> Some (Inr C_not_found, c1)
              | Some _ \<Rightarrow> map_option (\<lambda>c2. (Inr C_ok, c2)) (remove_entry key c1)))"

fun expire_all :: "timer_event list \<Rightarrow> cache \<Rightarrow> cache option" where
  "expire_all [] c = Some c"
| "expire_all (event # rest) c =
     (case find_entry (te_key event) c of
        None \<Rightarrow> expire_all rest c
      | Some se \<Rightarrow>
          (if se_generation se \<noteq> te_generation event then expire_all rest c
           else do {
             c' \<leftarrow> remove_entry (te_key event) c;
             expire_all rest (c'\<lparr>expired_count := expired_count c' + 1\<rparr>)
           }))"

definition cache_tick :: "cache \<Rightarrow> ((exn + unit) \<times> cache) option" where
  "cache_tick c =
     (case wheel_tick (wheel c) (c_heap c) of
        (Inl x, w, h) \<Rightarrow> Some (Inl x, c\<lparr>wheel := w, c_heap := h\<rparr>)
      | (Inr events, w, h) \<Rightarrow>
          map_option (\<lambda>c'. (Inr (), c')) (expire_all events (c\<lparr>wheel := w, c_heap := h\<rparr>)))"

definition cache_size :: "cache \<Rightarrow> u64" where
  "cache_size c = of_nat (length (entries c))"

definition cache_empty :: "cache \<Rightarrow> bool" where
  "cache_empty c \<longleftrightarrow> entries c = []"

definition allocator_metrics :: "cache \<Rightarrow> value_allocator_metrics" where
  "allocator_metrics c = va_metrics (c_allocator c)"

text \<open>
  The implicit destructor: the members go in reverse order, so the entries give their values
  back while the allocator, which the cache refers to, still exists.
\<close>

definition destroy_cache :: "cache \<Rightarrow> (value_allocator \<times> heap) option" where
  "destroy_cache c = destroy_entries (map (se_entry \<circ> snd) (entries c)) (c_allocator c) (c_heap c)"

end
