(* ===== verification/Lru_Spec.thy ===== *)
theory Lru_Spec
  imports Free_Store
begin

text \<open>
  The abstract specification of the cache: a list of items, the most recently used one
  first, each with its value and the number of ticks it still has to live. Eviction is
  the longest prefix that fits, and time passes by counting down.
\<close>

section \<open>Definitions\<close>

type_synonym lru_item = "bytes \<times> bytes \<times> nat option"

definition item_charge :: "lru_item \<Rightarrow> nat" where
  "item_charge x = length (fst x) + length (fst (snd x))"

abbreviation total_charge :: "lru_item list \<Rightarrow> nat" where
  "total_charge xs \<equiv> sum_list (map item_charge xs)"

text \<open>The longest prefix whose total charge is at most \<open>room\<close>.\<close>

fun fit :: "('a \<Rightarrow> nat) \<Rightarrow> nat \<Rightarrow> 'a list \<Rightarrow> 'a list" where
  "fit f room [] = []"
| "fit f room (x # xs) = (if f x \<le> room then x # fit f (room - f x) xs else [])"

definition lru_remove :: "bytes \<Rightarrow> lru_item list \<Rightarrow> lru_item list" where
  "lru_remove k xs = filter (\<lambda>x. fst x \<noteq> k) xs"

definition lru_touch :: "bytes \<Rightarrow> lru_item list \<Rightarrow> lru_item list" where
  "lru_touch k xs =
     (case map_of xs k of None \<Rightarrow> xs | Some vt \<Rightarrow> (k, vt) # lru_remove k xs)"

definition lru_set ::
    "nat \<Rightarrow> bytes \<Rightarrow> bytes \<Rightarrow> nat option \<Rightarrow> lru_item list \<Rightarrow> lru_item list" where
  "lru_set cap k v t xs =
     (k, v, t) # fit item_charge (cap - (length k + length v)) (lru_remove k xs)"

definition lru_tick :: "lru_item list \<Rightarrow> lru_item list" where
  "lru_tick xs =
     map (\<lambda>(k, v, t). (k, v, map_option (\<lambda>d. d - 1) t)) (filter (\<lambda>(k, v, t). t \<noteq> Some 1) xs)"

section \<open>The longest prefix that fits\<close>

lemma fit_prefix: "\<exists>n. fit f room xs = take n xs"
proof (induction xs arbitrary: room)
  case (Cons x xs)
  from Cons.IH obtain n where "fit f (room - f x) xs = take n xs" by blast
  then have "fit f room (x # xs) = take (if f x \<le> room then Suc n else 0) (x # xs)" by simp
  then show ?case by blast
qed simp

lemma fit_sum: "(\<Sum>x\<leftarrow>fit f room xs. f x) \<le> room"
proof (induction xs arbitrary: room)
  case (Cons x xs)
  show ?case using Cons.IH [of "room - f x"] by auto
qed simp

lemma fit_all: "(\<Sum>x\<leftarrow>xs. f x) \<le> room \<Longrightarrow> fit f room xs = xs"
  by (induction xs arbitrary: room) auto

lemma fit_snoc: "(\<Sum>x\<leftarrow>xs @ [y]. f x) > room \<Longrightarrow> fit f room (xs @ [y]) = fit f room xs"
  by (induction xs arbitrary: room) auto

lemma fit_maximal:
  assumes "n \<le> length xs" and "(\<Sum>x\<leftarrow>take n xs. f x) \<le> room"
  shows "n \<le> length (fit f room xs)"
  using assms
proof (induction xs arbitrary: n room)
  case (Cons x xs)
  then show ?case by (cases n) (auto simp: le_diff_conv2)
qed simp

lemma fit_map: "fit f room (map g xs) = map g (fit (f \<circ> g) room xs)"
  by (induction xs arbitrary: room) auto

lemma fit_cong: "(\<And>x. x \<in> set xs \<Longrightarrow> f x = g x) \<Longrightarrow> fit f room xs = fit g room xs"
  by (induction xs arbitrary: room) auto

lemma set_fit: "set (fit f room xs) \<subseteq> set xs"
  using fit_prefix [of f room xs] set_take_subset by fastforce

lemma distinct_map_fit: "distinct (map g xs) \<Longrightarrow> distinct (map g (fit f room xs))"
  using fit_prefix [of f room xs] by (metis distinct_take take_map)

section \<open>Lookup in the abstract cache\<close>

lemma map_of_fit: "map_of (fit f room xs) k = Some v \<Longrightarrow> distinct (map fst xs) \<Longrightarrow> map_of xs k = Some v"
  using set_fit [of f room xs] by (metis distinct_map_fit map_of_SomeD map_of_is_SomeI subsetD)

lemma lru_touch_lookup: "map_of (lru_touch k xs) = map_of xs"
  by (auto simp: lru_touch_def lru_remove_def map_of_filter_neq fun_eq_iff split: option.splits)

lemma lru_set_lookup_same: "map_of (lru_set cap k v t xs) k = Some (v, t)"
  by (simp add: lru_set_def)

lemma lru_set_lookup_other:
  assumes "distinct (map fst xs)" and "j \<noteq> k" and "map_of (lru_set cap k v t xs) j = Some w"
  shows "map_of xs j = Some w"
proof -
  have "map_of (fit item_charge (cap - (length k + length v)) (lru_remove k xs)) j = Some w"
    using assms(2,3) by (simp add: lru_set_def)
  then have "map_of (lru_remove k xs) j = Some w"
    using map_of_fit filter_fst_distinct [OF assms(1)] by (metis lru_remove_def)
  then show ?thesis using assms(2) by (simp add: lru_remove_def map_of_filter_neq)
qed

lemma lru_set_charge:
  assumes "length k + length v \<le> cap"
  shows "total_charge (lru_set cap k v t xs) \<le> cap"
  using fit_sum [of item_charge "cap - (length k + length v)" "lru_remove k xs"] assms
  by (simp add: lru_set_def item_charge_def [of "(k, v, t)"])

lemma lru_remove_lookup: "map_of (lru_remove k xs) = (map_of xs)(k := None)"
  by (simp add: lru_remove_def map_of_filter_neq)

text \<open>One tick: an item in its last tick disappears, all others count down.\<close>

lemma lru_tick_lookup:
  assumes "distinct (map fst xs)"
  shows "map_of (lru_tick xs) k =
     (case map_of xs k of
        None \<Rightarrow> None
      | Some (v, None) \<Rightarrow> Some (v, None)
      | Some (v, Some d) \<Rightarrow> if d = 1 then None else Some (v, Some (d - 1)))"
  using assms
proof (induction xs)
  case (Cons x xs)
  obtain j v t where x: "x = (j, v, t)" by (cases x)
  have tick: "lru_tick (x # xs) =
    (if t = Some 1 then lru_tick xs else (j, v, map_option (\<lambda>d. d - 1) t) # lru_tick xs)"
    by (simp add: lru_tick_def x)
  show ?case
  proof (cases "k = j")
    case True
    with Cons.prems x have "map_of xs k = None" by (simp add: map_of_eq_None_iff)
    with Cons True x tick show ?thesis by (auto split: option.splits)
  next
    case False
    with Cons x tick show ?thesis by simp
  qed
qed (simp add: lru_tick_def)

lemma lru_tick_charge: "total_charge (lru_tick xs) \<le> total_charge xs"
  by (induction xs) (auto simp: lru_tick_def item_charge_def)

end
