(* ===== verification/Cache_Invariant.thy ===== *)
theory Cache_Invariant
  imports Cache Lru_Spec
begin

text \<open>
  The representation invariant of the cache and what the private helpers do to it. The
  recency list and the map are two views of the same entries; \<open>items\<close> puts them
  together as one list in recency order, over which the ownership of memory, the
  accounting of charges and the timers are stated.
\<close>

section \<open>The recency list and the map\<close>

declare map_of_eq_Some_iff [simp del] Some_eq_map_of_iff [simp del]

lemma image_filter_neq: "f ` {x \<in> A. f x \<noteq> y} = f ` A - {y}"
  by auto

definition links_ok :: "nat \<Rightarrow> (nat \<times> bytes) list \<Rightarrow> (bytes \<times> stored_entry) list \<Rightarrow> bool" where
  "links_ok n rs es \<longleftrightarrow>
     distinct (map fst rs) \<and> distinct (map snd rs) \<and> distinct (map fst es) \<and>
     snd ` set rs = fst ` set es \<and>
     (\<forall>(p, k) \<in> set rs. p < n \<and> (\<exists>se. map_of es k = Some se \<and> recency_position se = p))"

definition ordered :: "(nat \<times> bytes) list \<Rightarrow> (bytes \<times> stored_entry) list \<Rightarrow> (bytes \<times> stored_entry) list" where
  "ordered rs es = map (\<lambda>(p, k). (k, the (map_of es k))) rs"

lemma ordered_Nil [simp]: "ordered [] es = []"
  by (simp add: ordered_def)

lemma map_fst_ordered [simp]: "map fst (ordered rs es) = map snd rs"
  by (auto simp: ordered_def)

lemma links_node:
  "links_ok n rs es \<Longrightarrow> (p, k) \<in> set rs \<Longrightarrow>
     p < n \<and> (\<exists>se. map_of es k = Some se \<and> recency_position se = p)"
  by (auto simp: links_ok_def)

lemma links_position:
  assumes "links_ok n rs es" and "map_of es k = Some se"
  shows "(recency_position se, k) \<in> set rs"
proof -
  have "k \<in> snd ` set rs"
    using assms(1) map_of_SomeD [OF assms(2)] unfolding links_ok_def by force
  then obtain p where p: "(p, k) \<in> set rs" by force
  with links_node [OF assms(1) p] assms(2) show ?thesis by auto
qed

lemma map_of_ordered:
  assumes "links_ok n rs es"
  shows "map_of (ordered rs es) k = map_of es k"
proof (cases "map_of es k")
  case None
  then have "k \<notin> snd ` set rs" using assms by (simp add: links_ok_def map_of_eq_None_iff)
  then have "k \<notin> fst ` set (ordered rs es)" by (force simp: ordered_def)
  then have "map_of (ordered rs es) k = None" by (simp add: map_of_eq_None_iff)
  with None show ?thesis by simp
next
  case (Some se)
  have "(k, se) \<in> set (ordered rs es)"
    using links_position [OF assms Some] Some by (force simp: ordered_def)
  moreover have "distinct (map fst (ordered rs es))" using assms by (simp add: links_ok_def)
  ultimately show ?thesis using Some by (simp add: map_of_is_SomeI)
qed

text \<open>Dropping the node an entry points at is dropping the node with its key.\<close>

lemma filter_node:
  assumes "links_ok n rs es" and "map_of es k = Some se"
  shows "filter (\<lambda>x. fst x \<noteq> recency_position se) rs = filter (\<lambda>x. snd x \<noteq> k) rs"
proof (rule filter_cong [OF refl])
  fix x assume x: "x \<in> set rs"
  have in_rs: "(recency_position se, k) \<in> set rs" using assms by (rule links_position)
  have d: "distinct (map fst rs)" "distinct (map snd rs)" using assms(1) by (auto simp: links_ok_def)
  show "(fst x \<noteq> recency_position se) = (snd x \<noteq> k)"
    using distinct_fst_unique [OF d(1), of "fst x" "snd x" k]
      distinct_snd_unique [OF d(2), of "fst x" "snd x" "recency_position se"] x in_rs
    by (metis prod.collapse)
qed

lemma ordered_remove:
  assumes "links_ok n rs es" and "map_of es k = Some se"
  shows "ordered (filter (\<lambda>x. snd x \<noteq> k) rs) (filter (\<lambda>x. fst x \<noteq> k) es) =
         filter (\<lambda>x. fst x \<noteq> k) (ordered rs es)"
    and "links_ok n (filter (\<lambda>x. snd x \<noteq> k) rs) (filter (\<lambda>x. fst x \<noteq> k) es)"
proof -
  show "ordered (filter (\<lambda>x. snd x \<noteq> k) rs) (filter (\<lambda>x. fst x \<noteq> k) es) =
        filter (\<lambda>x. fst x \<noteq> k) (ordered rs es)"
    by (induction rs) (auto simp: ordered_def map_of_filter_neq)
  have "snd ` set rs = fst ` set es" using assms(1) by (simp add: links_ok_def)
  then have "snd ` {x \<in> set rs. snd x \<noteq> k} = fst ` {x \<in> set es. fst x \<noteq> k}"
    by (simp add: image_filter_neq)
  then show "links_ok n (filter (\<lambda>x. snd x \<noteq> k) rs) (filter (\<lambda>x. fst x \<noteq> k) es)"
    using assms(1) by (auto simp: links_ok_def filter_fst_distinct filter_snd_distinct map_of_filter_neq)
qed

lemma ordered_splice:
  assumes "links_ok n rs es" and "map_of es k = Some se"
  shows "ordered ((recency_position se, k) # filter (\<lambda>x. snd x \<noteq> k) rs) es =
         (k, se) # filter (\<lambda>x. fst x \<noteq> k) (ordered rs es)"
    and "links_ok n ((recency_position se, k) # filter (\<lambda>x. snd x \<noteq> k) rs) es"
proof -
  have "ordered (filter (\<lambda>x. snd x \<noteq> k) rs) es = filter (\<lambda>x. fst x \<noteq> k) (ordered rs es)"
    by (induction rs) (auto simp: ordered_def)
  then show "ordered ((recency_position se, k) # filter (\<lambda>x. snd x \<noteq> k) rs) es =
      (k, se) # filter (\<lambda>x. fst x \<noteq> k) (ordered rs es)"
    using assms(2) by (simp add: ordered_def)
  have in_rs: "(recency_position se, k) \<in> set rs" using assms by (rule links_position)
  then have "insert k (snd ` {x \<in> set rs. snd x \<noteq> k}) = snd ` set rs" by force
  moreover have "{x \<in> set rs. fst x \<noteq> recency_position se} = {x \<in> set rs. snd x \<noteq> k}"
    using filter_node [OF assms] by (metis set_filter)
  then have "recency_position se \<notin> fst ` {x \<in> set rs. snd x \<noteq> k}"
    by (simp flip: \<open>{x \<in> set rs. fst x \<noteq> recency_position se} = _\<close> add: image_filter_neq)
  ultimately show "links_ok n ((recency_position se, k) # filter (\<lambda>x. snd x \<noteq> k) rs) es"
    using assms in_rs
    by (auto simp: links_ok_def filter_fst_distinct filter_snd_distinct)
qed

lemma ordered_push:
  assumes "links_ok n rs es" and "map_of es k = None" and "recency_position se = n"
  shows "ordered ((n, k) # rs) ((k, se) # es) = (k, se) # ordered rs es"
    and "links_ok (Suc n) ((n, k) # rs) ((k, se) # es)"
proof -
  have k: "k \<notin> snd ` set rs" using assms(1,2) by (simp add: links_ok_def map_of_eq_None_iff)
  then show "ordered ((n, k) # rs) ((k, se) # es) = (k, se) # ordered rs es"
    by (force simp: ordered_def)
  have "n \<notin> fst ` set rs" using assms(1) by (force simp: links_ok_def)
  then show "links_ok (Suc n) ((n, k) # rs) ((k, se) # es)"
    using assms k unfolding links_ok_def by (force simp: less_Suc_eq)
qed

lemma links_relabel:
  assumes "links_ok n rs es" and fsts: "map fst es' = map fst es"
    and "\<And>p k. (p, k) \<in> set rs \<Longrightarrow> \<exists>se. map_of es' k = Some se \<and> recency_position se = p"
  shows "links_ok n rs es'"
proof -
  have "fst ` set es' = fst ` set es" using fsts by (metis list.set_map)
  with assms show ?thesis by (auto simp: links_ok_def)
qed

lemma map_of_update:
  "map_of (map (\<lambda>(k, se). (k, if k = key then f se else se)) es) k =
     (if k = key then map_option f (map_of es k) else map_of es k)"
  by (induction es) auto

lemma ordered_update:
  assumes "links_ok n rs es" and "\<And>se. recency_position (f se) = recency_position se"
  shows "ordered rs (map (\<lambda>(k, se). (k, if k = key then f se else se)) es) =
         map (\<lambda>(k, se). (k, if k = key then f se else se)) (ordered rs es)"
    and "links_ok n rs (map (\<lambda>(k, se). (k, if k = key then f se else se)) es)"
proof -
  let ?es = "map (\<lambda>(k, se). (k, if k = key then f se else se)) es"
  show "ordered rs ?es = map (\<lambda>(k, se). (k, if k = key then f se else se)) (ordered rs es)"
    unfolding ordered_def map_map
  proof (intro map_cong refl)
    fix x assume "x \<in> set rs"
    with links_node [OF assms(1), of "fst x" "snd x"] obtain se where "map_of es (snd x) = Some se"
      by auto
    then show "(case x of (p, k) \<Rightarrow> (k, the (map_of ?es k))) =
        ((\<lambda>(k, se). (k, if k = key then f se else se)) \<circ> (\<lambda>(p, k). (k, the (map_of es k)))) x"
      by (cases x) (auto simp: map_of_update)
  qed
  show "links_ok n rs ?es"
  proof (rule links_relabel [OF assms(1)])
    show "map fst ?es = map fst es" by auto
    show "\<exists>se. map_of ?es k = Some se \<and> recency_position se = p" if "(p, k) \<in> set rs" for p k
      using links_node [OF assms(1) that] assms(2) by (auto simp: map_of_update)
  qed
qed

section \<open>The invariant\<close>

definition items :: "cache \<Rightarrow> (bytes \<times> stored_entry) list" where
  "items c = ordered (recency c) (entries c)"

abbreviation item_entries :: "cache \<Rightarrow> cache_entry list" where
  "item_entries c \<equiv> map (se_entry \<circ> snd) (items c)"

definition item_size :: "bytes \<times> stored_entry \<Rightarrow> nat" where
  "item_size x = length (fst x) + entry_size (se_entry (snd x))"

text \<open>The ticks left until the timer of a generation fires, if it has one.\<close>

definition deadline :: "timing_wheel \<Rightarrow> u64 \<Rightarrow> nat option" where
  "deadline w g = map_of (map snd (pending w)) g"

definition limits_ok :: "bytes \<times> stored_entry \<Rightarrow> bool" where
  "limits_ok x \<longleftrightarrow> fst x \<noteq> [] \<and> length (fst x) \<le> max_key_length \<and>
     entry_size (se_entry (snd x)) \<le> max_value_length"

text \<open>
  A generation belongs to one call of \<^verbatim>\<open>set\<close>: no two timers share one, none is ahead of the
  source, and a timer that names the generation of a live entry also names its key.
\<close>

definition timers_ok :: "u64 \<Rightarrow> timing_wheel \<Rightarrow> (bytes \<times> stored_entry) list \<Rightarrow> bool" where
  "timers_ok source w xs \<longleftrightarrow>
     wheel_inv w \<and> distinct (map (fst \<circ> snd) (pending w)) \<and>
     (\<forall>(k, g, d) \<in> set (pending w). g \<le> source) \<and>
     (\<forall>(k, se) \<in> set xs. se_generation se \<le> source \<and>
        (\<forall>(j, g, d) \<in> set (pending w). g = se_generation se \<longrightarrow> j = k))"

definition cache_ok :: "cache_entry list \<Rightarrow> cache \<Rightarrow> bool" where
  "cache_ok tmp c \<longleftrightarrow>
     links_ok (next_node c) (recency c) (entries c) \<and>
     mem_inv (c_allocator c) (c_heap c) (tmp @ item_entries c) \<and>
     unat (memory_usage_bytes c) = sum_list (map item_size (items c)) \<and>
     memory_usage_bytes c \<le> capacity_bytes c \<and>
     timers_ok (generation_source c) (wheel c) (items c) \<and>
     (\<forall>x \<in> set (items c). limits_ok x)"

abbreviation cache_inv :: "cache \<Rightarrow> bool" where
  "cache_inv c \<equiv> cache_ok [] c"

definition counters :: "cache \<Rightarrow> u64 \<times> u64 \<times> u64 \<times> u64" where
  "counters c = (hit_count c, miss_count c, eviction_count c, expired_count c)"

text \<open>What a step that only touches memory and timers leaves as it was.\<close>

definition frame :: "cache_entry list \<Rightarrow> cache \<Rightarrow> cache \<Rightarrow> bool" where
  "frame tmp c c' \<longleftrightarrow>
     recency c' = recency c \<and> entries c' = entries c \<and> capacity_bytes c' = capacity_bytes c \<and>
     memory_usage_bytes c' = memory_usage_bytes c \<and> counters c' = counters c \<and>
     same_values (tmp @ item_entries c) (c_heap c) (c_heap c') \<and>
     (\<forall>x \<in> set (items c). deadline (wheel c') (se_generation (snd x)) =
        deadline (wheel c) (se_generation (snd x)))"

lemma frame_refl [simp]: "frame tmp c c"
  by (simp add: frame_def)

lemma frame_items: "frame tmp c c' \<Longrightarrow> items c' = items c"
  by (simp add: frame_def items_def)

lemma frame_find: "frame tmp c c' \<Longrightarrow> find_entry k c' = find_entry k c"
  by (simp add: frame_def find_entry_def)

lemma frame_trans:
  "frame tmp c c' \<Longrightarrow> frame tmp c' c'' \<Longrightarrow> frame tmp c c''"
  by (auto simp: frame_def items_def intro: same_values_trans)

lemma frame_mono: "frame tmp c c' \<Longrightarrow> set tmp' \<subseteq> set tmp \<Longrightarrow> frame tmp' c c'"
  by (auto simp: frame_def elim!: same_values_mono)

lemma cache_ok_mem:
  "cache_ok tmp c \<Longrightarrow> mem_inv (c_allocator c) (c_heap c) (tmp @ item_entries c)"
  by (simp add: cache_ok_def)

lemma find_entry_items: "cache_ok tmp c \<Longrightarrow> find_entry k c = map_of (items c) k"
  by (auto simp: cache_ok_def find_entry_def items_def intro: map_of_ordered [symmetric])

lemma items_distinct: "cache_ok tmp c \<Longrightarrow> distinct (map fst (items c))"
  by (simp add: cache_ok_def items_def links_ok_def)

lemma cache_ok_found:
  "cache_ok tmp c \<Longrightarrow> find_entry k c = Some se \<Longrightarrow> (k, se) \<in> set (items c)"
  by (simp add: find_entry_items map_of_SomeD)

section \<open>Allocations\<close>

lemma cache_alloc_frame:
  assumes "cache_ok tmp c" and "cache_alloc c = (r, c')"
  shows "cache_ok tmp c'" and "frame tmp c c'" and "r = Inl Bad_alloc \<or> r = Inr ()"
    and "wheel c' = wheel c" and "generation_source c' = generation_source c"
proof -
  obtain h where h: "container_alloc (c_heap c) = (r, h)" and c': "c' = c\<lparr>c_heap := h\<rparr>"
    using assms(2) by (auto simp: cache_alloc_def split: prod.splits)
  note mem = cache_ok_mem [OF assms(1)]
  note fields = container_alloc_fields [OF h]
  show "r = Inl Bad_alloc \<or> r = Inr ()" by (rule fields(4))
  have "items c' = items c" using c' by (simp add: items_def)
  with mem_inv_oom [OF mem fields(1-3)] assms(1) c'
  show "cache_ok tmp c'" and "frame tmp c c'"
    by (simp_all add: cache_ok_def frame_def counters_def)
  show "wheel c' = wheel c" "generation_source c' = generation_source c" using c' by simp_all
qed

lemma new_entry_cases:
  assumes "cache_ok tmp c"
  obtains (fail) c' where "new_entry v c = Some (Inl Bad_alloc, c')"
      and "cache_ok tmp c'" and "frame tmp c c'"
    | (ok) e c' where "new_entry v c = Some (Inr e, c')"
      and "cache_ok (e # tmp) c'" and "frame tmp c c'"
      and "entry_value (c_heap c') e = Some v" and "entry_size e = length v"
proof -
  note mem = cache_ok_mem [OF assms]
  let ?c = "\<lambda>al h. c\<lparr>c_allocator := al, c_heap := h\<rparr>"
  have items: "items (?c al h) = items c" for al h by (simp add: items_def)
  from mem show thesis
  proof (cases rule: make_entry_cases [where v = v])
    case (fail al h)
    with assms items that(1) [of "?c al h"] show thesis
      by (simp add: new_entry_def cache_ok_def frame_def counters_def)
  next
    case (ok e al h)
    with assms items that(2) [of e "?c al h"] show thesis
      by (simp add: new_entry_def cache_ok_def frame_def counters_def)
  qed
qed

lemma drop_entry_ok:
  assumes "cache_ok (e # tmp) c"
  shows "\<exists>c'. drop_entry e c = Some c' \<and> cache_ok tmp c' \<and> frame tmp c c' \<and>
           wheel c' = wheel c \<and> generation_source c' = generation_source c \<and> next_node c' = next_node c"
proof -
  have "mem_inv (c_allocator c) (c_heap c) (e # tmp @ item_entries c)"
    using assms by (simp add: cache_ok_def)
  from destroy_entry_result [OF this] obtain al h where
    "destroy_entry e (c_allocator c) (c_heap c) = Some (al, h)"
    and "mem_inv al h (tmp @ item_entries c)"
    and "same_values (tmp @ item_entries c) (c_heap c) h" by blast
  with assms show ?thesis
    by (auto simp: drop_entry_def cache_ok_def frame_def counters_def items_def)
qed

section \<open>Moving and removing entries\<close>

text \<open>A step that takes entries out, or reorders them, and leaves timers alone.\<close>

definition rearranged :: "cache_entry list \<Rightarrow> cache \<Rightarrow> cache \<Rightarrow> bool" where
  "rearranged tmp c c' \<longleftrightarrow>
     capacity_bytes c' = capacity_bytes c \<and> wheel c' = wheel c \<and>
     generation_source c' = generation_source c \<and>
     hit_count c' = hit_count c \<and> miss_count c' = miss_count c \<and>
     set (items c') \<subseteq> set (items c) \<and>
     same_values (tmp @ item_entries c') (c_heap c) (c_heap c')"

lemma rearranged_refl [simp]: "rearranged tmp c c"
  by (simp add: rearranged_def)

lemma rearranged_trans:
  assumes "rearranged tmp c c'" and "rearranged tmp c' c''"
  shows "rearranged tmp c c''"
proof -
  have "set (items c'') \<subseteq> set (items c')" using assms(2) by (simp add: rearranged_def)
  then have "set (tmp @ item_entries c'') \<subseteq> set (tmp @ item_entries c')" by auto
  then have "same_values (tmp @ item_entries c'') (c_heap c) (c_heap c')"
    using assms(1) same_values_mono unfolding rearranged_def by blast
  then show ?thesis using assms by (auto simp: rearranged_def intro: same_values_trans)
qed

lemma mset_remove_key:
  assumes "distinct (map fst xs)" and "map_of xs k = Some v"
  shows "mset xs = add_mset (k, v) (mset (filter (\<lambda>x. fst x \<noteq> k) xs))"
proof -
  have "mset xs = mset (filter (\<lambda>x. fst x = k) xs) + mset (filter (\<lambda>x. fst x \<noteq> k) xs)"
    unfolding mset_filter by (rule multiset_partition)
  then show ?thesis by (simp add: filter_key_singleton [OF assms])
qed

lemma timers_ok_subset: "timers_ok s w xs \<Longrightarrow> set ys \<subseteq> set xs \<Longrightarrow> timers_ok s w ys"
  unfolding timers_ok_def by blast

lemma unat_entry_charge [word_bounds]:
  assumes "m \<le> max_key_length" and "n \<le> max_value_length"
  shows "unat (entry_charge m n) = m + n"
proof -
  have "unat (of_nat m :: u64) = m" "unat (of_nat n :: u64) = n"
    using assms by (auto intro!: unat_of_nat_u64)
  then show ?thesis using assms by (simp add: entry_charge_def unat_add_u64)
qed

lemma unat_item_charge:
  "cache_ok tmp c \<Longrightarrow> find_entry k c = Some se \<Longrightarrow>
     unat (entry_charge (length k) (entry_size (se_entry se))) = item_size (k, se)"
  using cache_ok_found [of tmp c k se]
  by (auto simp: cache_ok_def limits_ok_def item_size_def unat_entry_charge)

lemma item_size_le_memory:
  assumes "cache_ok tmp c" and "find_entry k c = Some se"
  shows "item_size (k, se) \<le> unat (memory_usage_bytes c)"
  using assms cache_ok_found [OF assms] by (auto simp: cache_ok_def intro: member_le_sum_list)

lemma remove_entry_ok:
  assumes ok: "cache_ok tmp c" and find: "find_entry k c = Some se"
  shows "\<exists>c'. remove_entry k c = Some c' \<and> cache_ok tmp c' \<and> rearranged tmp c c' \<and>
           items c' = filter (\<lambda>x. fst x \<noteq> k) (items c) \<and> counters c' = counters c"
proof -
  let ?c = "c\<lparr>memory_usage_bytes := memory_usage_bytes c - entry_charge (length k) (entry_size (se_entry se)),
              recency := filter (\<lambda>x. fst x \<noteq> recency_position se) (recency c),
              entries := filter (\<lambda>x. fst x \<noteq> k) (entries c)\<rparr>"
  have links: "links_ok (next_node c) (recency c) (entries c)"
    using ok by (simp add: cache_ok_def)
  have es: "map_of (entries c) k = Some se" using find by (simp add: find_entry_def)
  have mo: "map_of (items c) k = Some se" using find find_entry_items [OF ok] by simp
  note nodes = filter_node [OF links es] and rem = ordered_remove [OF links es]
  have items: "items ?c = filter (\<lambda>x. fst x \<noteq> k) (items c)"
    using rem(1) by (simp add: items_def nodes)
  have perm: "mset (items c) = add_mset (k, se) (mset (items ?c))"
    unfolding items using mset_remove_key [OF items_distinct [OF ok] mo] .
  then have "mset (item_entries c) = add_mset (se_entry se) (mset (item_entries ?c))"
    by simp
  then have mem: "mem_inv (c_allocator c) (c_heap c) (se_entry se # tmp @ item_entries ?c)"
    by (intro mem_inv_perm [OF cache_ok_mem [OF ok]]) simp
  have total: "sum_list (map item_size (items c)) = item_size (k, se) + sum_list (map item_size (items ?c))"
    unfolding items by (rule sum_list_remove_key [OF items_distinct [OF ok] mo])
  have usage: "unat (memory_usage_bytes ?c) = sum_list (map item_size (items ?c))"
    using ok total unat_item_charge [OF ok find] by (simp add: cache_ok_def unat_sub_u64)
  have sub: "set (items ?c) \<subseteq> set (items c)" by (auto simp: items)
  have "unat (memory_usage_bytes ?c) \<le> unat (memory_usage_bytes c)"
    using usage total ok by (simp add: cache_ok_def)
  then have "cache_ok (se_entry se # tmp) ?c"
    using ok mem usage rem(2) sub timers_ok_subset [OF _ sub]
    by (auto simp: cache_ok_def nodes word_le_nat_alt)
  from drop_entry_ok [OF this] obtain c' where
    c': "drop_entry (se_entry se) ?c = Some c'" "cache_ok tmp c'" "frame tmp ?c c'"
      "wheel c' = wheel c" "generation_source c' = generation_source c" by auto
  have "recency_position se \<in> fst ` set (recency c)" using links_position [OF links es] by force
  then have "remove_entry k c = Some c'" using c'(1) find by (simp add: remove_entry_def Let_def)
  moreover have "items c' = items ?c" using c'(3) by (rule frame_items)
  ultimately show ?thesis
    using c' items sub by (auto simp: rearranged_def frame_def counters_def)
qed

lemma mark_mru_ok:
  assumes ok: "cache_ok tmp c" and find: "find_entry k c = Some se"
  shows "\<exists>c'. mark_mru k c = Some c' \<and> cache_ok tmp c' \<and> rearranged tmp c c' \<and>
           items c' = (k, se) # filter (\<lambda>x. fst x \<noteq> k) (items c) \<and> counters c' = counters c \<and>
           memory_usage_bytes c' = memory_usage_bytes c \<and> c_heap c' = c_heap c"
proof -
  have links: "links_ok (next_node c) (recency c) (entries c)"
    using ok by (simp add: cache_ok_def)
  have es: "map_of (entries c) k = Some se" using find by (simp add: find_entry_def)
  have mo: "map_of (items c) k = Some se" using find find_entry_items [OF ok] by simp
  note nodes = filter_node [OF links es] and spl = ordered_splice [OF links es]
  let ?rs = "(recency_position se, k) # filter (\<lambda>x. snd x \<noteq> k) (recency c)"
  let ?c = "c\<lparr>recency := ?rs\<rparr>"
  have node: "map_of (recency c) (recency_position se) = Some k"
    using links links_position [OF links es] by (simp add: links_ok_def map_of_is_SomeI)
  have "update_entry k (\<lambda>s. s\<lparr>recency_position := recency_position se\<rparr>) ?c = ?c"
  proof -
    have "map (\<lambda>(j, s). (j, if j = k then s\<lparr>recency_position := recency_position se\<rparr> else s)) (entries c)
        = entries c"
    proof (rule map_idI)
      fix x assume x: "x \<in> set (entries c)"
      have "fst x = k \<Longrightarrow> snd x = se"
        using x links distinct_fst_unique [of "entries c" k "snd x" se] map_of_SomeD [OF es]
        by (cases x) (auto simp: links_ok_def)
      then show "(case x of (j, s) \<Rightarrow> (j, if j = k then s\<lparr>recency_position := recency_position se\<rparr> else s)) = x"
        by (cases x) auto
    qed
    then show ?thesis by (simp add: update_entry_def)
  qed
  then have run: "mark_mru k c = Some ?c"
    using find node by (simp add: mark_mru_def Let_def nodes)
  have items: "items ?c = (k, se) # filter (\<lambda>x. fst x \<noteq> k) (items c)"
    using spl(1) by (simp add: items_def)
  have perm: "mset (items ?c) = mset (items c)"
    unfolding items using mset_remove_key [OF items_distinct [OF ok] mo] by simp
  then have "mset (item_entries ?c) = mset (item_entries c)" by simp
  then have mem: "mem_inv (c_allocator c) (c_heap c) (tmp @ item_entries ?c)"
    by (intro mem_inv_perm [OF cache_ok_mem [OF ok]]) simp
  have "sum_list (map item_size (items ?c)) = sum_list (map item_size (items c))"
    by (simp flip: sum_mset_sum_list add: perm)
  moreover have set: "set (items ?c) = set (items c)" using perm by (rule mset_eq_setD)
  ultimately have "cache_ok tmp ?c"
    using ok mem spl(2) timers_ok_subset [of _ _ "items c" "items ?c"] by (auto simp: cache_ok_def)
  then show ?thesis
    using run items set by (auto simp: rearranged_def counters_def)
qed

section \<open>Eviction\<close>

lemma evict_lru_ok:
  assumes ok: "cache_ok tmp c" and last: "items c = xs @ [x]"
  shows "\<exists>c'. evict_lru c = Some c' \<and> cache_ok tmp c' \<and> rearranged tmp c c' \<and> items c' = xs \<and>
           eviction_count c' = eviction_count c + 1 \<and> expired_count c' = expired_count c"
proof -
  have keys: "map snd (recency c) = map fst xs @ [fst x]"
    using last map_fst_ordered [of "recency c" "entries c"] by (simp add: items_def)
  then have ne: "recency c \<noteq> []" by auto
  with keys have lru: "snd (last (recency c)) = fst x"
    by (metis last_map last_snoc)
  have dist: "distinct (map fst (xs @ [x]))" using items_distinct [OF ok] last by simp
  have find: "find_entry (fst x) c = Some (snd x)"
    unfolding find_entry_items [OF ok] last using dist by (intro map_of_is_SomeI) auto
  from remove_entry_ok [OF ok find] obtain c' where
    c': "remove_entry (fst x) c = Some c'" "cache_ok tmp c'" "rearranged tmp c c'"
      "items c' = filter (\<lambda>y. fst y \<noteq> fst x) (items c)" "counters c' = counters c" by blast
  let ?c = "c'\<lparr>eviction_count := eviction_count c' + 1\<rparr>"
  have "filter (\<lambda>y. fst y \<noteq> fst x) (items c) = xs"
    unfolding last using dist by (auto simp: filter_id_conv image_iff)
  moreover have "items ?c = items c'" by (simp add: items_def)
  ultimately show ?thesis
    using c' find ne lru
    by (auto simp: evict_lru_def cache_ok_def rearranged_def counters_def)
qed

text \<open>
  Both eviction loops: they return, and what is left is the protected front part and the
  longest prefix of the rest that fits into the room.
\<close>

lemma evict_while_ok:
  assumes "cache_ok tmp c" and "items c = keep @ rest"
    and "unat credit = sum_list (map item_size keep)"
  shows "\<exists>c'. evict_while credit room c = Some c' \<and> cache_ok tmp c' \<and> rearranged tmp c c' \<and>
           items c' = keep @ fit item_size (unat room) rest \<and>
           eviction_count c' =
             eviction_count c + of_nat (length rest - length (fit item_size (unat room) rest)) \<and>
           expired_count c' = expired_count c"
  using assms(1,2)
proof (induction rest arbitrary: c rule: rev_induct)
  case (Nil c)
  then have "memory_usage_bytes c - credit = 0"
    using assms(3) word_unat_eq_iff [of "memory_usage_bytes c" credit] by (simp add: cache_ok_def)
  with Nil show ?case by (subst evict_while.simps) simp
next
  case (snoc y ys c)
  have "unat (memory_usage_bytes c - credit) = sum_list (map item_size (ys @ [y]))"
    using snoc.prems assms(3) by (simp add: cache_ok_def unat_sub_u64)
  then have cond: "memory_usage_bytes c - credit > room \<longleftrightarrow>
      unat room < sum_list (map item_size (ys @ [y]))"
    by (simp add: word_less_nat_alt)
  show ?case
  proof (cases "memory_usage_bytes c - credit > room")
    case False
    then have "fit item_size (unat room) (ys @ [y]) = ys @ [y]" using cond by (intro fit_all) simp
    with False snoc.prems show ?thesis by (subst evict_while.simps) simp
  next
    case True
    have "items c = (keep @ ys) @ [y]" using snoc.prems by simp
    from evict_lru_ok [OF snoc.prems(1) this] obtain c1 where
      c1: "evict_lru c = Some c1" "cache_ok tmp c1" "rearranged tmp c c1" "items c1 = keep @ ys"
        "eviction_count c1 = eviction_count c + 1" "expired_count c1 = expired_count c" by blast
    from snoc.IH [OF c1(2,4)] obtain c2 where
      c2: "evict_while credit room c1 = Some c2" "cache_ok tmp c2" "rearranged tmp c1 c2"
        "items c2 = keep @ fit item_size (unat room) ys"
        "eviction_count c2 =
           eviction_count c1 + of_nat (length ys - length (fit item_size (unat room) ys))"
        "expired_count c2 = expired_count c1" by blast
    have "fit item_size (unat room) (ys @ [y]) = fit item_size (unat room) ys"
      using True cond by (intro fit_snoc) simp
    moreover obtain n where "fit item_size (unat room) ys = take n ys" using fit_prefix by blast
    then have "length (fit item_size (unat room) ys) \<le> length ys" by simp
    moreover have "evict_while credit room c = Some c2"
      using True c1(1) c2(1) by (subst evict_while.simps) simp
    ultimately show ?thesis
      using c1 c2 rearranged_trans [OF c1(3) c2(3)] by (simp add: Suc_diff_le)
  qed
qed

section \<open>Generations and timers\<close>

definition ttl_deadline :: "u64 \<Rightarrow> nat option" where
  "ttl_deadline ttl = (if sint ttl > 0 then Some (unat (ttl_ticks ttl)) else None)"

text \<open>A generation newly drawn for a key: only a timer of this key may carry it.\<close>

definition drawn_for :: "bytes \<Rightarrow> u64 \<Rightarrow> nat option \<Rightarrow> cache \<Rightarrow> bool" where
  "drawn_for k g t c \<longleftrightarrow>
     g \<le> generation_source c \<and> deadline (wheel c) g = t \<and>
     (\<forall>(j, g', d) \<in> set (pending (wheel c)). g' = g \<longrightarrow> j = k)"

lemma sint_pos_unat: "sint (ttl :: u64) > 0 \<Longrightarrow> 0 < unat ttl"
  by (rule ccontr) (simp add: unat_eq_zero)

lemma deadline_mset:
  assumes "mset (pending w') = add_mset (k, g, d) (mset (pending w))"
    and "g \<notin> (fst \<circ> snd) ` set (pending w)" and "distinct (map (fst \<circ> snd) (pending w))"
  shows "deadline w' = (deadline w)(g \<mapsto> d)" and "distinct (map (fst \<circ> snd) (pending w'))"
proof -
  have "mset (map (fst \<circ> snd) (pending w')) = mset (g # map (fst \<circ> snd) (pending w))"
    using assms(1) by simp
  moreover have "distinct (g # map (fst \<circ> snd) (pending w))" using assms(2,3) by simp
  ultimately show dist: "distinct (map (fst \<circ> snd) (pending w'))"
    using mset_eq_imp_distinct_iff by blast
  have "map_of (map snd (pending w')) = map_of ((g, d) # map snd (pending w))"
  proof (subst map_of_inject_set)
    show "distinct (map fst (map snd (pending w')))" using dist by simp
    show "distinct (map fst ((g, d) # map snd (pending w)))" using assms(2,3) by (simp add: image_comp)
    have "set (pending w') = insert (k, g, d) (set (pending w))"
      using arg_cong [OF assms(1), of set_mset] by simp
    then show "set (map snd (pending w')) = set ((g, d) # map snd (pending w))" by simp
  qed
  then show "deadline w' = (deadline w)(g \<mapsto> d)" by (auto simp: deadline_def fun_eq_iff)
qed


lemma timers_ok_later:
  assumes "timers_ok s w xs" and "s \<le> s'"
  shows "timers_ok s' w xs"
  using assms unfolding timers_ok_def by (auto intro: order_trans)

lemma next_generation_fresh:
  assumes "cache_ok tmp c" and "next_generation c = (Inr g, c')"
  shows "c' = c\<lparr>generation_source := g\<rparr>" and "generation_source c < g"
    and "g \<notin> (fst \<circ> snd) ` set (pending (wheel c))"
    and "\<forall>x \<in> set (items c). se_generation (snd x) \<noteq> g"
proof -
  show c': "c' = c\<lparr>generation_source := g\<rparr>"
    using assms(2) by (auto simp: next_generation_def Let_def split: if_splits)
  have "generation_source c \<noteq> - 1" and g: "g = generation_source c + 1"
    using assms(2) by (auto simp: next_generation_def Let_def split: if_splits)
  then show less: "generation_source c < g"
    using inc_less_eq_self_iff_eq [of "generation_source c"] by (simp add: not_le)
  have t: "timers_ok (generation_source c) (wheel c) (items c)"
    using assms(1) by (simp add: cache_ok_def)
  show "g \<notin> (fst \<circ> snd) ` set (pending (wheel c))"
    using t less by (force simp: timers_ok_def)
  show "\<forall>x \<in> set (items c). se_generation (snd x) \<noteq> g"
    using t less by (force simp: timers_ok_def)
qed


lemma schedule_ok:
  assumes ok: "cache_ok tmp c" and fresh: "g \<notin> (fst \<circ> snd) ` set (pending (wheel c))"
    and unused: "\<forall>x \<in> set (items c). se_generation (snd x) \<noteq> g"
    and g: "g \<le> generation_source c" and ttl: "sint ttl > 0"
    and s: "schedule k g ttl (wheel c) (c_heap c) = (r, w, h)"
    and c': "c' = c\<lparr>wheel := w, c_heap := h\<rparr>"
  shows "cache_ok tmp c'" and "frame tmp c c'" and "\<And>x. r = Inl x \<Longrightarrow> x = Bad_alloc"
    and "\<And>u. r = Inr u \<Longrightarrow> drawn_for k g (ttl_deadline ttl) c'"
proof -
  have heap: "next_block h = next_block (c_heap c)" "blocks h = blocks (c_heap c)"
    "cells h = cells (c_heap c)" using wheel.sched_heap [OF s] by auto
  note mem = mem_inv_oom [OF cache_ok_mem [OF ok] heap]
  have timers: "timers_ok (generation_source c) (wheel c) (items c)"
    using ok by (simp add: cache_ok_def)
  have items: "items c' = items c" using c' by (simp add: items_def)
  show fail: "x = Bad_alloc" if "r = Inl x" for x using wheel.sched_fail s that by blast
  consider (fail) x where "r = Inl x" | (ok) u where "r = Inr u" by (cases r)
  then have "cache_ok tmp c' \<and> frame tmp c c' \<and> (\<forall>u. r = Inr u \<longrightarrow> drawn_for k g (ttl_deadline ttl) c')"
  proof cases
    case fail
    then have "w = wheel c" using wheel.sched_fail s by blast
    with ok mem c' items fail show ?thesis by (simp add: cache_ok_def frame_def counters_def)
  next
    case (ok u)
    from wheel.sched_ok [OF _ sint_pos_unat [OF ttl], of "wheel c" k g "c_heap c"] s ok timers
    have w: "wheel_inv w"
      "mset (pending w) = add_mset (k, g, unat (ttl_ticks ttl)) (mset (pending (wheel c)))"
      by (auto simp: timers_ok_def)
    note dl = deadline_mset [OF w(2) fresh]
    have set: "set (pending w) = insert (k, g, unat (ttl_ticks ttl)) (set (pending (wheel c)))"
      using arg_cong [OF w(2), of set_mset] by simp
    have "timers_ok (generation_source c) w (items c)"
      using timers w(1) dl(2) g unused unfolding timers_ok_def set by fastforce
    moreover have "drawn_for k g (ttl_deadline ttl) c'"
      using c' g ttl dl(1) timers fresh
      by (auto simp: drawn_for_def set ttl_deadline_def timers_ok_def image_iff)
    ultimately show ?thesis
      using assms(1) mem c' items dl(1) unused timers
      by (auto simp: cache_ok_def frame_def counters_def timers_ok_def)
  qed
  then show "cache_ok tmp c'" "frame tmp c c'"
    "\<And>u. r = Inr u \<Longrightarrow> drawn_for k g (ttl_deadline ttl) c'" by auto
qed

lemma next_timer_ok:
  assumes ok: "cache_ok tmp c" and t: "next_timer k ttl c = (r, c')"
  shows "cache_ok tmp c'" and "frame tmp c c'"
    and "\<And>x. r = Inl x \<Longrightarrow> x = Bad_alloc \<or> x = Overflow_error ''cache entry generation exhausted''"
    and "\<And>g. r = Inr g \<Longrightarrow> drawn_for k g (ttl_deadline ttl) c'"
proof -
  let ?goal = "cache_ok tmp c' \<and> frame tmp c c' \<and>
    (\<forall>x. r = Inl x \<longrightarrow> x = Bad_alloc \<or> x = Overflow_error ''cache entry generation exhausted'') \<and>
    (\<forall>g. r = Inr g \<longrightarrow> drawn_for k g (ttl_deadline ttl) c')"
  have ?goal
  proof (cases "next_generation c")
    case (Pair ng c1)
    show ?thesis
    proof (cases ng)
      case (Inl x)
      with t Pair ok show ?thesis
        by (auto simp: next_timer_def next_generation_def Let_def split: if_splits)
    next
      case (Inr g)
      note fresh = next_generation_fresh [OF ok Pair [unfolded Inr]]
      have items1: "items c1 = items c" using fresh(1) by (simp add: items_def)
      have "timers_ok g (wheel c) (items c)"
        using ok timers_ok_later [OF _ less_imp_le [OF fresh(2)]] by (auto simp: cache_ok_def)
      then have ok1: "cache_ok tmp c1" using ok fresh(1) items1 by (simp add: cache_ok_def)
      have frame1: "frame tmp c c1" using fresh(1) by (simp add: frame_def counters_def)
      show ?thesis
      proof (cases "sint ttl > 0")
        case False
        have "drawn_for k g None c1"
          using fresh(1,3) by (auto simp: drawn_for_def deadline_def map_of_eq_None_iff image_comp image_iff)
        with False t Pair Inr ok1 frame1 show ?thesis
          by (auto simp: next_timer_def ttl_deadline_def)
      next
        case True
        obtain ra c2 where al: "cache_alloc c1 = (ra, c2)" by fastforce
        note a = cache_alloc_frame [OF ok1 al]
        have frame2: "frame tmp c c2" using frame_trans [OF frame1 a(2)] .
        show ?thesis
        proof (cases ra)
          case (Inl x)
          with True t Pair \<open>ng = Inr g\<close> al a(1,3) frame2 show ?thesis by (auto simp: next_timer_def)
        next
          case (Inr u)
          obtain rs w h where s: "schedule k g ttl (wheel c2) (c_heap c2) = (rs, w, h)"
            using prod_cases3 by blast
          have same: "wheel c2 = wheel c" "items c2 = items c" "g \<le> generation_source c2"
            using a(4,5) fresh(1) frame_items [OF frame2] by simp_all
          note sc = schedule_ok [OF a(1) _ _ same(3) True s refl, unfolded same(1,2), OF fresh(3,4)]
          have "c' = c2\<lparr>wheel := w, c_heap := h\<rparr>" and "\<And>x. rs = Inl x \<Longrightarrow> r = Inl x"
            and "\<And>v. rs = Inr v \<Longrightarrow> r = Inr g"
            using True t Pair \<open>ng = Inr g\<close> al Inr s by (auto simp: next_timer_def split: sum.splits)
          then show ?thesis using sc frame_trans [OF frame2] by (cases rs) auto
        qed
      qed
    qed
  qed
  then show "cache_ok tmp c'" "frame tmp c c'"
    "\<And>x. r = Inl x \<Longrightarrow> x = Bad_alloc \<or> x = Overflow_error ''cache entry generation exhausted''"
    "\<And>g. r = Inr g \<Longrightarrow> drawn_for k g (ttl_deadline ttl) c'" by auto
qed

end
