(* ===== verification/Cache_Correct.thy ===== *)
theory Cache_Correct
  imports Cache_Invariant
begin

text \<open>
  The public operations of the cache refine the abstract timed LRU cache: each of them is
  defined and keeps the invariant, whatever allocation fails in it, and changes the
  abstract contents exactly as specified.
\<close>

section \<open>The abstract contents of a cache\<close>

definition view_item :: "heap \<Rightarrow> timing_wheel \<Rightarrow> bytes \<times> stored_entry \<Rightarrow> lru_item" where
  "view_item h w x =
     (fst x, the (entry_value h (se_entry (snd x))), deadline w (se_generation (snd x)))"

definition view :: "cache \<Rightarrow> lru_item list" where
  "view c = map (view_item (c_heap c) (wheel c)) (items c)"

lemma map_fst_view [simp]: "map fst (view c) = map fst (items c)"
  by (simp add: view_def view_item_def)

lemma view_frame:
  assumes "frame tmp c c'"
  shows "view c' = view c"
proof -
  have "items c' = items c" using assms by (rule frame_items)
  with assms show ?thesis
    by (auto simp: view_def view_item_def frame_def same_values_def)
qed

lemma view_rearranged:
  assumes "rearranged tmp c c'"
  shows "view c' = map (view_item (c_heap c) (wheel c)) (items c')"
  using assms by (auto simp: view_def view_item_def rearranged_def same_values_def)

lemma those_length: "those xs = Some ys \<Longrightarrow> length ys = length xs"
  by (induction xs arbitrary: ys) (auto split: option.splits)

lemma entry_value_length: "entry_value h e = Some v \<Longrightarrow> length v = entry_size e"
  by (auto simp: entry_value_def load_bytes_def load_cells_def
      split: if_splits option.splits dest!: those_length)

lemma readable:
  assumes "cache_ok tmp c" and "x \<in> set (items c)"
  shows "\<exists>v. entry_value (c_heap c) (se_entry (snd x)) = Some v \<and> length v = entry_size (se_entry (snd x))"
proof -
  have "se_entry (snd x) \<in> set (tmp @ item_entries c)" using assms(2) by auto
  then have "entry_value (c_heap c) (se_entry (snd x)) \<noteq> None"
    using cache_ok_mem [OF assms(1)] unfolding mem_inv_def by blast
  then show ?thesis using entry_value_length by blast
qed

lemma charge_view_item:
  assumes "cache_ok tmp c" and "x \<in> set (items c)"
  shows "item_charge (view_item (c_heap c) w x) = item_size x"
  using readable [OF assms] by (auto simp: item_charge_def view_item_def item_size_def)

lemma view_filter:
  "map (view_item h w) (filter (\<lambda>x. fst x \<noteq> k) xs) = lru_remove k (map (view_item h w) xs)"
  by (induction xs) (auto simp: lru_remove_def view_item_def)

lemma view_fit:
  assumes "cache_ok tmp c" and "set xs \<subseteq> set (items c)"
  shows "map (view_item (c_heap c) w) (fit item_size n xs) =
         fit item_charge n (map (view_item (c_heap c) w) xs)"
proof -
  have "fit item_size n xs = fit (item_charge \<circ> view_item (c_heap c) w) n xs"
    using charge_view_item [OF assms(1)] assms(2) by (intro fit_cong) (simp add: subsetD)
  then show ?thesis by (simp add: fit_map)
qed

lemma view_lookup:
  assumes "cache_ok tmp c"
  shows "map_of (view c) k =
     map_option (\<lambda>se. (the (entry_value (c_heap c) (se_entry se)), deadline (wheel c) (se_generation se)))
       (find_entry k c)"
proof -
  have "map_of (map (view_item h w) xs) k =
      map_option (\<lambda>se. (the (entry_value h (se_entry se)), deadline w (se_generation se))) (map_of xs k)"
    for h w xs by (induction xs) (auto simp: view_item_def)
  then show ?thesis by (simp add: view_def find_entry_items [OF assms])
qed

text \<open>The memory usage the cache reports is the total charge of its contents.\<close>

lemma view_charge:
  assumes "cache_ok tmp c"
  shows "total_charge (view c) = unat (memory_usage_bytes c)"
proof -
  have "map item_charge (view c) = map item_size (items c)"
    using charge_view_item [OF assms] by (simp add: view_def)
  then show ?thesis using assms by (simp add: cache_ok_def)
qed

section \<open>Linking a value into the cache\<close>

lemma timers_ok_Cons:
  "timers_ok (generation_source c) (wheel c) xs \<Longrightarrow> drawn_for k g t c \<Longrightarrow> se_generation se = g \<Longrightarrow>
     timers_ok (generation_source c) (wheel c) ((k, se) # xs)"
  by (auto simp: timers_ok_def drawn_for_def)

lemma push_item_ok:
  assumes ok: "cache_ok [e] c" and none: "find_entry k c = None"
    and se: "se = \<lparr>se_entry = e, recency_position = next_node c, se_generation = g\<rparr>"
    and lim: "limits_ok (k, se)" and g: "drawn_for k g t c"
    and room: "unat (memory_usage_bytes c) + item_size (k, se) \<le> unat (capacity_bytes c)"
    and c': "c' = c\<lparr>recency := (next_node c, k) # recency c, next_node := next_node c + 1,
               entries := (k, se) # entries c,
               memory_usage_bytes := memory_usage_bytes c + entry_charge (length k) (entry_size e)\<rparr>"
  shows "cache_ok [] c'" and "items c' = (k, se) # items c"
proof -
  have links: "links_ok (next_node c) (recency c) (entries c)" using ok by (simp add: cache_ok_def)
  have "map_of (entries c) k = None" using none by (simp add: find_entry_def)
  note push = ordered_push [OF links this, of se]
  show items: "items c' = (k, se) # items c" using push(1) se c' by (simp add: items_def)
  have mem: "mem_inv (c_allocator c) (c_heap c) (item_entries c')"
    by (rule mem_inv_perm [OF cache_ok_mem [OF ok]]) (use items se in simp)
  have "unat (entry_charge (length k) (entry_size e)) = item_size (k, se)"
    using lim se by (simp add: limits_ok_def item_size_def unat_entry_charge)
  moreover have "item_size (k, se) + unat (memory_usage_bytes c) < 2 ^ 64"
    using room unat_lt_u64 [of "capacity_bytes c"] by linarith
  ultimately have usage: "unat (memory_usage_bytes c') = unat (memory_usage_bytes c) + item_size (k, se)"
    using c' by (simp add: unat_add_u64)
  have timers: "timers_ok (generation_source c') (wheel c') (items c')"
    using timers_ok_Cons [OF _ g, of "items c" se] ok se c' items by (simp add: cache_ok_def)
  show "cache_ok [] c'"
    using ok mem usage timers lim push(2) se room
    unfolding cache_ok_def items by (simp add: c' word_le_nat_alt)
qed

lemma replace_item_ok:
  assumes ok: "cache_ok [r] c" and c: "items c = (k, se) # xs"
    and f: "f = (\<lambda>s. s\<lparr>se_entry := r, se_generation := g\<rparr>)"
    and lim: "limits_ok (k, f se)" and g: "drawn_for k g t c"
    and room: "item_size (k, f se) + sum_list (map item_size xs) \<le> unat (capacity_bytes c)"
    and c': "c' = (update_entry k f c)\<lparr>memory_usage_bytes := memory_usage_bytes c -
               entry_charge (length k) (entry_size (se_entry se)) + entry_charge (length k) (entry_size r)\<rparr>"
  shows "cache_ok [se_entry se] c'" and "items c' = (k, f se) # xs"
proof -
  have links: "links_ok (next_node c) (recency c) (entries c)" using ok by (simp add: cache_ok_def)
  have "recency_position (f s) = recency_position s" for s using f by simp
  note upd = ordered_update [OF links this, of k]
  have "distinct (map fst ((k, se) # xs))" using items_distinct [OF ok] c by simp
  then have "map (\<lambda>(j, s). (j, if j = k then f s else s)) xs = xs"
    by (intro map_idI) (auto simp: image_iff)
  then show items: "items c' = (k, f se) # xs"
    using upd(1) c by (simp add: items_def c' update_entry_def)
  have mem: "mem_inv (c_allocator c) (c_heap c) ([se_entry se] @ item_entries c')"
    by (rule mem_inv_perm [OF cache_ok_mem [OF ok]]) (use items c f in simp)
  have find: "find_entry k c = Some se" using find_entry_items [OF ok] c by simp
  have "unat (memory_usage_bytes c - entry_charge (length k) (entry_size (se_entry se))) =
      sum_list (map item_size xs)"
    using ok c unat_item_charge [OF ok find] item_size_le_memory [OF ok find]
    by (simp add: cache_ok_def unat_sub_u64)
  moreover have "unat (entry_charge (length k) (entry_size r)) = item_size (k, f se)"
    using lim f by (simp add: limits_ok_def item_size_def unat_entry_charge)
  moreover have "item_size (k, f se) + sum_list (map item_size xs) < 2 ^ 64"
    using room unat_lt_u64 [of "capacity_bytes c"] by linarith
  ultimately have usage:
    "unat (memory_usage_bytes c') = item_size (k, f se) + sum_list (map item_size xs)"
    using c' by (simp add: unat_add_u64)
  have timers: "timers_ok (generation_source c') (wheel c') (items c')"
    using timers_ok_Cons [OF _ g, of xs "f se"] timers_ok_subset [of _ _ "items c" xs] ok c f items
    by (auto simp: cache_ok_def c' update_entry_def)
  show "cache_ok [se_entry se] c'"
    using ok mem usage timers lim upd(2) room c
    unfolding cache_ok_def items by (simp add: c' word_le_nat_alt update_entry_def)
qed

section \<open>Setting a value\<close>

text \<open>Which verdict \<^verbatim>\<open>set\<close> gives before it touches anything.\<close>

definition set_verdict :: "u64 \<Rightarrow> bytes \<Rightarrow> bytes \<Rightarrow> u64 \<Rightarrow> cache_status" where
  "set_verdict capacity k v ttl =
     (if k = [] then C_invalid_key
      else if length k > max_key_length then C_key_too_large
      else if length v > max_value_length then C_value_too_large
      else if sint ttl < 0 then C_invalid_ttl
      else if unat capacity < length k + length v then C_item_too_large
      else C_ok)"

text \<open>
  What a call of \<^verbatim>\<open>set\<close> promises once the arguments are accepted: success stores the value
  as the abstract cache does; an exception may have evicted a tail of the contents and has
  changed nothing else.
\<close>

definition set_promise ::
    "bytes \<Rightarrow> bytes \<Rightarrow> u64 \<Rightarrow> cache \<Rightarrow> exn + cache_status \<Rightarrow> cache \<Rightarrow> bool" where
  "set_promise k v ttl c r c' \<longleftrightarrow>
     cache_inv c' \<and> capacity_bytes c' = capacity_bytes c \<and>
     hit_count c' = hit_count c \<and> miss_count c' = miss_count c \<and> expired_count c' = expired_count c \<and>
     (case r of
        Inr st \<Rightarrow> st = C_ok \<and>
          view c' = lru_set (unat (capacity_bytes c)) k v (ttl_deadline ttl) (view c)
      | Inl x \<Rightarrow> (x = Bad_alloc \<or> x = Overflow_error ''cache entry generation exhausted'') \<and>
          (\<exists>n. view c' = take n (view c)))"

lemma set_promise_unchanged:
  assumes "cache_inv c'" and "frame tmp c c'"
    and "x = Bad_alloc \<or> x = Overflow_error ''cache entry generation exhausted''"
  shows "set_promise k v ttl c (Inl x) c'"
proof -
  have "view c' = take (length (view c)) (view c)" using view_frame [OF assms(2)] by simp
  then have "\<exists>n. view c' = take n (view c)" by blast
  then show ?thesis using assms by (auto simp: set_promise_def frame_def counters_def)
qed

lemma unwind_ok:
  assumes "cache_ok [e] c" and "frame [] b c"
    and "x = Bad_alloc \<or> x = Overflow_error ''cache entry generation exhausted''"
  shows "\<exists>c'. unwind e x c = Some (Inl x, c') \<and> set_promise k v ttl b (Inl x) c'"
proof -
  from drop_entry_ok [OF assms(1)] obtain c' where
    "drop_entry e c = Some c'" "cache_inv c'" "frame [] c c'" by blast
  with assms set_promise_unchanged [OF _ frame_trans [OF assms(2)]] show ?thesis
    by (auto simp: unwind_def)
qed

lemma verdict_ok:
  assumes "set_verdict capacity k v ttl = C_ok"
  shows "k \<noteq> []" and "length k \<le> max_key_length" and "length v \<le> max_value_length"
    and "sint ttl \<ge> 0" and "length k + length v \<le> unat capacity"
    and "unat (entry_charge (length k) (length v)) = length k + length v"
  using assms by (auto simp: set_verdict_def unat_entry_charge split: if_splits)

lemma drop_entry_fields:
  "drop_entry e c = Some c' \<longleftrightarrow>
     (\<exists>al h. destroy_entry e (c_allocator c) (c_heap c) = Some (al, h) \<and>
             c' = c\<lparr>c_allocator := al, c_heap := h\<rparr>)"
  by (auto simp: drop_entry_def)

lemma update_entry_twice:
  "update_entry k f (update_entry k f' c) = update_entry k (\<lambda>s. f (f' s)) c"
  by (simp add: update_entry_def comp_def case_prod_unfold cong: if_cong)

lemma update_entry_commute:
  "update_entry k f (c\<lparr>c_allocator := al, c_heap := h\<rparr>) =
     (update_entry k f c)\<lparr>c_allocator := al, c_heap := h\<rparr>"
  by (simp add: update_entry_def)

lemma update_entry_fields [simp]:
  "c_allocator (update_entry k f c) = c_allocator c" "c_heap (update_entry k f c) = c_heap c"
  "memory_usage_bytes (update_entry k f c) = memory_usage_bytes c"
  "capacity_bytes (update_entry k f c) = capacity_bytes c" "wheel (update_entry k f c) = wheel c"
  "hit_count (update_entry k f c) = hit_count c" "miss_count (update_entry k f c) = miss_count c"
  "expired_count (update_entry k f c) = expired_count c"
  by (simp_all add: update_entry_def)

lemma overwrite_ok:
  assumes ok: "cache_ok [r] c" and find: "find_entry k c = Some se"
    and g: "drawn_for k g t c" and val: "entry_value (c_heap c) r = Some v"
    and verdict: "set_verdict (capacity_bytes c) k v ttl = C_ok"
  shows "\<exists>c'. overwrite k r g (entry_charge (length k) (entry_size (se_entry se)))
            (entry_charge (length k) (length v)) c = Some c' \<and>
          cache_inv c' \<and> capacity_bytes c' = capacity_bytes c \<and> hit_count c' = hit_count c \<and>
          miss_count c' = miss_count c \<and> expired_count c' = expired_count c \<and>
          view c' = lru_set (unat (capacity_bytes c)) k v t (view c)"
proof -
  let ?old = "entry_charge (length k) (entry_size (se_entry se))"
  let ?new = "entry_charge (length k) (length v)"
  let ?rest = "filter (\<lambda>x. fst x \<noteq> k) (items c)"
  let ?room = "unat (capacity_bytes c) - (length k + length v)"
  note vd = verdict_ok [OF verdict]
  have size: "entry_size r = length v" using entry_value_length [OF val] by simp
  have room: "unat (capacity_bytes c - ?new) = ?room" using vd by (simp add: unat_sub_u64)
  from mark_mru_ok [OF ok find] obtain c1 where
    c1: "mark_mru k c = Some c1" "cache_ok [r] c1" "rearranged [r] c c1" "counters c1 = counters c"
      "items c1 = [(k, se)] @ ?rest" by auto
  have cap1: "capacity_bytes c1 = capacity_bytes c" using c1(3) by (simp add: rearranged_def)
  have "unat ?old = sum_list (map item_size [(k, se)])" using unat_item_charge [OF ok find] by simp
  from evict_while_ok [OF c1(2,5) this, of "capacity_bytes c - ?new"] obtain c2 where
    c2: "evict_while ?old (capacity_bytes c - ?new) c1 = Some c2" "cache_ok [r] c2"
      "rearranged [r] c1 c2" "items c2 = (k, se) # fit item_size ?room ?rest"
      "expired_count c2 = expired_count c1" unfolding room by auto
  have re: "rearranged [r] c c2" using rearranged_trans [OF c1(3) c2(3)] .
  have find2: "find_entry k c2 = Some se" using find_entry_items [OF c2(2)] c2(4) by simp
  define f where "f = (\<lambda>s :: stored_entry. s\<lparr>se_entry := r, se_generation := g\<rparr>)"
  define c3 where "c3 = (update_entry k f c2)\<lparr>memory_usage_bytes := memory_usage_bytes c2 - ?old + ?new\<rparr>"
  have lim: "limits_ok (k, f se)" using vd size by (simp add: limits_ok_def f_def)
  have isz: "item_size (k, f se) = length k + length v" using size by (simp add: item_size_def f_def)
  have g2: "drawn_for k g t c2" using g re by (simp add: drawn_for_def rearranged_def)
  have fits: "item_size (k, f se) + sum_list (map item_size (fit item_size ?room ?rest))
      \<le> unat (capacity_bytes c2)"
    using fit_sum [of item_size ?room ?rest] vd(5) isz re by (simp add: rearranged_def)
  note rp = replace_item_ok [OF c2(2,4) f_def lim g2 fits c3_def [folded size]]
  from drop_entry_ok [OF rp(1)] obtain c4 where
    c4: "drop_entry (se_entry se) c3 = Some c4" "cache_inv c4" "frame [] c3 c4"
      "wheel c4 = wheel c3" by blast
  have wf: "entry_wf (se_entry se)" "entry_wf r"
    using cache_ok_mem [OF c2(2)] c2(4) by (auto simp: mem_inv_def)
  have swap: "replace_value (se_entry se) r = (r, se_entry se)"
    using replace_value_perm [OF wf] by (metis prod.collapse)
  from c4(1) obtain al h where
    dd: "destroy_entry (se_entry se) (c_allocator c2) (c_heap c2) = Some (al, h)"
      "c4 = c3\<lparr>c_allocator := al, c_heap := h\<rparr>"
    by (auto simp: drop_entry_fields c3_def)
  have run: "overwrite k r g ?old ?new c = Some c4"
    using c1(1) c2(1) find2 cap1 dd swap
    by (simp add: overwrite_def drop_entry_def update_entry_twice update_entry_commute c3_def f_def)
  have "view c4 = map (view_item (c_heap c2) (wheel c2)) ((k, f se) # fit item_size ?room ?rest)"
    using view_frame [OF c4(3)] rp(2) by (simp add: view_def c3_def)
  also have "\<dots> = map (view_item (c_heap c) (wheel c)) ((k, f se) # fit item_size ?room ?rest)"
    using re c2(4) by (auto simp: rearranged_def same_values_def view_item_def f_def)
  also have "\<dots> = lru_set (unat (capacity_bytes c)) k v t (view c)"
    using view_fit [OF ok, of ?rest] val g
    by (auto simp: lru_set_def view_filter view_def view_item_def f_def drawn_for_def)
  finally have "view c4 = lru_set (unat (capacity_bytes c)) k v t (view c)" .
  moreover have "capacity_bytes c4 = capacity_bytes c" "hit_count c4 = hit_count c"
      "miss_count c4 = miss_count c" "expired_count c4 = expired_count c"
    using c4(3) re c2(5) c1(4) by (simp_all add: frame_def counters_def c3_def rearranged_def)
  ultimately show ?thesis using run c4(2) by blast
qed

lemma set_existing_ok:
  assumes inv: "cache_inv c" and find: "find_entry k c = Some se"
    and verdict: "set_verdict (capacity_bytes c) k v ttl = C_ok"
    and charge: "new_charge = entry_charge (length k) (length v)"
  shows "\<exists>r c'. set_existing k v ttl new_charge se c = Some (r, c') \<and> set_promise k v ttl c r c'"
  using inv
proof (cases rule: new_entry_cases [where v = v])
  case (fail c1)
  then show ?thesis using set_promise_unchanged by (auto simp: set_existing_def)
next
  case (ok e c1)
  obtain r c2 where t: "next_timer k ttl c1 = (r, c2)" by fastforce
  note nt = next_timer_ok [OF ok(2) t]
  have frame2: "frame [] c c2" using ok(3) nt(2) frame_trans frame_mono by (metis empty_subsetI set_empty)
  show ?thesis
  proof (cases r)
    case (Inl x)
    with unwind_ok [OF nt(1) frame2 nt(3) [OF Inl]] show ?thesis
      using ok(1) t by (fastforce simp: set_existing_def Let_def)
  next
    case (Inr g)
    have val: "entry_value (c_heap c2) e = Some v"
      using nt(2) ok(4) by (simp add: frame_def same_values_def)
    have same: "find_entry k c2 = Some se" "view c2 = view c" "capacity_bytes c2 = capacity_bytes c"
      "counters c2 = counters c"
      using frame_find [OF frame2] view_frame [OF frame2] frame2 find by (simp_all add: frame_def)
    from overwrite_ok [OF nt(1) same(1) nt(4) [OF Inr] val] verdict same charge obtain c' where
      "overwrite k e g (entry_charge (length k) (entry_size (se_entry se))) new_charge c2 = Some c'"
      "set_promise k v ttl c (Inr C_ok) c'"
      by (auto simp: set_promise_def counters_def)
    then show ?thesis using ok(1) t Inr by (auto simp: set_existing_def Let_def)
  qed
qed

lemma node_counter_ok: "cache_ok tmp c \<Longrightarrow> cache_ok tmp (c\<lparr>next_node := next_node c + 1\<rparr>)"
  by (auto simp: cache_ok_def links_ok_def items_def less_SucI)

text \<open>The node, the entry and the charge, once nothing can fail any more.\<close>

lemma linked_ok:
  assumes ok: "cache_ok [e] c" and none: "find_entry k c = None" and g: "drawn_for k g t c"
    and val: "entry_value (c_heap c) e = Some v"
    and verdict: "set_verdict (capacity_bytes c) k v ttl = C_ok"
    and room: "unat (memory_usage_bytes c) + (length k + length v) \<le> unat (capacity_bytes c)"
  defines "c' \<equiv> c\<lparr>recency := (next_node c, k) # recency c, next_node := next_node c + 1,
      entries := (k, \<lparr>se_entry = e, recency_position = next_node c, se_generation = g\<rparr>) # entries c,
      memory_usage_bytes := memory_usage_bytes c + entry_charge (length k) (length v)\<rparr>"
  shows "cache_inv c'" and "view c' = (k, v, t) # view c"
proof -
  define se where "se = \<lparr>se_entry = e, recency_position = next_node c, se_generation = g\<rparr>"
  have size: "entry_size e = length v" using entry_value_length [OF val] by simp
  have lim: "limits_ok (k, se)" and isz: "item_size (k, se) = length k + length v"
    using verdict_ok [OF verdict] size by (auto simp: limits_ok_def item_size_def se_def)
  have "unat (memory_usage_bytes c) + item_size (k, se) \<le> unat (capacity_bytes c)" using room isz by simp
  note ps = push_item_ok [OF ok none se_def lim g this refl]
  show "cache_inv c'" using ps(1) size by (simp add: c'_def se_def)
  show "view c' = (k, v, t) # view c"
    using ps(2) val g size by (simp add: c'_def view_def view_item_def se_def drawn_for_def)
qed

lemma link_new_ok:
  assumes ok: "cache_ok [e] c" and none: "find_entry k c = None" and g: "drawn_for k g t c"
    and val: "entry_value (c_heap c) e = Some v"
    and verdict: "set_verdict (capacity_bytes c) k v ttl = C_ok"
    and room: "unat (memory_usage_bytes c) + (length k + length v) \<le> unat (capacity_bytes c)"
  shows "\<exists>r c'. link_new k e g (entry_charge (length k) (length v)) c = Some (r, c') \<and>
          cache_inv c' \<and> capacity_bytes c' = capacity_bytes c \<and> counters c' = counters c \<and>
          (case r of Inr st \<Rightarrow> st = C_ok \<and> view c' = (k, v, t) # view c
           | Inl x \<Rightarrow> x = Bad_alloc \<and> view c' = view c)"
proof -
  obtain r1 c1 where a1: "cache_alloc c = (r1, c1)" by fastforce
  note f1 = cache_alloc_frame [OF ok a1]
  show ?thesis
  proof (cases r1)
    case (Inl x)
    from drop_entry_ok [OF f1(1)] obtain c' where
      "drop_entry e c1 = Some c'" "cache_inv c'" "frame [] c1 c'" by blast
    with Inl a1 f1 view_frame [OF f1(2)] view_frame [of "[]" c1 c'] show ?thesis
      by (auto simp: link_new_def unwind_def frame_def)
  next
    case (Inr u)
    obtain r2 c2 where a2: "cache_alloc c1 = (r2, c2)" by fastforce
    note f2 = cache_alloc_frame [OF f1(1) a2]
    have frame2: "frame [e] c c2" using frame_trans [OF f1(2) f2(2)] .
    let ?push = "\<lambda>c. c\<lparr>recency := (next_node c, k) # recency c, next_node := next_node c + 1\<rparr>"
    have node: "next_node c2 = next_node c1" "recency c2 = recency c1"
      using a2 by (auto simp: cache_alloc_def split: prod.splits)
    have a3: "cache_alloc (?push c1) = (r2, ?push c2)"
      using a2 by (auto simp: cache_alloc_def split: prod.splits)
    show ?thesis
    proof (cases r2)
      case (Inl x)
      from drop_entry_ok [OF f2(1)] obtain c' where
        c': "drop_entry e c2 = Some c'" "cache_inv c'" "frame [] c2 c'" "next_node c' = next_node c2"
        by blast
      then have "drop_entry e (?push c2) = Some (?push c')"
        by (auto simp: drop_entry_fields)
      then have "link_new k e g (entry_charge (length k) (length v)) c =
          Some (Inl x, c'\<lparr>next_node := next_node c' + 1\<rparr>)"
        using a1 a3 Inl \<open>r1 = Inr u\<close> by (simp add: link_new_def unwind_def Let_def)
      moreover have "view (c'\<lparr>next_node := n\<rparr>) = view c'" for n by (simp add: view_def items_def)
      ultimately show ?thesis
        using Inl f2(3) node_counter_ok [OF c'(2)] c'(3) frame2 view_frame [OF frame2] view_frame [OF c'(3)]
        by (auto simp: frame_def counters_def)
    next
      case (Inr u')
      let ?c = "(?push c2)\<lparr>entries := (k, \<lparr>se_entry = e, recency_position = next_node c2, se_generation = g\<rparr>) # entries c2,
          memory_usage_bytes := memory_usage_bytes c2 + entry_charge (length k) (length v)\<rparr>"
      have none2: "find_entry k c2 = None" using frame_find [OF frame2] none by simp
      have "drawn_for k g t c2" using g f1(4,5) f2(4,5) by (simp add: drawn_for_def)
      moreover have "entry_value (c_heap c2) e = Some v" using val frame2 by (simp add: frame_def same_values_def)
      moreover have "unat (memory_usage_bytes c2) + (length k + length v) \<le> unat (capacity_bytes c2)"
        using room frame2 by (simp add: frame_def)
      moreover have "set_verdict (capacity_bytes c2) k v ttl = C_ok" using verdict frame2 by (simp add: frame_def)
      ultimately have "cache_inv ?c" "view ?c = (k, v, t) # view c2"
        using linked_ok [OF f2(1) none2] by simp_all
      moreover have "link_new k e g (entry_charge (length k) (length v)) c = Some (Inr C_ok, ?c)"
        using a1 a3 Inr \<open>r1 = Inr u\<close> none2 by (simp add: link_new_def Let_def find_entry_def)
      ultimately show ?thesis
        using frame2 view_frame [OF frame2] by (auto simp: frame_def counters_def)
    qed
  qed
qed

lemma lru_remove_absent: "k \<notin> fst ` set xs \<Longrightarrow> lru_remove k xs = xs"
  by (auto simp: lru_remove_def filter_id_conv image_iff)

text \<open>Inserting after the value has been allocated and its generation drawn.\<close>

lemma insert_ok:
  assumes ok: "cache_ok [e] c" and none: "find_entry k c = None"
    and g: "drawn_for k g (ttl_deadline ttl) c" and val: "entry_value (c_heap c) e = Some v"
    and verdict: "set_verdict (capacity_bytes c) k v ttl = C_ok"
  shows "\<exists>r c'. Option.bind (evict_while 0 (capacity_bytes c - entry_charge (length k) (length v)) c)
             (link_new k e g (entry_charge (length k) (length v))) = Some (r, c') \<and>
           set_promise k v ttl c r c'"
proof -
  let ?new = "entry_charge (length k) (length v)"
  let ?room = "unat (capacity_bytes c) - (length k + length v)"
  note vd = verdict_ok [OF verdict]
  have room: "unat (capacity_bytes c - ?new) = ?room" using vd by (simp add: unat_sub_u64)
  from evict_while_ok [OF ok, of "[]" "items c" 0 "capacity_bytes c - ?new"] obtain c1 where
    c1: "evict_while 0 (capacity_bytes c - ?new) c = Some c1" "cache_ok [e] c1"
      "rearranged [e] c c1" "items c1 = fit item_size ?room (items c)"
      "expired_count c1 = expired_count c" unfolding room by auto
  have view1: "view c1 = fit item_charge ?room (view c)"
    unfolding view_rearranged [OF c1(3)] c1(4) view_fit [OF ok subset_refl] by (simp add: view_def)
  have absent: "k \<notin> fst ` set (items c)"
    using none find_entry_items [OF ok] by (simp add: map_of_eq_None_iff)
  have none1: "find_entry k c1 = None"
    using absent c1(4) set_fit [of item_size ?room "items c"] find_entry_items [OF c1(2)]
    by (auto simp: map_of_eq_None_iff)
  have g1: "drawn_for k g (ttl_deadline ttl) c1"
    using g c1(3) by (simp add: drawn_for_def rearranged_def)
  have val1: "entry_value (c_heap c1) e = Some v"
    using val c1(3) by (simp add: rearranged_def same_values_def)
  have verdict1: "set_verdict (capacity_bytes c1) k v ttl = C_ok"
    using verdict c1(3) by (simp add: rearranged_def)
  have "unat (memory_usage_bytes c1) \<le> ?room"
    using fit_sum [of item_size ?room "items c"] c1(2,4) by (simp add: cache_ok_def)
  then have "unat (memory_usage_bytes c1) + (length k + length v) \<le> unat (capacity_bytes c1)"
    using vd(5) c1(3) by (simp add: rearranged_def)
  from link_new_ok [OF c1(2) none1 g1 val1 verdict1 this] obtain r c' where
    c': "link_new k e g ?new c1 = Some (r, c')" "cache_inv c'" "capacity_bytes c' = capacity_bytes c1"
      "counters c' = counters c1"
      "case r of Inr st \<Rightarrow> st = C_ok \<and> view c' = (k, v, ttl_deadline ttl) # view c1
       | Inl x \<Rightarrow> x = Bad_alloc \<and> view c' = view c1" by blast
  have "k \<notin> fst ` set (view c)" using absent map_fst_view [of c] by (metis list.set_map)
  then have set: "lru_set (unat (capacity_bytes c)) k v (ttl_deadline ttl) (view c) =
      (k, v, ttl_deadline ttl) # view c1"
    by (simp add: lru_set_def lru_remove_absent view1)
  obtain n where "view c1 = take n (view c)" using view1 fit_prefix by metis
  with c' set c1 have "set_promise k v ttl c r c'"
    by (auto simp: set_promise_def counters_def rearranged_def split: sum.splits)
  with c1(1) c'(1) show ?thesis by auto
qed

lemma set_promise_frame:
  assumes "frame tmp b c" and "set_promise k v ttl c r c'"
  shows "set_promise k v ttl b r c'"
  using assms view_frame [OF assms(1)]
  by (auto simp: set_promise_def frame_def counters_def split: sum.splits)

lemma set_new_ok:
  assumes inv: "cache_inv c" and none: "find_entry k c = None"
    and verdict: "set_verdict (capacity_bytes c) k v ttl = C_ok"
    and charge: "new_charge = entry_charge (length k) (length v)"
  shows "\<exists>r c'. set_new k v ttl new_charge c = Some (r, c') \<and> set_promise k v ttl c r c'"
proof -
  obtain r1 c1 where a1: "cache_alloc c = (r1, c1)" by fastforce
  note f1 = cache_alloc_frame [OF inv a1]
  obtain r2 c2 where a2: "cache_alloc c1 = (r2, c2)" by fastforce
  note f2 = cache_alloc_frame [OF f1(1) a2]
  have frame2: "frame [] c c2" using frame_trans [OF f1(2) f2(2)] .
  show ?thesis
  proof (cases "r1 = Inr () \<and> r2 = Inr ()")
    case False
    then show ?thesis
      using a1 a2 f1 f2 set_promise_unchanged [OF f1(1,2)] set_promise_unchanged [OF f2(1) frame2]
      by (auto simp: set_new_def)
  next
    case True
    from f2(1) show ?thesis
    proof (cases rule: new_entry_cases [where v = v])
      case (fail c3)
      with True a1 a2 set_promise_unchanged [OF fail(2) frame_trans [OF frame2 fail(3)]]
      show ?thesis by (auto simp: set_new_def)
    next
      case (ok e c3)
      obtain r4 c4 where t: "next_timer k ttl c3 = (r4, c4)" by fastforce
      note nt = next_timer_ok [OF ok(2) t]
      have frame4: "frame [] c c4"
        using frame_trans [OF frame_trans [OF frame2 ok(3)] frame_mono [OF nt(2)]] by simp
      show ?thesis
      proof (cases r4)
        case (Inl x)
        with unwind_ok [OF nt(1) frame4 nt(3) [OF Inl]] True a1 a2 ok(1) t show ?thesis
          by (fastforce simp: set_new_def)
      next
        case (Inr g)
        have val: "entry_value (c_heap c4) e = Some v"
          using nt(2) ok(4) by (simp add: frame_def same_values_def)
        have same: "find_entry k c4 = None" "set_verdict (capacity_bytes c4) k v ttl = C_ok"
          using frame_find [OF frame4] frame4 none verdict by (simp_all add: frame_def)
        from insert_ok [OF nt(1) same(1) nt(4) [OF Inr] val same(2)] set_promise_frame [OF frame4]
        show ?thesis using True a1 a2 ok(1) t Inr charge by (fastforce simp: set_new_def)
      qed
    qed
  qed
qed

lemma set_rejects:
  assumes "set_verdict (capacity_bytes c) k v ttl \<noteq> C_ok"
  shows "cache_set k v ttl c = Some (Inr (set_verdict (capacity_bytes c) k v ttl), c)"
proof (cases "length k \<le> max_key_length \<and> length v \<le> max_value_length")
  case True
  then have "unat (entry_charge (length k) (length v)) = length k + length v"
    by (simp add: unat_entry_charge)
  with assms show ?thesis
    by (auto simp: cache_set_def set_verdict_def validate_key_def word_less_nat_alt split: if_splits)
next
  case False
  with assms show ?thesis by (auto simp: cache_set_def set_verdict_def validate_key_def)
qed

lemma set_accepts:
  assumes inv: "cache_inv c" and verdict: "set_verdict (capacity_bytes c) k v ttl = C_ok"
  shows "\<exists>r c'. cache_set k v ttl c = Some (r, c') \<and> set_promise k v ttl c r c'"
proof -
  note vd = verdict_ok [OF verdict]
  obtain r1 c1 where a1: "cache_alloc c = (r1, c1)" by fastforce
  note f1 = cache_alloc_frame [OF inv a1]
  have guards: "validate_key k = C_ok" "\<not> entry_charge (length k) (length v) > capacity_bytes c"
    using vd by (simp_all add: validate_key_def word_less_nat_alt)
  have verdict1: "set_verdict (capacity_bytes c1) k v ttl = C_ok"
    using verdict f1(2) by (simp add: frame_def)
  show ?thesis
  proof (cases r1)
    case (Inl x)
    with a1 f1(3) guards vd set_promise_unchanged [OF f1(1,2)] show ?thesis
      by (auto simp: cache_set_def)
  next
    case (Inr u)
    have "\<exists>r c'. (case find_entry k c1 of
        Some existing \<Rightarrow> set_existing k v ttl (entry_charge (length k) (length v)) existing c1
      | None \<Rightarrow> set_new k v ttl (entry_charge (length k) (length v)) c1) = Some (r, c') \<and>
      set_promise k v ttl c1 r c'"
      using set_existing_ok [OF f1(1) _ verdict1 refl] set_new_ok [OF f1(1) _ verdict1 refl]
      by (cases "find_entry k c1") auto
    with set_promise_frame [OF f1(2)] show ?thesis
      using a1 Inr guards vd by (fastforce simp: cache_set_def)
  qed
qed

section \<open>Reading a value\<close>

definition get_promise ::
    "bytes \<Rightarrow> bytes \<Rightarrow> cache \<Rightarrow> exn + cache_status \<Rightarrow> bytes \<Rightarrow> cache \<Rightarrow> bool" where
  "get_promise k out c r out' c' \<longleftrightarrow>
     cache_inv c' \<and> capacity_bytes c' = capacity_bytes c \<and>
     eviction_count c' = eviction_count c \<and> expired_count c' = expired_count c \<and>
     (case r of
        Inl x \<Rightarrow> x = Bad_alloc \<and> out' = out \<and> view c' = view c \<and> counters c' = counters c
      | Inr st \<Rightarrow>
          (case map_of (view c) k of
             None \<Rightarrow> st = C_not_found \<and> out' = out \<and> view c' = view c \<and>
               hit_count c' = hit_count c \<and> miss_count c' = miss_count c + 1
           | Some (v, t) \<Rightarrow> st = C_ok \<and> out' = v \<and> view c' = lru_touch k (view c) \<and>
               hit_count c' = hit_count c + 1 \<and> miss_count c' = miss_count c))"

text \<open>A hit is moved to the front, whatever is then counted.\<close>

lemma touch_ok:
  assumes inv: "cache_inv c" and find: "find_entry k c = Some se"
    and v: "entry_value (c_heap c) (se_entry se) = Some v"
  obtains c' where "mark_mru k c = Some c'" "rearranged [] c c'" "counters c' = counters c"
    "\<And>n. cache_inv (c'\<lparr>hit_count := n\<rparr>)" "\<And>n. view (c'\<lparr>hit_count := n\<rparr>) = lru_touch k (view c)"
proof -
  from mark_mru_ok [OF inv find] obtain c' where
    c': "mark_mru k c = Some c'" "cache_inv c'" "rearranged [] c c'"
      "items c' = (k, se) # filter (\<lambda>x. fst x \<noteq> k) (items c)" "counters c' = counters c" by auto
  have "map_of (view c) k = Some (v, deadline (wheel c) (se_generation se))"
    using view_lookup [OF inv, of k] find v by simp
  then have "view c' = lru_touch k (view c)"
    unfolding view_rearranged [OF c'(3)] c'(4)
    using v by (simp add: lru_touch_def view_filter view_item_def flip: view_def)
  moreover have "cache_inv (c'\<lparr>hit_count := n\<rparr>)" "view (c'\<lparr>hit_count := n\<rparr>) = view c'" for n
    using c'(2) by (simp_all add: cache_ok_def items_def view_def)
  ultimately show ?thesis using that [OF c'(1,3,5)] by simp
qed

lemma get_ok:
  assumes inv: "cache_inv c" and key: "validate_key k = C_ok"
  shows "\<exists>r out' c'. cache_get k out c = Some (r, out', c') \<and> get_promise k out c r out' c'"
proof -
  obtain r1 c1 where a1: "cache_alloc c = (r1, c1)" by fastforce
  note f1 = cache_alloc_frame [OF inv a1]
  have view1: "view c1 = view c" using view_frame [OF f1(2)] .
  have same1: "capacity_bytes c1 = capacity_bytes c" "counters c1 = counters c"
    using f1(2) by (simp_all add: frame_def)
  show ?thesis
  proof (cases r1)
    case (Inl x)
    with key a1 f1 view1 same1 show ?thesis
      by (auto simp: cache_get_def get_promise_def counters_def)
  next
    case (Inr u)
    show ?thesis
    proof (cases "find_entry k c1")
      case None
      then have "map_of (view c) k = None" using view_lookup [OF f1(1)] view1 by simp
      moreover have "cache_inv (c1\<lparr>miss_count := n\<rparr>)" "view (c1\<lparr>miss_count := n\<rparr>) = view c1" for n
        using f1(1) by (simp_all add: cache_ok_def items_def view_def)
      ultimately show ?thesis
        using key a1 Inr None same1 view1 by (auto simp: cache_get_def get_promise_def counters_def)
    next
      case (Some se)
      from readable [OF f1(1) cache_ok_found [OF f1(1) Some]] obtain v where
        v: "entry_value (c_heap c1) (se_entry se) = Some v" by auto
      have look: "map_of (view c) k = Some (v, deadline (wheel c1) (se_generation se))"
        using view_lookup [OF f1(1), of k] view1 Some v by simp
      obtain r2 c2 where a2: "(if v = [] then (Inr (), c1) else cache_alloc c1) = (r2, c2)" by fastforce
      then have f2: "cache_inv c2" "frame [] c1 c2" "r2 = Inl Bad_alloc \<or> r2 = Inr ()"
        using f1(1) cache_alloc_frame [OF f1(1), of r2 c2] by (auto split: if_splits)
      have view2: "view c2 = view c" using view_frame [OF f2(2)] view1 by simp
      show ?thesis
      proof (cases r2)
        case (Inl x)
        with key a1 \<open>r1 = Inr u\<close> Some v a2 f2 view2 same1 show ?thesis
          by (auto simp: cache_get_def get_promise_def frame_def counters_def)
      next
        case (Inr u')
        have find2: "find_entry k c2 = Some se" using frame_find [OF f2(2)] Some by simp
        have "entry_value (c_heap c2) (se_entry se) = Some v"
          using v f2(2) cache_ok_found [OF f1(1) Some] by (auto simp: frame_def same_values_def)
        from touch_ok [OF f2(1) find2 this] obtain c3 where
          c3: "mark_mru k c2 = Some c3" "rearranged [] c2 c3" "counters c3 = counters c2"
            "\<And>n. cache_inv (c3\<lparr>hit_count := n\<rparr>)" "\<And>n. view (c3\<lparr>hit_count := n\<rparr>) = lru_touch k (view c2)"
          by blast
        then show ?thesis
          using key a1 \<open>r1 = Inr u\<close> Some v a2 Inr f2 view2 same1 look
          by (auto simp: cache_get_def get_promise_def frame_def counters_def rearranged_def)
      qed
    qed
  qed
qed

section \<open>Erasing a value\<close>

definition erase_promise :: "bytes \<Rightarrow> cache \<Rightarrow> exn + cache_status \<Rightarrow> cache \<Rightarrow> bool" where
  "erase_promise k c r c' \<longleftrightarrow>
     cache_inv c' \<and> capacity_bytes c' = capacity_bytes c \<and> counters c' = counters c \<and>
     (case r of
        Inl x \<Rightarrow> x = Bad_alloc \<and> view c' = view c
      | Inr st \<Rightarrow> st = (if map_of (view c) k = None then C_not_found else C_ok) \<and>
          view c' = lru_remove k (view c))"

lemma erase_ok:
  assumes inv: "cache_inv c" and key: "validate_key k = C_ok"
  shows "\<exists>r c'. cache_erase k c = Some (r, c') \<and> erase_promise k c r c'"
proof -
  obtain r1 c1 where a1: "cache_alloc c = (r1, c1)" by fastforce
  note f1 = cache_alloc_frame [OF inv a1]
  have view1: "view c1 = view c" using view_frame [OF f1(2)] .
  have same1: "capacity_bytes c1 = capacity_bytes c" "counters c1 = counters c"
    using f1(2) by (simp_all add: frame_def)
  show ?thesis
  proof (cases r1)
    case (Inl x)
    with key a1 f1 view1 same1 show ?thesis by (auto simp: cache_erase_def erase_promise_def)
  next
    case (Inr u)
    show ?thesis
    proof (cases "find_entry k c1")
      case None
      then have none: "map_of (view c) k = None" using view_lookup [OF f1(1)] view1 by simp
      then have "lru_remove k (view c) = view c" by (simp add: lru_remove_absent map_of_eq_None_iff)
      with none key a1 Inr None same1 view1 f1(1) show ?thesis
        by (auto simp: cache_erase_def erase_promise_def)
    next
      case (Some se)
      from remove_entry_ok [OF f1(1) Some] obtain c2 where
        c2: "remove_entry k c1 = Some c2" "cache_inv c2" "rearranged [] c1 c2"
          "items c2 = filter (\<lambda>x. fst x \<noteq> k) (items c1)" "counters c2 = counters c1" by blast
      have "view c2 = lru_remove k (view c)"
        unfolding view_rearranged [OF c2(3)] c2(4) by (simp add: view_filter flip: view1 view_def)
      moreover have "map_of (view c) k \<noteq> None" using view_lookup [OF f1(1)] view1 Some by simp
      ultimately show ?thesis
        using key a1 Inr Some c2 same1 by (auto simp: cache_erase_def erase_promise_def rearranged_def)
    qed
  qed
qed

section \<open>The passing of time\<close>

definition fires_for :: "timer_event list \<Rightarrow> bytes \<times> stored_entry \<Rightarrow> bool" where
  "fires_for evs x \<longleftrightarrow>
     (\<exists>ev \<in> set evs. te_key ev = fst x \<and> te_generation ev = se_generation (snd x))"

lemma find_item:
  assumes "cache_inv c" and "x \<in> set (items c)"
  shows "find_entry (fst x) c = Some (snd x)"
  using assms items_distinct [OF assms(1)] find_entry_items [OF assms(1)] by (cases x) (simp add: map_of_is_SomeI)

lemma removed_length:
  assumes "cache_inv c" and "find_entry k c = Some se"
  shows "length (items c) = Suc (length (filter (\<lambda>x. fst x \<noteq> k) (items c)))"
  using arg_cong [OF mset_remove_key [OF items_distinct [OF assms(1)]], of k se size]
    assms(2) find_entry_items [OF assms(1)] by (simp flip: mset_filter)

text \<open>
  Only the entries a fired timer was set for are removed; a timer of an earlier value of
  the same key does nothing.
\<close>

lemma expire_all_ok:
  assumes "cache_inv c"
  shows "\<exists>c'. expire_all evs c = Some c' \<and> cache_inv c' \<and> rearranged [] c c' \<and>
           items c' = filter (\<lambda>x. \<not> fires_for evs x) (items c) \<and>
           eviction_count c' = eviction_count c \<and>
           expired_count c' = expired_count c + of_nat (length (items c) - length (items c'))"
  using assms
proof (induction evs arbitrary: c)
  case Nil
  then show ?case by (simp add: fires_for_def)
next
  case (Cons ev evs)
  let ?hit = "\<lambda>x. te_key ev = fst x \<and> te_generation ev = se_generation (snd x)"
  have fires: "fires_for (ev # evs) x \<longleftrightarrow> ?hit x \<or> fires_for evs x" for x
    by (auto simp: fires_for_def)
  show ?case
  proof (cases "\<exists>se. find_entry (te_key ev) c = Some se \<and> se_generation se = te_generation ev")
    case False
    have "\<not> ?hit x" if "x \<in> set (items c)" for x
      using find_item [OF Cons.prems that] False by auto
    then have "filter (\<lambda>x. \<not> fires_for (ev # evs) x) (items c) = filter (\<lambda>x. \<not> fires_for evs x) (items c)"
      by (intro filter_cong) (auto simp: fires)
    moreover have "expire_all (ev # evs) c = expire_all evs c"
      using False by (auto split: option.splits)
    ultimately show ?thesis using Cons.IH [OF Cons.prems] by simp
  next
    case True
    then obtain se where find: "find_entry (te_key ev) c = Some se"
      and gen: "se_generation se = te_generation ev" by blast
    from remove_entry_ok [OF Cons.prems find] obtain c1 where
      c1: "remove_entry (te_key ev) c = Some c1" "cache_inv c1" "rearranged [] c c1"
        "items c1 = filter (\<lambda>x. fst x \<noteq> te_key ev) (items c)" "counters c1 = counters c" by blast
    define c2 where "c2 = c1\<lparr>expired_count := expired_count c1 + 1\<rparr>"
    have items2: "items c2 = items c1" by (simp add: c2_def items_def)
    have c2: "cache_inv c2" "rearranged [] c c2"
      using c1(2,3) items2 by (auto simp: cache_ok_def rearranged_def c2_def)
    from Cons.IH [OF c2(1)] obtain c' where
      c': "expire_all evs c2 = Some c'" "cache_inv c'" "rearranged [] c2 c'"
        "items c' = filter (\<lambda>x. \<not> fires_for evs x) (items c2)" "eviction_count c' = eviction_count c2"
        "expired_count c' = expired_count c2 + of_nat (length (items c2) - length (items c'))" by blast
    have "?hit x \<longleftrightarrow> fst x = te_key ev" if "x \<in> set (items c)" for x
      using find_item [OF Cons.prems that] find gen by auto
    then have items': "items c' = filter (\<lambda>x. \<not> fires_for (ev # evs) x) (items c)"
      unfolding c'(4) items2 c1(4) filter_filter by (intro filter_cong) (auto simp: fires)
    have "length (items c) = Suc (length (items c2))"
      using removed_length [OF Cons.prems find] c1(4) items2 by simp
    moreover have "length (items c') \<le> length (items c2)" by (simp add: c'(4))
    ultimately have "expired_count c' = expired_count c + of_nat (length (items c) - length (items c'))"
      using c'(6) c1(5) by (simp add: c2_def counters_def Suc_diff_le)
    moreover have "expire_all (ev # evs) c = Some c'"
      using find gen c1(1) c'(1) by (simp add: c2_def)
    ultimately show ?thesis
      using c' items' rearranged_trans [OF c2(2) c'(3)] c1(5) by (auto simp: c2_def counters_def)
  qed
qed

lemma deadline_tick:
  assumes "distinct (map (fst \<circ> snd) P)"
    and "P' = map (\<lambda>(k, g, d). (k, g, d - 1)) (filter (\<lambda>(k, g, d). d \<noteq> 1) P)"
  shows "map_of (map snd P') g =
     (case map_of (map snd P) g of None \<Rightarrow> None | Some d \<Rightarrow> if d = (1::nat) then None else Some (d - 1))"
    and "distinct (map (fst \<circ> snd) P')" and "(fst \<circ> snd) ` set P' \<subseteq> (fst \<circ> snd) ` set P"
proof -
  have "map_of (map snd (map (\<lambda>(k, g, d). (k, g, d - 1)) (filter (\<lambda>(k, g, d). d \<noteq> 1) P))) g =
     (case map_of (map snd P) g of None \<Rightarrow> None | Some d \<Rightarrow> if d = (1::nat) then None else Some (d - 1))"
    using assms(1)
  proof (induction P)
    case (Cons x xs)
    obtain k g' d where x: "x = (k, g', d)" by (cases x)
    have "g' = g \<Longrightarrow> map_of (map snd xs) g = None"
      using Cons.prems x by (auto simp: map_of_eq_None_iff image_comp)
    then show ?case using Cons x by (auto split: option.splits)
  qed simp
  then show "map_of (map snd P') g =
     (case map_of (map snd P) g of None \<Rightarrow> None | Some d \<Rightarrow> if d = (1::nat) then None else Some (d - 1))"
    using assms(2) by simp
  have "map (fst \<circ> snd) P' = map (fst \<circ> snd) (filter (\<lambda>(k, g, d). d \<noteq> 1) P)"
    using assms(2) by (auto simp: comp_def)
  then show "distinct (map (fst \<circ> snd) P')"
    using assms(1) by (simp add: distinct_map_filter)
  show "(fst \<circ> snd) ` set P' \<subseteq> (fst \<circ> snd) ` set P" using assms(2) by force
qed

definition tick_promise :: "cache \<Rightarrow> exn + unit \<Rightarrow> cache \<Rightarrow> bool" where
  "tick_promise c r c' \<longleftrightarrow>
     cache_inv c' \<and> capacity_bytes c' = capacity_bytes c \<and> hit_count c' = hit_count c \<and>
     miss_count c' = miss_count c \<and> eviction_count c' = eviction_count c \<and>
     (case r of
        Inl x \<Rightarrow> x = Bad_alloc \<and> view c' = view c \<and> expired_count c' = expired_count c
      | Inr _ \<Rightarrow> view c' = lru_tick (view c) \<and>
          expired_count c' = expired_count c + of_nat (length (view c) - length (view c')))"

lemma view_tick:
  assumes "\<And>x. x \<in> set xs \<Longrightarrow>
      deadline w' (se_generation (snd x)) = (case deadline w (se_generation (snd x)) of
        None \<Rightarrow> None | Some d \<Rightarrow> if d = 1 then None else Some (d - 1))"
  shows "map (view_item h w') (filter (\<lambda>x. deadline w (se_generation (snd x)) \<noteq> Some 1) xs) =
         lru_tick (map (view_item h w) xs)"
  using assms
  by (induction xs) (auto simp: lru_tick_def view_item_def split: option.splits)

lemma wheel_tick_cache:
  assumes inv: "cache_inv c" and t: "wheel_tick (wheel c) (c_heap c) = (Inr evs, w, h)"
    and c1: "c1 = c\<lparr>wheel := w, c_heap := h\<rparr>"
  shows "cache_inv c1"
    and "\<And>g. deadline w g = (case deadline (wheel c) g of
            None \<Rightarrow> None | Some d \<Rightarrow> if d = 1 then None else Some (d - 1))"
    and "\<And>x. x \<in> set (items c) \<Longrightarrow>
            fires_for evs x \<longleftrightarrow> deadline (wheel c) (se_generation (snd x)) = Some 1"
proof -
  have timers: "timers_ok (generation_source c) (wheel c) (items c)"
    using inv by (simp add: cache_ok_def)
  then have winv: "wheel_inv (wheel c)" and dist: "distinct (map (fst \<circ> snd) (pending (wheel c)))"
    by (auto simp: timers_ok_def)
  from wheel.tick_ok [OF winv t] have w: "wheel_inv w"
    and evs: "map (\<lambda>e. (te_key e, te_generation e)) evs =
      map (\<lambda>(k, g, d). (k, g)) (filter (\<lambda>(k, g, d). d = 1) (pending (wheel c)))"
    and pend: "pending w = map (\<lambda>(k, g, d). (k, g, d - 1)) (filter (\<lambda>(k, g, d). d \<noteq> 1) (pending (wheel c)))"
    by auto
  note dt = deadline_tick [OF dist pend]
  show "deadline w g = (case deadline (wheel c) g of
      None \<Rightarrow> None | Some d \<Rightarrow> if d = 1 then None else Some (d - 1))" for g
    using dt(1) by (simp add: deadline_def)
  have "timers_ok (generation_source c) w (items c)"
    using timers w dt(2) unfolding timers_ok_def pend by auto
  moreover have "mem_inv (c_allocator c) h ([] @ item_entries c)"
    using wheel.tick_heap [OF t] by (intro mem_inv_oom(1) [OF cache_ok_mem [OF inv]]) auto
  ultimately show "cache_inv c1"
    using inv unfolding cache_ok_def by (simp add: c1 items_def)
  fix x assume x: "x \<in> set (items c)"
  let ?g = "se_generation (snd x)"
  have "fires_for evs x \<longleftrightarrow> (fst x, ?g) \<in> set (map (\<lambda>e. (te_key e, te_generation e)) evs)"
    by (force simp: fires_for_def)
  also have "\<dots> \<longleftrightarrow> (fst x, ?g, 1) \<in> set (pending (wheel c))" unfolding evs by force
  also have "\<dots> \<longleftrightarrow> (\<exists>k. (k, ?g, 1) \<in> set (pending (wheel c)))"
    using timers x by (cases x) (auto simp: timers_ok_def)
  also have "\<dots> \<longleftrightarrow> deadline (wheel c) ?g = Some 1"
    using dist by (force simp: deadline_def map_of_eq_Some_iff)
  finally show "fires_for evs x \<longleftrightarrow> deadline (wheel c) ?g = Some 1" .
qed

lemma tick_ok:
  assumes inv: "cache_inv c"
  shows "\<exists>r c'. cache_tick c = Some (r, c') \<and> tick_promise c r c'"
proof -
  obtain r w h where t: "wheel_tick (wheel c) (c_heap c) = (r, w, h)" using prod_cases3 by blast
  let ?c = "c\<lparr>wheel := w, c_heap := h\<rparr>"
  have items1: "items ?c = items c" by (simp add: items_def)
  have heap: "next_block h = next_block (c_heap c)" "blocks h = blocks (c_heap c)"
    "cells h = cells (c_heap c)" using wheel.tick_heap [OF t] by auto
  note mem = mem_inv_oom(1) [OF cache_ok_mem [OF inv] heap]
    and vals = mem_inv_oom(2) [OF cache_ok_mem [OF inv] heap]
  show ?thesis
  proof (cases r)
    case (Inl x)
    then have "w = wheel c" "x = Bad_alloc" using wheel.tick_fail t by blast+
    then have "cache_inv ?c" and "frame [] c ?c"
      using inv vals mem items1 by (auto simp: cache_ok_def frame_def counters_def)
    with Inl t view_frame \<open>x = Bad_alloc\<close> show ?thesis
      by (fastforce simp: cache_tick_def tick_promise_def)
  next
    case (Inr evs)
    note wt = wheel_tick_cache [OF inv t [unfolded Inr] refl]
    from expire_all_ok [OF wt(1)] obtain c' where
      c': "expire_all evs ?c = Some c'" "cache_inv c'" "rearranged [] ?c c'"
        "items c' = filter (\<lambda>x. \<not> fires_for evs x) (items ?c)" "eviction_count c' = eviction_count ?c"
        "expired_count c' = expired_count ?c + of_nat (length (items ?c) - length (items c'))" by blast
    have "items c' = filter (\<lambda>x. deadline (wheel c) (se_generation (snd x)) \<noteq> Some 1) (items c)"
      unfolding c'(4) items1 by (intro filter_cong) (auto simp: wt(3))
    then have "view c' = lru_tick (map (view_item h (wheel c)) (items c))"
      using view_rearranged [OF c'(3)] view_tick [OF wt(2)] by simp
    also have "map (view_item h (wheel c)) (items c) = view c"
      using vals by (auto simp: view_def view_item_def same_values_def)
    finally have "view c' = lru_tick (view c)" .
    moreover have "length (view c) = length (items ?c)" "length (view c') = length (items c')"
      by (simp_all add: view_def items1)
    ultimately show ?thesis
      using Inr t c' by (auto simp: cache_tick_def tick_promise_def rearranged_def)
  qed
qed

section \<open>A new cache\<close>

lemma new_cache_inv:
  assumes "va_inv Map.empty al h"
  shows "cache_inv (new_cache capacity al h)" and "view (new_cache capacity al h) = []"
  using mem_inv_empty [OF assms] wheel_inv_new
  by (simp_all add: cache_ok_def new_cache_def items_def view_def links_ok_def timers_ok_def)

end
