(* ===== verification/Cache_Contract.thy ===== *)
theory Cache_Contract
  imports Cache_Correct
begin

text \<open>
  What a user of the cache relies on, as a locale: the operations are total, keep the
  invariant and act on the contents like the abstract timed LRU cache, except that an
  exception may cost evicted entries. Clients' lemmas (read your writes, expiry after
  exactly the time to live, the bound on memory) are proved once here and hold for the
  bare cache and for the locked shard.
\<close>

locale timed_lru =
  fixes set_op :: "bytes \<Rightarrow> bytes \<Rightarrow> u64 \<Rightarrow> 's \<Rightarrow> ((exn + cache_status) \<times> 's) option"
    and get_op :: "bytes \<Rightarrow> bytes \<Rightarrow> 's \<Rightarrow> ((exn + cache_status) \<times> bytes \<times> 's) option"
    and erase_op :: "bytes \<Rightarrow> 's \<Rightarrow> ((exn + cache_status) \<times> 's) option"
    and tick_op :: "'s \<Rightarrow> ((exn + unit) \<times> 's) option"
    and content :: "'s \<Rightarrow> lru_item list"
    and cap :: "'s \<Rightarrow> u64"
    and invar :: "'s \<Rightarrow> bool"
  assumes set_total: "invar s \<Longrightarrow> \<exists>r s'. set_op k v ttl s = Some (r, s')"
    and set_keeps: "invar s \<Longrightarrow> set_op k v ttl s = Some (r, s') \<Longrightarrow> invar s' \<and> cap s' = cap s"
    and set_status: "invar s \<Longrightarrow> set_op k v ttl s = Some (Inr st, s') \<Longrightarrow> st = set_verdict (cap s) k v ttl"
    and set_stores:
      "invar s \<Longrightarrow> set_op k v ttl s = Some (Inr C_ok, s') \<Longrightarrow>
         content s' = lru_set (unat (cap s)) k v (ttl_deadline ttl) (content s)"
    and set_refuses:
      "invar s \<Longrightarrow> set_op k v ttl s = Some (Inr st, s') \<Longrightarrow> st \<noteq> C_ok \<Longrightarrow> s' = s"
    and set_throws:
      "invar s \<Longrightarrow> set_op k v ttl s = Some (Inl x, s') \<Longrightarrow> \<exists>n. content s' = take n (content s)"
    and get_total: "invar s \<Longrightarrow> \<exists>r out' s'. get_op k out s = Some (r, out', s')"
    and get_keeps:
      "invar s \<Longrightarrow> get_op k out s = Some (r, out', s') \<Longrightarrow> invar s' \<and> cap s' = cap s"
    and get_status:
      "invar s \<Longrightarrow> get_op k out s = Some (Inr st, out', s') \<Longrightarrow>
         st = (if validate_key k \<noteq> C_ok then validate_key k
               else if map_of (content s) k = None then C_not_found else C_ok) \<and>
         content s' = (if validate_key k = C_ok then lru_touch k (content s) else content s) \<and>
         out' = (if st = C_ok then fst (the (map_of (content s) k)) else out)"
    and get_throws:
      "invar s \<Longrightarrow> get_op k out s = Some (Inl x, out', s') \<Longrightarrow> content s' = content s \<and> out' = out"
    and erase_total: "invar s \<Longrightarrow> \<exists>r s'. erase_op k s = Some (r, s')"
    and erase_keeps: "invar s \<Longrightarrow> erase_op k s = Some (r, s') \<Longrightarrow> invar s' \<and> cap s' = cap s"
    and erase_status:
      "invar s \<Longrightarrow> erase_op k s = Some (Inr st, s') \<Longrightarrow>
         st = (if validate_key k \<noteq> C_ok then validate_key k
               else if map_of (content s) k = None then C_not_found else C_ok) \<and>
         content s' = (if validate_key k = C_ok then lru_remove k (content s) else content s)"
    and erase_throws: "invar s \<Longrightarrow> erase_op k s = Some (Inl x, s') \<Longrightarrow> content s' = content s"
    and tick_total: "invar s \<Longrightarrow> \<exists>r s'. tick_op s = Some (r, s')"
    and tick_keeps: "invar s \<Longrightarrow> tick_op s = Some (q, s') \<Longrightarrow> invar s' \<and> cap s' = cap s"
    and tick_passes: "invar s \<Longrightarrow> tick_op s = Some (Inr u, s') \<Longrightarrow> content s' = lru_tick (content s)"
    and tick_throws: "invar s \<Longrightarrow> tick_op s = Some (Inl x, s') \<Longrightarrow> content s' = content s"
    and content_distinct: "invar s \<Longrightarrow> distinct (map fst (content s))"
    and content_fits: "invar s \<Longrightarrow> total_charge (content s) \<le> unat (cap s)"
    and content_limits:
      "invar s \<Longrightarrow> (k, v, t) \<in> set (content s) \<Longrightarrow>
         validate_key k = C_ok \<and> length v \<le> max_value_length \<and> (t \<noteq> Some 0)"
begin

abbreviation lookup :: "'s \<Rightarrow> bytes \<Rightarrow> (bytes \<times> nat option) option" where
  "lookup s k \<equiv> map_of (content s) k"

text \<open>A successful write is read back by the next read that returns.\<close>

lemma read_your_write:
  assumes inv: "invar s" and set: "set_op k v ttl s = Some (Inr C_ok, s')"
    and get: "get_op k out s' = Some (Inr st, out', s'')"
  shows "st = C_ok" and "out' = v"
proof -
  have inv': "invar s'" using set_keeps [OF inv set] by simp
  have "set_verdict (cap s) k v ttl = C_ok" using set_status [OF inv set] by simp
  then have key: "validate_key k = C_ok"
    by (auto simp: set_verdict_def validate_key_def split: if_splits)
  have look: "lookup s' k = Some (v, ttl_deadline ttl)"
    unfolding set_stores [OF inv set] by (rule lru_set_lookup_same)
  show "st = C_ok" "out' = v" using get_status [OF inv' get] key look by auto
qed

text \<open>A write may evict other keys, but never alters them.\<close>

lemma set_other_keys:
  assumes inv: "invar s" and set: "set_op k v ttl s = Some (r, s')" and "j \<noteq> k"
    and look: "lookup s' j = Some x"
  shows "lookup s j = Some x"
proof (cases r)
  case (Inl e)
  with set_throws [OF inv] set obtain n where n: "content s' = take n (content s)" by blast
  then have "(j, x) \<in> set (content s)" using look by (metis in_set_takeD map_of_SomeD)
  then show ?thesis using content_distinct [OF inv] by (simp add: map_of_is_SomeI)
next
  case (Inr st)
  show ?thesis
  proof (cases "st = C_ok")
    case True
    show ?thesis
      using lru_set_lookup_other [OF content_distinct [OF inv] \<open>j \<noteq> k\<close>] look
        set_stores [OF inv, of k v ttl s'] set Inr True by metis
  next
    case False
    with set_refuses [OF inv] set Inr have "s' = s" by blast
    with look show ?thesis by simp
  qed
qed

lemma erased_is_gone:
  assumes inv: "invar s" and er: "erase_op k s = Some (Inr st, s')"
    and get: "get_op k out s' = Some (Inr st', out', s'')"
  shows "st' \<noteq> C_ok"
proof -
  have inv': "invar s'" using erase_keeps [OF inv er] by simp
  show ?thesis
    using get_status [OF inv' get] erase_status [OF inv er] by (auto simp: lru_remove_lookup split: if_splits)
qed

text \<open>Any number of ticks.\<close>

fun ticks :: "nat \<Rightarrow> 's \<Rightarrow> ((exn + unit) \<times> 's) option" where
  "ticks 0 s = Some (Inr (), s)"
| "ticks (Suc n) s =
     (case tick_op s of
        None \<Rightarrow> None
      | Some (Inl x, s') \<Rightarrow> Some (Inl x, s')
      | Some (Inr _, s') \<Rightarrow> ticks n s')"

lemma ticks_keep: "invar s \<Longrightarrow> ticks n s = Some (r, s') \<Longrightarrow> invar s' \<and> cap s' = cap s"
proof (induction n arbitrary: s)
  case (Suc n)
  then show ?case using tick_keeps by (fastforce split: option.splits prod.splits sum.splits)
qed simp

lemma positive_deadline: "invar s \<Longrightarrow> lookup s k = Some (v, Some d) \<Longrightarrow> 0 < d"
  using content_limits map_of_SomeD by (metis gr0I)

lemma ticks_lookup:
  assumes "invar s" and "ticks n s = Some (Inr (), s')"
  shows "lookup s' k =
     (case lookup s k of
        None \<Rightarrow> None
      | Some (v, None) \<Rightarrow> Some (v, None)
      | Some (v, Some d) \<Rightarrow> if n < d then Some (v, Some (d - n)) else None)"
  using assms
proof (induction n arbitrary: s)
  case 0
  then show ?case using positive_deadline [OF 0(1)] by (auto split: option.splits)
next
  case (Suc n)
  from Suc.prems obtain u s1 where t: "tick_op s = Some (Inr u, s1)" and r: "ticks n s1 = Some (Inr (), s')"
    by (auto split: option.splits prod.splits sum.splits)
  have inv1: "invar s1" using tick_keeps [OF Suc.prems(1) t] by simp
  have "lookup s1 k = (case lookup s k of None \<Rightarrow> None | Some (v, None) \<Rightarrow> Some (v, None)
      | Some (v, Some d) \<Rightarrow> if d = 1 then None else Some (v, Some (d - 1)))"
    unfolding tick_passes [OF Suc.prems(1) t] by (rule lru_tick_lookup [OF content_distinct [OF Suc.prems(1)]])
  then show ?case using Suc.IH [OF inv1 r] positive_deadline [OF Suc.prems(1)] by (auto split: option.splits)
qed

text \<open>
  A value with a time to live is readable until its last tick and gone afterwards.
\<close>

lemma lives_exactly:
  assumes inv: "invar s" and set: "set_op k v ttl s = Some (Inr C_ok, s1)" and ttl: "sint ttl > 0"
    and "ticks n s1 = Some (Inr (), s2)"
  shows "map_option fst (lookup s2 k) = (if n < unat (ttl_ticks ttl) then Some v else None)"
proof -
  have "lookup s1 k = Some (v, Some (unat (ttl_ticks ttl)))"
    unfolding set_stores [OF inv set] using ttl by (simp add: lru_set_lookup_same ttl_deadline_def)
  moreover have "invar s1" using set_keeps [OF inv set] by simp
  ultimately show ?thesis using ticks_lookup [of s1 n s2 k] assms(4) by simp
qed

end

section \<open>The cache meets its contract\<close>

lemma view_limits:
  assumes inv: "cache_inv c" and x: "(k, v, t) \<in> set (view c)"
  shows "validate_key k = C_ok" and "length v \<le> max_value_length" and "t \<noteq> Some 0"
proof -
  from x obtain se where se: "(k, se) \<in> set (items c)"
    and v: "v = the (entry_value (c_heap c) (se_entry se))"
    and t: "t = deadline (wheel c) (se_generation se)"
    by (auto simp: view_def view_item_def)
  have lim: "limits_ok (k, se)" and timers: "timers_ok (generation_source c) (wheel c) (items c)"
    using inv se by (auto simp: cache_ok_def)
  then show "validate_key k = C_ok" by (auto simp: limits_ok_def validate_key_def)
  show "length v \<le> max_value_length"
    using readable [OF inv se] lim v by (auto simp: limits_ok_def)
  show "t \<noteq> Some 0"
  proof
    assume "t = Some 0"
    then obtain j where "(j, se_generation se, 0) \<in> set (pending (wheel c))"
      using t by (auto simp: deadline_def dest!: map_of_SomeD)
    then show False using wheel.queue_positive timers by (auto simp: timers_ok_def)
  qed
qed

lemma lru_touch_absent: "map_of xs k = None \<Longrightarrow> lru_touch k xs = xs"
  by (simp add: lru_touch_def)

lemma set_cases:
  assumes "cache_inv c" and "cache_set k v ttl c = Some (r, c')"
  obtains (refused) "r = Inr (set_verdict (capacity_bytes c) k v ttl)" and "c' = c"
      and "set_verdict (capacity_bytes c) k v ttl \<noteq> C_ok"
    | (accepted) "set_verdict (capacity_bytes c) k v ttl = C_ok" and "set_promise k v ttl c r c'"
  using assms set_rejects [of c k v ttl] set_accepts [of c k v ttl] by fastforce

lemma get_cases:
  assumes "cache_inv c" and "cache_get k out c = Some (r, out', c')"
  obtains (refused) "r = Inr (validate_key k)" and "out' = out" and "c' = c" and "validate_key k \<noteq> C_ok"
    | (accepted) "validate_key k = C_ok" and "get_promise k out c r out' c'"
  using assms get_ok [of c k out] by (cases "validate_key k = C_ok") (fastforce simp: cache_get_def)+

lemma erase_cases:
  assumes "cache_inv c" and "cache_erase k c = Some (r, c')"
  obtains (refused) "r = Inr (validate_key k)" and "c' = c" and "validate_key k \<noteq> C_ok"
    | (accepted) "validate_key k = C_ok" and "erase_promise k c r c'"
  using assms erase_ok [of c k] by (cases "validate_key k = C_ok") (fastforce simp: cache_erase_def)+

interpretation cache: timed_lru cache_set cache_get cache_erase cache_tick view capacity_bytes cache_inv
proof (unfold_locales, goal_cases)
  case (1 s k v ttl)
  then show ?case using set_rejects [of s k v ttl] set_accepts [of s k v ttl] by blast
next
  case (2 s k v ttl r s')
  then show ?case by (cases rule: set_cases) (use 2(1) in \<open>auto simp: set_promise_def\<close>)
next
  case (3 s k v ttl st s')
  then show ?case by (cases rule: set_cases) (auto simp: set_promise_def)
next
  case (4 s k v ttl s')
  then show ?case by (cases rule: set_cases) (auto simp: set_promise_def)
next
  case (5 s k v ttl st s')
  from 5(1,2) show ?case by (cases rule: set_cases) (use 5(3) in \<open>auto simp: set_promise_def\<close>)
next
  case (6 s k v ttl x s')
  then show ?case by (cases rule: set_cases) (auto simp: set_promise_def)
next
  case (7 s k out)
  then show ?case using get_ok [of s k out] by (cases "validate_key k = C_ok") (auto simp: cache_get_def)
next
  case (8 s k out r out' s')
  then show ?case by (cases rule: get_cases) (use 8(1) in \<open>auto simp: get_promise_def\<close>)
next
  case (9 s k out st out' s')
  then show ?case
    by (cases rule: get_cases)
       (auto simp: get_promise_def lru_touch_absent split: option.splits)
next
  case (10 s k out x out' s')
  then show ?case by (cases rule: get_cases) (auto simp: get_promise_def)
next
  case (11 s k)
  then show ?case using erase_ok [of s k] by (cases "validate_key k = C_ok") (auto simp: cache_erase_def)
next
  case (12 s k r s')
  then show ?case by (cases rule: erase_cases) (use 12(1) in \<open>auto simp: erase_promise_def\<close>)
next
  case (13 s k st s')
  then show ?case by (cases rule: erase_cases) (auto simp: erase_promise_def)
next
  case (14 s k x s')
  then show ?case by (cases rule: erase_cases) (auto simp: erase_promise_def)
next
  case (15 s)
  then show ?case using tick_ok by blast
next
  case (16 s q s')
  then show ?case using tick_ok [of s] by (auto simp: tick_promise_def)
next
  case (17 s u s')
  then show ?case using tick_ok [of s] by (auto simp: tick_promise_def)
next
  case (18 s x s')
  then show ?case using tick_ok [of s] by (auto simp: tick_promise_def)
next
  case (19 s)
  then show ?case using items_distinct by simp
next
  case (20 s)
  then show ?case using view_charge [of "[]" s] by (simp add: cache_ok_def word_le_nat_alt)
next
  case (21 s k v t)
  then show ?case using view_limits by blast
qed

text \<open>Ticks of the cache in a row, up to the first that throws.\<close>

fun cache_ticks :: "nat \<Rightarrow> cache \<Rightarrow> ((exn + unit) \<times> cache) option" where
  "cache_ticks 0 c = Some (Inr (), c)"
| "cache_ticks (Suc n) c =
     (case cache_tick c of
        None \<Rightarrow> None
      | Some (Inl x, c') \<Rightarrow> Some (Inl x, c')
      | Some (Inr _, c') \<Rightarrow> cache_ticks n c')"

lemma cache_ticks_eq: "cache_ticks n c = cache.ticks n c"
  by (induction n arbitrary: c) (auto split: option.splits prod.splits sum.splits)

section \<open>No leaks\<close>

text \<open>
  The blocks outstanding at the allocator are exactly those of the entries, so its metrics
  count the entries with a value and their bytes.
\<close>

lemma sum_entry_blocks:
  "\<forall>e \<in> set es. entry_wf e \<Longrightarrow> (\<Sum>x\<leftarrow>entry_blocks es. f (snd x)) = (\<Sum>e\<leftarrow>es. if entry_size e = 0 then 0 else f (entry_size e))"
  for f :: "nat \<Rightarrow> u64"
  by (induction es) (auto simp: entry_wf_def split: option.splits)

lemma live_sum_blocks:
  assumes "distinct (map fst xs)"
  shows "live_sum f (map_of xs) = (\<Sum>x\<leftarrow>xs. f (snd x))"
proof -
  have "live_sum f (map_of xs) = (\<Sum>p \<in> set (map fst xs). f (the (map_of xs p)))"
    by (simp add: live_sum_def dom_map_of_conv_image_fst)
  also have "\<dots> = (\<Sum>p\<leftarrow>map fst xs. f (the (map_of xs p)))"
    using assms by (simp only: sum_list_distinct_conv_sum_set)
  also have "\<dots> = (\<Sum>x\<leftarrow>xs. f (snd x))"
    using assms by (auto simp: comp_def intro!: arg_cong [where f = sum_list] map_cong)
  finally show ?thesis .
qed

lemma of_nat_sum_list: "of_nat (\<Sum>x\<leftarrow>xs. f x) = (\<Sum>x\<leftarrow>xs. of_nat (f x) :: u64)"
  by (induction xs) simp_all

lemma mset_items: "cache_ok tmp c \<Longrightarrow> mset (entries c) = mset (items c)"
proof -
  assume ok: "cache_ok tmp c"
  then have links: "links_ok (next_node c) (recency c) (entries c)" by (simp add: cache_ok_def)
  have d: "distinct (map fst (entries c))" "distinct (map fst (items c))"
    using links items_distinct [OF ok] by (simp_all add: links_ok_def)
  have "map_of (entries c) = map_of (items c)"
    using map_of_ordered [OF links] by (auto simp: items_def)
  with d have "set (entries c) = set (items c)" by (simp add: map_of_inject_set)
  with d show ?thesis by (simp add: set_eq_iff_mset_eq_distinct [symmetric] distinct_map)
qed

text \<open>Destroying a cache gives every value back: the allocator has nothing outstanding left.\<close>

lemma destroy_cache_ok:
  assumes "cache_inv c"
  shows "\<exists>al h. destroy_cache c = Some (al, h) \<and> va_inv Map.empty al h"
proof -
  have "mset (map (se_entry \<circ> snd) (entries c)) = mset (item_entries c)"
    using mset_items [OF assms] by simp
  from mem_inv_perm [OF _ this] cache_ok_mem [OF assms] show ?thesis
    by (auto simp: destroy_cache_def intro!: destroy_entries_ok)
qed

lemma used_bytes_view:
  assumes "cache_inv c"
  shows "used_bytes (allocator_metrics c) = of_nat (\<Sum>x\<leftarrow>view c. length (fst (snd x)))"
proof -
  let ?es = "item_entries c"
  have mem: "mem_inv (c_allocator c) (c_heap c) ?es" using cache_ok_mem [OF assms] by simp
  have "used_bytes (allocator_metrics c) = live_sum of_nat (map_of (entry_blocks ?es))"
    using va.metrics_exact [of _ "c_allocator c" "c_heap c"] mem
    by (simp add: mem_inv_def allocator_metrics_def metrics_ok_def)
  also have "\<dots> = (\<Sum>x\<leftarrow>entry_blocks ?es. of_nat (snd x))"
    using mem by (intro live_sum_blocks) (simp add: mem_inv_def)
  also have "\<dots> = (\<Sum>e\<leftarrow>?es. if entry_size e = 0 then 0 else of_nat (entry_size e))"
    using mem by (intro sum_entry_blocks) (simp add: mem_inv_def)
  also have "\<dots> = (\<Sum>x\<leftarrow>items c. of_nat (entry_size (se_entry (snd x))))"
    by (auto intro!: arg_cong [where f = sum_list])
  also have "\<dots> = (\<Sum>x\<leftarrow>view c. of_nat (length (fst (snd x))))"
  proof -
    have "length (the (entry_value (c_heap c) (se_entry (snd x)))) = entry_size (se_entry (snd x))"
      if "x \<in> set (items c)" for x using readable [OF assms that] by auto
    then show ?thesis
      by (auto simp: view_def view_item_def comp_def intro!: arg_cong [where f = sum_list])
  qed
  also have "\<dots> = of_nat (\<Sum>x\<leftarrow>view c. length (fst (snd x)))"
    by (simp add: of_nat_sum_list)
  finally show ?thesis .
qed

end
