(* ===== verification/Cache_Liveness.thy ===== *)
theory Cache_Liveness
  imports Cache_Contract
begin

text \<open>
  As long as no allocation fails, nothing in the cache throws (the 64-bit generations
  apart): every accepted \<^verbatim>\<open>set\<close> stores its value and every \<^verbatim>\<open>get\<close> and \<^verbatim>\<open>erase\<close> answers.
\<close>

section \<open>The allocators\<close>

lemma operator_new_nil:
  "operator_new n h = (r, h') \<Longrightarrow> oom h = [] \<Longrightarrow> (\<exists>p. r = Inr p) \<and> oom h' = []"
  by (auto simp: operator_new_def request_memory_def)

lemma operator_delete_oom: "operator_delete p h = Some h' \<Longrightarrow> oom h' = oom h"
  by (auto simp: operator_delete_def split: if_splits)

lemma class_deallocate_oom: "class_deallocate p sc h = Some (sc', h') \<Longrightarrow> oom h' = oom h"
  using store_next_fields(3) by (auto simp: class_deallocate_def split: option.splits)

lemma free_objects_oom: "free_objects d is sc h = Some (sc', h') \<Longrightarrow> oom h' = oom h"
  by (induction d "is" sc h rule: free_objects.induct)
     (auto split: option.splits dest: class_deallocate_oom)

lemma add_slab_nil:
  assumes "add_slab sc h = Some (r, sc', h')" and "oom h = []"
  shows "r = Inr ()" and "oom h' = []"
proof -
  obtain p h2 where new: "operator_new slab_size h = (Inr p, h2)" "oom h2 = []"
    using operator_new_nil [of slab_size h] assms(2) by (cases "operator_new slab_size h") auto
  then show "r = Inr ()" "oom h' = []"
    using assms free_objects_oom by (auto simp: add_slab_def split: option.splits)
qed

lemma class_allocate_nil:
  assumes "class_allocate sc h = Some (r, sc', h')" and "oom h = []"
  shows "(\<exists>p. r = Inr p) \<and> oom h' = []"
proof (cases "free_head sc")
  case None
  with assms(1) obtain q sc1 h1 where a: "add_slab sc h = Some (q, sc1, h1)"
    by (auto simp: class_allocate_def split: option.splits)
  with add_slab_nil [OF a assms(2)] assms(1) None show ?thesis
    by (auto simp: class_allocate_def split: option.splits)
next
  case (Some p)
  with assms show ?thesis by (auto simp: class_allocate_def split: option.splits)
qed

lemma va_allocate_nil:
  assumes "va_allocate n al h = Some (r, al', h')" and "oom h = []"
  shows "(\<exists>p. r = Inr p) \<and> oom h' = []"
proof (cases al)
  case (System s)
  then show ?thesis
    using assms operator_new_nil [of n h] by (cases "operator_new n h") (auto simp: system_allocate_def Let_def split: if_splits)
next
  case (Slab s)
  show ?thesis
  proof (cases "n = 0 \<or> n > max_class_size")
    case True
    then show ?thesis
      using assms Slab operator_new_nil [of n h]
      by (cases "operator_new n h") (auto simp: slab_allocate_def Let_def split: if_splits)
  next
    case False
    then show ?thesis
      using assms Slab class_allocate_nil [of "classes s ! class_index n" h]
      by (auto simp: slab_allocate_def Let_def split: option.splits sum.splits)
  qed
qed

lemma va_deallocate_oom: "va_deallocate p n al h = Some (al', h') \<Longrightarrow> oom h' = oom h"
  by (cases al)
     (auto simp: system_deallocate_def slab_deallocate_def Let_def split: option.splits if_splits
       dest: operator_delete_oom class_deallocate_oom)

lemma make_entry_nil:
  assumes "make_entry v al h = Some (r, al', h')" and "oom h = []"
  shows "(\<exists>e. r = Inr e) \<and> oom h' = []"
proof -
  from assms(1) obtain q al1 h1 where a: "va_allocate (length v) al h = Some (q, al1, h1)"
    by (auto simp: make_entry_def split: option.splits)
  with va_allocate_nil [OF a assms(2)] assms(1) store_cells_fields(3) show ?thesis
    by (auto simp: make_entry_def memcpy_to_def Let_def split: option.splits if_splits)
qed

lemma destroy_entry_oom: "destroy_entry e al h = Some (al', h') \<Longrightarrow> oom h' = oom h"
  by (auto simp: destroy_entry_def dest: va_deallocate_oom split: if_splits)

section \<open>The cache\<close>

abbreviation memory_ok :: "cache \<Rightarrow> bool" where
  "memory_ok c \<equiv> oom (c_heap c) = []"

lemma cache_alloc_nil: "memory_ok c \<Longrightarrow> cache_alloc c = (Inr (), c)"
  by (simp add: cache_alloc_def)

lemma new_entry_nil:
  "new_entry v c = Some (r, c') \<Longrightarrow> memory_ok c \<Longrightarrow>
     (\<exists>e. r = Inr e) \<and> memory_ok c' \<and> generation_source c' = generation_source c"
  by (auto simp: new_entry_def dest: make_entry_nil)

lemma drop_entry_oom:
  "drop_entry e c = Some c' \<Longrightarrow>
     oom (c_heap c') = oom (c_heap c) \<and> generation_source c' = generation_source c"
  by (auto simp: drop_entry_def dest: destroy_entry_oom)

lemma remove_entry_oom:
  "remove_entry k c = Some c' \<Longrightarrow>
     oom (c_heap c') = oom (c_heap c) \<and> generation_source c' = generation_source c"
  by (auto simp: remove_entry_def Let_def split: option.splits if_splits dest!: drop_entry_oom)

lemma evict_lru_oom:
  "evict_lru c = Some c' \<Longrightarrow>
     oom (c_heap c') = oom (c_heap c) \<and> generation_source c' = generation_source c"
  by (auto simp: evict_lru_def Let_def split: option.splits if_splits dest!: remove_entry_oom)

lemma evict_while_oom:
  assumes "evict_while credit room c = Some c'"
  shows "oom (c_heap c') = oom (c_heap c) \<and> generation_source c' = generation_source c"
  using _ assms
proof (rule evict_while.raw_induct [where P = "\<lambda>credit room c c'.
    oom (c_heap c') = oom (c_heap c) \<and> generation_source c' = generation_source c"])
  fix f credit room c c'
  assume IH: "\<And>credit room c c'. f credit room c = Some c' \<Longrightarrow>
      oom (c_heap c') = oom (c_heap c) \<and> generation_source c' = generation_source c"
    and run: "(if memory_usage_bytes c - credit > room then evict_lru c \<bind> f credit room else Some c) = Some c'"
  show "oom (c_heap c') = oom (c_heap c) \<and> generation_source c' = generation_source c"
  proof (cases "memory_usage_bytes c - credit > room")
    case True
    with run obtain c1 where "evict_lru c = Some c1" "f credit room c1 = Some c'"
      by (auto simp: bind_eq_Some_conv)
    then show ?thesis using evict_lru_oom IH by metis
  next
    case False
    with run show ?thesis by simp
  qed
qed

lemma mark_mru_oom:
  "mark_mru k c = Some c' \<Longrightarrow>
     c_heap c' = c_heap c \<and> generation_source c' = generation_source c"
  by (auto simp: mark_mru_def Let_def update_entry_def split: option.splits)

lemma next_timer_nil:
  assumes "memory_ok c" and "generation_source c \<noteq> - 1"
  shows "\<exists>c'. next_timer k ttl c = (Inr (generation_source c + 1), c') \<and> memory_ok c' \<and>
           generation_source c' = generation_source c + 1"
  using assms by (simp add: next_timer_def next_generation_def cache_alloc_nil schedule_def Let_def)

lemma overwrite_oom:
  assumes "overwrite k r g old new c = Some c'"
  shows "oom (c_heap c') = oom (c_heap c) \<and> generation_source c' = generation_source c"
proof -
  from assms obtain c1 where c1: "mark_mru k c = Some c1"
    by (auto simp: overwrite_def bind_eq_Some_conv)
  with assms obtain c2 where c2: "evict_while old (capacity_bytes c1 - new) c1 = Some c2"
    by (auto simp: overwrite_def bind_eq_Some_conv)
  with assms c1 obtain se where se: "find_entry k c2 = Some se"
    by (auto simp: overwrite_def bind_eq_Some_conv)
  obtain e p where rp: "replace_value (se_entry se) r = (e, p)" by fastforce
  from assms c1 c2 se rp obtain c3 where
    c3: "drop_entry p (update_entry k (\<lambda>s. s\<lparr>se_entry := e\<rparr>) c2) = Some c3"
      "c_heap c' = c_heap c3" "generation_source c' = generation_source c3"
    by (auto simp: overwrite_def bind_eq_Some_conv Let_def update_entry_def)
  show ?thesis
    using mark_mru_oom [OF c1] evict_while_oom [OF c2] drop_entry_oom [OF c3(1)] c3(2,3)
    by (simp add: update_entry_def)
qed

lemma set_existing_nil:
  assumes "set_existing k v ttl new se c = Some (r, c')" and "memory_ok c" and "generation_source c \<noteq> - 1"
  shows "(\<exists>st. r = Inr st) \<and> memory_ok c' \<and> generation_source c' = generation_source c + 1"
proof -
  from assms(1) obtain q c1 where "new_entry v c = Some (q, c1)"
    by (auto simp: set_existing_def split: option.splits)
  with new_entry_nil [OF this assms(2)] obtain e where
    e: "new_entry v c = Some (Inr e, c1)" "memory_ok c1" "generation_source c1 = generation_source c" by auto
  with next_timer_nil [of c1 k ttl] assms(3) obtain c2 where
    t: "next_timer k ttl c1 = (Inr (generation_source c + 1), c2)" "memory_ok c2"
      "generation_source c2 = generation_source c + 1" by auto
  with e assms(1) show ?thesis by (auto simp: set_existing_def Let_def dest!: overwrite_oom)
qed

lemma link_new_nil:
  assumes "link_new k e g new c = Some (r, c')" and "memory_ok c"
  shows "(\<exists>st. r = Inr st) \<and> memory_ok c' \<and> generation_source c' = generation_source c"
proof -
  let ?c = "c\<lparr>recency := (next_node c, k) # recency c, next_node := next_node c + 1\<rparr>"
  have "cache_alloc c = (Inr (), c)" "cache_alloc ?c = (Inr (), ?c)"
    using assms(2) by (auto intro: cache_alloc_nil)
  with assms show ?thesis by (auto simp: link_new_def Let_def split: option.splits)
qed

lemma set_new_nil:
  assumes "set_new k v ttl new c = Some (r, c')" and "memory_ok c" and "generation_source c \<noteq> - 1"
  shows "(\<exists>st. r = Inr st) \<and> memory_ok c' \<and> generation_source c' = generation_source c + 1"
proof -
  note al = cache_alloc_nil [OF assms(2)]
  from assms(1) al obtain q c1 where "new_entry v c = Some (q, c1)"
    by (auto simp: set_new_def split: option.splits)
  with new_entry_nil [OF this assms(2)] obtain e where
    e: "new_entry v c = Some (Inr e, c1)" "memory_ok c1" "generation_source c1 = generation_source c" by auto
  with next_timer_nil [of c1 k ttl] assms(3) obtain c2 where
    t: "next_timer k ttl c1 = (Inr (generation_source c + 1), c2)" "memory_ok c2"
      "generation_source c2 = generation_source c + 1" by auto
  with e assms(1) al obtain c3 where "evict_while 0 (capacity_bytes c2 - new) c2 = Some c3"
    "link_new k e (generation_source c + 1) new c3 = Some (r, c')"
    by (auto simp: set_new_def bind_eq_Some_conv)
  with t show ?thesis using evict_while_oom link_new_nil by metis
qed

lemma set_succeeds:
  assumes inv: "cache_inv c" and "memory_ok c" and "generation_source c \<noteq> - 1"
  shows "\<exists>c'. cache_set k v ttl c = Some (Inr (set_verdict (capacity_bytes c) k v ttl), c') \<and> memory_ok c' \<and>
           generation_source c' \<le> generation_source c + 1"
proof -
  obtain r c' where run: "cache_set k v ttl c = Some (r, c')" using cache.set_total [OF inv] by blast
  have inc: "generation_source c \<le> generation_source c + 1"
    using assms(3) inc_less_eq_self_iff_eq [of "generation_source c"] by (simp add: linear less_imp_le not_le)
  have "(\<exists>st. r = Inr st) \<and> memory_ok c' \<and> generation_source c' \<le> generation_source c + 1"
    using run assms inc
    by (auto simp: cache_set_def Let_def cache_alloc_nil split: if_splits option.splits
        dest!: set_existing_nil set_new_nil)
  then show ?thesis using run cache.set_status [OF inv] by auto
qed

lemma get_answers:
  assumes inv: "cache_inv c" and "memory_ok c"
  shows "\<exists>st out' c'. cache_get k out c = Some (Inr st, out', c') \<and> memory_ok c' \<and>
           generation_source c' = generation_source c"
proof -
  obtain r out' c' where run: "cache_get k out c = Some (r, out', c')" using cache.get_total [OF inv] by blast
  have "(\<exists>st. r = Inr st) \<and> memory_ok c' \<and> generation_source c' = generation_source c"
    using run assms
    by (auto simp: cache_get_def Let_def cache_alloc_nil bind_eq_Some_conv split: if_splits option.splits
        dest!: mark_mru_oom)
  then show ?thesis using run by auto
qed

lemma erase_answers:
  assumes inv: "cache_inv c" and "memory_ok c"
  shows "\<exists>st c'. cache_erase k c = Some (Inr st, c') \<and> memory_ok c' \<and>
           generation_source c' = generation_source c"
proof -
  obtain r c' where run: "cache_erase k c = Some (r, c')" using cache.erase_total [OF inv] by blast
  have "(\<exists>st. r = Inr st) \<and> memory_ok c' \<and> generation_source c' = generation_source c"
    using run assms
    by (auto simp: cache_erase_def Let_def cache_alloc_nil split: if_splits option.splits dest!: remove_entry_oom)
  then show ?thesis using run by auto
qed

lemma expire_all_oom:
  "expire_all evs c = Some c' \<Longrightarrow>
     oom (c_heap c') = oom (c_heap c) \<and> generation_source c' = generation_source c"
  by (induction evs arbitrary: c)
     (fastforce simp: bind_eq_Some_conv split: option.splits if_splits dest!: remove_entry_oom)+

lemma tick_succeeds:
  assumes inv: "cache_inv c" and "memory_ok c"
  shows "\<exists>c'. cache_tick c = Some (Inr (), c') \<and> memory_ok c' \<and> generation_source c' = generation_source c"
proof -
  obtain r c' where run: "cache_tick c = Some (r, c')" using cache.tick_total [OF inv] by blast
  obtain fs w' where "wheel_ticks 1 (wheel c) (c_heap c) = Some (fs, w', c_heap c)"
    using wheel_ticks_succeed [OF assms(2)] by blast
  then obtain evs w where "wheel_tick (wheel c) (c_heap c) = (Inr evs, w, c_heap c)"
    by (auto split: prod.splits sum.splits option.splits)
  with run assms(2) show ?thesis by (auto simp: cache_tick_def dest!: expire_all_oom)
qed

lemma ticks_succeed:
  "cache_inv c \<Longrightarrow> memory_ok c \<Longrightarrow> \<exists>c'. cache_ticks n c = Some (Inr (), c') \<and> memory_ok c'"
proof (induction n arbitrary: c)
  case (Suc n)
  from tick_succeeds [OF Suc.prems] obtain c1 where
    t: "cache_tick c = Some (Inr (), c1)" "memory_ok c1" by blast
  with Suc.IH [of c1] cache.tick_keeps [OF Suc.prems(1) t(1)] show ?case by auto
qed simp

end
