(* ===== verification/Logger.thy ===== *)
theory Logger
  imports HC_Prelude
begin

text \<open>
  The log levels and the logger of \<^verbatim>\<open>src/logging/logger.cpp\<close>. The output stream is the text
  written to it so far. Every method holds the mutex from beginning to end, so a call is
  one step on the state.
\<close>

section \<open>Log levels\<close>

datatype log_level = Log_debug | Log_info | Log_warning | Log_error

text \<open>The enumerators are compared by their position in the declaration.\<close>

fun log_rank :: "log_level \<Rightarrow> nat" where
  "log_rank Log_debug = 0"
| "log_rank Log_info = 1"
| "log_rank Log_warning = 2"
| "log_rank Log_error = 3"

instantiation log_level :: linorder
begin

definition less_eq_log_level :: "log_level \<Rightarrow> log_level \<Rightarrow> bool" where
  "less_eq_log_level a b \<longleftrightarrow> log_rank a \<le> log_rank b"

definition less_log_level :: "log_level \<Rightarrow> log_level \<Rightarrow> bool" where
  "less_log_level a b \<longleftrightarrow> log_rank a < log_rank b"

instance
proof
  fix a b :: log_level
  assume "a \<le> b" and "b \<le> a"
  then show "a = b" by (cases a; cases b) (simp_all add: less_eq_log_level_def)
qed (auto simp: less_eq_log_level_def less_log_level_def)

end

definition to_string_log_level :: "log_level \<Rightarrow> string" where
  "to_string_log_level level =
     (case level of
        Log_debug \<Rightarrow> ''DEBUG''
      | Log_info \<Rightarrow> ''INFO''
      | Log_warning \<Rightarrow> ''WARNING''
      | Log_error \<Rightarrow> ''ERROR'')"

definition parse_log_level :: "string \<Rightarrow> exn + log_level" where
  "parse_log_level text =
     (if text = ''debug'' then Inr Log_debug
      else if text = ''info'' then Inr Log_info
      else if text = ''warning'' then Inr Log_warning
      else if text = ''error'' then Inr Log_error
      else Inl (High_cache_error Invalid_argument (''unknown log level: '' @ text)))"

section \<open>The logger\<close>

record logger =
  log_output :: string
  log_minimum :: log_level

definition new_logger :: "string \<Rightarrow> log_level \<Rightarrow> logger" where
  "new_logger out level = \<lparr>log_output = out, log_minimum = level\<rparr>"

definition set_minimum_level :: "log_level \<Rightarrow> logger \<Rightarrow> logger" where
  "set_minimum_level level l = l\<lparr>log_minimum := level\<rparr>"

definition log_message :: "log_level \<Rightarrow> string \<Rightarrow> logger \<Rightarrow> logger" where
  "log_message level message l =
     (if level < log_minimum l then l
      else l\<lparr>log_output := log_output l @ ''['' @ to_string_log_level level @ ''] '' @ message @ [CHR 0x0A]\<rparr>)"

definition log_debug_message :: "string \<Rightarrow> logger \<Rightarrow> logger" where
  "log_debug_message message = log_message Log_debug message"

definition log_info_message :: "string \<Rightarrow> logger \<Rightarrow> logger" where
  "log_info_message message = log_message Log_info message"

definition log_warning_message :: "string \<Rightarrow> logger \<Rightarrow> logger" where
  "log_warning_message message = log_message Log_warning message"

definition log_error_message :: "string \<Rightarrow> logger \<Rightarrow> logger" where
  "log_error_message message = log_message Log_error message"

section \<open>What is logged\<close>

fun log_all :: "(log_level \<times> string) list \<Rightarrow> logger \<Rightarrow> logger" where
  "log_all [] l = l"
| "log_all ((level, message) # rest) l = log_all rest (log_message level message l)"

definition log_line :: "log_level \<times> string \<Rightarrow> string" where
  "log_line x = ''['' @ to_string_log_level (fst x) @ ''] '' @ snd x @ [CHR 0x0A]"

lemma log_all_output:
  "log_all ms l =
     l\<lparr>log_output := log_output l @ concat (map log_line (filter (\<lambda>x. log_minimum l \<le> fst x) ms))\<rparr>"
proof (induction ms arbitrary: l)
  case (Cons x ms)
  obtain level message where x: "x = (level, message)" by (cases x)
  have "log_minimum (log_message level message l) = log_minimum l"
    by (simp add: log_message_def)
  then show ?case
    by (simp add: x Cons.IH, simp add: log_message_def log_line_def [of "(level, message)"] not_less)
qed simp

end
