(* ===== verification/Config.thy ===== *)
theory Config
  imports Logger Value_Allocator
begin

text \<open>
  \<^verbatim>\<open>Config\<close> of \<^verbatim>\<open>src/config/config.cpp\<close>: the \<open>key=value\<close> files of the server. A file is the text
  that was read from it and whether reading broke off with an I/O error. The strings made
  while reading it are small and short-lived; running out of memory here, before the server
  is up, is not modelled.
\<close>

section \<open>Strings and numbers\<close>

text \<open>\<^verbatim>\<open>find_first_not_of\<close>, \<^verbatim>\<open>find_last_not_of\<close> and \<^verbatim>\<open>find\<close> of \<^verbatim>\<open>std::string_view\<close>; \<^verbatim>\<open>npos\<close> is \<open>None\<close>.\<close>

fun find_first_not_of :: "string \<Rightarrow> string \<Rightarrow> nat option" where
  "find_first_not_of [] cs = None"
| "find_first_not_of (x # xs) cs =
     (if x \<notin> set cs then Some 0 else map_option Suc (find_first_not_of xs cs))"

definition find_last_not_of :: "string \<Rightarrow> string \<Rightarrow> nat option" where
  "find_last_not_of s cs = map_option (\<lambda>i. length s - 1 - i) (find_first_not_of (rev s) cs)"

fun find_char :: "string \<Rightarrow> char \<Rightarrow> nat option" where
  "find_char [] c = None"
| "find_char (x # xs) c = (if x = c then Some 0 else map_option Suc (find_char xs c))"

abbreviation (input) newline :: char where
  "newline \<equiv> CHR 0x0A"

definition whitespace :: string where
  "whitespace = [CHR '' '', CHR 0x09, CHR 0x0D, newline]"

definition trim :: "string \<Rightarrow> string" where
  "trim s =
     (case find_first_not_of s whitespace of
        None \<Rightarrow> []
      | Some first \<Rightarrow>
          (case find_last_not_of s whitespace of
             None \<Rightarrow> []
           | Some final \<Rightarrow> take (final - first + 1) (drop first s)))"

definition is_digit :: "char \<Rightarrow> bool" where
  "is_digit c \<longleftrightarrow> 48 \<le> (of_char c :: nat) \<and> (of_char c :: nat) \<le> 57"

definition digits_value :: "string \<Rightarrow> nat" where
  "digits_value ds = foldl (\<lambda>n d. 10 * n + (of_char d - 48)) 0 ds"

datatype errc = Errc_ok | Errc_invalid_argument | Errc_result_out_of_range

text \<open>
  \<^verbatim>\<open>std::from_chars\<close> for \<^verbatim>\<open>std::uint64_t\<close>: the longest run of digits at the beginning; the
  position after it, the error, and the number (unchanged, here \<open>0\<close>, after an error).
\<close>

definition from_chars :: "string \<Rightarrow> nat \<times> errc \<times> u64" where
  "from_chars s =
     (let ds = takeWhile is_digit s
      in if ds = [] then (0, Errc_invalid_argument, 0)
         else if digits_value ds \<ge> 2 ^ 64 then (length ds, Errc_result_out_of_range, 0)
         else (length ds, Errc_ok, of_nat (digits_value ds)))"

definition parse_unsigned :: "string \<Rightarrow> exn + u64" where
  "parse_unsigned s =
     (let (end_pos, error, parsed) = from_chars s
      in if error \<noteq> Errc_ok \<or> end_pos \<noteq> length s
         then Inl (High_cache_error Invalid_argument ''expected an unsigned decimal integer'')
         else Inr parsed)"

text \<open>\<^verbatim>\<open>std::to_string\<close> of a number.\<close>

fun to_decimal :: "nat \<Rightarrow> string" where
  "to_decimal n =
     (if n < 10 then [char_of (48 + n)] else to_decimal (n div 10) @ [char_of (48 + n mod 10)])"

declare to_decimal.simps [simp del]

section \<open>The configuration\<close>

record config =
  cfg_log_level :: log_level
  cfg_host :: string
  cfg_port :: u16
  cfg_worker_threads :: u64
  cfg_capacity_bytes :: u64
  cfg_shard_count :: u64
  cfg_allocator :: allocator_backend

definition default_config :: config where
  "default_config =
     \<lparr>cfg_log_level = Log_info, cfg_host = ''127.0.0.1'', cfg_port = 11211, cfg_worker_threads = 4,
      cfg_capacity_bytes = 64 * 1024 * 1024, cfg_shard_count = 64, cfg_allocator = Backend_slab\<rparr>"

definition config_with_level :: "log_level \<Rightarrow> config" where
  "config_with_level level = default_config\<lparr>cfg_log_level := level\<rparr>"

text \<open>The local variables of \<^verbatim>\<open>from_stream\<close>.\<close>

record config_state =
  cs_config :: config
  has_log_level :: bool
  has_host :: bool
  has_port :: bool
  has_worker_threads :: bool
  has_capacity_bytes :: bool
  has_shard_count :: bool
  has_backend :: bool

definition start_config_state :: config_state where
  "start_config_state =
     \<lparr>cs_config = default_config, has_log_level = False, has_host = False, has_port = False,
      has_worker_threads = False, has_capacity_bytes = False, has_shard_count = False,
      has_backend = False\<rparr>"

definition parse_error :: "string \<Rightarrow> nat \<Rightarrow> string \<Rightarrow> exn" where
  "parse_error source line_number detail =
     High_cache_error Config_parse (source @ '':'' @ to_decimal line_number @ '': '' @ detail)"

text \<open>
  The body of the four \<^verbatim>\<open>try\<close> blocks that read a bounded number, and the \<^verbatim>\<open>catch\<close> around
  all parsers of values, which turns a \<^verbatim>\<open>HighCacheError\<close> into a parse error of the line.
\<close>

definition parse_within :: "u64 \<Rightarrow> u64 \<Rightarrow> string \<Rightarrow> string \<Rightarrow> exn + u64" where
  "parse_within lowest highest complaint v =
     (case parse_unsigned v of
        Inl x \<Rightarrow> Inl x
      | Inr parsed \<Rightarrow>
          (if parsed < lowest \<or> parsed > highest
           then Inl (High_cache_error Invalid_argument complaint)
           else Inr parsed))"

definition catch_invalid ::
    "string \<Rightarrow> nat \<Rightarrow> string \<Rightarrow> string \<Rightarrow> exn + 'a \<Rightarrow> ('a \<Rightarrow> config_state) \<Rightarrow> exn + config_state" where
  "catch_invalid source line_number key v r f =
     (case r of
        Inr parsed \<Rightarrow> Inr (f parsed)
      | Inl (High_cache_error _ _) \<Rightarrow>
          Inl (parse_error source line_number (''invalid '' @ key @ '': '' @ v))
      | Inl x \<Rightarrow> Inl x)"

definition duplicate :: "string \<Rightarrow> nat \<Rightarrow> string \<Rightarrow> exn + config_state" where
  "duplicate source line_number key =
     Inl (parse_error source line_number (''duplicate configuration key: '' @ key))"

definition config_assign ::
    "string \<Rightarrow> nat \<Rightarrow> string \<Rightarrow> string \<Rightarrow> config_state \<Rightarrow> exn + config_state" where
  "config_assign source line_number key v st =
     (let cfg = cs_config st
      in if key = ''log_level'' then
           (if has_log_level st then duplicate source line_number ''log_level''
            else catch_invalid source line_number ''log_level'' v (parse_log_level v)
              (\<lambda>l. st\<lparr>cs_config := cfg\<lparr>cfg_log_level := l\<rparr>, has_log_level := True\<rparr>))
         else if key = ''host'' then
           (if has_host st then duplicate source line_number ''host''
            else Inr (st\<lparr>cs_config := cfg\<lparr>cfg_host := v\<rparr>, has_host := True\<rparr>))
         else if key = ''port'' then
           (if has_port st then duplicate source line_number ''port''
            else catch_invalid source line_number ''port'' v
              (parse_within 0 65535 ''port exceeds uint16 range'' v)
              (\<lambda>n. st\<lparr>cs_config := cfg\<lparr>cfg_port := ucast n\<rparr>, has_port := True\<rparr>))
         else if key = ''worker_threads'' then
           (if has_worker_threads st then duplicate source line_number ''worker_threads''
            else catch_invalid source line_number ''worker_threads'' v
              (parse_within 1 1024 ''worker count outside supported range'' v)
              (\<lambda>n. st\<lparr>cs_config := cfg\<lparr>cfg_worker_threads := n\<rparr>, has_worker_threads := True\<rparr>))
         else if key = ''cache_capacity_bytes'' then
           (if has_capacity_bytes st then duplicate source line_number ''cache_capacity_bytes''
            else catch_invalid source line_number ''cache_capacity_bytes'' v
              (parse_within 1 (- 1) ''cache capacity outside supported range'' v)
              (\<lambda>n. st\<lparr>cs_config := cfg\<lparr>cfg_capacity_bytes := n\<rparr>, has_capacity_bytes := True\<rparr>))
         else if key = ''shard_count'' then
           (if has_shard_count st then duplicate source line_number ''shard_count''
            else catch_invalid source line_number ''shard_count'' v
              (parse_within 1 1024 ''shard count outside supported range'' v)
              (\<lambda>n. st\<lparr>cs_config := cfg\<lparr>cfg_shard_count := n\<rparr>, has_shard_count := True\<rparr>))
         else if key = ''allocator'' then
           (if has_backend st then duplicate source line_number ''allocator''
            else catch_invalid source line_number ''allocator'' v (parse_allocator_backend v)
              (\<lambda>b. st\<lparr>cs_config := cfg\<lparr>cfg_allocator := b\<rparr>, has_backend := True\<rparr>))
         else Inl (parse_error source line_number (''unknown configuration key: '' @ key)))"

definition config_line :: "string \<Rightarrow> nat \<Rightarrow> string \<Rightarrow> config_state \<Rightarrow> exn + config_state" where
  "config_line source line_number line st =
     (let content = trim line
      in if content = [] \<or> hd content = CHR ''#'' then Inr st
         else case find_char content (CHR ''='') of
           None \<Rightarrow> Inl (parse_error source line_number ''expected key=value'')
         | Some delimiter \<Rightarrow>
             (let key = trim (take delimiter content);
                  v = trim (drop (delimiter + 1) content)
              in if key = [] \<or> v = []
                 then Inl (parse_error source line_number ''key and value must not be empty'')
                 else config_assign source line_number key v st))"

text \<open>The loop; \<open>n\<close> lines have been read before.\<close>

fun config_lines :: "string \<Rightarrow> nat \<Rightarrow> string list \<Rightarrow> config_state \<Rightarrow> exn + config_state" where
  "config_lines source n [] st = Inr st"
| "config_lines source n (line # rest) st =
     (case config_line source (n + 1) line st of
        Inl x \<Rightarrow> Inl x
      | Inr st' \<Rightarrow> config_lines source (n + 1) rest st')"

text \<open>
  The lines \<^verbatim>\<open>std::getline\<close> gives: a last line needs no newline, but an empty rest is no line.
  A line in which reading breaks off is not given.
\<close>

function get_lines :: "string \<Rightarrow> string list" where
  "get_lines s =
     (if s = [] then []
      else takeWhile (\<lambda>c. c \<noteq> newline) s # get_lines (tl (dropWhile (\<lambda>c. c \<noteq> newline) s)))"
  by pat_completeness auto
termination
proof (relation "measure length")
  fix s :: string
  assume "s \<noteq> []"
  then show "(tl (dropWhile (\<lambda>c. c \<noteq> newline) s), s) \<in> measure length"
    using length_dropWhile_le [of "\<lambda>c. c \<noteq> newline" s] by (cases s) auto
qed simp

declare get_lines.simps [simp del]

definition lines_read :: "string \<Rightarrow> bool \<Rightarrow> string list" where
  "lines_read contents bad =
     (if bad \<and> contents \<noteq> [] \<and> last contents \<noteq> newline then butlast (get_lines contents)
      else get_lines contents)"

definition from_stream :: "string \<Rightarrow> bool \<Rightarrow> string \<Rightarrow> exn + config" where
  "from_stream contents bad source =
     (case config_lines source 0 (lines_read contents bad) start_config_state of
        Inl x \<Rightarrow> Inl x
      | Inr st \<Rightarrow>
          (if bad then Inl (High_cache_error Config_io (''failed while reading configuration: '' @ source))
           else Inr (cs_config st)))"

text \<open>The file system gives the contents of the file, or it cannot be opened.\<close>

definition from_file :: "(string \<Rightarrow> (string \<times> bool) option) \<Rightarrow> string \<Rightarrow> exn + config" where
  "from_file files path =
     (case files path of
        None \<Rightarrow> Inl (High_cache_error Config_io (''unable to open configuration file: '' @ path))
      | Some (contents, bad) \<Rightarrow> from_stream contents bad path)"

section \<open>Trimming and numbers\<close>

lemma find_first_not_of_eq:
  "find_first_not_of s cs =
     (if set s \<subseteq> set cs then None else Some (length (takeWhile (\<lambda>c. c \<in> set cs) s)))"
  by (induction s) auto

text \<open>Trimming drops the white space from both ends.\<close>

lemma trim_eq:
  "trim s = rev (dropWhile (\<lambda>c. c \<in> set whitespace) (rev (dropWhile (\<lambda>c. c \<in> set whitespace) s)))"
proof (cases "set s \<subseteq> set whitespace")
  case True
  then have d: "dropWhile (\<lambda>c. c \<in> set whitespace) s = []" by auto
  from True have "trim s = []" by (simp add: trim_def find_first_not_of_eq)
  then show ?thesis unfolding d by simp
next
  case False
  let ?P = "\<lambda>c. c \<in> set whitespace"
  let ?a = "takeWhile ?P s" and ?m = "dropWhile ?P s"
  let ?z = "takeWhile ?P (rev ?m)"
  have m: "\<exists>x \<in> set (rev ?m). \<not> ?P x"
    using False hd_dropWhile [of ?P s] by (metis dropWhile_eq_Nil_conv hd_in_set set_rev subsetI)
  have z: "takeWhile ?P (rev s) = ?z"
    by (metis m rev_append takeWhile_append1 takeWhile_dropWhile_id)
  have len: "length s = length ?a + length ?m" by (metis length_append takeWhile_dropWhile_id)
  have "takeWhile ?P (rev ?m) \<noteq> rev ?m" using m by (metis takeWhile_eq_all_conv)
  then have "length ?z \<noteq> length ?m"
    by (metis length_rev append_eq_conv_conj takeWhile_dropWhile_id take_all_iff le_refl)
  then have lz: "length ?z < length ?m" using length_takeWhile_le [of ?P "rev ?m"] by simp
  have "trim s = take (length s - 1 - length ?z - length ?a + 1) (drop (length ?a) s)"
    using False by (simp add: trim_def find_last_not_of_def find_first_not_of_eq z)
  also have "\<dots> = take (length ?m - length ?z) ?m"
  proof -
    have "length s - 1 - length ?z - length ?a + 1 = length ?m - length ?z" using len lz by linarith
    then show ?thesis by (simp add: dropWhile_eq_drop)
  qed
  also have "\<dots> = rev (dropWhile ?P (rev ?m))"
    by (simp add: dropWhile_eq_drop [of _ "rev ?m"] rev_drop)
  finally show ?thesis .
qed

lemma trim_id:
  assumes "s \<noteq> []" and "hd s \<notin> set whitespace" and "last s \<notin> set whitespace"
  shows "trim s = s"
proof -
  have "dropWhile (\<lambda>c. c \<in> set whitespace) s = s"
    using assms(2) by (simp add: dropWhile_eq_self_iff)
  moreover have "dropWhile (\<lambda>c. c \<in> set whitespace) (rev s) = rev s"
    using assms(1,3) by (simp add: dropWhile_eq_self_iff hd_rev)
  ultimately show ?thesis by (simp add: trim_eq)
qed

lemma trimmed_ends:
  assumes "trim s = s" and "s \<noteq> []"
  shows "hd s \<notin> set whitespace" "last s \<notin> set whitespace"
proof -
  let ?P = "\<lambda>c. c \<in> set whitespace"
  let ?m = "dropWhile ?P s"
  have eq: "s = rev (dropWhile ?P (rev ?m))" using assms(1) by (simp add: trim_eq)
  have "length s \<le> length ?m"
    using length_dropWhile_le [of ?P "rev ?m"] eq by (metis length_rev)
  then have m: "?m = s"
    using length_dropWhile_le [of ?P s] by (metis dropWhile_eq_drop drop_eq_Nil le_antisym length_drop
        append_eq_conv_conj length_append takeWhile_dropWhile_id add_cancel_right_left length_0_conv append_Nil)
  show "hd s \<notin> set whitespace" using hd_dropWhile [of ?P s] m assms(2) by metis
  have "dropWhile ?P (rev s) = rev s" using eq m by (metis rev_rev_ident)
  then show "last s \<notin> set whitespace"
    using hd_dropWhile [of ?P "rev s"] assms(2) by (metis hd_rev rev_is_Nil_conv)
qed

lemma digits_value_snoc [simp]: "digits_value (ds @ [d]) = 10 * digits_value ds + (of_char d - 48)"
  by (simp add: digits_value_def)

lemma decimal_digit:
  "n < 10 \<Longrightarrow> is_digit (char_of (48 + n)) \<and> of_char (char_of (48 + n)) - 48 = n" for n :: nat
  by (simp add: is_digit_def)

lemma to_decimal_ok:
  "to_decimal n \<noteq> [] \<and> (\<forall>c \<in> set (to_decimal n). is_digit c) \<and> digits_value (to_decimal n) = n"
proof (induction n rule: to_decimal.induct)
  case (1 n)
  show ?case
  proof (cases "n < 10")
    case True
    then show ?thesis
      using decimal_digit [OF True] by (simp add: to_decimal.simps [of n] digits_value_def)
  next
    case False
    then show ?thesis
      using 1 decimal_digit [of "n mod 10"] by (auto simp: to_decimal.simps [of n])
  qed
qed

text \<open>The decimal numbers from \<open>lo\<close> to \<open>hi\<close>.\<close>

definition number_within :: "nat \<Rightarrow> nat \<Rightarrow> string \<Rightarrow> bool" where
  "number_within lo hi v \<longleftrightarrow>
     v \<noteq> [] \<and> list_all is_digit v \<and> lo \<le> digits_value v \<and> digits_value v \<le> hi"

lemma from_chars_cases:
  "(case from_chars s of (end_pos, error, parsed) \<Rightarrow> error = Errc_ok \<and> end_pos = length s \<and> parsed = n) \<longleftrightarrow>
     number_within 0 (2 ^ 64 - 1) s \<and> n = of_nat (digits_value s)"
proof (cases "list_all is_digit s")
  case True
  then have "takeWhile is_digit s = s" by (simp add: list_all_iff)
  with True show ?thesis unfolding from_chars_def
    by (auto simp only: number_within_def Let_def) (auto split: if_splits)
next
  case False
  then have "length (takeWhile is_digit s) \<noteq> length s"
    by (metis list_all_iff set_takeWhileD takeWhile_eq_take take_all_iff le_refl)
  with False show ?thesis by (auto simp: from_chars_def number_within_def Let_def)
qed

lemma parse_unsigned_eq:
  "parse_unsigned s =
     (if number_within 0 (2 ^ 64 - 1) s then Inr (of_nat (digits_value s))
      else Inl (High_cache_error Invalid_argument ''expected an unsigned decimal integer''))"
  using from_chars_cases [of s "snd (snd (from_chars s))"] from_chars_cases [of s "of_nat (digits_value s)"]
  by (auto simp: parse_unsigned_def split: prod.splits)

lemma parse_within_eq:
  assumes "unat lo = lo'" and "unat hi = hi'"
  shows "parse_within lo hi complaint v =
     (if number_within lo' hi' v then Inr (of_nat (digits_value v))
      else Inl (High_cache_error Invalid_argument
        (if number_within 0 (2 ^ 64 - 1) v then complaint else ''expected an unsigned decimal integer'')))"
proof -
  have "digits_value v \<le> 2 ^ 64 - 1 \<Longrightarrow> unat (of_nat (digits_value v) :: u64) = digits_value v"
    by (simp add: unat_of_nat take_bit_nat_eq_self)
  moreover have "hi' \<le> 2 ^ 64 - 1" using assms(2) unsigned_less [of hi, where ?'a = nat] by simp
  ultimately show ?thesis
    using assms by (auto simp: parse_within_def parse_unsigned_eq number_within_def word_less_nat_alt)
qed

section \<open>The meaning of a configuration file\<close>

text \<open>
  Read as a whole, a file is a list of settings. Lines that are empty or comments do not
  count; every other line has to set a known key to an acceptable value, and no key may be
  set twice. What is not set has its default.
\<close>

definition blank_line :: "string \<Rightarrow> bool" where
  "blank_line line \<longleftrightarrow> trim line = [] \<or> hd (trim line) = CHR ''#''"

definition line_setting :: "string \<Rightarrow> (string \<times> string) option" where
  "line_setting line =
     (case find_char (trim line) (CHR ''='') of
        None \<Rightarrow> None
      | Some d \<Rightarrow>
          (let key = trim (take d (trim line)); v = trim (drop (d + 1) (trim line))
           in if key = [] \<or> v = [] then None else Some (key, v)))"

definition file_settings :: "string list \<Rightarrow> (string \<times> string) option list" where
  "file_settings lines = map line_setting (filter (\<lambda>l. \<not> blank_line l) lines)"

definition acceptable :: "string \<times> string \<Rightarrow> bool" where
  "acceptable kv \<longleftrightarrow> (case kv of (key, v) \<Rightarrow>
     key = ''log_level'' \<and> v \<in> {''debug'', ''info'', ''warning'', ''error''} \<or>
     key = ''host'' \<or>
     key = ''port'' \<and> number_within 0 65535 v \<or>
     key = ''worker_threads'' \<and> number_within 1 1024 v \<or>
     key = ''cache_capacity_bytes'' \<and> number_within 1 (2 ^ 64 - 1) v \<or>
     key = ''shard_count'' \<and> number_within 1 1024 v \<or>
     key = ''allocator'' \<and> v \<in> {''system'', ''slab''})"

definition setting :: "(string \<Rightarrow> string option) \<Rightarrow> string \<Rightarrow> (string \<Rightarrow> 'a) \<Rightarrow> 'a \<Rightarrow> 'a" where
  "setting m key read preset = (case m key of None \<Rightarrow> preset | Some v \<Rightarrow> read v)"

definition config_of :: "(string \<Rightarrow> string option) \<Rightarrow> config" where
  "config_of m =
     \<lparr>cfg_log_level = setting m ''log_level'' (projr \<circ> parse_log_level) Log_info,
      cfg_host = setting m ''host'' id ''127.0.0.1'',
      cfg_port = setting m ''port'' (of_nat \<circ> digits_value) 11211,
      cfg_worker_threads = setting m ''worker_threads'' (of_nat \<circ> digits_value) 4,
      cfg_capacity_bytes = setting m ''cache_capacity_bytes'' (of_nat \<circ> digits_value) (64 * 1024 * 1024),
      cfg_shard_count = setting m ''shard_count'' (of_nat \<circ> digits_value) 64,
      cfg_allocator = setting m ''allocator'' (projr \<circ> parse_allocator_backend) Backend_slab\<rparr>"

text \<open>What the loop has read so far.\<close>

definition has_read :: "config_state \<Rightarrow> (string \<Rightarrow> string option) \<Rightarrow> bool" where
  "has_read st m \<longleftrightarrow>
     st = \<lparr>cs_config = config_of m, has_log_level = m ''log_level'' \<noteq> None, has_host = m ''host'' \<noteq> None,
           has_port = m ''port'' \<noteq> None, has_worker_threads = m ''worker_threads'' \<noteq> None,
           has_capacity_bytes = m ''cache_capacity_bytes'' \<noteq> None,
           has_shard_count = m ''shard_count'' \<noteq> None, has_backend = m ''allocator'' \<noteq> None\<rparr>"

lemma has_read_start: "has_read start_config_state Map.empty"
  by (simp add: has_read_def start_config_state_def default_config_def config_of_def setting_def)

lemma ucast_port: "number_within 0 65535 v \<Longrightarrow> ucast (of_nat (digits_value v) :: u64) = (of_nat (digits_value v) :: u16)"
  by (simp add: number_within_def unsigned_of_nat take_bit_nat_eq_self)

lemma setting_upd [simp]:
  "setting (m(k \<mapsto> v)) k f d = f v" "k' \<noteq> k \<Longrightarrow> setting (m(k \<mapsto> v)) k' f d = setting m k' f d"
  by (simp_all add: setting_def)

lemma within_eq:
  "parse_within 0 65535 complaint v =
     (if number_within 0 65535 v then Inr (of_nat (digits_value v))
      else Inl (High_cache_error Invalid_argument
        (if number_within 0 (2 ^ 64 - 1) v then complaint else ''expected an unsigned decimal integer'')))"
  "parse_within 1 1024 complaint v =
     (if number_within 1 1024 v then Inr (of_nat (digits_value v))
      else Inl (High_cache_error Invalid_argument
        (if number_within 0 (2 ^ 64 - 1) v then complaint else ''expected an unsigned decimal integer'')))"
  "parse_within 1 (- 1) complaint v =
     (if number_within 1 (2 ^ 64 - 1) v then Inr (of_nat (digits_value v))
      else Inl (High_cache_error Invalid_argument
        (if number_within 0 (2 ^ 64 - 1) v then complaint else ''expected an unsigned decimal integer'')))"
  by (rule parse_within_eq; simp add: unsigned_minus_1_eq_mask mask_eq_exp_minus_1)+

lemma parse_log_level_cases:
  "v \<in> {''debug'', ''info'', ''warning'', ''error''} \<Longrightarrow> \<exists>l. parse_log_level v = Inr l"
  "v \<notin> {''debug'', ''info'', ''warning'', ''error''} \<Longrightarrow>
     parse_log_level v = Inl (High_cache_error Invalid_argument (''unknown log level: '' @ v))"
  by (auto simp: parse_log_level_def)

lemma parse_backend_cases:
  "v \<in> {''system'', ''slab''} \<Longrightarrow> \<exists>b. parse_allocator_backend v = Inr b"
  "v \<notin> {''system'', ''slab''} \<Longrightarrow>
     parse_allocator_backend v = Inl (High_cache_error Invalid_argument ''unsupported value allocator backend'')"
  by (auto simp: parse_allocator_backend_def)

lemmas config_assign_simps = config_assign_def catch_invalid_def duplicate_def has_read_def config_of_def within_eq

lemma assign_accepts:
  assumes "has_read st m" and "acceptable (key, v)" and "m key = None"
  shows "\<exists>st'. config_assign source n key v st = Inr st' \<and> has_read st' (m(key \<mapsto> v))"
proof -
  consider (level) "key = ''log_level''" "v \<in> {''debug'', ''info'', ''warning'', ''error''}"
    | (host) "key = ''host''" | (port) "key = ''port''" "number_within 0 65535 v"
    | (workers) "key = ''worker_threads''" "number_within 1 1024 v"
    | (capacity) "key = ''cache_capacity_bytes''" "number_within 1 (2 ^ 64 - 1) v"
    | (shards) "key = ''shard_count''" "number_within 1 1024 v"
    | (backend) "key = ''allocator''" "v \<in> {''system'', ''slab''}"
    using assms(2) unfolding acceptable_def prod.case by argo
  then show ?thesis
  proof cases
    case level
    obtain l where l: "parse_log_level v = Inr l" using parse_log_level_cases(1) [OF level(2)] ..
    then show ?thesis using assms(1,3) level(1) by (simp add: config_assign_simps)
  next
    case host
    then show ?thesis using assms(1,3) by (simp add: config_assign_simps)
  next
    case port
    then show ?thesis using assms(1,3) by (simp add: config_assign_simps ucast_port)
  next
    case workers
    then show ?thesis using assms(1,3) by (simp add: config_assign_simps)
  next
    case capacity
    then show ?thesis using assms(1,3) by (simp add: config_assign_simps)
  next
    case shards
    then show ?thesis using assms(1,3) by (simp add: config_assign_simps)
  next
    case backend
    obtain b where b: "parse_allocator_backend v = Inr b" using parse_backend_cases(1) [OF backend(2)] ..
    then show ?thesis using assms(1,3) backend(1) by (simp add: config_assign_simps)
  qed
qed

text \<open>Everything else is a parse error of the line.\<close>

definition rejected :: "string \<Rightarrow> nat \<Rightarrow> exn + 'a \<Rightarrow> bool" where
  "rejected source n r \<longleftrightarrow> (\<exists>d. r = Inl (parse_error source n d))"

lemma rejected_error [simp]: "rejected source n (Inl (parse_error source n d))"
  by (auto simp: rejected_def)

lemma assign_rejects:
  assumes "has_read st m" and "\<not> (acceptable (key, v) \<and> m key = None)"
  shows "rejected source n (config_assign source n key v st)"
proof -
  consider (level) "key = ''log_level''" | (host) "key = ''host''" | (port) "key = ''port''"
    | (workers) "key = ''worker_threads''" | (capacity) "key = ''cache_capacity_bytes''"
    | (shards) "key = ''shard_count''" | (backend) "key = ''allocator''"
    | (other) "key \<noteq> ''log_level''" "key \<noteq> ''host''" "key \<noteq> ''port''" "key \<noteq> ''worker_threads''"
        "key \<noteq> ''cache_capacity_bytes''" "key \<noteq> ''shard_count''" "key \<noteq> ''allocator''" by argo
  then show ?thesis
  proof cases
    case level
    show ?thesis
    proof (cases "v \<in> {''debug'', ''info'', ''warning'', ''error''}")
      case True
      then show ?thesis using assms level by (simp add: config_assign_simps acceptable_def)
    next
      case False
      then show ?thesis using assms(1) level
        by (simp add: config_assign_simps parse_log_level_cases(2) [OF False])
    qed
  next
    case backend
    show ?thesis
    proof (cases "v \<in> {''system'', ''slab''}")
      case True
      then show ?thesis using assms backend by (simp add: config_assign_simps acceptable_def)
    next
      case False
      then show ?thesis using assms(1) backend
        by (simp add: config_assign_simps parse_backend_cases(2) [OF False])
    qed
  qed (use assms in \<open>cases "m key"; simp add: config_assign_simps acceptable_def\<close>)+
qed

lemma config_line_eq:
  "config_line source n line st =
     (if blank_line line then Inr st
      else case line_setting line of
        None \<Rightarrow> Inl (parse_error source n
          (if find_char (trim line) (CHR ''='') = None then ''expected key=value''
           else ''key and value must not be empty''))
      | Some (key, v) \<Rightarrow> config_assign source n key v st)"
  by (simp add: config_line_def blank_line_def line_setting_def Let_def split: option.split)

lemma config_line_cases:
  assumes "has_read st m"
  obtains (blank) "blank_line line" "config_line source n line st = Inr st"
  | (setting) key v st' where "\<not> blank_line line" "line_setting line = Some (key, v)"
      "acceptable (key, v)" "m key = None" "config_line source n line st = Inr st'"
      "has_read st' (m(key \<mapsto> v))"
  | (bad) "\<not> blank_line line" "rejected source n (config_line source n line st)"
      "\<forall>key v. line_setting line = Some (key, v) \<longrightarrow> \<not> (acceptable (key, v) \<and> m key = None)"
proof (cases "blank_line line")
  case True
  then show ?thesis using blank by (simp add: config_line_eq)
next
  case False
  show ?thesis
  proof (cases "line_setting line")
    case None
    then show ?thesis using bad False by (simp add: config_line_eq)
  next
    case (Some kv)
    obtain key v where kv: "line_setting line = Some (key, v)" using Some by (cases kv) simp
    then have eq: "config_line source n line st = config_assign source n key v st"
      using False by (simp add: config_line_eq)
    show ?thesis
    proof (cases "acceptable (key, v) \<and> m key = None")
      case True
      then obtain st' where "config_line source n line st = Inr st'" "has_read st' (m(key \<mapsto> v))"
        using assign_accepts [OF assms] eq by metis
      then show ?thesis using setting [OF False kv] True by blast
    next
      case no: False
      then show ?thesis using bad False kv assign_rejects [OF assms no] eq by simp
    qed
  qed
qed

text \<open>The loop accepts exactly the lists of lines that are lists of settings.\<close>

definition settings_ok :: "(string \<Rightarrow> string option) \<Rightarrow> (string \<times> string) list \<Rightarrow> bool" where
  "settings_ok m ps \<longleftrightarrow>
     distinct (map fst ps) \<and> fst ` set ps \<inter> dom m = {} \<and> (\<forall>kv \<in> set ps. acceptable kv)"

lemma settings_ok_Cons:
  "settings_ok m ((key, v) # ps) \<longleftrightarrow> acceptable (key, v) \<and> m key = None \<and> settings_ok (m(key \<mapsto> v)) ps"
  by (auto simp: settings_ok_def)

lemma config_lines_accept:
  assumes "has_read st m" and "file_settings lines = map Some ps" and "settings_ok m ps"
  shows "\<exists>st'. config_lines source n lines st = Inr st' \<and> has_read st' (m ++ map_of ps)"
  using assms
proof (induction lines arbitrary: n st m ps)
  case Nil
  then show ?case by (simp add: file_settings_def)
next
  case (Cons line lines)
  from Cons.prems(1) show ?case
  proof (cases rule: config_line_cases [where line = line and source = source and n = "n + 1"])
    case blank
    then show ?thesis using Cons.IH [OF Cons.prems(1) _ Cons.prems(3), of "n + 1"] Cons.prems(2)
      by (simp add: file_settings_def)
  next
    case (setting key v st')
    then obtain qs where ps: "ps = (key, v) # qs" "file_settings lines = map Some qs"
      using Cons.prems(2) by (auto simp: file_settings_def Cons_eq_map_conv)
    have ok: "settings_ok (m(key \<mapsto> v)) qs" using Cons.prems(3) ps(1) by (simp add: settings_ok_Cons)
    then have "map_of qs key = None" by (auto simp: settings_ok_def map_of_eq_None_iff)
    then have "m ++ map_of ps = m(key \<mapsto> v) ++ map_of qs"
      by (auto simp: ps(1) map_add_def split: option.splits)
    then show ?thesis using Cons.IH [OF setting(6) ps(2) ok, of "n + 1"] setting(5)
      by (simp del: fun_upd_apply)
  next
    case bad
    then show ?thesis using Cons.prems(2,3)
      by (auto simp: file_settings_def Cons_eq_map_conv settings_ok_Cons)
  qed
qed

lemma config_lines_settings:
  assumes "has_read st m" and "config_lines source n lines st = Inr st'"
  shows "\<exists>ps. file_settings lines = map Some ps \<and> settings_ok m ps"
  using assms
proof (induction lines arbitrary: n st m)
  case Nil
  then show ?case by (simp add: file_settings_def settings_ok_def)
next
  case (Cons line lines)
  from Cons.prems(1) show ?case
  proof (cases rule: config_line_cases [where line = line and source = source and n = "n + 1"])
    case blank
    then show ?thesis using Cons.IH [OF Cons.prems(1), of "n + 1"] Cons.prems(2)
      by (simp add: file_settings_def)
  next
    case (setting key v st1)
    then obtain qs where "file_settings lines = map Some qs" "settings_ok (m(key \<mapsto> v)) qs"
      using Cons.IH [OF setting(6), of "n + 1"] Cons.prems(2) by (auto simp del: fun_upd_apply)
    then have "file_settings (line # lines) = map Some ((key, v) # qs)" "settings_ok m ((key, v) # qs)"
      using setting by (simp_all add: file_settings_def settings_ok_Cons)
    then show ?thesis by blast
  next
    case bad
    then show ?thesis using Cons.prems(2) by (auto simp: rejected_def)
  qed
qed

text \<open>An error names the line at which it occurs, and the lines before it are in order.\<close>

lemma config_lines_error:
  assumes "has_read st m" and "config_lines source n lines st = Inl x"
  shows "\<exists>i < length lines. \<exists>st' d. config_lines source n (take i lines) st = Inr st' \<and>
           config_line source (n + i + 1) (lines ! i) st' = Inl x \<and> x = parse_error source (n + i + 1) d"
  using assms
proof (induction lines arbitrary: n st m)
  case Nil
  then show ?case by simp
next
  case (Cons line lines)
  have later: ?case if "config_line source (n + 1) line st = Inr st1" "has_read st1 m1" for st1 m1
  proof -
    from Cons.IH [OF that(2), of "n + 1"] that(1) Cons.prems(2) obtain i st' d where
      "i < length lines" "config_lines source (n + 1) (take i lines) st1 = Inr st'"
      "config_line source (n + 1 + i + 1) (lines ! i) st' = Inl x" "x = parse_error source (n + 1 + i + 1) d"
      by auto
    with that(1) show ?case by (intro exI [of _ "Suc i"]) auto
  qed
  from Cons.prems(1) show ?case
  proof (cases rule: config_line_cases [where line = line and source = source and n = "n + 1"])
    case blank
    then show ?thesis using later Cons.prems(1) by blast
  next
    case (setting key v st1)
    then show ?thesis using later by blast
  next
    case bad
    then obtain d where "config_line source (n + 1) line st = Inl (parse_error source (n + 1) d)"
      by (auto simp: rejected_def)
    then show ?thesis using Cons.prems(2) by (intro exI [of _ 0]) auto
  qed
qed

lemma from_stream_iff:
  "from_stream contents False source = Inr cfg \<longleftrightarrow>
     (\<exists>ps. file_settings (get_lines contents) = map Some ps \<and> distinct (map fst ps) \<and>
        (\<forall>kv \<in> set ps. acceptable kv) \<and> cfg = config_of (map_of ps))"
    (is "?l \<longleftrightarrow> (\<exists>ps. ?r ps)")
proof
  assume ?l
  then obtain st where st: "config_lines source 0 (get_lines contents) start_config_state = Inr st"
    "cfg = cs_config st" by (auto simp: from_stream_def lines_read_def split: sum.splits)
  from config_lines_settings [OF has_read_start st(1)] obtain ps where
    ps: "file_settings (get_lines contents) = map Some ps" "settings_ok Map.empty ps" by blast
  with config_lines_accept [OF has_read_start ps] st have "cfg = config_of (map_of ps)"
    by (auto simp: has_read_def)
  with ps show "\<exists>ps. ?r ps" by (auto simp: settings_ok_def)
next
  assume "\<exists>ps. ?r ps"
  then obtain ps where ps: "?r ps" ..
  then have "settings_ok Map.empty ps" by (simp add: settings_ok_def)
  with config_lines_accept [OF has_read_start, of "get_lines contents" ps source 0] ps show ?l
    by (auto simp: from_stream_def lines_read_def has_read_def)
qed

section \<open>Writing a configuration\<close>

definition log_level_word :: "log_level \<Rightarrow> string" where
  "log_level_word l =
     (case l of Log_debug \<Rightarrow> ''debug'' | Log_info \<Rightarrow> ''info'' | Log_warning \<Rightarrow> ''warning'' | Log_error \<Rightarrow> ''error'')"

definition config_settings :: "config \<Rightarrow> (string \<times> string) list" where
  "config_settings cfg =
     [(''log_level'', log_level_word (cfg_log_level cfg)),
      (''host'', cfg_host cfg),
      (''port'', to_decimal (unat (cfg_port cfg))),
      (''worker_threads'', to_decimal (unat (cfg_worker_threads cfg))),
      (''cache_capacity_bytes'', to_decimal (unat (cfg_capacity_bytes cfg))),
      (''shard_count'', to_decimal (unat (cfg_shard_count cfg))),
      (''allocator'', to_string_backend (cfg_allocator cfg))]"

definition print_config :: "config \<Rightarrow> string" where
  "print_config cfg = concat (map (\<lambda>(k, v). k @ ''='' @ v @ [newline]) (config_settings cfg))"

text \<open>Host names that survive: not empty, without newlines, and without white space at the ends.\<close>

definition config_printable :: "config \<Rightarrow> bool" where
  "config_printable cfg \<longleftrightarrow>
     cfg_host cfg \<noteq> [] \<and> trim (cfg_host cfg) = cfg_host cfg \<and> newline \<notin> set (cfg_host cfg) \<and>
     unat (cfg_worker_threads cfg) \<in> {1..1024} \<and> unat (cfg_shard_count cfg) \<in> {1..1024} \<and>
     cfg_capacity_bytes cfg \<noteq> 0"

lemma get_lines_Cons: "newline \<notin> set l \<Longrightarrow> get_lines (l @ newline # rest) = l # get_lines rest"
proof -
  assume l: "newline \<notin> set l"
  then have "dropWhile (\<lambda>c. c \<noteq> newline) l = []" "takeWhile (\<lambda>c. c \<noteq> newline) l = l" by auto
  with l show ?thesis by (subst get_lines.simps) (auto simp: takeWhile_append dropWhile_append)
qed

lemma get_lines_concat:
  "\<forall>l \<in> set ls. newline \<notin> set l \<Longrightarrow> get_lines (concat (map (\<lambda>l. l @ [newline]) ls)) = ls"
  by (induction ls) (simp_all add: get_lines_Cons, simp add: get_lines.simps)

lemma find_char_append: "c \<notin> set k \<Longrightarrow> find_char (k @ c # v) c = Some (length k)"
  by (induction k) auto

definition plain_word :: "string \<Rightarrow> bool" where
  "plain_word s \<longleftrightarrow> s \<noteq> [] \<and> trim s = s"

lemma line_setting_print:
  assumes "plain_word k" and "CHR ''='' \<notin> set k" and "hd k \<noteq> CHR ''#''" and "plain_word v"
  shows "\<not> blank_line (k @ ''='' @ v)" "line_setting (k @ ''='' @ v) = Some (k, v)"
proof -
  have ends: "hd k \<notin> set whitespace" "last v \<notin> set whitespace"
    using trimmed_ends assms(1,4) by (auto simp: plain_word_def)
  have "trim (k @ ''='' @ v) = k @ ''='' @ v"
    using ends assms(1,4) by (intro trim_id) (auto simp: plain_word_def)
  then show "\<not> blank_line (k @ ''='' @ v)" "line_setting (k @ ''='' @ v) = Some (k, v)"
    using assms find_char_append [OF assms(2), of v]
    by (auto simp: blank_line_def line_setting_def plain_word_def)
qed

lemma file_settings_print:
  assumes "\<forall>(k, v) \<in> set ps. plain_word k \<and> CHR ''='' \<notin> set k \<and> hd k \<noteq> CHR ''#'' \<and> plain_word v"
  shows "file_settings (map (\<lambda>(k, v). k @ ''='' @ v) ps) = map Some ps"
  using assms
proof (induction ps)
  case (Cons kv ps)
  obtain k v where kv: "kv = (k, v)" by (cases kv)
  then have "\<not> blank_line (k @ ''='' @ v)" "line_setting (k @ ''='' @ v) = Some (k, v)"
    using Cons.prems line_setting_print [of k v] by simp_all
  then show ?case using Cons by (simp add: kv file_settings_def)
qed (simp add: file_settings_def)

lemma plain_digits: "plain_word (to_decimal n)"
proof -
  have "\<not> is_digit c" if "c \<in> set whitespace" for c
    using that by (auto simp: whitespace_def is_digit_def)
  then show ?thesis
    using to_decimal_ok [of n] by (metis plain_word_def trim_id hd_in_set last_in_set)
qed

lemma number_within_decimal: "lo \<le> n \<Longrightarrow> n \<le> hi \<Longrightarrow> number_within lo hi (to_decimal n)"
  using to_decimal_ok [of n] by (simp add: number_within_def list_all_iff)

lemma plain_words: "plain_word (log_level_word l)" "plain_word (to_string_backend b)"
  by (cases l; simp add: plain_word_def log_level_word_def trim_id whitespace_def)
    (cases b; simp add: plain_word_def to_string_backend_def trim_id whitespace_def)

lemma config_settings_ok:
  assumes "config_printable cfg"
  shows "distinct (map fst (config_settings cfg))" "\<forall>kv \<in> set (config_settings cfg). acceptable kv"
    "config_of (map_of (config_settings cfg)) = cfg"
proof -
  show "distinct (map fst (config_settings cfg))" by (simp add: config_settings_def)
  have port: "unat (cfg_port cfg) \<le> 65535" using unsigned_less [of "cfg_port cfg", where ?'a = nat] by simp
  have capacity: "unat (cfg_capacity_bytes cfg) \<le> 2 ^ 64 - 1" "0 < unat (cfg_capacity_bytes cfg)"
    using unsigned_less [of "cfg_capacity_bytes cfg", where ?'a = nat] assms
    by (simp_all add: config_printable_def unat_gt_0)
  have words: "log_level_word l \<in> {''debug'', ''info'', ''warning'', ''error''}"
    "to_string_backend b \<in> {''system'', ''slab''}" for l b
    by (cases l; simp add: log_level_word_def) (cases b; simp add: to_string_backend_def)
  show "\<forall>kv \<in> set (config_settings cfg). acceptable kv"
    using assms port capacity words
    by (simp add: config_settings_def acceptable_def number_within_decimal config_printable_def Suc_le_eq)
  have "parse_log_level (log_level_word l) = Inr l" for l
    by (cases l) (simp_all add: log_level_word_def parse_log_level_def)
  moreover have "parse_allocator_backend (to_string_backend b) = Inr b" for b
    by (cases b) (simp_all add: to_string_backend_def parse_allocator_backend_def)
  ultimately show "config_of (map_of (config_settings cfg)) = cfg"
    using to_decimal_ok by (simp add: config_of_def config_settings_def setting_def)
qed

lemma config_roundtrip_lemma:
  assumes "config_printable cfg"
  shows "from_stream (print_config cfg) False source = Inr cfg"
proof -
  let ?lines = "map (\<lambda>(k, v). k @ ''='' @ v) (config_settings cfg)"
  have digits: "newline \<notin> set (to_decimal n)" for n
    using to_decimal_ok [of n] by (auto simp: is_digit_def)
  have words: "newline \<notin> set (log_level_word l)" "newline \<notin> set (to_string_backend b)" for l b
    by (cases l; simp add: log_level_word_def) (cases b; simp add: to_string_backend_def)
  have lines: "\<forall>l \<in> set ?lines. newline \<notin> set l"
    using assms digits words by (simp add: config_settings_def config_printable_def)
  have "print_config cfg = concat (map (\<lambda>l. l @ [newline]) ?lines)"
    by (simp add: print_config_def config_settings_def)
  then have got: "get_lines (print_config cfg) = ?lines" using get_lines_concat [OF lines] by simp
  have keys: "\<forall>(k, v) \<in> set (config_settings cfg). plain_word k \<and> CHR ''='' \<notin> set k \<and> hd k \<noteq> CHR ''#'' \<and> plain_word v"
    using assms plain_digits plain_words
    by (simp add: config_settings_def config_printable_def plain_word_def trim_id whitespace_def)
  have "file_settings ?lines = map Some (config_settings cfg)"
    by (rule file_settings_print [OF keys])
  with got config_settings_ok [OF assms] show ?thesis unfolding from_stream_iff by metis
qed

end
