(* ===== verification/Cache_Shard.thy ===== *)
theory Cache_Shard
  imports Cache_Contract
begin

text \<open>
  \<^verbatim>\<open>CacheShard\<close> of \<^verbatim>\<open>src/cache/cache_shard.cpp\<close>: a cache with its own allocator behind a
  mutex. The first part gives the member functions as one thread sees them; every one of
  them takes the lock, forwards, and releases the lock also when an exception leaves it.
  A shard is followed from its construction through any sequence of calls to its destruction.
  The second part lets any number of threads call them: a step relation in which waiting
  threads, the critical section and the release are separate steps.
\<close>

section \<open>The member functions\<close>

record cache_shard =
  mutex_held :: bool
  shard_cache :: cache

definition new_shard :: "u64 \<Rightarrow> allocator_backend \<Rightarrow> bool list \<Rightarrow> cache_shard" where
  "new_shard capacity backend outcomes =
     \<lparr>mutex_held = False,
      shard_cache = new_cache capacity (make_value_allocator backend) (empty_heap outcomes)\<rparr>"

text \<open>
  \<^verbatim>\<open>std::lock_guard\<close> around a call. A thread that already holds the (non-recursive) mutex
  would never return: no result.
\<close>

definition with_lock :: "(cache \<Rightarrow> ('r \<times> cache) option) \<Rightarrow> cache_shard \<Rightarrow> ('r \<times> cache_shard) option" where
  "with_lock body s =
     (if mutex_held s then None
      else let s1 = s\<lparr>mutex_held := True\<rparr>
           in case body (shard_cache s1) of
                None \<Rightarrow> None
              | Some (r, c) \<Rightarrow> Some (r, s1\<lparr>shard_cache := c, mutex_held := False\<rparr>))"

definition shard_set ::
    "bytes \<Rightarrow> bytes \<Rightarrow> u64 \<Rightarrow> cache_shard \<Rightarrow> ((exn + cache_status) \<times> cache_shard) option" where
  "shard_set key value ttl = with_lock (cache_set key value ttl)"

definition shard_get ::
    "bytes \<Rightarrow> bytes \<Rightarrow> cache_shard \<Rightarrow> ((exn + cache_status) \<times> bytes \<times> cache_shard) option" where
  "shard_get key output s =
     map_option (\<lambda>((r, out), s'). (r, out, s'))
       (with_lock (\<lambda>c. map_option (\<lambda>(r, out, c'). ((r, out), c')) (cache_get key output c)) s)"

definition shard_erase :: "bytes \<Rightarrow> cache_shard \<Rightarrow> ((exn + cache_status) \<times> cache_shard) option" where
  "shard_erase key = with_lock (cache_erase key)"

definition shard_tick :: "cache_shard \<Rightarrow> ((exn + unit) \<times> cache_shard) option" where
  "shard_tick = with_lock cache_tick"

text \<open>The observers, each under the lock as well.\<close>

definition shard_observe :: "(cache \<Rightarrow> 'r) \<Rightarrow> cache_shard \<Rightarrow> ('r \<times> cache_shard) option" where
  "shard_observe f = with_lock (\<lambda>c. Some (f c, c))"

text \<open>
  The implicit destructor: the cache, declared last, is destroyed first and gives its values
  back to the allocator, whose own destructor follows.
\<close>

definition destroy_shard :: "cache_shard \<Rightarrow> heap option" where
  "destroy_shard s =
     (case destroy_cache (shard_cache s) of
        None \<Rightarrow> None
      | Some (al, h) \<Rightarrow> va_destroy al h)"

section \<open>The contract\<close>

definition shard_inv :: "cache_shard \<Rightarrow> bool" where
  "shard_inv s \<longleftrightarrow> \<not> mutex_held s \<and> cache_inv (shard_cache s)"

abbreviation shard_view :: "cache_shard \<Rightarrow> lru_item list" where
  "shard_view s \<equiv> view (shard_cache s)"

abbreviation shard_capacity :: "cache_shard \<Rightarrow> u64" where
  "shard_capacity s \<equiv> capacity_bytes (shard_cache s)"

lemma with_lock_run:
  "with_lock body s = Some (r, s') \<longleftrightarrow>
     \<not> mutex_held s \<and> (\<exists>c. body (shard_cache s) = Some (r, c) \<and> s' = s\<lparr>shard_cache := c\<rparr>)"
  by (auto simp: with_lock_def Let_def split: option.splits)

lemma shard_get_run:
  "shard_get k out s = Some (r, out', s') \<longleftrightarrow>
     \<not> mutex_held s \<and> (\<exists>c. cache_get k out (shard_cache s) = Some (r, out', c) \<and> s' = s\<lparr>shard_cache := c\<rparr>)"
  by (auto simp: shard_get_def with_lock_run)

lemma shard_observe_ok: "\<not> mutex_held s \<Longrightarrow> shard_observe f s = Some (f (shard_cache s), s)"
  by (simp add: shard_observe_def with_lock_def)

lemmas shard_runs = shard_set_def shard_erase_def shard_tick_def with_lock_run shard_get_run shard_inv_def

interpretation shard: timed_lru shard_set shard_get shard_erase shard_tick shard_view shard_capacity shard_inv
proof (unfold_locales, goal_cases)
  case (1 s k v ttl)
  then show ?case using cache.set_total [of "shard_cache s"] by (auto simp: shard_runs)
next
  case (2 s k v ttl r s')
  then show ?case using cache.set_keeps [of "shard_cache s"] by (auto simp: shard_runs)
next
  case (3 s k v ttl st s')
  then show ?case using cache.set_status [of "shard_cache s"] by (auto simp: shard_runs)
next
  case (4 s k v ttl s')
  then show ?case using cache.set_stores [of "shard_cache s"] by (auto simp: shard_runs)
next
  case (5 s k v ttl st s')
  then show ?case using cache.set_refuses [of "shard_cache s" k v ttl st] by (auto simp: shard_runs)
next
  case (6 s k v ttl x s')
  then show ?case using cache.set_throws [of "shard_cache s"] by (auto simp: shard_runs)
next
  case (7 s k out)
  then show ?case using cache.get_total [of "shard_cache s"] by (auto simp: shard_runs)
next
  case (8 s k out r out' s')
  then show ?case using cache.get_keeps [of "shard_cache s"] by (auto simp: shard_runs)
next
  case (9 s k out st out' s')
  then obtain c where inv: "cache_inv (shard_cache s)" and c: "s' = s\<lparr>shard_cache := c\<rparr>"
    and run: "cache_get k out (shard_cache s) = Some (Inr st, out', c)"
    by (auto simp: shard_runs)
  show ?case using cache.get_status [OF inv run] c by simp
next
  case (10 s k out x out' s')
  then show ?case using cache.get_throws [of "shard_cache s" k out x out'] by (auto simp: shard_runs)
next
  case (11 s k)
  then show ?case using cache.erase_total [of "shard_cache s"] by (auto simp: shard_runs)
next
  case (12 s k r s')
  then show ?case using cache.erase_keeps [of "shard_cache s"] by (auto simp: shard_runs)
next
  case (13 s k st s')
  then show ?case using cache.erase_status [of "shard_cache s" k st] by (auto simp: shard_runs)
next
  case (14 s k x s')
  then show ?case using cache.erase_throws [of "shard_cache s"] by (auto simp: shard_runs)
next
  case (15 s)
  then have "cache_inv (shard_cache s)" "\<not> mutex_held s" by (auto simp: shard_inv_def)
  then show ?case using cache.tick_total [of "shard_cache s"] by (auto simp: shard_tick_def with_lock_def Let_def)
next
  case (16 s q s')
  then show ?case using cache.tick_keeps [of "shard_cache s"] by (auto simp: shard_runs)
next
  case (17 s u s')
  then show ?case using cache.tick_passes [of "shard_cache s"] by (auto simp: shard_runs)
next
  case (18 s x s')
  then show ?case using cache.tick_throws [of "shard_cache s"] by (auto simp: shard_runs)
next
  case (19 s)
  then show ?case using cache.content_distinct [of "shard_cache s"] by (simp add: shard_inv_def)
next
  case (20 s)
  then show ?case using cache.content_fits [of "shard_cache s"] by (simp add: shard_inv_def)
next
  case (21 s k v t)
  then show ?case using cache.content_limits [of "shard_cache s" k v t] by (simp add: shard_inv_def)
qed

lemma new_shard_inv:
  "shard_inv (new_shard capacity backend outs)" "shard_view (new_shard capacity backend outs) = []"
  "shard_capacity (new_shard capacity backend outs) = capacity"
  using new_cache_inv [OF va_inv_new]
  by (simp_all add: shard_inv_def new_shard_def new_cache_def)

section \<open>Many threads\<close>

datatype shard_op = Op_set bytes bytes u64 | Op_get bytes bytes | Op_erase bytes | Op_tick

datatype op_result =
    Res_status "exn + cache_status"
  | Res_get "exn + cache_status" bytes
  | Res_tick "exn + unit"

text \<open>The body of a member function, run on the cache by the thread that holds the lock.\<close>

fun run_op :: "shard_op \<Rightarrow> cache \<Rightarrow> (op_result \<times> cache) option" where
  "run_op (Op_set k v ttl) c = map_option (\<lambda>(r, c'). (Res_status r, c')) (cache_set k v ttl c)"
| "run_op (Op_get k out) c = map_option (\<lambda>(r, o', c'). (Res_get r o', c')) (cache_get k out c)"
| "run_op (Op_erase k) c = map_option (\<lambda>(r, c'). (Res_status r, c')) (cache_erase k c)"
| "run_op Op_tick c = map_option (\<lambda>(r, c'). (Res_tick r, c')) (cache_tick c)"

text \<open>A sequence of calls of the member functions of one shard, each under its lock.\<close>

fun run_shard_op :: "shard_op \<Rightarrow> cache_shard \<Rightarrow> (op_result \<times> cache_shard) option" where
  "run_shard_op (Op_set k v ttl) s = map_option (\<lambda>(r, s'). (Res_status r, s')) (shard_set k v ttl s)"
| "run_shard_op (Op_get k out) s = map_option (\<lambda>(r, o', s'). (Res_get r o', s')) (shard_get k out s)"
| "run_shard_op (Op_erase k) s = map_option (\<lambda>(r, s'). (Res_status r, s')) (shard_erase k s)"
| "run_shard_op Op_tick s = map_option (\<lambda>(r, s'). (Res_tick r, s')) (shard_tick s)"

fun run_shard_ops :: "shard_op list \<Rightarrow> cache_shard \<Rightarrow> (op_result list \<times> cache_shard) option" where
  "run_shard_ops [] s = Some ([], s)"
| "run_shard_ops (op # ops) s =
     (case run_shard_op op s of
        None \<Rightarrow> None
      | Some (r, s') \<Rightarrow> map_option (\<lambda>(rs, s''). (r # rs, s'')) (run_shard_ops ops s'))"

datatype phase = Outside | Waiting shard_op | Inside shard_op | Leaving shard_op op_result

record shared_shard =
  owner :: "nat option"
  shared_cache :: cache
  phases :: "nat \<Rightarrow> phase"
  completed :: "(nat \<times> shard_op \<times> op_result) list"

text \<open>
  A thread calls a member function, acquires the mutex when it is free, runs the body,
  and releases the mutex on its way out. \<open>completed\<close> records the bodies in the order in
  which they ran.
\<close>

inductive shard_step :: "shared_shard \<Rightarrow> shared_shard \<Rightarrow> bool" where
  call: "phases s t = Outside \<Longrightarrow>
     shard_step s (s\<lparr>phases := (phases s)(t := Waiting op)\<rparr>)"
| acquire: "phases s t = Waiting op \<Longrightarrow> owner s = None \<Longrightarrow>
     shard_step s (s\<lparr>owner := Some t, phases := (phases s)(t := Inside op)\<rparr>)"
| body: "phases s t = Inside op \<Longrightarrow> run_op op (shared_cache s) = Some (r, c) \<Longrightarrow>
     shard_step s (s\<lparr>shared_cache := c, phases := (phases s)(t := Leaving op r),
                     completed := completed s @ [(t, op, r)]\<rparr>)"
| release: "phases s t = Leaving op r \<Longrightarrow>
     shard_step s (s\<lparr>owner := None, phases := (phases s)(t := Outside)\<rparr>)"

definition start_shared :: "cache \<Rightarrow> shared_shard" where
  "start_shared c = \<lparr>owner = None, shared_cache = c, phases = (\<lambda>_. Outside), completed = []\<rparr>"

inductive shard_reach :: "cache \<Rightarrow> shared_shard \<Rightarrow> bool" for c where
  start: "shard_reach c (start_shared c)"
| step: "shard_reach c s \<Longrightarrow> shard_step s s' \<Longrightarrow> shard_reach c s'"

text \<open>Running the completed operations one after the other on the initial cache.\<close>

fun replay :: "(nat \<times> shard_op \<times> op_result) list \<Rightarrow> cache \<Rightarrow> cache option" where
  "replay [] c = Some c"
| "replay ((t, op, r) # rest) c =
     (case run_op op c of
        None \<Rightarrow> None
      | Some (r', c') \<Rightarrow> if r' = r then replay rest c' else None)"

definition in_critical :: "phase \<Rightarrow> bool" where
  "in_critical p = (case p of Inside _ \<Rightarrow> True | Leaving _ _ \<Rightarrow> True | _ \<Rightarrow> False)"

lemma replay_append: "replay (xs @ ys) c = Option.bind (replay xs c) (replay ys)"
  by (induction xs c rule: replay.induct) (auto split: option.splits prod.splits)

lemma run_op_ok:
  assumes "cache_inv c"
  shows "\<exists>r c'. run_op op c = Some (r, c') \<and> cache_inv c' \<and> capacity_bytes c' = capacity_bytes c"
proof (cases op)
  case (Op_set k v ttl)
  then show ?thesis using cache.set_total [OF assms, of k v ttl] cache.set_keeps [OF assms] by fastforce
next
  case (Op_get k out)
  then show ?thesis using cache.get_total [OF assms, of k out] cache.get_keeps [OF assms] by fastforce
next
  case (Op_erase k)
  then show ?thesis using cache.erase_total [OF assms, of k] cache.erase_keeps [OF assms] by fastforce
next
  case Op_tick
  then show ?thesis using cache.tick_total [OF assms] cache.tick_keeps [OF assms] by fastforce
qed

text \<open>Any sequence of calls returns, and what is then destroyed leaves no block behind.\<close>

lemma run_shard_op_ok:
  assumes "shard_inv s"
  shows "\<exists>r s'. run_shard_op op s = Some (r, s') \<and> shard_inv s'"
proof (cases op)
  case (Op_set k v ttl)
  then show ?thesis using shard.set_total [OF assms, of k v ttl] shard.set_keeps [OF assms] by fastforce
next
  case (Op_get k out)
  then show ?thesis using shard.get_total [OF assms, of k out] shard.get_keeps [OF assms] by fastforce
next
  case (Op_erase k)
  then show ?thesis using shard.erase_total [OF assms, of k] shard.erase_keeps [OF assms] by fastforce
next
  case Op_tick
  then show ?thesis using shard.tick_total [OF assms] shard.tick_keeps [OF assms] by fastforce
qed

lemma run_shard_ops_ok:
  assumes "shard_inv s"
  shows "\<exists>rs s'. run_shard_ops ops s = Some (rs, s') \<and> length rs = length ops \<and> shard_inv s'"
  using assms
proof (induction ops arbitrary: s)
  case (Cons op ops)
  from run_shard_op_ok [OF Cons.prems] obtain r s1 where
    "run_shard_op op s = Some (r, s1)" and "shard_inv s1" by blast
  moreover from Cons.IH [OF this(2)] obtain rs s2 where
    "run_shard_ops ops s1 = Some (rs, s2)" "length rs = length ops" "shard_inv s2" by blast
  ultimately show ?case by simp
qed simp

lemma destroy_shard_clean:
  assumes "shard_inv s"
  shows "\<exists>h. destroy_shard s = Some h \<and> blocks h = (\<lambda>_. None)"
proof -
  from destroy_cache_ok [of "shard_cache s"] assms obtain al h where
    "destroy_cache (shard_cache s) = Some (al, h)" and inv: "va_inv Map.empty al h"
    by (auto simp: shard_inv_def)
  with va.destroy_clean [OF inv] show ?thesis by (simp add: destroy_shard_def)
qed

text \<open>
  At every moment the owner is the one thread in the critical section, the cache is in
  order, and it is the result of the completed operations run one after the other.
\<close>

lemma shard_reach_inv:
  assumes "shard_reach c s" and "cache_inv c"
  shows "(\<forall>t. in_critical (phases s t) \<longleftrightarrow> owner s = Some t) \<and> cache_inv (shared_cache s) \<and>
         capacity_bytes (shared_cache s) = capacity_bytes c \<and>
         replay (completed s) c = Some (shared_cache s)"
  using assms
proof (induction rule: shard_reach.induct)
  case start
  then show ?case by (simp add: start_shared_def in_critical_def)
next
  case (step s s')
  note IH = step.IH [OF step.prems]
  from step.hyps(2) show ?case
  proof cases
    case (call t op)
    then show ?thesis using IH by (auto simp: in_critical_def split: phase.splits)
  next
    case (acquire t op)
    then show ?thesis using IH by (auto simp: in_critical_def)
  next
    case (body t op r c')
    have "in_critical (phases s t)" using body by (simp add: in_critical_def)
    then have "owner s = Some t" using IH by blast
    moreover have "cache_inv c'" "capacity_bytes c' = capacity_bytes c"
      using run_op_ok [of "shared_cache s" op] IH body by auto
    ultimately show ?thesis
      using body IH by (auto simp: replay_append in_critical_def)
  next
    case (release t op r)
    have "in_critical (phases s t)" using release by (simp add: in_critical_def)
    then have "owner s = Some t" using IH by blast
    then show ?thesis using release IH by (auto simp: in_critical_def)
  qed
qed

text \<open>No thread is ever stuck for good: unless all threads are outside, somebody inside can move.\<close>

lemma shard_no_deadlock:
  assumes "shard_reach c s" and "cache_inv c" and "phases s t \<noteq> Outside"
  shows "\<exists>t' s'. shard_step s s' \<and> phases s t' \<noteq> Outside \<and> phases s' t' \<noteq> phases s t'"
proof -
  note inv = shard_reach_inv [OF assms(1,2)]
  show ?thesis
  proof (cases "owner s")
    case None
    then have "\<not> in_critical (phases s t)" using inv by simp
    with assms(3) obtain op where op: "phases s t = Waiting op"
      by (cases "phases s t") (auto simp: in_critical_def)
    from shard_step.acquire [OF op None] op show ?thesis by (intro exI [of _ t] exI conjI) auto
  next
    case (Some u)
    then have "in_critical (phases s u)" using inv by simp
    then consider op where "phases s u = Inside op" | op r where "phases s u = Leaving op r"
      by (cases "phases s u") (auto simp: in_critical_def)
    then show ?thesis
    proof cases
      case (1 op)
      from run_op_ok [of "shared_cache s" op] inv obtain r c' where
        "run_op op (shared_cache s) = Some (r, c')" by blast
      from shard_step.body [OF 1 this] 1 show ?thesis by (intro exI [of _ u] exI conjI) auto
    next
      case (2 op r)
      from shard_step.release [OF 2] 2 show ?thesis by (intro exI [of _ u] exI conjI) auto
    qed
  qed
qed

end
