(* ===== verification/Cache_Engine.thy ===== *)
theory Cache_Engine
  imports Cache_Shard
begin

text \<open>
  \<^verbatim>\<open>CacheEngine\<close> of \<^verbatim>\<open>src/cache/cache_engine.cpp\<close>: the capacity is divided among the shards,
  a key is routed to the shard its hash selects, and time passes in all shards. The hash
  \<^verbatim>\<open>std::hash<std::string_view>\<close> is a parameter: nothing but its being a function of the
  bytes of the key is used.
\<close>

section \<open>Definitions\<close>

record cache_engine =
  engine_capacity :: u64
  engine_backend :: allocator_backend
  shards :: "cache_shard list"

abbreviation (input) default_shard_count :: u64 where
  "default_shard_count \<equiv> 64"

definition shard_capacity_of :: "u64 \<Rightarrow> u64 \<Rightarrow> nat \<Rightarrow> u64" where
  "shard_capacity_of capacity shard_count shard_index =
     capacity div shard_count +
     (if of_nat shard_index < capacity mod shard_count then 1 else 0)"

text \<open>
  The loop of the constructor; for each shard the object and its allocator are allocated.
  The store of shard \<open>i\<close> starts empty, with its own list of failing allocations.
\<close>

fun make_shards ::
    "u64 \<Rightarrow> u64 \<Rightarrow> allocator_backend \<Rightarrow> (nat \<Rightarrow> bool list) \<Rightarrow> nat list \<Rightarrow> heap \<Rightarrow>
       (exn + cache_shard list) \<times> heap" where
  "make_shards capacity shard_count backend outs [] h = (Inr [], h)"
| "make_shards capacity shard_count backend outs (i # is) h =
     (case container_alloc h of
        (Inl x, h1) \<Rightarrow> (Inl x, h1)
      | (Inr _, h1) \<Rightarrow>
          (case container_alloc h1 of
             (Inl x, h2) \<Rightarrow> (Inl x, h2)
           | (Inr _, h2) \<Rightarrow>
               (case make_shards capacity shard_count backend outs is h2 of
                  (Inl x, h3) \<Rightarrow> (Inl x, h3)
                | (Inr rest, h3) \<Rightarrow>
                    (Inr (new_shard (shard_capacity_of capacity shard_count i) backend (outs i) # rest), h3))))"

text \<open>A vector of pointers cannot hold more than \<open>2 ^ 60 - 1\<close> of them.\<close>

definition new_engine ::
    "u64 \<Rightarrow> u64 \<Rightarrow> allocator_backend \<Rightarrow> (nat \<Rightarrow> bool list) \<Rightarrow> heap \<Rightarrow> (exn + cache_engine) \<times> heap" where
  "new_engine capacity shard_count backend outs h =
     (if shard_count = 0
      then (Inl (High_cache_error Invalid_argument ''cache shard count must be greater than zero''), h)
      else if unat shard_count > 2 ^ 60 - 1 then (Inl (Length_error ''vector::reserve''), h)
      else case container_alloc h of
        (Inl x, h1) \<Rightarrow> (Inl x, h1)
      | (Inr _, h1) \<Rightarrow>
          (case make_shards capacity shard_count backend outs [0..<unat shard_count] h1 of
             (Inl x, h2) \<Rightarrow> (Inl x, h2)
           | (Inr ss, h2) \<Rightarrow>
               (Inr \<lparr>engine_capacity = capacity, engine_backend = backend, shards = ss\<rparr>, h2)))"

definition shard_for :: "(bytes \<Rightarrow> u64) \<Rightarrow> bytes \<Rightarrow> cache_engine \<Rightarrow> nat" where
  "shard_for hash key e = unat (hash key mod of_nat (length (shards e)))"

text \<open>A call on one shard, which is then updated in place.\<close>

definition on_shard ::
    "nat \<Rightarrow> (cache_shard \<Rightarrow> ('r \<times> cache_shard) option) \<Rightarrow> cache_engine \<Rightarrow> ('r \<times> cache_engine) option" where
  "on_shard i f e =
     (if i < length (shards e)
      then map_option (\<lambda>(r, s). (r, e\<lparr>shards := (shards e)[i := s]\<rparr>)) (f (shards e ! i))
      else None)"

definition engine_set ::
    "(bytes \<Rightarrow> u64) \<Rightarrow> bytes \<Rightarrow> bytes \<Rightarrow> u64 \<Rightarrow> cache_engine \<Rightarrow> ((exn + cache_status) \<times> cache_engine) option" where
  "engine_set hash key value ttl e = on_shard (shard_for hash key e) (shard_set key value ttl) e"

definition engine_get ::
    "(bytes \<Rightarrow> u64) \<Rightarrow> bytes \<Rightarrow> bytes \<Rightarrow> cache_engine \<Rightarrow> (((exn + cache_status) \<times> bytes) \<times> cache_engine) option" where
  "engine_get hash key output e =
     on_shard (shard_for hash key e)
       (\<lambda>s. map_option (\<lambda>(r, out, s'). ((r, out), s')) (shard_get key output s)) e"

definition engine_erase ::
    "(bytes \<Rightarrow> u64) \<Rightarrow> bytes \<Rightarrow> cache_engine \<Rightarrow> ((exn + cache_status) \<times> cache_engine) option" where
  "engine_erase hash key e = on_shard (shard_for hash key e) (shard_erase key) e"

text \<open>The shards tick in order; an exception leaves the loop, and the later shards do not tick.\<close>

fun tick_shards :: "cache_shard list \<Rightarrow> ((exn + unit) \<times> cache_shard list) option" where
  "tick_shards [] = Some (Inr (), [])"
| "tick_shards (s # ss) =
     (case shard_tick s of
        None \<Rightarrow> None
      | Some (Inl x, s') \<Rightarrow> Some (Inl x, s' # ss)
      | Some (Inr _, s') \<Rightarrow> map_option (\<lambda>(r, ss'). (r, s' # ss')) (tick_shards ss))"

definition engine_tick :: "cache_engine \<Rightarrow> ((exn + unit) \<times> cache_engine) option" where
  "engine_tick e = map_option (\<lambda>(r, ss). (r, e\<lparr>shards := ss\<rparr>)) (tick_shards (shards e))"

text \<open>The totals over all shards: \<^verbatim>\<open>total += shard->f()\<close>.\<close>

fun sum_shards :: "(cache \<Rightarrow> u64) \<Rightarrow> u64 \<Rightarrow> cache_shard list \<Rightarrow> u64 option" where
  "sum_shards f acc [] = Some acc"
| "sum_shards f acc (s # ss) =
     (case shard_observe f s of None \<Rightarrow> None | Some (x, _) \<Rightarrow> sum_shards f (acc + x) ss)"

definition engine_size :: "cache_engine \<Rightarrow> u64 option" where
  "engine_size e = sum_shards cache_size 0 (shards e)"

definition engine_memory_usage :: "cache_engine \<Rightarrow> u64 option" where
  "engine_memory_usage e = sum_shards memory_usage_bytes 0 (shards e)"

definition engine_hit_count :: "cache_engine \<Rightarrow> u64 option" where
  "engine_hit_count e = sum_shards hit_count 0 (shards e)"

definition engine_miss_count :: "cache_engine \<Rightarrow> u64 option" where
  "engine_miss_count e = sum_shards miss_count 0 (shards e)"

definition engine_eviction_count :: "cache_engine \<Rightarrow> u64 option" where
  "engine_eviction_count e = sum_shards eviction_count 0 (shards e)"

definition engine_expired_count :: "cache_engine \<Rightarrow> u64 option" where
  "engine_expired_count e = sum_shards expired_count 0 (shards e)"

fun engine_empty_loop :: "cache_shard list \<Rightarrow> bool option" where
  "engine_empty_loop [] = Some True"
| "engine_empty_loop (s # ss) =
     (case shard_observe cache_empty s of
        None \<Rightarrow> None
      | Some (b, _) \<Rightarrow> if \<not> b then Some False else engine_empty_loop ss)"

definition engine_empty :: "cache_engine \<Rightarrow> bool option" where
  "engine_empty e = engine_empty_loop (shards e)"

definition add_metrics ::
    "value_allocator_metrics \<Rightarrow> value_allocator_metrics \<Rightarrow> value_allocator_metrics" where
  "add_metrics acc m =
     \<lparr>allocated_bytes = allocated_bytes acc + allocated_bytes m,
      used_bytes = used_bytes acc + used_bytes m,
      free_bytes = free_bytes acc + free_bytes m,
      allocation_count = allocation_count acc + allocation_count m,
      deallocation_count = deallocation_count acc + deallocation_count m,
      internal_fragmentation = internal_fragmentation acc + internal_fragmentation m,
      slab_count = slab_count acc + slab_count m\<rparr>"

fun sum_metrics ::
    "value_allocator_metrics \<Rightarrow> cache_shard list \<Rightarrow> value_allocator_metrics option" where
  "sum_metrics acc [] = Some acc"
| "sum_metrics acc (s # ss) =
     (case shard_observe allocator_metrics s of
        None \<Rightarrow> None
      | Some (m, _) \<Rightarrow> sum_metrics (add_metrics acc m) ss)"

definition engine_allocator_metrics :: "cache_engine \<Rightarrow> value_allocator_metrics option" where
  "engine_allocator_metrics e = sum_metrics zero_metrics (shards e)"

section \<open>The invariant\<close>

text \<open>
  Every shard is in order, holds only keys routed to it, and the capacities of the shards
  add up to the configured one.
\<close>

definition engine_inv :: "(bytes \<Rightarrow> u64) \<Rightarrow> cache_engine \<Rightarrow> bool" where
  "engine_inv hash e \<longleftrightarrow>
     shards e \<noteq> [] \<and> length (shards e) < 2 ^ 60 \<and> (\<forall>s \<in> set (shards e). shard_inv s) \<and>
     (\<forall>i < length (shards e). \<forall>k \<in> fst ` set (shard_view (shards e ! i)). shard_for hash k e = i) \<and>
     (\<Sum>s\<leftarrow>shards e. unat (shard_capacity s)) = unat (engine_capacity e)"

text \<open>What the engine holds for a key.\<close>

definition engine_lookup :: "(bytes \<Rightarrow> u64) \<Rightarrow> cache_engine \<Rightarrow> bytes \<Rightarrow> (bytes \<times> nat option) option" where
  "engine_lookup hash e k = map_of (shard_view (shards e ! shard_for hash k e)) k"

lemma shard_for_less: "engine_inv hash e \<Longrightarrow> shard_for hash k e < length (shards e)"
proof -
  assume inv: "engine_inv hash e"
  then have "unat (of_nat (length (shards e)) :: u64) = length (shards e)"
    by (auto simp: engine_inv_def intro!: unat_of_nat_u64)
  moreover have "length (shards e) > 0" using inv by (simp add: engine_inv_def)
  ultimately show ?thesis by (simp add: shard_for_def unat_mod_distrib)
qed

lemma shard_for_update [simp]:
  "shard_for hash k (e\<lparr>shards := (shards e)[i := s]\<rparr>) = shard_for hash k e"
  by (simp add: shard_for_def)

section \<open>Construction\<close>

lemma count_below: "(\<Sum>i\<leftarrow>[0..<n]. if i < m then 1 else 0 :: nat) = min m n"
  by (induction n) (auto simp: min_def)

lemma shard_capacity_split:
  assumes n: "unat n > 0"
  shows "(\<Sum>i\<leftarrow>[0..<unat n]. unat (shard_capacity_of c n i)) = unat c"
proof -
  have each: "unat (shard_capacity_of c n i) =
      unat c div unat n + (if i < unat c mod unat n then 1 else 0)" if "i < unat n" for i
  proof -
    have "unat (of_nat i :: u64) = i"
      using that unat_lt_u64 [of n] by (intro unat_of_nat_u64) linarith
    then have lt: "(of_nat i < c mod n) = (i < unat c mod unat n)"
      by (simp add: word_less_nat_alt unat_mod_distrib)
    have "unat c div unat n + 1 \<le> unat c" if "i < unat c mod unat n"
    proof -
      have "unat c = unat n * (unat c div unat n) + unat c mod unat n" by simp
      then show ?thesis using that n by (cases "unat n") auto
    qed
    then show ?thesis
      using lt unat_lt_u64 [of c] le_less_trans [OF div_le_dividend unat_lt_u64 [of c], of "unat n"]
      by (auto simp: shard_capacity_of_def unat_word_ariths unat_div_distrib)
  qed
  have "(\<Sum>i\<leftarrow>[0..<unat n]. unat (shard_capacity_of c n i)) =
      (\<Sum>i\<leftarrow>[0..<unat n]. unat c div unat n + (if i < unat c mod unat n then 1 else 0))"
    using each by (intro arg_cong [where f = sum_list] map_cong) auto
  also have "\<dots> = unat n * (unat c div unat n) + min (unat c mod unat n) (unat n)"
    by (simp only: sum_list_addf count_below) (simp add: sum_list_triv)
  also have "\<dots> = unat c" using n by simp
  finally show ?thesis .
qed

lemma make_shards_ok:
  "make_shards c n b outs is h = (Inr ss, h') \<Longrightarrow>
     ss = map (\<lambda>i. new_shard (shard_capacity_of c n i) b (outs i)) is"
  by (induction "is" arbitrary: h ss h') (auto split: prod.splits sum.splits)

lemma new_engine_ok:
  assumes "new_engine c n b outs h = (Inr e, h')"
  shows "engine_inv hash e" and "engine_capacity e = c" and "length (shards e) = unat n"
    and "engine_lookup hash e k = None"
proof -
  from assms have n: "n \<noteq> 0" "unat n < 2 ^ 60" and e: "engine_capacity e = c"
    "shards e = map (\<lambda>i. new_shard (shard_capacity_of c n i) b (outs i)) [0..<unat n]"
    by (auto simp: new_engine_def dest!: make_shards_ok split: if_splits prod.splits sum.splits)
  have pos: "unat n > 0" using n(1) by (simp add: unat_gt_0)
  show "engine_capacity e = c" "length (shards e) = unat n" using e by simp_all
  have "(\<Sum>s\<leftarrow>shards e. unat (shard_capacity s)) = unat c"
    using shard_capacity_split [OF pos] by (simp add: e(2) comp_def new_shard_inv)
  then show inv: "engine_inv hash e"
    using e n pos by (simp add: engine_inv_def new_shard_inv)
  show "engine_lookup hash e k = None"
    using shard_for_less [OF inv, of k] e(2) by (simp add: engine_lookup_def new_shard_inv)
qed

text \<open>When the store has memory, a positive number of shards is all the constructor needs.\<close>

lemma make_shards_defined:
  "oom h = [] \<Longrightarrow> \<exists>ss. make_shards c n b outs is h = (Inr ss, h)"
  by (induction "is") auto

lemma new_engine_defined:
  assumes "oom h = []" and "0 < unat n" and "unat n < 2 ^ 60"
  shows "\<exists>e. new_engine c n b outs h = (Inr e, h)"
proof -
  obtain ss where "make_shards c n b outs [0..<unat n] h = (Inr ss, h)"
    using make_shards_defined [OF assms(1)] by blast
  then show ?thesis using assms by (auto simp: new_engine_def unat_gt_0)
qed

section \<open>Operations on one shard\<close>

lemma engine_update:
  assumes inv: "engine_inv hash e" and i: "i < length (shards e)"
    and s: "shard_inv s" "shard_capacity s = shard_capacity (shards e ! i)"
    and keys: "\<And>k. k \<in> fst ` set (shard_view s) \<Longrightarrow> shard_for hash k e = i"
  shows "engine_inv hash (e\<lparr>shards := (shards e)[i := s]\<rparr>)"
proof -
  have "map (\<lambda>s. unat (shard_capacity s)) ((shards e)[i := s]) = map (\<lambda>s. unat (shard_capacity s)) (shards e)"
    using s(2) i by (simp add: map_update list_update_same_conv)
  moreover have "\<forall>x \<in> set ((shards e)[i := s]). shard_inv x"
    using inv s(1) set_update_subset_insert [of "shards e" i s] by (auto simp: engine_inv_def)
  moreover have "\<forall>j < length (shards e). \<forall>k \<in> fst ` set (shard_view ((shards e)[i := s] ! j)). shard_for hash k e = j"
    using inv keys i by (auto simp: engine_inv_def nth_list_update)
  ultimately show ?thesis using inv by (simp add: engine_inv_def)
qed

lemma shard_of:
  assumes "engine_inv hash e"
  shows "shard_inv (shards e ! shard_for hash k e)"
  using assms shard_for_less [OF assms] by (simp add: engine_inv_def)

lemma engine_lookup_update:
  assumes "engine_inv hash e" and "i = shard_for hash k e"
  shows "engine_lookup hash (e\<lparr>shards := (shards e)[i := s]\<rparr>) j =
     (if shard_for hash j e = i then map_of (shard_view s) j else engine_lookup hash e j)"
  using shard_for_less [OF assms(1), of k] assms(2) by (auto simp: engine_lookup_def)

lemma keys_of_take: "k \<in> fst ` set (take n xs) \<Longrightarrow> k \<in> fst ` set xs"
  by (meson image_mono set_take_subset subsetD)

lemma keys_of_lru_set: "j \<in> fst ` set (lru_set cap k v t xs) \<Longrightarrow> j = k \<or> j \<in> fst ` set xs"
  using set_fit by (fastforce simp: lru_set_def lru_remove_def)

lemma keys_after_set:
  assumes inv: "shard_inv s" and run: "shard_set k v ttl s = Some (r, s')"
    and j: "j \<in> fst ` set (shard_view s')"
  shows "j = k \<or> j \<in> fst ` set (shard_view s)"
proof (cases r)
  case (Inl x)
  with shard.set_throws [OF inv] run obtain n where "shard_view s' = take n (shard_view s)" by blast
  with j keys_of_take show ?thesis by metis
next
  case (Inr st)
  show ?thesis
  proof (cases "st = C_ok")
    case True
    with shard.set_stores [OF inv] run Inr j keys_of_lru_set show ?thesis by metis
  next
    case False
    with shard.set_refuses [OF inv] run Inr j show ?thesis by blast
  qed
qed

text \<open>
  A write runs on the one shard of its key. All other shards stay as they are, and in the
  same shard other keys may be evicted but never change.
\<close>

lemma engine_set_ok:
  assumes inv: "engine_inv hash e"
  shows "\<exists>r e'. engine_set hash k v ttl e = Some (r, e') \<and> engine_inv hash e' \<and>
           engine_capacity e' = engine_capacity e \<and>
           (r = Inr C_ok \<longrightarrow> engine_lookup hash e' k = Some (v, ttl_deadline ttl)) \<and>
           (\<forall>st. r = Inr st \<longrightarrow> st \<noteq> C_ok \<longrightarrow> e' = e) \<and>
           (\<forall>j. j \<noteq> k \<longrightarrow> shard_for hash j e = shard_for hash k e \<longrightarrow>
              engine_lookup hash e' j \<in> {None, engine_lookup hash e j}) \<and>
           (\<forall>j. shard_for hash j e \<noteq> shard_for hash k e \<longrightarrow>
              engine_lookup hash e' j = engine_lookup hash e j)"
proof -
  let ?i = "shard_for hash k e"
  let ?s = "shards e ! ?i"
  have i: "?i < length (shards e)" and s: "shard_inv ?s"
    using shard_for_less [OF inv] shard_of [OF inv] by auto
  obtain r s' where run: "shard_set k v ttl ?s = Some (r, s')" using shard.set_total [OF s] by blast
  let ?e = "e\<lparr>shards := (shards e)[?i := s']\<rparr>"
  have keys: "shard_for hash j e = ?i" if "j \<in> fst ` set (shard_view s')" for j
    using keys_after_set [OF s run that] inv i by (auto simp: engine_inv_def)
  have "engine_inv hash ?e"
    using shard.set_keeps [OF s run] by (intro engine_update [OF inv i _ _ keys]) auto
  moreover have "engine_set hash k v ttl e = Some (r, ?e)"
    using run i by (simp add: engine_set_def on_shard_def)
  moreover have "engine_lookup hash ?e k = Some (v, ttl_deadline ttl)" if "r = Inr C_ok"
    unfolding engine_lookup_update [OF inv refl]
    using shard.set_stores [OF s, of k v ttl s'] run that by (simp add: lru_set_lookup_same)
  moreover have "?e = e" if "r = Inr st" and "st \<noteq> C_ok" for st
    using shard.set_refuses [OF s, of k v ttl st s'] run that i by simp
  moreover have "engine_lookup hash ?e j \<in> {None, engine_lookup hash e j}"
    if "j \<noteq> k" and "shard_for hash j e = ?i" for j
    using shard.set_other_keys [OF s run that(1)] that(2)
    unfolding engine_lookup_update [OF inv refl] by (cases "map_of (shard_view s') j") (auto simp: engine_lookup_def)
  moreover have "engine_lookup hash ?e j = engine_lookup hash e j" if "shard_for hash j e \<noteq> ?i" for j
    unfolding engine_lookup_update [OF inv refl] using that by simp
  moreover have "engine_capacity ?e = engine_capacity e" by simp
  ultimately show ?thesis by blast
qed

lemma engine_get_ok:
  assumes inv: "engine_inv hash e" and key: "validate_key k = C_ok"
  shows "\<exists>r out' e'. engine_get hash k out e = Some ((r, out'), e') \<and> engine_inv hash e' \<and>
           engine_capacity e' = engine_capacity e \<and>
           engine_lookup hash e' = engine_lookup hash e \<and>
           (case r of
              Inl x \<Rightarrow> out' = out
            | Inr st \<Rightarrow> (case engine_lookup hash e k of
                            None \<Rightarrow> st = C_not_found \<and> out' = out
                          | Some (v, t) \<Rightarrow> st = C_ok \<and> out' = v))"
proof -
  let ?i = "shard_for hash k e"
  let ?s = "shards e ! ?i"
  have i: "?i < length (shards e)" and s: "shard_inv ?s"
    using shard_for_less [OF inv] shard_of [OF inv] by auto
  obtain r out' s' where run: "shard_get k out ?s = Some (r, out', s')" using shard.get_total [OF s] by blast
  let ?e = "e\<lparr>shards := (shards e)[?i := s']\<rparr>"
  have same: "map_of (shard_view s') = map_of (shard_view ?s)"
    using shard.get_status [OF s, of k out _ out' s'] shard.get_throws [OF s, of k out _ out' s'] run key
    by (cases r) (auto simp: lru_touch_lookup)
  have keys: "shard_for hash j e = ?i" if "j \<in> fst ` set (shard_view s')" for j
    using arg_cong [OF same, of dom] that inv i by (auto simp: engine_inv_def dom_map_of_conv_image_fst)
  have "engine_inv hash ?e"
    using shard.get_keeps [OF s run] by (intro engine_update [OF inv i _ _ keys]) auto
  moreover have "engine_get hash k out e = Some ((r, out'), ?e)"
    using run i by (simp add: engine_get_def on_shard_def)
  moreover have "engine_lookup hash ?e j = engine_lookup hash e j" for j
    unfolding engine_lookup_update [OF inv refl] same by (simp add: engine_lookup_def)
  then have "engine_lookup hash ?e = engine_lookup hash e" by blast
  moreover have "case r of Inl x \<Rightarrow> out' = out
     | Inr st \<Rightarrow> (case engine_lookup hash e k of
          None \<Rightarrow> st = C_not_found \<and> out' = out | Some (v, t) \<Rightarrow> st = C_ok \<and> out' = v)"
    using shard.get_status [OF s, of k out _ out' s'] shard.get_throws [OF s, of k out _ out' s'] run key
    by (cases r) (auto simp: engine_lookup_def split: option.splits)
  moreover have "engine_capacity ?e = engine_capacity e" by simp
  ultimately show ?thesis by blast
qed

lemma engine_erase_ok:
  assumes inv: "engine_inv hash e" and key: "validate_key k = C_ok"
  shows "\<exists>r e'. engine_erase hash k e = Some (r, e') \<and> engine_inv hash e' \<and>
           engine_capacity e' = engine_capacity e \<and>
           (case r of
              Inl x \<Rightarrow> engine_lookup hash e' = engine_lookup hash e
            | Inr st \<Rightarrow> st = (if engine_lookup hash e k = None then C_not_found else C_ok) \<and>
                engine_lookup hash e' = (engine_lookup hash e)(k := None))"
proof -
  let ?i = "shard_for hash k e"
  let ?s = "shards e ! ?i"
  have i: "?i < length (shards e)" and s: "shard_inv ?s"
    using shard_for_less [OF inv] shard_of [OF inv] by auto
  obtain r s' where run: "shard_erase k ?s = Some (r, s')" using shard.erase_total [OF s] by blast
  let ?e = "e\<lparr>shards := (shards e)[?i := s']\<rparr>"
  have contents: "case r of Inl x \<Rightarrow> shard_view s' = shard_view ?s
     | Inr st \<Rightarrow> shard_view s' = lru_remove k (shard_view ?s) \<and>
         st = (if engine_lookup hash e k = None then C_not_found else C_ok)"
    using shard.erase_status [OF s, of k _ s'] shard.erase_throws [OF s, of k _ s'] run key
    by (cases r) (auto simp: engine_lookup_def)
  have keys: "shard_for hash j e = ?i" if "j \<in> fst ` set (shard_view s')" for j
    using contents that inv i by (auto simp: engine_inv_def lru_remove_def split: sum.splits)
  have "engine_inv hash ?e"
    using shard.erase_keeps [OF s run] by (intro engine_update [OF inv i _ _ keys]) auto
  moreover have "engine_erase hash k e = Some (r, ?e)"
    using run i by (simp add: engine_erase_def on_shard_def)
  moreover have "case r of Inl x \<Rightarrow> engine_lookup hash ?e = engine_lookup hash e
     | Inr st \<Rightarrow> st = (if engine_lookup hash e k = None then C_not_found else C_ok) \<and>
         engine_lookup hash ?e = (engine_lookup hash e)(k := None)"
  proof -
    have "engine_lookup hash ?e j =
        (if shard_for hash j e = ?i then map_of (shard_view s') j else engine_lookup hash e j)" for j
      by (rule engine_lookup_update [OF inv refl])
    moreover have "map_of (shard_view ?s) j = engine_lookup hash e j" if "shard_for hash j e = ?i" for j
      using that by (simp add: engine_lookup_def)
    ultimately show ?thesis
      using contents by (cases r) (auto simp: fun_eq_iff lru_remove_lookup)
  qed
  moreover have "engine_capacity ?e = engine_capacity e" by simp
  ultimately show ?thesis by blast
qed

text \<open>A key that is not acceptable is refused before anything happens.\<close>

lemma refused_on_shard:
  assumes inv: "engine_inv hash e" and key: "validate_key k \<noteq> C_ok"
  shows "engine_get hash k out e = Some ((Inr (validate_key k), out), e)"
    and "engine_erase hash k e = Some (Inr (validate_key k), e)"
proof -
  let ?i = "shard_for hash k e"
  have i: "?i < length (shards e)" and s: "\<not> mutex_held (shards e ! ?i)"
    using shard_for_less [OF inv] shard_of [OF inv] by (auto simp: shard_inv_def)
  have "cache_get k out c = Some (Inr (validate_key k), out, c)"
    "cache_erase k c = Some (Inr (validate_key k), c)" for c
    using key by (simp_all add: cache_get_def cache_erase_def)
  then have "shard_get k out (shards e ! ?i) = Some (Inr (validate_key k), out, shards e ! ?i)"
    "shard_erase k (shards e ! ?i) = Some (Inr (validate_key k), shards e ! ?i)"
    using s by (simp_all add: shard_get_run shard_erase_def with_lock_run)
  then show "engine_get hash k out e = Some ((Inr (validate_key k), out), e)"
    "engine_erase hash k e = Some (Inr (validate_key k), e)"
    using i by (simp_all add: engine_get_def engine_erase_def on_shard_def)
qed

section \<open>Time and totals\<close>

text \<open>
  One tick of the engine: without an exception time passes in every shard; an exception in
  shard \<open>n\<close> leaves that shard and all later ones where they were.
\<close>

lemma tick_shards_ok:
  assumes "\<forall>s \<in> set ss. shard_inv s"
  shows "\<exists>r ss'. tick_shards ss = Some (r, ss') \<and> (\<forall>s \<in> set ss'. shard_inv s) \<and>
           map shard_capacity ss' = map shard_capacity ss \<and>
           (case r of
              Inr _ \<Rightarrow> map shard_view ss' = map (lru_tick \<circ> shard_view) ss
            | Inl x \<Rightarrow> (\<exists>n < length ss. map shard_view ss' =
                 map (lru_tick \<circ> shard_view) (take n ss) @ map shard_view (drop n ss)))"
  using assms
proof (induction ss)
  case (Cons s ss)
  then have s: "shard_inv s" by simp
  obtain r s' where run: "shard_tick s = Some (r, s')" using shard.tick_total [OF s] by blast
  note keep = shard.tick_keeps [OF s run]
  show ?case
  proof (cases r)
    case (Inl x)
    then have "shard_view s' = shard_view s" using shard.tick_throws [OF s] run by blast
    then have "map shard_view (s' # ss) =
        map (lru_tick \<circ> shard_view) (take 0 (s # ss)) @ map shard_view (drop 0 (s # ss))" by simp
    with Inl run keep Cons.prems show ?thesis by fastforce
  next
    case (Inr u)
    have view: "shard_view s' = lru_tick (shard_view s)" using shard.tick_passes [OF s] run Inr by blast
    from Cons obtain r2 ss' where rest: "tick_shards ss = Some (r2, ss')" "\<forall>s \<in> set ss'. shard_inv s"
      "map shard_capacity ss' = map shard_capacity ss"
      "case r2 of Inr _ \<Rightarrow> map shard_view ss' = map (lru_tick \<circ> shard_view) ss
       | Inl x \<Rightarrow> (\<exists>n < length ss. map shard_view ss' =
            map (lru_tick \<circ> shard_view) (take n ss) @ map shard_view (drop n ss))" by auto
    have "case r2 of Inr _ \<Rightarrow> map shard_view (s' # ss') = map (lru_tick \<circ> shard_view) (s # ss)
       | Inl x \<Rightarrow> (\<exists>n < length (s # ss). map shard_view (s' # ss') =
            map (lru_tick \<circ> shard_view) (take n (s # ss)) @ map shard_view (drop n (s # ss)))"
    proof (cases r2)
      case (Inl x)
      with rest(4) obtain n where "n < length ss" "map shard_view ss' =
          map (lru_tick \<circ> shard_view) (take n ss) @ map shard_view (drop n ss)" by auto
      then show ?thesis using Inl view by (auto intro!: exI [of _ "Suc n"])
    next
      case (Inr u')
      then show ?thesis using rest(4) view by simp
    qed
    then show ?thesis using run Inr rest keep by auto
  qed
qed simp

lemma engine_tick_ok:
  assumes inv: "engine_inv hash e"
  shows "\<exists>r e'. engine_tick e = Some (r, e') \<and> engine_inv hash e' \<and>
           engine_capacity e' = engine_capacity e \<and> length (shards e') = length (shards e) \<and>
           (case r of
              Inr _ \<Rightarrow> map shard_view (shards e') = map (lru_tick \<circ> shard_view) (shards e)
            | Inl x \<Rightarrow> (\<exists>n < length (shards e). map shard_view (shards e') =
                map (lru_tick \<circ> shard_view) (take n (shards e)) @ map shard_view (drop n (shards e))))"
proof -
  from tick_shards_ok [of "shards e"] inv obtain r ss' where
    run: "tick_shards (shards e) = Some (r, ss')" and ss: "\<forall>s \<in> set ss'. shard_inv s"
    and caps: "map shard_capacity ss' = map shard_capacity (shards e)"
    and views: "case r of Inr _ \<Rightarrow> map shard_view ss' = map (lru_tick \<circ> shard_view) (shards e)
      | Inl x \<Rightarrow> (\<exists>n < length (shards e). map shard_view ss' =
           map (lru_tick \<circ> shard_view) (take n (shards e)) @ map shard_view (drop n (shards e)))"
    by (auto simp: engine_inv_def)
  have len: "length ss' = length (shards e)" using arg_cong [OF caps, of length] by simp
  have sum: "(\<Sum>s\<leftarrow>ss'. unat (shard_capacity s)) = (\<Sum>s\<leftarrow>shards e. unat (shard_capacity s))"
    using arg_cong [OF caps, of "map unat"] by (simp add: comp_def)
  have keys: "fst ` set (shard_view (ss' ! i)) \<subseteq> fst ` set (shard_view (shards e ! i))"
    if i: "i < length (shards e)" for i
  proof -
    have tick: "fst ` set (lru_tick xs) \<subseteq> fst ` set xs" for xs by (force simp: lru_tick_def)
    have "map shard_view ss' ! i \<in> {lru_tick (shard_view (shards e ! i)), shard_view (shards e ! i)}"
      using views i by (cases r) (auto simp: nth_append)
    then have "shard_view (ss' ! i) = lru_tick (shard_view (shards e ! i)) \<or>
        shard_view (ss' ! i) = shard_view (shards e ! i)" using i len by simp
    then show ?thesis using tick [of "shard_view (shards e ! i)"] by (elim disjE) simp_all
  qed
  have route: "shard_for hash k (e\<lparr>shards := ss'\<rparr>) = shard_for hash k e" for k
    using len by (simp add: shard_for_def)
  have "shard_for hash k e = i" if "i < length (shards e)" and "k \<in> fst ` set (shard_view (ss' ! i))" for i k
    using inv that keys [OF that(1)] unfolding engine_inv_def by blast
  then have "engine_inv hash (e\<lparr>shards := ss'\<rparr>)"
    using inv ss len sum unfolding engine_inv_def route by auto
  then show ?thesis using run views len by (auto simp: engine_tick_def split: sum.splits)
qed

lemma sum_shards_value:
  assumes "\<forall>s \<in> set ss. shard_inv s"
  shows "sum_shards f acc ss = Some (acc + (\<Sum>s\<leftarrow>ss. f (shard_cache s)))"
  using assms
  by (induction ss arbitrary: acc) (auto simp: shard_observe_ok shard_inv_def add.assoc)

lemma unat_sum_list:
  "(\<Sum>x\<leftarrow>xs. unat (x :: u64)) < 2 ^ 64 \<Longrightarrow> unat (sum_list xs) = (\<Sum>x\<leftarrow>xs. unat x)"
  by (induction xs) (simp_all add: unat_add_u64)

text \<open>
  The memory the engine reports is the exact total of the charges of everything stored,
  without overflow, and never above the configured capacity.
\<close>

lemma engine_memory_bound:
  assumes inv: "engine_inv hash e"
  shows "\<exists>m. engine_memory_usage e = Some m \<and>
           unat m = (\<Sum>s\<leftarrow>shards e. total_charge (shard_view s)) \<and> unat m \<le> unat (engine_capacity e)"
proof -
  let ?ms = "map (\<lambda>s. memory_usage_bytes (shard_cache s)) (shards e)"
  have each: "total_charge (shard_view s) = unat (memory_usage_bytes (shard_cache s))"
      "total_charge (shard_view s) \<le> unat (shard_capacity s)" if "s \<in> set (shards e)" for s
  proof -
    have "shard_inv s" using inv that by (simp add: engine_inv_def)
    then show "total_charge (shard_view s) = unat (memory_usage_bytes (shard_cache s))"
      using view_charge by (auto simp: shard_inv_def)
    show "total_charge (shard_view s) \<le> unat (shard_capacity s)"
      using shard.content_fits [OF \<open>shard_inv s\<close>] .
  qed
  have total: "(\<Sum>s\<leftarrow>shards e. total_charge (shard_view s)) = (\<Sum>x\<leftarrow>?ms. unat x)"
    using each(1) by (simp add: comp_def cong: map_cong)
  have "(\<Sum>s\<leftarrow>shards e. total_charge (shard_view s)) \<le> (\<Sum>s\<leftarrow>shards e. unat (shard_capacity s))"
    using each(2) by (rule sum_list_mono)
  then have le: "(\<Sum>s\<leftarrow>shards e. total_charge (shard_view s)) \<le> unat (engine_capacity e)"
    using inv by (simp add: engine_inv_def)
  then have "(\<Sum>x\<leftarrow>?ms. unat x) < 2 ^ 64"
    using total unat_lt_u64 [of "engine_capacity e"] by linarith
  then have "unat (sum_list ?ms) = (\<Sum>x\<leftarrow>?ms. unat x)" by (rule unat_sum_list)
  moreover have "engine_memory_usage e = Some (sum_list ?ms)"
    using inv sum_shards_value [of "shards e"] by (simp add: engine_memory_usage_def engine_inv_def)
  ultimately show ?thesis using le total by simp
qed

end
