(* ===== verification/Buffer.thy ===== *)
theory Buffer
  imports Free_Store
begin

text \<open>
  The byte queue \<^verbatim>\<open>Buffer\<close> of \<^verbatim>\<open>src/net/buffer.cpp\<close>: a vector with a read index that is
  compacted before it grows. The vector's size and capacity are part of the model, so
  that the places where the code relies on having enough room become obligations:
  enlarging the vector past its capacity has no result here. Indices are natural
  numbers; the length check at the top of \<^verbatim>\<open>prepare_append\<close> keeps every sum in range.
\<close>

section \<open>Definitions\<close>

record buffer =
  storage :: bytes
  storage_capacity :: nat
  reader_index :: nat

text \<open>\<^verbatim>\<open>std::vector<char>::max_size()\<close>: the largest pointer difference.\<close>

definition vector_max_size :: nat where
  "vector_max_size = 2 ^ 63 - 1"

definition new_buffer :: "nat \<Rightarrow> heap \<Rightarrow> (exn + buffer) \<times> heap" where
  "new_buffer initial_capacity h =
     (if initial_capacity > vector_max_size then (Inl (Length_error ''vector::reserve''), h)
      else case (if initial_capacity = 0 then (Inr (), h) else container_alloc h) of
        (Inl x, h') \<Rightarrow> (Inl x, h')
      | (Inr _, h') \<Rightarrow>
          (Inr \<lparr>storage = [], storage_capacity = initial_capacity, reader_index = 0\<rparr>, h'))"

definition readable_bytes :: "buffer \<Rightarrow> nat" where
  "readable_bytes b = length (storage b) - reader_index b"

definition writable_bytes :: "buffer \<Rightarrow> nat" where
  "writable_bytes b = storage_capacity b - length (storage b)"

definition buffer_empty :: "buffer \<Rightarrow> bool" where
  "buffer_empty b \<longleftrightarrow> readable_bytes b = 0"

definition readable_view :: "buffer \<Rightarrow> bytes" where
  "readable_view b = (if buffer_empty b then [] else drop (reader_index b) (storage b))"

definition retrieve_all :: "buffer \<Rightarrow> buffer" where
  "retrieve_all b = b\<lparr>storage := [], reader_index := 0\<rparr>"

definition retrieve :: "nat \<Rightarrow> buffer \<Rightarrow> buffer option" where
  "retrieve n b =
     (if n > readable_bytes b then None
      else if n = readable_bytes b then Some (retrieve_all b)
      else Some (b\<lparr>reader_index := reader_index b + n\<rparr>))"

definition prepare_append :: "nat \<Rightarrow> buffer \<Rightarrow> heap \<Rightarrow> (exn + unit) \<times> buffer \<times> heap" where
  "prepare_append n b h =
     (let readable = readable_bytes b
      in if n > vector_max_size - readable
         then (Inl (Length_error ''buffer size exceeds vector maximum''), b, h)
         else if n \<le> writable_bytes b then (Inr (), b, h)
         else if n \<le> reader_index b + writable_bytes b
         then (Inr (), b\<lparr>storage := drop (reader_index b) (storage b), reader_index := 0\<rparr>, h)
         else
           (let required = readable + n;
                doubled = (if storage_capacity b \<le> (2 ^ 64 - 1) div 2
                           then storage_capacity b * 2 else vector_max_size);
                wanted = max required doubled
            in if wanted > vector_max_size then (Inl (Length_error ''vector::reserve''), b, h)
               else case container_alloc h of
                 (Inl x, h') \<Rightarrow> (Inl x, b, h')
               | (Inr _, h') \<Rightarrow>
                   (Inr (),
                    \<lparr>storage = drop (reader_index b) (storage b), storage_capacity = wanted,
                     reader_index = 0\<rparr>, h')))"

text \<open>
  \<^verbatim>\<open>append\<close> of \<open>n\<close> bytes at \<open>source\<close>, which may be a null pointer. The copy reads \<open>n\<close>
  bytes there, and the vector must not have to grow.
\<close>

definition buffer_append :: "bytes option \<Rightarrow> nat \<Rightarrow> buffer \<Rightarrow> heap \<Rightarrow> ((exn + unit) \<times> buffer \<times> heap) option" where
  "buffer_append source n b h =
     (if n = 0 then Some (Inr (), b, h)
      else case source of
        None \<Rightarrow> Some (Inl (Std_invalid_argument ''buffer append data must not be null''), b, h)
      | Some bs \<Rightarrow>
          (case prepare_append n b h of
             (Inl x, b', h') \<Rightarrow> Some (Inl x, b', h')
           | (Inr _, b', h') \<Rightarrow>
               (if length bs < n \<or> length (storage b') + n > storage_capacity b' then None
                else Some (Inr (), b'\<lparr>storage := storage b' @ take n bs\<rparr>, h'))))"

text \<open>The overload for a string view; the view of an empty string may be a null pointer.\<close>

definition append_view :: "bytes \<Rightarrow> buffer \<Rightarrow> heap \<Rightarrow> ((exn + unit) \<times> buffer \<times> heap) option" where
  "append_view bs = buffer_append (if bs = [] then None else Some bs) (length bs)"

definition buffer_inv :: "buffer \<Rightarrow> bool" where
  "buffer_inv b \<longleftrightarrow>
     reader_index b \<le> length (storage b) \<and> length (storage b) \<le> storage_capacity b \<and>
     storage_capacity b \<le> vector_max_size"

section \<open>The contract of a byte queue\<close>

locale byte_queue =
  fixes append :: "bytes \<Rightarrow> 'b \<Rightarrow> heap \<Rightarrow> ((exn + unit) \<times> 'b \<times> heap) option"
    and retrieve :: "nat \<Rightarrow> 'b \<Rightarrow> 'b option"
    and clear :: "'b \<Rightarrow> 'b"
    and contents :: "'b \<Rightarrow> bytes"
    and invar :: "'b \<Rightarrow> bool"
  assumes append_defined: "invar b \<Longrightarrow> \<exists>r b' h'. append bs b h = Some (r, b', h')"
    and append_ok:
      "invar b \<Longrightarrow> append bs b h = Some (Inr u, b', h') \<Longrightarrow>
         invar b' \<and> contents b' = contents b @ bs"
    and append_throws: "invar b \<Longrightarrow> append bs b h = Some (Inl x, b', h') \<Longrightarrow> b' = b"
    and retrieve_ok:
      "invar b \<Longrightarrow> n \<le> length (contents b) \<Longrightarrow>
         \<exists>b'. retrieve n b = Some b' \<and> invar b' \<and> contents b' = drop n (contents b)"
    and clear_ok: "invar b \<Longrightarrow> invar (clear b) \<and> contents (clear b) = []"
begin

text \<open>First in, first out: what is taken from the front was appended first.\<close>

lemma append_then_retrieve:
  assumes "invar b" and "append bs b h = Some (Inr u, b', h')" and "n \<le> length (contents b)"
  shows "\<exists>b''. retrieve n b' = Some b'' \<and> invar b'' \<and> contents b'' = drop n (contents b) @ bs"
proof -
  have b': "invar b'" "contents b' = contents b @ bs" using append_ok [OF assms(1,2)] by auto
  then show ?thesis using retrieve_ok [OF b'(1), of n] assms(3) by auto
qed

end

section \<open>The buffer meets it\<close>

lemma readable_view_drop: "buffer_inv b \<Longrightarrow> readable_view b = drop (reader_index b) (storage b)"
  by (auto simp: readable_view_def buffer_empty_def readable_bytes_def buffer_inv_def)

lemma length_readable_view: "buffer_inv b \<Longrightarrow> length (readable_view b) = readable_bytes b"
  by (simp add: readable_view_drop readable_bytes_def)

lemma prepare_append_cases:
  assumes "prepare_append n b h = (r, b', h')"
  obtains (room) "r = Inr ()" and "b' = b" and "n \<le> writable_bytes b"
    | (compact) "r = Inr ()" and "n \<le> reader_index b + writable_bytes b"
      and "b' = b\<lparr>storage := drop (reader_index b) (storage b), reader_index := 0\<rparr>"
    | (grow) wanted where "r = Inr ()" and "readable_bytes b + n \<le> wanted"
      and "wanted \<le> vector_max_size"
      and "b' = \<lparr>storage = drop (reader_index b) (storage b), storage_capacity = wanted, reader_index = 0\<rparr>"
    | (throw) x where "r = Inl x" and "b' = b"
proof -
  define wanted where "wanted = max (readable_bytes b + n)
     (if storage_capacity b \<le> (2 ^ 64 - 1) div 2 then storage_capacity b * 2 else vector_max_size)"
  note run = assms [unfolded prepare_append_def Let_def, folded wanted_def]
  consider "n > vector_max_size - readable_bytes b"
    | "\<not> n > vector_max_size - readable_bytes b" "n \<le> writable_bytes b"
    | "\<not> n > vector_max_size - readable_bytes b" "\<not> n \<le> writable_bytes b"
      "n \<le> reader_index b + writable_bytes b"
    | "\<not> n > vector_max_size - readable_bytes b" "\<not> n \<le> writable_bytes b"
      "\<not> n \<le> reader_index b + writable_bytes b" by blast
  then show thesis
  proof cases
    case 1
    with run show thesis by (intro throw) auto
  next
    case 2
    with run show thesis by (intro room) auto
  next
    case 3
    with run show thesis by (intro compact) auto
  next
    case 4
    have w: "readable_bytes b + n \<le> wanted" unfolding wanted_def by (rule max.cobounded1)
    obtain q h1 where ca: "container_alloc h = (q, h1)" by fastforce
    note run4 = run [unfolded ca, simplified 4 if_False]
    show thesis
    proof (cases "wanted > vector_max_size")
      case True
      with run4 show thesis by (intro throw) auto
    next
      case False
      with run4 w show thesis by (cases q) (auto intro: throw grow)
    qed
  qed
qed

lemma prepare_append_ok:
  assumes "buffer_inv b" and "prepare_append n b h = (Inr u, b', h')"
  shows "buffer_inv b'" and "readable_view b' = readable_view b"
    and "length (storage b') + n \<le> storage_capacity b'"
proof -
  from assms(2) have "buffer_inv b' \<and> drop (reader_index b') (storage b') = drop (reader_index b) (storage b) \<and>
      length (storage b') + n \<le> storage_capacity b'"
    by (cases rule: prepare_append_cases)
       (use assms(1) in \<open>auto simp: buffer_inv_def readable_bytes_def writable_bytes_def\<close>)
  then show "buffer_inv b'" "readable_view b' = readable_view b"
    "length (storage b') + n \<le> storage_capacity b'"
    using assms(1) by (auto simp: readable_view_drop)
qed

lemma prepare_append_throws: "prepare_append n b h = (Inl x, b', h') \<Longrightarrow> b' = b"
  by (erule prepare_append_cases) auto

lemma prepare_append_heap:
  "prepare_append n b h = (r, b', h') \<Longrightarrow> oom h = [] \<Longrightarrow> h' = h"
  by (auto simp: prepare_append_def Let_def split: if_splits)

interpretation bytes_in: byte_queue append_view retrieve retrieve_all readable_view buffer_inv
proof (unfold_locales, goal_cases)
  case (1 b bs h)
  show ?case
  proof (cases "prepare_append (length bs) b h")
    case (fields r b' h')
    then show ?thesis
      using prepare_append_ok(3) [OF 1, of "length bs" h _ b' h']
      by (cases r) (auto simp: append_view_def buffer_append_def)
  qed
next
  case (2 b bs h u b' h')
  show ?case
  proof (cases "bs = []")
    case True
    with 2 show ?thesis by (simp add: append_view_def buffer_append_def)
  next
    case False
    with 2(2) obtain v b1 where p: "prepare_append (length bs) b h = (Inr v, b1, h')"
      and b': "b' = b1\<lparr>storage := storage b1 @ bs\<rparr>"
      by (auto simp: append_view_def buffer_append_def split: prod.splits sum.splits if_splits)
    note ok = prepare_append_ok [OF 2(1) p]
    have "buffer_inv b'" using ok b' by (auto simp: buffer_inv_def)
    moreover have "readable_view b' = readable_view b1 @ bs"
      using ok(1) b' \<open>buffer_inv b'\<close> by (simp add: readable_view_drop buffer_inv_def)
    ultimately show ?thesis using ok(2) by simp
  qed
next
  case (3 b bs h x b' h')
  then show ?case
    by (auto simp: append_view_def buffer_append_def split: prod.splits sum.splits if_splits
        dest: prepare_append_throws)
next
  case (4 b n)
  then have n: "n \<le> readable_bytes b" by (simp add: length_readable_view)
  show ?case
  proof (cases "n = readable_bytes b")
    case True
    then show ?thesis
      using 4(1) by (auto simp: retrieve_def retrieve_all_def buffer_inv_def readable_view_def
          readable_bytes_def buffer_empty_def)
  next
    case False
    let ?b = "b\<lparr>reader_index := reader_index b + n\<rparr>"
    have "buffer_inv ?b" using 4(1) n by (auto simp: buffer_inv_def readable_bytes_def)
    then have "readable_view ?b = drop n (readable_view b)"
      using 4(1) by (simp add: readable_view_drop add.commute)
    with False n \<open>buffer_inv ?b\<close> show ?thesis by (simp add: retrieve_def)
  qed
next
  case (5 b)
  then show ?case
    by (auto simp: retrieve_all_def buffer_inv_def readable_view_def readable_bytes_def buffer_empty_def)
qed

lemma append_view_heap:
  "append_view bs b h = Some (r, b', h') \<Longrightarrow> oom h = [] \<Longrightarrow> h' = h"
  by (auto simp: append_view_def buffer_append_def split: if_splits prod.splits sum.splits
      dest: prepare_append_heap)

text \<open>With memory at hand and room in the address space, appending succeeds.\<close>

lemma prepare_append_succeeds:
  assumes "buffer_inv b" and "oom h = []" and "storage_capacity b \<le> 2 ^ 61" and "n \<le> 2 ^ 61"
  shows "\<exists>b'. prepare_append n b h = (Inr (), b', h)"
proof -
  have len: "readable_bytes b \<le> 2 ^ 61" using assms by (auto simp: buffer_inv_def readable_bytes_def)
  then have no_throw: "\<not> n > vector_max_size - readable_bytes b"
      "\<not> max (readable_bytes b + n) (storage_capacity b * 2) > vector_max_size"
      "storage_capacity b \<le> (2 ^ 64 - 1) div 2"
    using assms(3,4) by (simp_all add: vector_max_size_def)
  show ?thesis
    unfolding prepare_append_def Let_def container_alloc_nil [OF assms(2)]
    by (simp only: no_throw if_True if_False) auto
qed

lemma append_view_succeeds:
  assumes "buffer_inv b" and "oom h = []" and "storage_capacity b \<le> 2 ^ 61" and "length bs \<le> 2 ^ 61"
  shows "\<exists>b'. append_view bs b h = Some (Inr (), b', h)"
proof -
  obtain b1 where p: "prepare_append (length bs) b h = (Inr (), b1, h)"
    using prepare_append_succeeds [OF assms] by blast
  show ?thesis
    using p prepare_append_ok(3) [OF assms(1) p] by (auto simp: append_view_def buffer_append_def)
qed

text \<open>The storage only grows when it is too small, and then to less than twice of what is needed.\<close>

lemma prepare_append_capacity:
  assumes inv: "buffer_inv b" and run: "prepare_append n b h = (r, b', h')"
  shows "storage_capacity b' \<le> max (storage_capacity b) (2 * (readable_bytes b + n))"
proof (cases "n \<le> reader_index b + writable_bytes b")
  case True
  then show ?thesis using run unfolding prepare_append_def Let_def by (auto split: if_splits)
next
  case False
  then have grow: "storage_capacity b < readable_bytes b + n"
    using inv by (auto simp: buffer_inv_def readable_bytes_def writable_bytes_def)
  have "storage_capacity b \<le> (2 ^ 64 - 1) div 2" using inv by (simp add: buffer_inv_def vector_max_size_def)
  then have "storage_capacity b' \<in> {storage_capacity b, max (readable_bytes b + n) (storage_capacity b * 2)}"
    using run False unfolding prepare_append_def Let_def by (auto split: if_splits prod.splits sum.splits)
  then show ?thesis using grow by auto
qed

lemma append_view_capacity:
  assumes "buffer_inv b" and "append_view bs b h = Some (r, b', h')"
  shows "storage_capacity b' \<le> max (storage_capacity b) (2 * (readable_bytes b + length bs))"
proof (cases "bs = []")
  case True
  then show ?thesis using assms(2) by (simp add: append_view_def buffer_append_def)
next
  case False
  obtain q b1 h1 where p: "prepare_append (length bs) b h = (q, b1, h1)" by (metis surj_pair)
  then have "storage_capacity b' = storage_capacity b1"
    using assms(2) False by (auto simp: append_view_def buffer_append_def split: sum.splits if_splits)
  then show ?thesis using prepare_append_capacity [OF assms(1) p] by simp
qed

text \<open>
  The capacity never grows past twice what was ever needed at once, so a bound on the
  contents bounds the memory.
\<close>

lemma append_view_bounded:
  assumes inv: "buffer_inv b" and "oom h = []" and cap: "storage_capacity b \<le> 2 * B"
    and need: "readable_bytes b + length bs \<le> B" and B: "B \<le> 2 ^ 60"
  shows "\<exists>b'. append_view bs b h = Some (Inr (), b', h) \<and> storage_capacity b' \<le> 2 * B"
proof -
  have "storage_capacity b \<le> 2 ^ 61" "length bs \<le> 2 ^ 61" using cap need B by simp_all
  then obtain b1 where p: "prepare_append (length bs) b h = (Inr (), b1, h)"
    using prepare_append_succeeds [OF inv assms(2)] by blast
  then obtain b' where ap: "append_view bs b h = Some (Inr (), b', h)"
    using prepare_append_ok(3) [OF inv p] by (cases "bs = []") (auto simp: append_view_def buffer_append_def)
  then show ?thesis using append_view_capacity [OF inv ap] cap need by auto
qed

lemma retrieve_capacity: "retrieve n b = Some b' \<Longrightarrow> storage_capacity b' = storage_capacity b"
  by (auto simp: retrieve_def retrieve_all_def split: if_splits)

lemma new_buffer_ok:
  "new_buffer n h = (Inr b, h') \<Longrightarrow> buffer_inv b \<and> readable_view b = [] \<and> storage_capacity b = n"
  by (auto simp: new_buffer_def buffer_inv_def readable_view_def readable_bytes_def buffer_empty_def
      split: if_splits prod.splits sum.splits)

end
