(* ===== verification/Protocol_Codec.thy ===== *)
theory Protocol_Codec
  imports Cache Buffer
begin

text \<open>
  The binary protocol of \<^verbatim>\<open>src/protocol/protocol_codec.cpp\<close>: big-endian headers with the
  lengths of what follows. An \<^verbatim>\<open>Opcode\<close> and a \<^verbatim>\<open>WireStatus\<close> have the fixed underlying type
  \<^verbatim>\<open>std::uint8_t\<close> and can hold any byte, so they are bytes here, with the enumerators as
  constants. Reading past the bytes at hand has no result.
\<close>

unbundle bit_operations_syntax

section \<open>Data\<close>

abbreviation (input) magic :: u32 where "magic \<equiv> 0x48434143"
abbreviation (input) version :: u8 where "version \<equiv> 1"
abbreviation (input) request_header_size :: nat where "request_header_size \<equiv> 32"
abbreviation (input) response_header_size :: nat where "response_header_size \<equiv> 20"

abbreviation (input) max_request_frame_size :: nat where
  "max_request_frame_size \<equiv> request_header_size + max_key_length + max_value_length"

abbreviation (input) max_response_frame_size :: nat where
  "max_response_frame_size \<equiv> response_header_size + max_value_length"

abbreviation (input) opcode_get :: u8 where "opcode_get \<equiv> 1"
abbreviation (input) opcode_set :: u8 where "opcode_set \<equiv> 2"
abbreviation (input) opcode_erase :: u8 where "opcode_erase \<equiv> 3"

abbreviation (input) wire_protocol_error :: u8 where "wire_protocol_error \<equiv> 7"
abbreviation (input) wire_internal_error :: u8 where "wire_internal_error \<equiv> 8"

record request =
  opcode :: u8
  request_id :: u64
  req_key :: bytes
  req_value :: bytes
  ttl_ms :: u64

record response =
  response_id :: u64
  status :: u8
  resp_value :: bytes

datatype decode_result = Decode_incomplete | Decode_complete | Decode_error

record protocol_error =
  has_request_id :: bool
  error_request_id :: u64
  error_message :: string

definition new_request :: request where
  "new_request = \<lparr>opcode = opcode_get, request_id = 0, req_key = [], req_value = [], ttl_ms = 0\<rparr>"

definition new_response :: response where
  "new_response = \<lparr>response_id = 0, status = 0, resp_value = []\<rparr>"

definition no_error :: protocol_error where
  "no_error = \<lparr>has_request_id = False, error_request_id = 0, error_message = ''''\<rparr>"

section \<open>Bytes and words\<close>

definition append_u8 :: "bytes \<Rightarrow> u8 \<Rightarrow> bytes" where
  "append_u8 output value = output @ [value]"

definition append_u16 :: "bytes \<Rightarrow> u16 \<Rightarrow> bytes" where
  "append_u16 output value =
     append_u8 (append_u8 output (ucast (drop_bit 8 value))) (ucast value)"

definition append_u32 :: "bytes \<Rightarrow> u32 \<Rightarrow> bytes" where
  "append_u32 output value =
     append_u8 (append_u8 (append_u8 (append_u8 output (ucast (drop_bit 24 value)))
       (ucast (drop_bit 16 value))) (ucast (drop_bit 8 value))) (ucast value)"

definition append_u64 :: "bytes \<Rightarrow> u64 \<Rightarrow> bytes" where
  "append_u64 output value = append_u32 (append_u32 output (ucast (drop_bit 32 value))) (ucast value)"

definition read_u8 :: "bytes \<Rightarrow> nat \<Rightarrow> u8 option" where
  "read_u8 data i = (if i < length data then Some (data ! i) else None)"

definition read_u16 :: "bytes \<Rightarrow> nat \<Rightarrow> u16 option" where
  "read_u16 data i =
     do { a \<leftarrow> read_u8 data i; b \<leftarrow> read_u8 data (i + 1);
          Some (push_bit 8 (ucast a) OR ucast b) }"

definition read_u32 :: "bytes \<Rightarrow> nat \<Rightarrow> u32 option" where
  "read_u32 data i =
     do { a \<leftarrow> read_u8 data i; b \<leftarrow> read_u8 data (i + 1);
          c \<leftarrow> read_u8 data (i + 2); d \<leftarrow> read_u8 data (i + 3);
          Some (push_bit 24 (ucast a) OR push_bit 16 (ucast b) OR push_bit 8 (ucast c) OR ucast d) }"

definition read_u64 :: "bytes \<Rightarrow> nat \<Rightarrow> u64 option" where
  "read_u64 data i =
     do { a \<leftarrow> read_u32 data i; b \<leftarrow> read_u32 data (i + 4);
          Some (push_bit 32 (ucast a) OR ucast b) }"

section \<open>Encoding\<close>

definition is_valid_status :: "u8 \<Rightarrow> bool" where
  "is_valid_status value \<longleftrightarrow> value \<le> wire_internal_error"

definition is_valid_opcode :: "u8 \<Rightarrow> bool" where
  "is_valid_opcode oc \<longleftrightarrow> oc = opcode_get \<or> oc = opcode_set \<or> oc = opcode_erase"

abbreviation (input) int64_max :: u64 where
  "int64_max \<equiv> 0x7FFFFFFFFFFFFFFF"

text \<open>The frames, after the checks and after \<^verbatim>\<open>output.reserve\<close> has succeeded.\<close>

definition request_frame :: "request \<Rightarrow> bytes" where
  "request_frame r =
     append_u64 (append_u32 (append_u32 (append_u64 (append_u16 (append_u8 (append_u8
       (append_u32 [] magic) version) (opcode r)) 0) (request_id r))
       (of_nat (length (req_key r)))) (of_nat (length (req_value r)))) (ttl_ms r)
     @ req_key r @ req_value r"

definition encode_request :: "request \<Rightarrow> heap \<Rightarrow> (exn + bytes) \<times> heap" where
  "encode_request r h =
     (if \<not> is_valid_opcode (opcode r)
      then (Inl (Std_invalid_argument ''request has unknown opcode''), h)
      else if length (req_key r) > max_key_length \<or> length (req_value r) > max_value_length
      then (Inl (Std_invalid_argument ''request exceeds protocol length limit''), h)
      else if (opcode r = opcode_get \<or> opcode r = opcode_erase) \<and>
              (req_value r \<noteq> [] \<or> ttl_ms r \<noteq> 0)
      then (Inl (Std_invalid_argument ''GET and DELETE cannot carry value or TTL''), h)
      else if ttl_ms r > int64_max
      then (Inl (Std_invalid_argument ''request TTL exceeds signed millisecond range''), h)
      else case container_alloc h of
        (Inl x, h') \<Rightarrow> (Inl x, h')
      | (Inr _, h') \<Rightarrow> (Inr (request_frame r), h'))"

definition response_frame :: "response \<Rightarrow> bytes" where
  "response_frame r =
     append_u32 (append_u64 (append_u16 (append_u8 (append_u8
       (append_u32 [] magic) version) (status r)) 0) (response_id r))
       (of_nat (length (resp_value r)))
     @ resp_value r"

definition encode_response :: "response \<Rightarrow> heap \<Rightarrow> (exn + bytes) \<times> heap" where
  "encode_response r h =
     (if \<not> is_valid_status (status r)
      then (Inl (Std_invalid_argument ''response has unknown status''), h)
      else if length (resp_value r) > max_value_length
      then (Inl (Std_invalid_argument ''response exceeds protocol length limit''), h)
      else case container_alloc h of
        (Inl x, h') \<Rightarrow> (Inl x, h')
      | (Inr _, h') \<Rightarrow> (Inr (response_frame r), h'))"

section \<open>Decoding\<close>

text \<open>\<^verbatim>\<open>fail\<close>: the message string is allocated before the error is filled in.\<close>

definition fail ::
    "protocol_error \<Rightarrow> u64 \<Rightarrow> string \<Rightarrow> heap \<Rightarrow> (exn + decode_result) \<times> protocol_error \<times> heap" where
  "fail err rid message h =
     (case container_alloc h of
        (Inl x, h') \<Rightarrow> (Inl x, err, h')
      | (Inr _, h') \<Rightarrow>
          (Inr Decode_error,
           \<lparr>has_request_id = True, error_request_id = rid, error_message = message\<rparr>, h'))"

definition string_assign :: "bytes \<Rightarrow> heap \<Rightarrow> (exn + unit) \<times> heap" where
  "string_assign bs h = (if bs = [] then (Inr (), h) else container_alloc h)"

text \<open>The checks of a request header, in the order of the code: the message of the first that fails.\<close>

definition request_complaint ::
    "u32 \<Rightarrow> u8 \<Rightarrow> u16 \<Rightarrow> u8 \<Rightarrow> nat \<Rightarrow> nat \<Rightarrow> u64 \<Rightarrow> string option" where
  "request_complaint m ver reserved oc key_length value_length ttl =
     (if m \<noteq> magic then Some ''invalid request magic''
      else if ver \<noteq> version then Some ''unsupported protocol version''
      else if reserved \<noteq> 0 then Some ''request reserved field must be zero''
      else if oc < opcode_get \<or> oc > opcode_erase then Some ''unknown request opcode''
      else if key_length > max_key_length then Some ''request key length exceeds maximum''
      else if value_length > max_value_length then Some ''request value length exceeds maximum''
      else if key_length > max_request_frame_size - request_header_size \<or>
              value_length > max_request_frame_size - request_header_size - key_length
      then Some ''request frame length overflow''
      else if (oc = opcode_get \<or> oc = opcode_erase) \<and> value_length \<noteq> 0
      then Some ''GET and DELETE cannot carry a value''
      else if (oc = opcode_get \<or> oc = opcode_erase) \<and> ttl \<noteq> 0
      then Some ''GET and DELETE cannot carry a TTL''
      else if ttl > int64_max then Some ''request TTL exceeds supported range''
      else None)"

text \<open>The state a decoder works on: the input, the record to fill, the error and the store.\<close>

type_synonym 'm decoding = "((exn + decode_result) \<times> buffer \<times> 'm \<times> protocol_error \<times> heap) option"

definition decode_request :: "buffer \<Rightarrow> request \<Rightarrow> protocol_error \<Rightarrow> heap \<Rightarrow> request decoding" where
  "decode_request inp req err h =
     (if readable_bytes inp < request_header_size then Some (Inr Decode_incomplete, inp, req, err, h)
      else do {
        let header = readable_view inp;
        rid \<leftarrow> read_u64 header 8;
        m \<leftarrow> read_u32 header 0;
        ver \<leftarrow> read_u8 header 4;
        reserved \<leftarrow> read_u16 header 6;
        oc \<leftarrow> read_u8 header 5;
        key_word \<leftarrow> read_u32 header 16;
        value_word \<leftarrow> read_u32 header 20;
        ttl \<leftarrow> read_u64 header 24;
        let key_length = unat key_word;
        let value_length = unat value_word;
        (case request_complaint m ver reserved oc key_length value_length ttl of
           Some message \<Rightarrow>
             (case fail err rid message h of (r, err', h') \<Rightarrow> Some (r, inp, req, err', h'))
         | None \<Rightarrow>
             (let frame_length = request_header_size + key_length + value_length;
                  key = take key_length (drop request_header_size header);
                  val = take value_length (drop (request_header_size + key_length) header);
                  req1 = req\<lparr>opcode := oc, request_id := rid\<rparr>
              in if readable_bytes inp < frame_length
                 then Some (Inr Decode_incomplete, inp, req, err, h)
                 else case string_assign key h of
                   (Inl x, h1) \<Rightarrow> Some (Inl x, inp, req1, err, h1)
                 | (Inr _, h1) \<Rightarrow>
                     (let req2 = req1\<lparr>req_key := key\<rparr>
                      in case string_assign val h1 of
                           (Inl x, h2) \<Rightarrow> Some (Inl x, inp, req2, err, h2)
                         | (Inr _, h2) \<Rightarrow>
                             (case retrieve frame_length inp of
                                None \<Rightarrow> None
                              | Some inp' \<Rightarrow>
                                  Some (Inr Decode_complete, inp',
                                    req2\<lparr>req_value := val, ttl_ms := ttl\<rparr>, no_error, h2)))))
      })"

definition response_complaint :: "u32 \<Rightarrow> u8 \<Rightarrow> u16 \<Rightarrow> u8 \<Rightarrow> nat \<Rightarrow> string option" where
  "response_complaint m ver reserved st value_length =
     (if m \<noteq> magic then Some ''invalid response magic''
      else if ver \<noteq> version then Some ''unsupported response version''
      else if reserved \<noteq> 0 then Some ''response reserved field must be zero''
      else if \<not> is_valid_status st then Some ''unknown response status''
      else if value_length > max_value_length then Some ''response value length exceeds maximum''
      else None)"

definition decode_response :: "buffer \<Rightarrow> response \<Rightarrow> protocol_error \<Rightarrow> heap \<Rightarrow> response decoding" where
  "decode_response inp resp err h =
     (if readable_bytes inp < response_header_size then Some (Inr Decode_incomplete, inp, resp, err, h)
      else do {
        let header = readable_view inp;
        rid \<leftarrow> read_u64 header 8;
        m \<leftarrow> read_u32 header 0;
        ver \<leftarrow> read_u8 header 4;
        reserved \<leftarrow> read_u16 header 6;
        st \<leftarrow> read_u8 header 5;
        value_word \<leftarrow> read_u32 header 16;
        let value_length = unat value_word;
        (case response_complaint m ver reserved st value_length of
           Some message \<Rightarrow>
             (case fail err rid message h of (r, err', h') \<Rightarrow> Some (r, inp, resp, err', h'))
         | None \<Rightarrow>
             (let frame_length = response_header_size + value_length;
                  val = take value_length (drop response_header_size header);
                  resp1 = resp\<lparr>response_id := rid, status := st\<rparr>
              in if readable_bytes inp < frame_length
                 then Some (Inr Decode_incomplete, inp, resp, err, h)
                 else case string_assign val h of
                   (Inl x, h1) \<Rightarrow> Some (Inl x, inp, resp1, err, h1)
                 | (Inr _, h1) \<Rightarrow>
                     (case retrieve frame_length inp of
                        None \<Rightarrow> None
                      | Some inp' \<Rightarrow>
                          Some (Inr Decode_complete, inp', resp1\<lparr>resp_value := val\<rparr>, no_error, h1))))
      })"

section \<open>Statuses\<close>

definition to_wire_status :: "cache_status \<Rightarrow> u8" where
  "to_wire_status st =
     (case st of
        C_ok \<Rightarrow> 0
      | C_not_found \<Rightarrow> 1
      | C_invalid_key \<Rightarrow> 2
      | C_key_too_large \<Rightarrow> 3
      | C_value_too_large \<Rightarrow> 4
      | C_item_too_large \<Rightarrow> 5
      | C_invalid_ttl \<Rightarrow> 6)"

definition to_string_wire_status :: "u8 \<Rightarrow> string" where
  "to_string_wire_status st =
     (if st = 0 then ''ok''
      else if st = 1 then ''not_found''
      else if st = 2 then ''invalid_key''
      else if st = 3 then ''key_too_large''
      else if st = 4 then ''value_too_large''
      else if st = 5 then ''item_too_large''
      else if st = 6 then ''invalid_ttl''
      else if st = wire_protocol_error then ''protocol_error''
      else if st = wire_internal_error then ''internal_error''
      else ''unknown'')"

section \<open>Words survive the wire\<close>

lemma join_u16: "push_bit 8 (ucast (ucast (drop_bit 8 v) :: u8)) OR ucast (ucast v :: u8) = (v :: u16)"
  by (rule bit_word_eqI) (auto simp: bit_simps)

lemma join_u32:
  "push_bit 24 (ucast (ucast (drop_bit 24 v) :: u8)) OR push_bit 16 (ucast (ucast (drop_bit 16 v) :: u8)) OR
   push_bit 8 (ucast (ucast (drop_bit 8 v) :: u8)) OR ucast (ucast v :: u8) = (v :: u32)"
  (is "?joined = v")
proof (rule bit_word_eqI)
  fix n
  assume "n < LENGTH(32)"
  consider "n < 8" | "8 \<le> n" "n < 16" | "16 \<le> n" "n < 24" | "24 \<le> n" by linarith
  then show "bit ?joined n = bit v n"
    using \<open>n < LENGTH(32)\<close> by cases (auto simp: bit_simps)
qed

lemma join_u64: "push_bit 32 (ucast (ucast (drop_bit 32 v) :: u32)) OR ucast (ucast v :: u32) = (v :: u64)"
  by (rule bit_word_eqI) (auto simp: bit_simps)

abbreviation be16 :: "u16 \<Rightarrow> bytes" where "be16 v \<equiv> append_u16 [] v"
abbreviation be32 :: "u32 \<Rightarrow> bytes" where "be32 v \<equiv> append_u32 [] v"
abbreviation be64 :: "u64 \<Rightarrow> bytes" where "be64 v \<equiv> append_u64 [] v"

lemma length_be [simp]: "length (be16 w) = 2" "length (be32 d) = 4" "length (be64 q) = 8"
  by (simp_all add: append_u8_def append_u16_def append_u32_def append_u64_def)

lemma be64_split: "be64 v = be32 (ucast (drop_bit 32 v)) @ be32 (ucast v)"
  by (simp add: append_u8_def append_u32_def append_u64_def)

text \<open>A word written at some position is what is read there.\<close>

lemma read_u8_at: "length xs = n \<Longrightarrow> read_u8 (xs @ b # ys) n = Some b"
  by (simp add: read_u8_def nth_append)

lemma read_u16_at:
  assumes "length xs = n"
  shows "read_u16 (xs @ be16 v @ ys) n = Some v"
proof -
  define a b :: u8 where "a = ucast (drop_bit 8 v)" and "b = ucast v"
  have be: "xs @ be16 v @ ys = xs @ a # b # ys"
    by (simp add: append_u16_def append_u8_def a_def b_def)
  have "read_u8 (xs @ a # b # ys) n = Some a" "read_u8 (xs @ a # b # ys) (n + 1) = Some b"
    using assms by (simp_all add: read_u8_def nth_append)
  then show ?thesis unfolding be read_u16_def by (simp add: a_def b_def join_u16)
qed

lemma read_u32_at:
  assumes "length xs = n"
  shows "read_u32 (xs @ be32 v @ ys) n = Some v"
proof -
  define a b c d :: u8 where "a = ucast (drop_bit 24 v)" and "b = ucast (drop_bit 16 v)"
    and "c = ucast (drop_bit 8 v)" and "d = ucast v"
  note abcd = a_def b_def c_def d_def
  have be: "xs @ be32 v @ ys = xs @ a # b # c # d # ys"
    by (simp add: append_u32_def append_u8_def abcd)
  have "read_u8 (xs @ a # b # c # d # ys) n = Some a"
    "read_u8 (xs @ a # b # c # d # ys) (n + 1) = Some b"
    "read_u8 (xs @ a # b # c # d # ys) (n + 2) = Some c"
    "read_u8 (xs @ a # b # c # d # ys) (n + 3) = Some d"
    using assms by (simp_all add: read_u8_def nth_append)
  then show ?thesis unfolding be read_u32_def by (simp only: Option.bind.bind_lunit abcd join_u32)
qed

lemma read_u64_at:
  assumes "length xs = n"
  shows "read_u64 (xs @ be64 v @ ys) n = Some v"
proof -
  have "read_u32 (xs @ be64 v @ ys) n = Some (ucast (drop_bit 32 v))"
    unfolding be64_split append_assoc by (rule read_u32_at [OF assms])
  moreover have "read_u32 (xs @ be64 v @ ys) (n + 4) = Some (ucast v)"
    unfolding be64_split using read_u32_at [of "xs @ be32 (ucast (drop_bit 32 v))" "n + 4"] assms by simp
  ultimately show ?thesis by (simp only: read_u64_def Option.bind.bind_lunit join_u64)
qed

text \<open>Every sequence of bytes of the right length is the image of one word.\<close>

lemma split_u16:
  fixes a b :: u8
  defines "v \<equiv> (push_bit 8 (ucast a) OR ucast b :: u16)"
  shows "ucast (drop_bit 8 v) = a" and "ucast v = b"
  by (rule bit_word_eqI; auto simp: v_def bit_simps dest: bit_imp_le_length)+

lemma split_u32:
  fixes a b c d :: u8
  defines "v \<equiv> (push_bit 24 (ucast a) OR push_bit 16 (ucast b) OR push_bit 8 (ucast c) OR ucast d :: u32)"
  shows "ucast (drop_bit 24 v) = a" and "ucast (drop_bit 16 v) = b"
    and "ucast (drop_bit 8 v) = c" and "ucast v = d"
  by (rule bit_word_eqI; auto simp: v_def bit_simps dest: bit_imp_le_length)+

lemma split_u64:
  fixes a b :: u32
  defines "v \<equiv> (push_bit 32 (ucast a) OR ucast b :: u64)"
  shows "ucast (drop_bit 32 v) = a" and "ucast v = b"
  by (rule bit_word_eqI; auto simp: v_def bit_simps dest: bit_imp_le_length)+

lemma be16_surj: "length xs = 2 \<Longrightarrow> \<exists>v. xs = be16 v"
proof -
  assume "length xs = 2"
  then obtain a b where "xs = [a, b]" by (auto simp: length_Suc_conv numeral_2_eq_2)
  then show ?thesis
    by (intro exI [of _ "push_bit 8 (ucast a) OR ucast b"])
       (simp only: append_u16_def append_u8_def split_u16 append.simps)
qed

lemma be32_surj: "length xs = 4 \<Longrightarrow> \<exists>v. xs = be32 v"
proof -
  assume "length xs = 4"
  then obtain a b c d where "xs = [a, b, c, d]" by (auto simp: length_Suc_conv numeral_eq_Suc)
  then show ?thesis
    by (intro exI [of _ "push_bit 24 (ucast a) OR push_bit 16 (ucast b) OR push_bit 8 (ucast c) OR ucast d"])
       (simp only: append_u32_def append_u8_def split_u32 append.simps)
qed

lemma be64_surj:
  assumes "length xs = 8"
  shows "\<exists>v. xs = be64 v"
proof -
  obtain a b where ab: "take 4 xs = be32 a" "drop 4 xs = be32 b"
    using be32_surj [of "take 4 xs"] be32_surj [of "drop 4 xs"] assms by auto
  have "xs = be32 a @ be32 b" using ab by (metis append_take_drop_id)
  then show ?thesis
    by (intro exI [of _ "push_bit 32 (ucast a) OR ucast b"]) (simp only: be64_split split_u64)
qed

section \<open>Request frames\<close>

definition request_header :: "u32 \<Rightarrow> u8 \<Rightarrow> u8 \<Rightarrow> u16 \<Rightarrow> u64 \<Rightarrow> u32 \<Rightarrow> u32 \<Rightarrow> u64 \<Rightarrow> bytes" where
  "request_header m ver oc reserved rid kw vw ttl =
     be32 m @ ver # oc # be16 reserved @ be64 rid @ be32 kw @ be32 vw @ be64 ttl"

lemma length_request_header [simp]:
  "length (request_header m ver oc reserved rid kw vw ttl) = request_header_size"
  by (simp add: request_header_def)

lemma request_header_reads:
  assumes d_def: "d = request_header m ver oc reserved rid kw vw ttl @ tail"
  shows "read_u32 d 0 = Some m" "read_u8 d 4 = Some ver" "read_u8 d 5 = Some oc"
    "read_u16 d 6 = Some reserved" "read_u64 d 8 = Some rid" "read_u32 d 16 = Some kw"
    "read_u32 d 20 = Some vw" "read_u64 d 24 = Some ttl"
proof -
  have d: "d = be32 m @ ver # oc # be16 reserved @ be64 rid @ be32 kw @ be32 vw @ be64 ttl @ tail"
    by (simp add: d_def request_header_def)
  show "read_u32 d 0 = Some m" unfolding d using read_u32_at [of "[]" 0] by simp
  show "read_u8 d 4 = Some ver" unfolding d by (rule read_u8_at) simp
  show "read_u8 d 5 = Some oc"
    unfolding d using read_u8_at [of "be32 m @ [ver]" 5] by simp
  show "read_u16 d 6 = Some reserved"
    unfolding d using read_u16_at [of "be32 m @ [ver, oc]" 6] by simp
  show "read_u64 d 8 = Some rid"
    unfolding d using read_u64_at [of "be32 m @ ver # oc # be16 reserved" 8] by simp
  show "read_u32 d 16 = Some kw"
    unfolding d using read_u32_at [of "be32 m @ ver # oc # be16 reserved @ be64 rid" 16] by simp
  show "read_u32 d 20 = Some vw"
    unfolding d using read_u32_at [of "be32 m @ ver # oc # be16 reserved @ be64 rid @ be32 kw" 20] by simp
  show "read_u64 d 24 = Some ttl"
    unfolding d
    using read_u64_at [of "be32 m @ ver # oc # be16 reserved @ be64 rid @ be32 kw @ be32 vw" 24] by simp
qed

lemma take_drop_split: "n \<le> length xs \<Longrightarrow> \<exists>ys zs. xs = ys @ zs \<and> length ys = n"
  by (intro exI [of _ "take n xs"] exI [of _ "drop n xs"]) simp

lemma request_header_exists:
  assumes "request_header_size \<le> length data"
  obtains m ver oc reserved rid kw vw ttl tail where
    "data = request_header m ver oc reserved rid kw vw ttl @ tail"
proof -
  from assms obtain a t1 where 1: "data = a @ t1" "length a = 4" using take_drop_split [of 4 data] by auto
  then obtain ver t2 where 2: "t1 = ver # t2" using assms by (cases t1) auto
  with 1 obtain oc t3 where 3: "t2 = oc # t3" using assms by (cases t2) auto
  obtain d t4 where 4: "t3 = d @ t4" "length d = 2" using take_drop_split [of 2 t3] 1 2 3 assms by auto
  obtain e t5 where 5: "t4 = e @ t5" "length e = 8" using take_drop_split [of 8 t4] 1 2 3 4 assms by auto
  obtain f t6 where 6: "t5 = f @ t6" "length f = 4" using take_drop_split [of 4 t5] 1 2 3 4 5 assms by auto
  obtain g t7 where 7: "t6 = g @ t7" "length g = 4" using take_drop_split [of 4 t6] 1 2 3 4 5 6 assms by auto
  obtain i tl where 8: "t7 = i @ tl" "length i = 8" using take_drop_split [of 8 t7] 1 2 3 4 5 6 7 assms by auto
  from be32_surj [OF 1(2)] be16_surj [OF 4(2)] be64_surj [OF 5(2)] be32_surj [OF 6(2)]
    be32_surj [OF 7(2)] be64_surj [OF 8(2)]
  obtain m reserved rid kw vw ttl where "a = be32 m" "d = be16 reserved" "e = be64 rid" "f = be32 kw"
    "g = be32 vw" "i = be64 ttl" by blast
  then have "data = request_header m ver oc reserved rid kw vw ttl @ tl"
    using 1 2 3 4 5 6 7 8 by (simp add: request_header_def)
  then show thesis by (rule that)
qed

definition encodable :: "request \<Rightarrow> bool" where
  "encodable r \<longleftrightarrow>
     is_valid_opcode (opcode r) \<and> length (req_key r) \<le> max_key_length \<and>
     length (req_value r) \<le> max_value_length \<and>
     (opcode r = opcode_set \<or> req_value r = [] \<and> ttl_ms r = 0) \<and> ttl_ms r \<le> int64_max"

lemma encode_request_accepts:
  "encodable r \<Longrightarrow> encode_request r h =
     (case container_alloc h of (Inl x, h') \<Rightarrow> (Inl x, h') | (Inr _, h') \<Rightarrow> (Inr (request_frame r), h'))"
  by (auto simp: encodable_def encode_request_def is_valid_opcode_def not_le)

lemma encode_request_ok:
  assumes "encode_request r h = (Inr f, h')"
  shows "f = request_frame r" and "encodable r"
proof -
  show "f = request_frame r"
    using assms by (auto simp: encode_request_def split: if_splits prod.splits sum.splits)
  show "encodable r"
    using assms by (auto simp: encode_request_def encodable_def is_valid_opcode_def not_less
        split: if_splits)
qed

lemma request_frame_header:
  "request_frame r = request_header magic version (opcode r) 0 (request_id r)
     (of_nat (length (req_key r))) (of_nat (length (req_value r))) (ttl_ms r) @ req_key r @ req_value r"
  unfolding request_frame_def request_header_def append_u8_def append_u16_def append_u32_def append_u64_def
  by (simp only: append.simps append_assoc)

lemma complaint_none:
  "request_complaint m ver reserved oc kl vl ttl = None \<longleftrightarrow>
     m = magic \<and> ver = version \<and> reserved = 0 \<and> is_valid_opcode oc \<and> kl \<le> max_key_length \<and>
     vl \<le> max_value_length \<and> (oc = opcode_set \<or> vl = 0 \<and> ttl = 0) \<and> ttl \<le> int64_max"
proof -
  have "(oc < opcode_get \<or> oc > opcode_erase) = (\<not> is_valid_opcode oc)"
    unfolding is_valid_opcode_def word_less_nat_alt word_unat_eq_iff by auto
  moreover have "is_valid_opcode oc \<Longrightarrow> (oc = opcode_get \<or> oc = opcode_erase) = (oc \<noteq> opcode_set)"
    by (auto simp: is_valid_opcode_def)
  ultimately show ?thesis by (auto simp: request_complaint_def not_less)
qed

section \<open>The request decoder\<close>

lemma decode_request_short:
  "readable_bytes b < request_header_size \<Longrightarrow>
     decode_request b req err h = Some (Inr Decode_incomplete, b, req, err, h)"
  by (simp add: decode_request_def)

lemma decode_request_rejects:
  assumes "buffer_inv b" and d: "readable_view b = request_header m ver oc reserved rid kw vw ttl @ tail"
    and "request_complaint m ver reserved oc (unat kw) (unat vw) ttl = Some message"
  shows "decode_request b req err h =
     (case fail err rid message h of (r, err', h') \<Rightarrow> Some (r, b, req, err', h'))"
proof -
  have "\<not> readable_bytes b < request_header_size"
    using arg_cong [OF d, of length] length_readable_view [OF assms(1)] by simp
  then show ?thesis
    using assms(3)
    by (simp add: decode_request_def request_header_reads [OF d] Let_def split: prod.splits)
qed

lemma decode_request_accepts:
  assumes inv: "buffer_inv b" and d: "readable_view b = request_header m ver oc reserved rid kw vw ttl @ tail"
    and ok: "request_complaint m ver reserved oc (unat kw) (unat vw) ttl = None"
  defines "key \<equiv> take (unat kw) tail" and "val \<equiv> take (unat vw) (drop (unat kw) tail)"
  shows "decode_request b req err h =
     (if length tail < unat kw + unat vw then Some (Inr Decode_incomplete, b, req, err, h)
      else case string_assign key h of
        (Inl x, h1) \<Rightarrow> Some (Inl x, b, req\<lparr>opcode := oc, request_id := rid\<rparr>, err, h1)
      | (Inr _, h1) \<Rightarrow>
          (case string_assign val h1 of
             (Inl x, h2) \<Rightarrow> Some (Inl x, b, req\<lparr>opcode := oc, request_id := rid, req_key := key\<rparr>, err, h2)
           | (Inr _, h2) \<Rightarrow>
               (case retrieve (request_header_size + unat kw + unat vw) b of
                  None \<Rightarrow> None
                | Some b' \<Rightarrow> Some (Inr Decode_complete, b',
                    \<lparr>opcode = oc, request_id = rid, req_key = key, req_value = val, ttl_ms = ttl\<rparr>,
                    no_error, h2))))"
proof -
  have len: "readable_bytes b = request_header_size + length tail"
    using arg_cong [OF d, of length] length_readable_view [OF inv] by simp
  have "decode_request b req err h =
      (if readable_bytes b < request_header_size + unat kw + unat vw
       then Some (Inr Decode_incomplete, b, req, err, h)
       else case string_assign key h of
        (Inl x, h1) \<Rightarrow> Some (Inl x, b, req\<lparr>opcode := oc, request_id := rid\<rparr>, err, h1)
      | (Inr _, h1) \<Rightarrow>
          (case string_assign val h1 of
             (Inl x, h2) \<Rightarrow> Some (Inl x, b, req\<lparr>opcode := oc, request_id := rid, req_key := key\<rparr>, err, h2)
           | (Inr _, h2) \<Rightarrow>
               (case retrieve (request_header_size + unat kw + unat vw) b of
                  None \<Rightarrow> None
                | Some b' \<Rightarrow> Some (Inr Decode_complete, b',
                    \<lparr>opcode = oc, request_id = rid, req_key = key, req_value = val, ttl_ms = ttl\<rparr>,
                    no_error, h2))))"
    using ok len
    by (cases req)
       (simp add: decode_request_def request_header_reads [OF refl] Let_def d key_def val_def
        cong: option.case_cong sum.case_cong prod.case_cong)
  then show ?thesis using len by simp
qed

lemma string_assign_cases:
  "string_assign bs h = (r, h') \<Longrightarrow> r = Inl Bad_alloc \<or> r = Inr ()"
  "oom h = [] \<Longrightarrow> string_assign bs h = (Inr (), h)"
  using container_alloc_fields(4) by (auto simp: string_assign_def split: if_splits)

text \<open>
  What one call of the decoder can do. A complete request is exactly the frame at the
  front of the input, and consumes it; everything else leaves the input alone.
\<close>

definition decode_promise :: "buffer \<Rightarrow> exn + decode_result \<Rightarrow> buffer \<Rightarrow> request \<Rightarrow> protocol_error \<Rightarrow> bool" where
  "decode_promise b r b' req' err' \<longleftrightarrow> buffer_inv b' \<and>
     (case r of
        Inl x \<Rightarrow> x = Bad_alloc \<and> b' = b
      | Inr Decode_incomplete \<Rightarrow> b' = b \<and> readable_bytes b < max_request_frame_size
      | Inr Decode_error \<Rightarrow> b' = b \<and> has_request_id err' \<and> length (error_message err') \<le> max_key_length
      | Inr Decode_complete \<Rightarrow> encodable req' \<and>
          readable_view b = request_frame req' @ readable_view b')"

lemma complaint_short: "request_complaint m ver reserved oc kl vl ttl = Some msg \<Longrightarrow> length msg \<le> 250"
  by (auto simp: request_complaint_def split: if_splits)

lemma decode_request_ok:
  assumes inv: "buffer_inv b"
  shows "\<exists>r b' req' err' h'. decode_request b req err h = Some (r, b', req', err', h') \<and>
           decode_promise b r b' req' err'"
proof (cases "readable_bytes b < request_header_size")
  case True
  then show ?thesis using inv by (simp add: decode_request_short decode_promise_def)
next
  case False
  then have "request_header_size \<le> length (readable_view b)" using length_readable_view [OF inv] by simp
  then obtain m ver oc reserved rid kw vw ttl tail where
    d: "readable_view b = request_header m ver oc reserved rid kw vw ttl @ tail"
    by (rule request_header_exists)
  have len: "readable_bytes b = request_header_size + length tail"
    using arg_cong [OF d, of length] length_readable_view [OF inv] by simp
  show ?thesis
  proof (cases "request_complaint m ver reserved oc (unat kw) (unat vw) ttl")
    case (Some msg)
    show ?thesis
      using complaint_short [OF Some] container_alloc_fields(4) [of h]
      unfolding decode_request_rejects [OF inv d Some]
      by (auto simp: fail_def decode_promise_def inv split: prod.splits sum.splits)
  next
    case None
    note cond = None [unfolded complaint_none]
    let ?key = "take (unat kw) tail" and ?val = "take (unat vw) (drop (unat kw) tail)"
    let ?req = "\<lparr>opcode = oc, request_id = rid, req_key = ?key, req_value = ?val, ttl_ms = ttl\<rparr>"
    show ?thesis
    proof (cases "length tail < unat kw + unat vw")
      case True
      then show ?thesis
        using decode_request_accepts [OF inv d None] len cond inv by (auto simp: decode_promise_def)
    next
      case False
      then have lens: "length ?key = unat kw" "length ?val = unat vw" by auto
      have frame: "request_frame ?req = request_header m ver oc reserved rid kw vw ttl @ ?key @ ?val"
        using cond lens by (simp add: request_frame_header)
      have "request_header_size + unat kw + unat vw \<le> length (readable_view b)"
        using False d by simp
      from bytes_in.retrieve_ok [OF inv this] obtain b' where
        b': "retrieve (request_header_size + unat kw + unat vw) b = Some b'" "buffer_inv b'"
          "readable_view b' = drop (request_header_size + unat kw + unat vw) (readable_view b)" by blast
      have view: "readable_view b = request_frame ?req @ readable_view b'"
      proof -
        have "tail = ?key @ ?val @ drop (unat kw + unat vw) tail"
          by (metis append_take_drop_id drop_drop add.commute)
        then show ?thesis unfolding frame b'(3) d by (simp add: add.assoc)
      qed
      have enc: "encodable ?req" using cond lens by (auto simp: encodable_def)
      obtain q1 h1 where a1: "string_assign ?key h = (q1, h1)" by fastforce
      obtain q2 h2 where a2: "string_assign ?val h1 = (q2, h2)" by fastforce
      show ?thesis
        using decode_request_accepts [OF inv d None, of req err h] False a1 a2 b' view enc inv
          string_assign_cases(1) [OF a1] string_assign_cases(1) [OF a2]
        by (auto simp: decode_promise_def)
    qed
  qed
qed

text \<open>Requests survive the wire, whatever follows them in the input.\<close>

lemma request_frame_exact:
  assumes inv: "buffer_inv b" and view: "readable_view b = request_frame r @ rest" and enc: "encodable r"
  shows "\<exists>q b' req' err' h'. decode_request b req err h = Some (q, b', req', err', h') \<and>
           (case q of
              Inl x \<Rightarrow> x = Bad_alloc \<and> b' = b
            | Inr d \<Rightarrow> d = Decode_complete \<and> req' = r \<and> err' = no_error \<and>
                buffer_inv b' \<and> readable_view b' = rest)"
    and "oom h = [] \<Longrightarrow> \<exists>b'. decode_request b req err h = Some (Inr Decode_complete, b', r, no_error, h) \<and>
           buffer_inv b' \<and> readable_view b' = rest \<and> storage_capacity b' = storage_capacity b"
proof -
  let ?kw = "of_nat (length (req_key r)) :: u32" and ?vw = "of_nat (length (req_value r)) :: u32"
  have d: "readable_view b = request_header magic version (opcode r) 0 (request_id r) ?kw ?vw (ttl_ms r)
      @ (req_key r @ req_value r @ rest)"
    using view by (simp add: request_frame_header)
  have lens: "unat ?kw = length (req_key r)" "unat ?vw = length (req_value r)"
    using enc by (simp_all add: encodable_def unat_of_nat take_bit_nat_eq_self)
  have ok: "request_complaint magic version 0 (opcode r) (unat ?kw) (unat ?vw) (ttl_ms r) = None"
    using enc unfolding lens complaint_none by (auto simp: encodable_def)
  have "request_header_size + unat ?kw + unat ?vw \<le> length (readable_view b)" using d lens by simp
  from bytes_in.retrieve_ok [OF inv this] obtain b' where
    b': "retrieve (request_header_size + unat ?kw + unat ?vw) b = Some b'" "buffer_inv b'"
      "readable_view b' = rest" using d lens by (auto simp: add.assoc)
  obtain q1 h1 where a1: "string_assign (req_key r) h = (q1, h1)" by fastforce
  obtain q2 h2 where a2: "string_assign (req_value r) h1 = (q2, h2)" by fastforce
  note run = decode_request_accepts [OF inv d ok, of req err h]
  show "\<exists>q b' req' err' h'. decode_request b req err h = Some (q, b', req', err', h') \<and>
           (case q of
              Inl x \<Rightarrow> x = Bad_alloc \<and> b' = b
            | Inr d \<Rightarrow> d = Decode_complete \<and> req' = r \<and> err' = no_error \<and>
                buffer_inv b' \<and> readable_view b' = rest)"
    using run a1 a2 b' lens string_assign_cases(1) [OF a1] string_assign_cases(1) [OF a2]
    by (auto simp: lens)
  show "\<exists>b'. decode_request b req err h = Some (Inr Decode_complete, b', r, no_error, h) \<and>
           buffer_inv b' \<and> readable_view b' = rest \<and> storage_capacity b' = storage_capacity b" if "oom h = []"
    using run b' lens string_assign_cases(2) [OF that] retrieve_capacity [OF b'(1)] by simp
qed

text \<open>A frame that has not arrived completely is never mistaken for anything else.\<close>

lemma request_prefix_incomplete:
  assumes inv: "buffer_inv b" and view: "readable_view b = take n (request_frame r)"
    and enc: "encodable r" and n: "n < length (request_frame r)"
  shows "decode_request b req err h = Some (Inr Decode_incomplete, b, req, err, h)"
proof (cases "n < request_header_size")
  case True
  then show ?thesis
    using view n length_readable_view [OF inv] by (simp add: decode_request_short)
next
  case False
  let ?kw = "of_nat (length (req_key r)) :: u32" and ?vw = "of_nat (length (req_value r)) :: u32"
  let ?tail = "take (n - request_header_size) (req_key r @ req_value r)"
  have d: "readable_view b = request_header magic version (opcode r) 0 (request_id r) ?kw ?vw (ttl_ms r) @ ?tail"
    using view False unfolding request_frame_header by simp
  have lens: "unat ?kw = length (req_key r)" "unat ?vw = length (req_value r)"
    using enc by (simp_all add: encodable_def unat_of_nat take_bit_nat_eq_self)
  have ok: "request_complaint magic version 0 (opcode r) (unat ?kw) (unat ?vw) (ttl_ms r) = None"
    using enc unfolding lens complaint_none by (auto simp: encodable_def)
  have "length ?tail < unat ?kw + unat ?vw" using n False lens by (simp add: request_frame_header)
  then show ?thesis using decode_request_accepts [OF inv d ok, of req err h] by simp
qed

section \<open>Response frames\<close>

definition response_header :: "u32 \<Rightarrow> u8 \<Rightarrow> u8 \<Rightarrow> u16 \<Rightarrow> u64 \<Rightarrow> u32 \<Rightarrow> bytes" where
  "response_header m ver st reserved rid vw =
     be32 m @ ver # st # be16 reserved @ be64 rid @ be32 vw"

lemma length_response_header [simp]:
  "length (response_header m ver st reserved rid vw) = response_header_size"
  by (simp add: response_header_def)

lemma response_header_reads:
  assumes d_def: "d = response_header m ver st reserved rid vw @ tail"
  shows "read_u32 d 0 = Some m" "read_u8 d 4 = Some ver" "read_u8 d 5 = Some st"
    "read_u16 d 6 = Some reserved" "read_u64 d 8 = Some rid" "read_u32 d 16 = Some vw"
proof -
  have d: "d = be32 m @ ver # st # be16 reserved @ be64 rid @ be32 vw @ tail"
    by (simp add: d_def response_header_def)
  show "read_u32 d 0 = Some m" unfolding d using read_u32_at [of "[]" 0] by simp
  show "read_u8 d 4 = Some ver" unfolding d by (rule read_u8_at) simp
  show "read_u8 d 5 = Some st" unfolding d using read_u8_at [of "be32 m @ [ver]" 5] by simp
  show "read_u16 d 6 = Some reserved"
    unfolding d using read_u16_at [of "be32 m @ [ver, st]" 6] by simp
  show "read_u64 d 8 = Some rid"
    unfolding d using read_u64_at [of "be32 m @ ver # st # be16 reserved" 8] by simp
  show "read_u32 d 16 = Some vw"
    unfolding d using read_u32_at [of "be32 m @ ver # st # be16 reserved @ be64 rid" 16] by simp
qed

definition response_encodable :: "response \<Rightarrow> bool" where
  "response_encodable r \<longleftrightarrow> is_valid_status (status r) \<and> length (resp_value r) \<le> max_value_length"

lemma encode_response_accepts:
  "response_encodable r \<Longrightarrow> encode_response r h =
     (case container_alloc h of (Inl x, h') \<Rightarrow> (Inl x, h') | (Inr _, h') \<Rightarrow> (Inr (response_frame r), h'))"
  by (auto simp: response_encodable_def encode_response_def)

lemma encode_response_ok:
  "encode_response r h = (Inr f, h') \<Longrightarrow> f = response_frame r \<and> response_encodable r"
  by (auto simp: encode_response_def response_encodable_def split: if_splits prod.splits sum.splits)

lemma response_frame_header:
  "response_frame r = response_header magic version (status r) 0 (response_id r)
     (of_nat (length (resp_value r))) @ resp_value r"
  unfolding response_frame_def response_header_def append_u8_def append_u16_def append_u32_def append_u64_def
  by (simp only: append.simps append_assoc)

lemma decode_response_on_frame:
  assumes inv: "buffer_inv b" and vlen: "unat vw \<le> max_value_length" and st: "is_valid_status st"
    and d: "readable_view b = response_header magic version st 0 rid vw @ tail"
  shows "decode_response b resp err h =
     (if length tail < unat vw then Some (Inr Decode_incomplete, b, resp, err, h)
      else case string_assign (take (unat vw) tail) h of
        (Inl x, h1) \<Rightarrow> Some (Inl x, b, resp\<lparr>response_id := rid, status := st\<rparr>, err, h1)
      | (Inr _, h1) \<Rightarrow>
          (case retrieve (response_header_size + unat vw) b of
             None \<Rightarrow> None
           | Some b' \<Rightarrow> Some (Inr Decode_complete, b',
               \<lparr>response_id = rid, status = st, resp_value = take (unat vw) tail\<rparr>, no_error, h1)))"
proof -
  have len: "readable_bytes b = response_header_size + length tail"
    using arg_cong [OF d, of length] length_readable_view [OF inv] by simp
  show ?thesis
    using len vlen st
    by (cases resp)
       (simp add: decode_response_def response_header_reads [OF refl] response_complaint_def Let_def d
        cong: option.case_cong sum.case_cong prod.case_cong)
qed

text \<open>Responses survive the wire, and incomplete ones wait for the rest.\<close>

lemma response_frame_exact:
  assumes inv: "buffer_inv b" and view: "readable_view b = response_frame r @ rest"
    and enc: "response_encodable r" and "oom h = []"
  shows "\<exists>b'. decode_response b resp err h = Some (Inr Decode_complete, b', r, no_error, h) \<and>
           buffer_inv b' \<and> readable_view b' = rest \<and> storage_capacity b' = storage_capacity b"
proof -
  let ?vw = "of_nat (length (resp_value r)) :: u32"
  have d: "readable_view b = response_header magic version (status r) 0 (response_id r) ?vw
      @ (resp_value r @ rest)"
    using view by (simp add: response_frame_header)
  have len: "unat ?vw = length (resp_value r)"
    using enc by (simp add: response_encodable_def unat_of_nat take_bit_nat_eq_self)
  have "response_header_size + unat ?vw \<le> length (readable_view b)" using d len by simp
  from bytes_in.retrieve_ok [OF inv this] obtain b' where
    b': "retrieve (response_header_size + unat ?vw) b = Some b'" "buffer_inv b'"
      "readable_view b' = rest" using d len by (auto simp: add.assoc)
  have "unat ?vw \<le> max_value_length" "is_valid_status (status r)"
    using enc unfolding len by (auto simp: response_encodable_def)
  from decode_response_on_frame [OF inv this d, of resp err h] show ?thesis
    using b' len string_assign_cases(2) [OF assms(4)] retrieve_capacity [OF b'(1)] by simp
qed

lemma response_prefix_incomplete:
  assumes inv: "buffer_inv b" and view: "readable_view b = take n (response_frame r)"
    and enc: "response_encodable r" and n: "n < length (response_frame r)"
  shows "decode_response b resp err h = Some (Inr Decode_incomplete, b, resp, err, h)"
proof (cases "n < response_header_size")
  case True
  then show ?thesis
    using view n length_readable_view [OF inv] by (simp add: decode_response_def)
next
  case False
  let ?vw = "of_nat (length (resp_value r)) :: u32"
  let ?tail = "take (n - response_header_size) (resp_value r)"
  have d: "readable_view b = response_header magic version (status r) 0 (response_id r) ?vw @ ?tail"
    using view False unfolding response_frame_header by simp
  have len: "unat ?vw = length (resp_value r)"
    using enc by (simp add: response_encodable_def unat_of_nat take_bit_nat_eq_self)
  have "unat ?vw \<le> max_value_length" "is_valid_status (status r)"
    using enc unfolding len by (auto simp: response_encodable_def)
  moreover have "length ?tail < unat ?vw" using n False len by (simp add: response_frame_header)
  ultimately show ?thesis using decode_response_on_frame [OF inv _ _ d, of resp err h] by simp
qed

lemma length_response_frame: "length (response_frame r) = response_header_size + length (resp_value r)"
  by (simp add: response_frame_header)

lemma length_request_frame:
  "length (request_frame r) = request_header_size + length (req_key r) + length (req_value r)"
  by (simp add: request_frame_header)

lemma to_wire_status_valid: "is_valid_status (to_wire_status st)"
  by (cases st) (simp_all add: to_wire_status_def is_valid_status_def)

lemma to_wire_status_inj: "to_wire_status a = to_wire_status b \<Longrightarrow> a = b"
  by (cases a; cases b; simp add: to_wire_status_def)

lemma wire_status_names: "to_string_wire_status (to_wire_status st) = to_string_cache_status st"
  by (cases st) (simp_all add: to_wire_status_def to_string_wire_status_def to_string_cache_status_def)

end
