(* ===== verification/Frame_Decoder.thy ===== *)
theory Frame_Decoder
  imports Protocol_Codec
begin

text \<open>
  What those who read from a socket rely on in the decoders of \<^verbatim>\<open>src/protocol/protocol_codec.cpp\<close>, as a
  locale: a decoder recognises a complete frame at the front of the input, waits for the rest
  of an incomplete one, and never loses or invents bytes. The server reads requests this way,
  the client and the load generator read responses. From these laws it follows that a stream
  of frames can be cut up in one way only.
\<close>

section \<open>The contract of a decoder\<close>

locale frame_decoder =
  fixes decode :: "buffer \<Rightarrow> 'm \<Rightarrow> protocol_error \<Rightarrow> heap \<Rightarrow> 'm decoding"
    and frame :: "'m \<Rightarrow> bytes"
    and valid :: "'m \<Rightarrow> bool"
    and limit :: nat
  assumes decode_total:
      "buffer_inv b \<Longrightarrow> \<exists>r b' m' err' h'. decode b m err h = Some (r, b', m', err', h') \<and> buffer_inv b' \<and>
         (case r of
            Inl x \<Rightarrow> x = Bad_alloc \<and> b' = b
          | Inr Decode_incomplete \<Rightarrow> b' = b \<and> readable_bytes b < limit
          | Inr Decode_error \<Rightarrow> b' = b
          | Inr Decode_complete \<Rightarrow> valid m' \<and> readable_view b = frame m' @ readable_view b')"
    and decode_memory:
      "buffer_inv b \<Longrightarrow> decode b m err h = Some (r, b', m', err', h') \<Longrightarrow>
         storage_capacity b' = storage_capacity b \<and> (oom h = [] \<longrightarrow> h' = h \<and> (\<forall>x. r \<noteq> Inl x))"
    and decode_whole:
      "buffer_inv b \<Longrightarrow> readable_view b = frame m' @ rest \<Longrightarrow> valid m' \<Longrightarrow> oom h = [] \<Longrightarrow>
         \<exists>b'. decode b m err h = Some (Inr Decode_complete, b', m', no_error, h) \<and>
           buffer_inv b' \<and> readable_view b' = rest"
    and decode_part:
      "buffer_inv b \<Longrightarrow> readable_view b = take n (frame m') \<Longrightarrow> valid m' \<Longrightarrow> n < length (frame m') \<Longrightarrow>
         decode b m err h = Some (Inr Decode_incomplete, b, m, err, h)"
    and frame_size: "valid m \<Longrightarrow> frame m \<noteq> [] \<and> length (frame m) \<le> limit"
    and limit_size: "limit \<le> vector_max_size"
    and some_valid: "\<exists>m. valid m"
begin

abbreviation stream :: "'m list \<Rightarrow> bytes" where
  "stream ms \<equiv> concat (map frame ms)"

text \<open>The beginning of a frame that has not arrived completely.\<close>

definition partial :: "bytes \<Rightarrow> bool" where
  "partial part \<longleftrightarrow> (\<exists>m n. valid m \<and> n < length (frame m) \<and> part = take n (frame m))"

lemma partial_nil: "partial []"
  using some_valid frame_size by (fastforce simp: partial_def)

lemma partial_short: "partial part \<Longrightarrow> length part < limit"
  using frame_size by (fastforce simp: partial_def)

text \<open>A frame determines its message, and no frame is the beginning of another one.\<close>

lemma frame_prefix_unique:
  assumes "frame m @ xs = frame n" and "valid m" and "valid n"
  shows "m = n" and "xs = []"
proof -
  let ?b = "\<lparr>storage = frame n, storage_capacity = length (frame n), reader_index = 0\<rparr>"
  have b: "buffer_inv ?b" using frame_size [OF assms(3)] limit_size by (simp add: buffer_inv_def)
  have view: "readable_view ?b = frame n"
    using frame_size [OF assms(3)] by (simp add: readable_view_def buffer_empty_def readable_bytes_def)
  obtain b1 where "decode ?b m no_error (empty_heap []) = Some (Inr Decode_complete, b1, m, no_error, empty_heap [])"
    using decode_whole [OF b _ assms(2), of xs "empty_heap []" m no_error] view assms(1) by auto
  moreover obtain b2 where "decode ?b m no_error (empty_heap []) = Some (Inr Decode_complete, b2, n, no_error, empty_heap [])"
    using decode_whole [OF b _ assms(3), of "[]" "empty_heap []" m no_error] view by auto
  ultimately show "m = n" by simp
  with assms(1) show "xs = []" by simp
qed

lemma frame_unique:
  assumes "frame m @ xs = frame n @ ys" and "valid m" and "valid n"
  shows "m = n" and "xs = ys"
proof -
  from assms(1) consider us where "frame m @ us = frame n" | us where "frame n @ us = frame m"
    by (auto simp: append_eq_append_conv2)
  then show "m = n"
  proof cases
    case 1
    then show ?thesis using frame_prefix_unique(1) assms(2,3) by blast
  next
    case 2
    then show ?thesis using frame_prefix_unique(1) assms(2,3) by blast
  qed
  with assms(1) show "xs = ys" by simp
qed

lemma partial_not_whole:
  assumes "partial (frame m @ xs)" and "valid m"
  shows False
proof -
  obtain n k where n: "valid n" "k < length (frame n)" "frame m @ xs = take k (frame n)"
    using assms(1) by (auto simp: partial_def)
  then have "frame m @ (xs @ drop k (frame n)) = frame n @ []"
    by (metis append.assoc append_Nil2 append_take_drop_id)
  from frame_unique(1,2) [OF this assms(2) n(1)] n show False by simp
qed

lemma partial_stream: "partial (stream ms) \<Longrightarrow> \<forall>m \<in> set ms. valid m \<Longrightarrow> ms = []"
  using partial_not_whole by (cases ms) auto

text \<open>A prefix of a stream is a number of whole frames and the beginning of the next one.\<close>

lemma stream_prefix:
  assumes "\<forall>m \<in> set ms. valid m" and "xs @ ys = stream ms"
  shows "\<exists>front later part. ms = front @ later \<and> xs = stream front @ part \<and> part @ ys = stream later \<and> partial part"
  using assms
proof (induction ms arbitrary: xs)
  case Nil
  then show ?case using partial_nil by simp
next
  case (Cons m ms)
  show ?case
  proof (cases "length xs < length (frame m)")
    case True
    have "xs = take (length xs) (frame m @ stream ms)" using Cons.prems(2) by (metis append_eq_conv_conj concat.simps(2) list.simps(9))
    then have "xs = take (length xs) (frame m)" using True by simp
    then have "partial xs" using True Cons.prems(1) by (auto simp: partial_def)
    then show ?thesis using Cons.prems(2) by (intro exI [of _ "[]"] exI [of _ "m # ms"] exI [of _ xs]) simp
  next
    case False
    have "take (length (frame m)) (xs @ ys) = frame m" using Cons.prems(2) by simp
    then have xs: "xs = frame m @ drop (length (frame m)) xs" (is "_ = _ @ ?zs")
      using False by (metis append_take_drop_id diff_is_0_eq not_less take0 take_append append_Nil2)
    then have zs: "?zs @ ys = stream ms" using Cons.prems(2) by (metis append.assoc concat.simps(2) list.simps(9) same_append_eq)
    from Cons.IH [OF _ zs] Cons.prems(1) obtain front later part where
      "ms = front @ later" "?zs = stream front @ part" "part @ ys = stream later" "partial part" by auto
    then show ?thesis
      by (intro exI [of _ "m # front"] exI [of _ later] exI [of _ part]) (use xs in simp)
  qed
qed

text \<open>Two ways to cut the same bytes: one is the beginning of the other.\<close>

lemma stream_unique:
  assumes "stream ms @ xs = stream ns @ ys" and "\<forall>m \<in> set ms. valid m" and "\<forall>n \<in> set ns. valid n" and "partial xs"
  shows "\<exists>more. ms = ns @ more"
  using assms
proof (induction ns arbitrary: ms)
  case (Cons n ns)
  show ?case
  proof (cases ms)
    case Nil
    then have "partial (frame n @ stream ns @ ys)" using Cons.prems(1,4) by simp
    then show ?thesis using partial_not_whole [of n] Cons.prems(3) by auto
  next
    case (Cons m ms')
    with Cons.prems(1) have "frame m @ (stream ms' @ xs) = frame n @ (stream ns @ ys)" by simp
    from frame_unique [OF this] Cons.prems(2,3) Cons have "m = n" "stream ms' @ xs = stream ns @ ys" by auto
    with Cons.IH [of ms'] Cons.prems(2-4) Cons show ?thesis by auto
  qed
qed simp

end

section \<open>Requests\<close>

lemma string_assign_memory: "string_assign bs h = (r, h') \<Longrightarrow> oom h = [] \<Longrightarrow> r = Inr () \<and> h' = h"
  using string_assign_cases(2) by fastforce

lemma fail_memory: "fail err rid msg h = (r, err', h') \<Longrightarrow> oom h = [] \<Longrightarrow> r = Inr Decode_error \<and> h' = h"
  using container_alloc_nil [of h] by (auto simp: fail_def)

lemma decode_request_memory:
  assumes inv: "buffer_inv b" and run: "decode_request b m err h = Some (r, b', m', err', h')"
  shows "storage_capacity b' = storage_capacity b \<and> (oom h = [] \<longrightarrow> h' = h \<and> (\<forall>x. r \<noteq> Inl x))"
proof (cases "readable_bytes b < request_header_size")
  case True
  then show ?thesis using run by (auto simp: decode_request_short)
next
  case False
  then have "request_header_size \<le> length (readable_view b)" using length_readable_view [OF inv] by simp
  then obtain mg ver oc reserved rid kw vw ttl tail where
    d: "readable_view b = request_header mg ver oc reserved rid kw vw ttl @ tail" by (rule request_header_exists)
  show ?thesis
  proof (cases "request_complaint mg ver reserved oc (unat kw) (unat vw) ttl")
    case (Some msg)
    then show ?thesis
      using run fail_memory unfolding decode_request_rejects [OF inv d Some] by (fastforce split: prod.splits)
  next
    case None
    then show ?thesis
      using run unfolding decode_request_accepts [OF inv d None]
      by (auto split: if_splits prod.splits sum.splits option.splits dest: retrieve_capacity string_assign_memory)
  qed
qed

interpretation requests: frame_decoder decode_request request_frame encodable max_request_frame_size
proof (unfold_locales, goal_cases)
  case (1 b m err h)
  from decode_request_ok [OF 1, of m err h] show ?case
    by (elim exE conjE) (auto simp: decode_promise_def split: sum.splits decode_result.splits)
next
  case (2 b m err h r b' m' err' h')
  then show ?case by (rule decode_request_memory)
next
  case (3 b m' rest h m err)
  then show ?case using request_frame_exact(2) by blast
next
  case (4 b n m' m err h)
  then show ?case by (rule request_prefix_incomplete)
next
  case (5 m)
  have "length (request_frame m) \<noteq> 0" by (simp add: length_request_frame)
  then have "request_frame m \<noteq> []" by fastforce
  with 5 show ?case by (simp add: length_request_frame encodable_def)
next
  case 6
  show ?case by (simp add: vector_max_size_def)
next
  case 7
  show ?case by (rule exI [of _ new_request]) (simp add: encodable_def new_request_def is_valid_opcode_def)
qed

subsection \<open>What the decoder makes of any input\<close>

lemma request_header_inject:
  assumes "request_header m ver oc reserved rid kw vw ttl @ tail =
     request_header m' ver' oc' reserved' rid' kw' vw' ttl' @ tail'"
  shows "m = m' \<and> ver = ver' \<and> oc = oc' \<and> reserved = reserved' \<and> rid = rid' \<and> kw = kw' \<and> vw = vw' \<and> ttl = ttl'"
  using request_header_reads [OF refl, of m ver oc reserved rid kw vw ttl tail]
  unfolding assms request_header_reads [OF refl] by simp

text \<open>A header the decoder complains about is the beginning of no request, whatever follows.\<close>

lemma complaint_no_request:
  assumes "request_complaint m ver reserved oc (unat kw) (unat vw) ttl = Some msg" and "encodable r"
  shows "(request_header m ver oc reserved rid kw vw ttl @ tail) @ follow \<noteq> request_frame r @ rest"
proof
  assume eq: "(request_header m ver oc reserved rid kw vw ttl @ tail) @ follow = request_frame r @ rest"
  let ?kw = "of_nat (length (req_key r)) :: u32" and ?vw = "of_nat (length (req_value r)) :: u32"
  from eq have "request_header m ver oc reserved rid kw vw ttl @ (tail @ follow) =
      request_header magic version (opcode r) 0 (request_id r) ?kw ?vw (ttl_ms r) @ (req_key r @ req_value r @ rest)"
    by (simp add: request_frame_header)
  note same = request_header_inject [OF this]
  have "unat ?kw = length (req_key r)" "unat ?vw = length (req_value r)"
    using assms(2) by (simp_all add: encodable_def unat_of_nat take_bit_nat_eq_self)
  then have "request_complaint m ver reserved oc (unat kw) (unat vw) ttl = None"
    using same assms(2) unfolding complaint_none by (auto simp: encodable_def)
  with assms(1) show False by simp
qed

text \<open>A header without complaint is the beginning of a request, and so is what has followed it.\<close>

lemma accepted_header_completes:
  assumes "request_complaint m ver reserved oc (unat kw) (unat vw) ttl = None"
    and "length tail < unat kw + unat vw"
  shows "\<exists>r follow. encodable r \<and> (request_header m ver oc reserved rid kw vw ttl @ tail) @ follow = request_frame r"
proof -
  note cond = assms(1) [unfolded complaint_none]
  let ?follow = "replicate (unat kw + unat vw - length tail) (0 :: u8)"
  let ?r = "\<lparr>opcode = oc, request_id = rid, req_key = take (unat kw) (tail @ ?follow),
    req_value = drop (unat kw) (tail @ ?follow), ttl_ms = ttl\<rparr>"
  have len: "length (tail @ ?follow) = unat kw + unat vw" using assms(2) by simp
  then have lens: "length (req_key ?r) = unat kw" "length (req_value ?r) = unat vw"
    by (simp_all del: length_append take_append drop_append)
  then have "encodable ?r" using cond by (auto simp: encodable_def simp del: take_append drop_append)
  moreover have "request_frame ?r = request_header m ver oc reserved rid kw vw ttl @ tail @ ?follow"
    using cond lens by (simp add: request_frame_header del: take_append drop_append)
  ultimately show ?thesis by (intro exI [of _ ?r] exI [of _ ?follow]) simp
qed

lemma decode_request_error:
  assumes inv: "buffer_inv b" and run: "decode_request b req err h = Some (Inr Decode_error, b', req', err', h')"
  shows "request_header_size \<le> length (readable_view b) \<and>
     (\<forall>r follow rest. encodable r \<longrightarrow> readable_view b @ follow \<noteq> request_frame r @ rest) \<and>
     read_u64 (readable_view b) 8 = Some (error_request_id err')"
proof -
  have size: "request_header_size \<le> length (readable_view b)"
    using run length_readable_view [OF inv] by (cases "readable_bytes b < request_header_size") (auto simp: decode_request_short)
  then obtain m ver oc reserved rid kw vw ttl tail where
    d: "readable_view b = request_header m ver oc reserved rid kw vw ttl @ tail" by (rule request_header_exists)
  show ?thesis
  proof (cases "request_complaint m ver reserved oc (unat kw) (unat vw) ttl")
    case None
    then show ?thesis
      using run unfolding decode_request_accepts [OF inv d None]
      by (auto split: if_splits prod.splits sum.splits option.splits)
  next
    case (Some msg)
    have "error_request_id err' = rid"
      using run unfolding decode_request_rejects [OF inv d Some] by (auto simp: fail_def split: prod.splits sum.splits)
    moreover have "read_u64 (readable_view b) 8 = Some rid" by (rule request_header_reads(5) [OF d])
    ultimately show ?thesis using size complaint_no_request [OF Some] unfolding d by blast
  qed
qed

lemma decode_request_incomplete:
  assumes inv: "buffer_inv b" and run: "decode_request b req err h = Some (Inr Decode_incomplete, b', req', err', h')"
  shows "(\<forall>r rest. encodable r \<longrightarrow> readable_view b \<noteq> request_frame r @ rest) \<and>
     (length (readable_view b) < request_header_size \<or>
      (\<exists>r follow. encodable r \<and> readable_view b @ follow = request_frame r))"
proof
  show "\<forall>r rest. encodable r \<longrightarrow> readable_view b \<noteq> request_frame r @ rest"
    using request_frame_exact(1) [OF inv, of _ _ req err h] run by fastforce
  show "length (readable_view b) < request_header_size \<or>
      (\<exists>r follow. encodable r \<and> readable_view b @ follow = request_frame r)"
  proof (cases "length (readable_view b) < request_header_size")
    case False
    then have "request_header_size \<le> length (readable_view b)" by simp
    then obtain m ver oc reserved rid kw vw ttl tail where
      d: "readable_view b = request_header m ver oc reserved rid kw vw ttl @ tail" by (rule request_header_exists)
    show ?thesis
    proof (cases "request_complaint m ver reserved oc (unat kw) (unat vw) ttl")
      case None
      then have "length tail < unat kw + unat vw"
        using run unfolding decode_request_accepts [OF inv d None]
        by (auto split: if_splits prod.splits sum.splits option.splits)
      from accepted_header_completes [OF None this] show ?thesis unfolding d by blast
    next
      case (Some msg)
      then show ?thesis
        using run unfolding decode_request_rejects [OF inv d Some] by (auto simp: fail_def split: prod.splits sum.splits)
    qed
  qed simp
qed

section \<open>Responses\<close>

lemma response_header_exists:
  assumes "response_header_size \<le> length data"
  obtains m ver st reserved rid vw tail where "data = response_header m ver st reserved rid vw @ tail"
proof -
  from assms obtain a t1 where 1: "data = a @ t1" "length a = 4" using take_drop_split [of 4 data] by auto
  then obtain ver t2 where 2: "t1 = ver # t2" using assms by (cases t1) auto
  with 1 obtain st t3 where 3: "t2 = st # t3" using assms by (cases t2) auto
  obtain d t4 where 4: "t3 = d @ t4" "length d = 2" using take_drop_split [of 2 t3] 1 2 3 assms by auto
  obtain e t5 where 5: "t4 = e @ t5" "length e = 8" using take_drop_split [of 8 t4] 1 2 3 4 assms by auto
  obtain f tl where 6: "t5 = f @ tl" "length f = 4" using take_drop_split [of 4 t5] 1 2 3 4 5 assms by auto
  from be32_surj [OF 1(2)] be16_surj [OF 4(2)] be64_surj [OF 5(2)] be32_surj [OF 6(2)]
  obtain m reserved rid vw where "a = be32 m" "d = be16 reserved" "e = be64 rid" "f = be32 vw" by blast
  then have "data = response_header m ver st reserved rid vw @ tl"
    using 1 2 3 4 5 6 by (simp add: response_header_def)
  then show thesis by (rule that)
qed

lemma response_complaint_none:
  "response_complaint m ver reserved st vl = None \<longleftrightarrow>
     m = magic \<and> ver = version \<and> reserved = 0 \<and> is_valid_status st \<and> vl \<le> max_value_length"
  by (auto simp: response_complaint_def)

lemma decode_response_rejects:
  assumes "buffer_inv b" and d: "readable_view b = response_header m ver st reserved rid vw @ tail"
    and "response_complaint m ver reserved st (unat vw) = Some message"
  shows "decode_response b resp err h = (case fail err rid message h of (r, err', h') \<Rightarrow> Some (r, b, resp, err', h'))"
proof -
  have "readable_bytes b = response_header_size + length tail"
    using arg_cong [OF d, of length] length_readable_view [OF assms(1)] by simp
  then show ?thesis using assms(3)
    by (simp add: decode_response_def response_header_reads [OF d] Let_def split: prod.split)
qed

text \<open>What the decoder of responses does with any input.\<close>

lemma decode_response_cases:
  assumes inv: "buffer_inv b"
  obtains
    (short) "decode_response b resp err h = Some (Inr Decode_incomplete, b, resp, err, h)"
      "readable_bytes b < max_response_frame_size"
  | (bad) rid message where
      "decode_response b resp err h = (case fail err rid message h of (r, err', h') \<Rightarrow> Some (r, b, resp, err', h'))"
  | (good) rid st v b' where "response_encodable \<lparr>response_id = rid, status = st, resp_value = v\<rparr>"
      "readable_view b = response_frame \<lparr>response_id = rid, status = st, resp_value = v\<rparr> @ readable_view b'"
      "buffer_inv b'" "storage_capacity b' = storage_capacity b"
      "decode_response b resp err h =
         (case string_assign v h of
            (Inl x, h1) \<Rightarrow> Some (Inl x, b, resp\<lparr>response_id := rid, status := st\<rparr>, err, h1)
          | (Inr _, h1) \<Rightarrow> Some (Inr Decode_complete, b', \<lparr>response_id = rid, status = st, resp_value = v\<rparr>, no_error, h1))"
proof (cases "readable_bytes b < response_header_size")
  case True
  then show ?thesis using short by (simp add: decode_response_def)
next
  case False
  then have "response_header_size \<le> length (readable_view b)" using length_readable_view [OF inv] by simp
  then obtain m ver st reserved rid vw tail where
    d: "readable_view b = response_header m ver st reserved rid vw @ tail" by (rule response_header_exists)
  have len: "readable_bytes b = response_header_size + length tail"
    using arg_cong [OF d, of length] length_readable_view [OF inv] by simp
  show ?thesis
  proof (cases "response_complaint m ver reserved st (unat vw)")
    case (Some msg)
    from bad [OF decode_response_rejects [OF inv d Some]] show ?thesis .
  next
    case None
    note ok = None [unfolded response_complaint_none]
    have d1: "readable_view b = response_header magic version st 0 rid vw @ tail" using d ok by simp
    note run = decode_response_on_frame [OF inv _ _ d1, of resp err h]
    show ?thesis
    proof (cases "length tail < unat vw")
      case True
      then show ?thesis using run ok len short by simp
    next
      case False
      let ?v = "take (unat vw) tail" and ?n = "response_header_size + unat vw"
      have "?n \<le> length (readable_view b)" using False d by simp
      from bytes_in.retrieve_ok [OF inv this] obtain b' where
        b': "retrieve ?n b = Some b'" "buffer_inv b'" "readable_view b' = drop ?n (readable_view b)" by blast
      have view: "readable_view b = response_frame \<lparr>response_id = rid, status = st, resp_value = ?v\<rparr> @ readable_view b'"
        using False d1 b'(3) by (simp add: response_frame_header)
      have enc: "response_encodable \<lparr>response_id = rid, status = st, resp_value = ?v\<rparr>"
        using ok False by (simp add: response_encodable_def)
      from good [OF enc view b'(2) retrieve_capacity [OF b'(1)]] run ok False b'(1) show ?thesis
        by (simp cong: sum.case_cong prod.case_cong)
    qed
  qed
qed

interpretation responses: frame_decoder decode_response response_frame response_encodable max_response_frame_size
proof (unfold_locales, goal_cases)
  case (1 b m err h)
  then show ?case
  proof (cases rule: decode_response_cases [of b m err h])
    case (bad rid message)
    then show ?thesis
      using 1 container_alloc_fields(4) [of h] by (auto simp: fail_def split: prod.splits sum.splits)
  next
    case (good rid st v b')
    then show ?thesis using 1 string_assign_cases(1) [of v h] by (cases "string_assign v h") auto
  qed (use 1 in simp)
next
  case (2 b m err h r b' m' err' h')
  from 2(1) show ?case
  proof (cases rule: decode_response_cases [of b m err h])
    case (bad rid message)
    then show ?thesis using 2(2) fail_memory by (fastforce split: prod.splits)
  next
    case (good rid st v b1)
    then show ?thesis using 2(2) string_assign_memory [of v h] by (fastforce split: prod.splits sum.splits)
  qed (use 2 in auto)
next
  case (3 b m' rest h m err)
  then show ?case using response_frame_exact by blast
next
  case (4 b n m' m err h)
  then show ?case by (rule response_prefix_incomplete)
next
  case (5 m)
  have "length (response_frame m) \<noteq> 0" by (simp add: length_response_frame)
  then have "response_frame m \<noteq> []" by fastforce
  with 5 show ?case by (simp add: length_response_frame response_encodable_def)
next
  case 6
  show ?case by (simp add: vector_max_size_def)
next
  case 7
  show ?case by (rule exI [of _ new_response]) (simp add: response_encodable_def new_response_def is_valid_status_def)
qed

end
