(* ===== verification/Connection.thy ===== *)
theory Connection
  imports Cache_Engine Frame_Decoder
begin

text \<open>
  \<^verbatim>\<open>Connection\<close> of \<^verbatim>\<open>src/net/connection.cpp\<close>: it collects bytes from the socket, executes the
  complete requests among them on the engine, and queues the responses up to a limit.
  The socket is an input of the model: a list of the results the calls of \<^verbatim>\<open>recv\<close> or
  \<^verbatim>\<open>send\<close> give; when the list is used up, the call would block. The engine, which all
  connections share, and the store for the buffers are passed along.
\<close>

section \<open>Definitions\<close>

record connection =
  input_buffer :: buffer
  output_buffer :: buffer
  output_limit :: nat
  peer_closed :: bool
  close_after_write :: bool
  closing :: bool

record conn_env =
  env_engine :: cache_engine
  env_heap :: heap

abbreviation (input) default_output_limit :: nat where
  "default_output_limit \<equiv> 4 * 1024 * 1024"

abbreviation (input) read_chunk_size :: nat where
  "read_chunk_size \<equiv> 64 * 1024"

abbreviation (input) max_input_buffer_size :: nat where
  "max_input_buffer_size \<equiv> max_request_frame_size + read_chunk_size"

definition new_connection :: "nat \<Rightarrow> heap \<Rightarrow> (exn + connection) \<times> heap" where
  "new_connection limit h =
     (case new_buffer 4096 h of
        (Inl x, h1) \<Rightarrow> (Inl x, h1)
      | (Inr inp, h1) \<Rightarrow>
          (case new_buffer 4096 h1 of
             (Inl x, h2) \<Rightarrow> (Inl x, h2)
           | (Inr outp, h2) \<Rightarrow>
               (Inr \<lparr>input_buffer = inp, output_buffer = outp, output_limit = limit,
                     peer_closed = False, close_after_write = False, closing = False\<rparr>, h2)))"

definition close_immediately :: "connection \<Rightarrow> connection" where
  "close_immediately c = c\<lparr>closing := True\<rparr>"

definition wants_write :: "connection \<Rightarrow> bool" where
  "wants_write c \<longleftrightarrow> \<not> buffer_empty (output_buffer c)"

definition should_close :: "connection \<Rightarrow> bool" where
  "should_close c \<longleftrightarrow> closing c"

definition pending_output_bytes :: "connection \<Rightarrow> nat" where
  "pending_output_bytes c = readable_bytes (output_buffer c)"

definition note_peer_closed :: "connection \<Rightarrow> connection" where
  "note_peer_closed c =
     (let c1 = c\<lparr>peer_closed := True\<rparr>
      in if buffer_empty (output_buffer c1) then close_immediately c1 else c1)"

abbreviation (input) EPOLLIN :: u32 where "EPOLLIN \<equiv> 0x001"
abbreviation (input) EPOLLOUT :: u32 where "EPOLLOUT \<equiv> 0x004"
abbreviation (input) EPOLLERR :: u32 where "EPOLLERR \<equiv> 0x008"
abbreviation (input) EPOLLHUP :: u32 where "EPOLLHUP \<equiv> 0x010"
abbreviation (input) EPOLLRDHUP :: u32 where "EPOLLRDHUP \<equiv> 0x2000"

definition desired_events :: "connection \<Rightarrow> u32" where
  "desired_events c =
     (if should_close c then 0
      else let e1 = EPOLLRDHUP;
               e2 = (if \<not> close_after_write c \<and> \<not> peer_closed c then e1 OR EPOLLIN else e1)
           in if wants_write c then e2 OR EPOLLOUT else e2)"

text \<open>A step of the connection: its outcome, the connection and the environment after it.\<close>

type_synonym 'r conn_step = "((exn + 'r) \<times> connection \<times> conn_env) option"

definition queue_response :: "response \<Rightarrow> connection \<Rightarrow> conn_env \<Rightarrow> bool conn_step" where
  "queue_response resp c env =
     (case encode_response resp (env_heap env) of
        (Inl x, h1) \<Rightarrow> Some (Inl x, c, env\<lparr>env_heap := h1\<rparr>)
      | (Inr bytes, h1) \<Rightarrow>
          (let pending = readable_bytes (output_buffer c)
           in if pending > output_limit c \<or> length bytes > output_limit c - pending
              then Some (Inr False, close_immediately c, env\<lparr>env_heap := h1\<rparr>)
              else (case append_view bytes (output_buffer c) h1 of
                      None \<Rightarrow> None
                    | Some (Inl x, b, h2) \<Rightarrow>
                        Some (Inl x, c\<lparr>output_buffer := b\<rparr>, env\<lparr>env_heap := h2\<rparr>)
                    | Some (Inr _, b, h2) \<Rightarrow>
                        Some (Inr True, c\<lparr>output_buffer := b\<rparr>, env\<lparr>env_heap := h2\<rparr>))))"

text \<open>
  The first part of \<^verbatim>\<open>execute\<close>: the request is run on the engine, and every exception of
  the engine becomes an internal error. A request that is none of the three opcodes would
  be answered as not found.
\<close>

definition run_request ::
    "(bytes \<Rightarrow> u64) \<Rightarrow> request \<Rightarrow> cache_engine \<Rightarrow> (response \<times> cache_engine) option" where
  "run_request hash req e =
     (let resp = new_response\<lparr>response_id := request_id req\<rparr>;
          answer = (\<lambda>r v. case r of
             Inl x \<Rightarrow> resp\<lparr>status := wire_internal_error, resp_value := []\<rparr>
           | Inr st \<Rightarrow> resp\<lparr>status := to_wire_status st, resp_value := v\<rparr>)
      in if opcode req = opcode_get
         then map_option (\<lambda>((r, out), e'). (answer r (if r = Inr C_ok then out else []), e'))
                (engine_get hash (req_key req) [] e)
         else if opcode req = opcode_set
         then map_option (\<lambda>(r, e'). (answer r [], e'))
                (engine_set hash (req_key req) (req_value req) (ttl_ms req) e)
         else if opcode req = opcode_erase
         then map_option (\<lambda>(r, e'). (answer r [], e')) (engine_erase hash (req_key req) e)
         else Some (answer (Inr C_not_found) [], e))"

definition execute :: "(bytes \<Rightarrow> u64) \<Rightarrow> request \<Rightarrow> connection \<Rightarrow> conn_env \<Rightarrow> bool conn_step" where
  "execute hash req c env =
     (case run_request hash req (env_engine env) of
        None \<Rightarrow> None
      | Some (resp, e) \<Rightarrow> queue_response resp c (env\<lparr>env_engine := e\<rparr>))"

text \<open>The message of the error is copied into the response.\<close>

definition queue_protocol_error :: "protocol_error \<Rightarrow> connection \<Rightarrow> conn_env \<Rightarrow> bool conn_step" where
  "queue_protocol_error err c env =
     (case container_alloc (env_heap env) of
        (Inl x, h1) \<Rightarrow> Some (Inl x, c, env\<lparr>env_heap := h1\<rparr>)
      | (Inr _, h1) \<Rightarrow>
          (case queue_response
                  \<lparr>response_id = (if has_request_id err then error_request_id err else 0),
                   status = wire_protocol_error, resp_value = map of_char (error_message err)\<rparr>
                  c (env\<lparr>env_heap := h1\<rparr>) of
             None \<Rightarrow> None
           | Some (Inl x, c1, env1) \<Rightarrow> Some (Inl x, c1, env1)
           | Some (Inr queued, c1, env1) \<Rightarrow>
               (if \<not> queued then Some (Inr False, c1, env1)
                else Some (Inr True, c1\<lparr>close_after_write := True\<rparr>, env1))))"

partial_function (option) process_input ::
    "(bytes \<Rightarrow> u64) \<Rightarrow> connection \<Rightarrow> conn_env \<Rightarrow> bool conn_step" where
  "process_input hash c env =
     (if buffer_empty (input_buffer c) then Some (Inr True, c, env)
      else case decode_request (input_buffer c) new_request no_error (env_heap env) of
        None \<Rightarrow> None
      | Some (r, inp, req, err, h) \<Rightarrow>
          (let c1 = c\<lparr>input_buffer := inp\<rparr>; env1 = env\<lparr>env_heap := h\<rparr>
           in case r of
                Inl x \<Rightarrow> Some (Inl x, c1, env1)
              | Inr Decode_incomplete \<Rightarrow> Some (Inr True, c1, env1)
              | Inr Decode_error \<Rightarrow>
                  queue_protocol_error err (c1\<lparr>input_buffer := retrieve_all inp\<rparr>) env1
              | Inr Decode_complete \<Rightarrow>
                  (case execute hash req c1 env1 of
                     None \<Rightarrow> None
                   | Some (Inl x, c2, env2) \<Rightarrow> Some (Inl x, c2, env2)
                   | Some (Inr again, c2, env2) \<Rightarrow>
                       (if \<not> again then Some (Inr False, c2, env2) else process_input hash c2 env2))))"

declare process_input.simps [code]

section \<open>Reading from and writing to the socket\<close>

datatype recv_result = Received bytes | Recv_closed | Recv_interrupted | Recv_would_block | Recv_failed

fun readable_loop ::
    "(bytes \<Rightarrow> u64) \<Rightarrow> recv_result list \<Rightarrow> connection \<Rightarrow> conn_env \<Rightarrow> unit conn_step" where
  "readable_loop hash [] c env = Some (Inr (), c, env)"
| "readable_loop hash (result # later) c env =
     (if close_after_write c \<or> closing c then Some (Inr (), c, env)
      else case result of
        Received bs \<Rightarrow>
          (if length bs > max_input_buffer_size - readable_bytes (input_buffer c)
           then Some (Inr (), close_immediately c, env)
           else case append_view bs (input_buffer c) (env_heap env) of
             None \<Rightarrow> None
           | Some (Inl x, b, h) \<Rightarrow> Some (Inl x, c\<lparr>input_buffer := b\<rparr>, env\<lparr>env_heap := h\<rparr>)
           | Some (Inr _, b, h) \<Rightarrow>
               (case process_input hash (c\<lparr>input_buffer := b\<rparr>) (env\<lparr>env_heap := h\<rparr>) of
                  None \<Rightarrow> None
                | Some (Inl x, c1, env1) \<Rightarrow> Some (Inl x, c1, env1)
                | Some (Inr again, c1, env1) \<Rightarrow>
                    (if \<not> again then Some (Inr (), c1, env1) else readable_loop hash later c1 env1)))
      | Recv_closed \<Rightarrow> Some (Inr (), note_peer_closed c, env)
      | Recv_interrupted \<Rightarrow> readable_loop hash later c env
      | Recv_would_block \<Rightarrow> Some (Inr (), c, env)
      | Recv_failed \<Rightarrow> Some (Inr (), close_immediately c, env))"

definition handle_readable ::
    "(bytes \<Rightarrow> u64) \<Rightarrow> recv_result list \<Rightarrow> connection \<Rightarrow> conn_env \<Rightarrow> bool conn_step" where
  "handle_readable hash results c env =
     map_option (\<lambda>(r, c', env'). (case r of Inl x \<Rightarrow> Inl x | Inr _ \<Rightarrow> Inr (\<not> should_close c'), c', env'))
       (readable_loop hash results c env)"

datatype send_result = Sent nat | Send_interrupted | Send_would_block | Send_failed

text \<open>
  \<^verbatim>\<open>handle_writable\<close>: the result, the bytes that went to the peer, and the connection. A
  \<^verbatim>\<open>send\<close> that reports zero bytes is treated as a failure, as in the code.
\<close>

definition writable_done :: "connection \<Rightarrow> bool \<times> bytes \<times> connection" where
  "writable_done c =
     (let c1 = (if buffer_empty (output_buffer c) \<and> (close_after_write c \<or> peer_closed c)
                then close_immediately c else c)
      in (\<not> should_close c1, [], c1))"

fun handle_writable :: "send_result list \<Rightarrow> connection \<Rightarrow> (bool \<times> bytes \<times> connection) option" where
  "handle_writable [] c =
     (if buffer_empty (output_buffer c) \<or> closing c then Some (writable_done c)
      else Some (True, [], c))"
| "handle_writable (result # later) c =
     (if buffer_empty (output_buffer c) \<or> closing c then Some (writable_done c)
      else case result of
        Sent n \<Rightarrow>
          (if n = 0 then Some (False, [], close_immediately c)
           else case retrieve n (output_buffer c) of
             None \<Rightarrow> None
           | Some b \<Rightarrow>
               map_option (\<lambda>(r, sent, c'). (r, take n (readable_view (output_buffer c)) @ sent, c'))
                 (handle_writable later (c\<lparr>output_buffer := b\<rparr>)))
      | Send_interrupted \<Rightarrow> handle_writable later c
      | Send_would_block \<Rightarrow> Some (True, [], c)
      | Send_failed \<Rightarrow> Some (False, [], close_immediately c))"

section \<open>The invariant\<close>

definition conn_inv :: "(bytes \<Rightarrow> u64) \<Rightarrow> connection \<Rightarrow> conn_env \<Rightarrow> bool" where
  "conn_inv hash c env \<longleftrightarrow>
     engine_inv hash (env_engine env) \<and> buffer_inv (input_buffer c) \<and> buffer_inv (output_buffer c) \<and>
     readable_bytes (output_buffer c) \<le> output_limit c \<and>
     storage_capacity (input_buffer c) \<le> 2 * max_input_buffer_size \<and>
     storage_capacity (output_buffer c) \<le> max 4096 (2 * output_limit c)"

text \<open>Between two calls the input holds less than one frame.\<close>

definition conn_idle :: "(bytes \<Rightarrow> u64) \<Rightarrow> connection \<Rightarrow> conn_env \<Rightarrow> bool" where
  "conn_idle hash c env \<longleftrightarrow> conn_inv hash c env \<and> readable_bytes (input_buffer c) < max_request_frame_size"

lemma new_connection_ok:
  assumes "new_connection limit h = (Inr c, h')" and "engine_inv hash (env_engine env)"
  shows "conn_idle hash c env" and "\<not> closing c" and "\<not> close_after_write c" and "output_limit c = limit"
    and "readable_view (input_buffer c) = []" and "readable_view (output_buffer c) = []"
proof -
  from assms(1) obtain i o' h1 where b: "new_buffer 4096 h = (Inr i, h1)" "new_buffer 4096 h1 = (Inr o', h')"
    "c = \<lparr>input_buffer = i, output_buffer = o', output_limit = limit, peer_closed = False,
          close_after_write = False, closing = False\<rparr>"
    by (auto simp: new_connection_def split: prod.splits sum.splits)
  have "buffer_inv i" "readable_view i = []" "storage_capacity i = 4096"
    "buffer_inv o'" "readable_view o' = []" "storage_capacity o' = 4096"
    using new_buffer_ok [OF b(1)] new_buffer_ok [OF b(2)] by simp_all
  then show "conn_idle hash c env" "\<not> closing c" "\<not> close_after_write c" "output_limit c = limit"
    "readable_view (input_buffer c) = []" "readable_view (output_buffer c) = []"
    using length_readable_view [of i] length_readable_view [of o'] assms(2) b(3)
    by (simp_all add: conn_idle_def conn_inv_def)
qed

lemma append_view_length:
  assumes "buffer_inv b" and "append_view bs b h = Some (Inr u, b', h')"
  shows "buffer_inv b'" and "readable_view b' = readable_view b @ bs"
    and "readable_bytes b' = readable_bytes b + length bs"
proof -
  from bytes_in.append_ok [OF assms] show b': "buffer_inv b'" "readable_view b' = readable_view b @ bs"
    by auto
  show "readable_bytes b' = readable_bytes b + length bs"
    using arg_cong [OF b'(2), of length] length_readable_view b'(1) assms(1) by simp
qed

lemma queue_response_ok:
  assumes inv: "conn_inv hash c env" and enc: "response_encodable resp"
  shows "\<exists>r c' env'. queue_response resp c env = Some (r, c', env') \<and> conn_inv hash c' env' \<and>
           input_buffer c' = input_buffer c \<and> output_limit c' = output_limit c \<and>
           peer_closed c' = peer_closed c \<and> close_after_write c' = close_after_write c \<and>
           env_engine env' = env_engine env \<and>
           (r = Inr True \<longrightarrow> closing c' = closing c \<and>
              readable_view (output_buffer c') = readable_view (output_buffer c) @ response_frame resp) \<and>
           (r = Inr False \<longrightarrow> closing c' \<and> output_buffer c' = output_buffer c \<and>
              readable_bytes (output_buffer c) + length (response_frame resp) > output_limit c) \<and>
           (\<forall>x. r = Inl x \<longrightarrow> closing c' = closing c \<and> output_buffer c' = output_buffer c)"
proof -
  have lim: "readable_bytes (output_buffer c) \<le> output_limit c" and b: "buffer_inv (output_buffer c)"
    using inv by (auto simp: conn_inv_def)
  obtain q h1 where a: "container_alloc (env_heap env) = (q, h1)" by fastforce
  note enc' = encode_response_accepts [OF enc, of "env_heap env", unfolded a]
  show ?thesis
  proof (cases q)
    case (Inl x)
    with enc' inv show ?thesis by (auto simp: queue_response_def conn_inv_def)
  next
    case (Inr u)
    show ?thesis
    proof (cases "length (response_frame resp) > output_limit c - readable_bytes (output_buffer c)")
      case True
      with enc' Inr inv lim show ?thesis
        by (auto simp: queue_response_def conn_inv_def close_immediately_def)
    next
      case False
      obtain r b' h2 where ap: "append_view (response_frame resp) (output_buffer c) h1 = Some (r, b', h2)"
        using bytes_in.append_defined [OF b] by blast
      show ?thesis
      proof (cases r)
        case (Inl x)
        with bytes_in.append_throws [OF b] ap have "b' = output_buffer c" by blast
        with enc' Inr inv lim False ap Inl show ?thesis by (auto simp: queue_response_def conn_inv_def)
      next
        case (Inr v)
        note al = append_view_length [OF b ap [unfolded Inr]]
        have "storage_capacity b' \<le> max 4096 (2 * output_limit c)"
          using append_view_capacity [OF b ap] inv False lim by (auto simp: conn_inv_def)
        then show ?thesis
          using enc' \<open>q = Inr u\<close> inv lim False ap Inr al by (auto simp: queue_response_def conn_inv_def)
      qed
    qed
  qed
qed

section \<open>Executing a request\<close>

lemma engine_lookup_limit:
  assumes "engine_inv hash e" and "engine_lookup hash e k = Some (v, t)"
  shows "length v \<le> max_value_length"
proof -
  have "(k, v, t) \<in> set (shard_view (shards e ! shard_for hash k e))"
    using assms(2) by (auto simp: engine_lookup_def dest: map_of_SomeD)
  then show ?thesis using shard.content_limits [OF shard_of [OF assms(1)]] by blast
qed

lemma run_request_ok:
  assumes inv: "engine_inv hash e"
  shows "\<exists>resp e'. run_request hash req e = Some (resp, e') \<and> engine_inv hash e' \<and>
           response_encodable resp \<and> response_id resp = request_id req"
proof -
  have valid: "is_valid_status (to_wire_status st)" "is_valid_status wire_internal_error" for st
    by (simp_all add: to_wire_status_valid) (simp add: is_valid_status_def)
  consider (get) "opcode req = opcode_get" | (set) "opcode req = opcode_set"
    | (erase) "opcode req = opcode_erase" | (other) "opcode req \<notin> {opcode_get, opcode_set, opcode_erase}"
    by blast
  then show ?thesis
  proof cases
    case get
    have "\<exists>r out e'. engine_get hash (req_key req) [] e = Some ((r, out), e') \<and> engine_inv hash e' \<and>
        (r = Inr C_ok \<longrightarrow> length out \<le> max_value_length)"
    proof (cases "validate_key (req_key req) = C_ok")
      case True
      from engine_get_ok [OF inv True, of "[]"] obtain r out e' where
        g: "engine_get hash (req_key req) [] e = Some ((r, out), e')" "engine_inv hash e'"
          "case r of Inl x \<Rightarrow> out = [] | Inr st \<Rightarrow> (case engine_lookup hash e (req_key req) of
             None \<Rightarrow> st = C_not_found \<and> out = [] | Some (v, t) \<Rightarrow> st = C_ok \<and> out = v)" by blast
      then have "r = Inr C_ok \<longrightarrow> length out \<le> max_value_length"
        using engine_lookup_limit [OF inv] by (auto split: option.splits)
      with g show ?thesis by blast
    next
      case False
      then show ?thesis using refused_on_shard(1) [OF inv False] inv by auto
    qed
    then obtain r out e' where "engine_get hash (req_key req) [] e = Some ((r, out), e')"
      "engine_inv hash e'" "r = Inr C_ok \<longrightarrow> length out \<le> max_value_length" by blast
    then show ?thesis
      using get valid by (cases r) (simp_all add: run_request_def Let_def response_encodable_def new_response_def)
  next
    case set
    from engine_set_ok [OF inv, of "req_key req" "req_value req" "ttl_ms req"] obtain r e' where
      "engine_set hash (req_key req) (req_value req) (ttl_ms req) e = Some (r, e')" "engine_inv hash e'"
      by (elim exE conjE)
    then show ?thesis
      using set valid by (cases r) (simp_all add: run_request_def Let_def response_encodable_def new_response_def)
  next
    case erase
    obtain r e' where "engine_erase hash (req_key req) e = Some (r, e')" "engine_inv hash e'"
      using engine_erase_ok [OF inv, of "req_key req"] refused_on_shard(2) [OF inv, of "req_key req"] inv
      by (cases "validate_key (req_key req) = C_ok") blast+
    then show ?thesis
      using erase valid by (cases r) (simp_all add: run_request_def Let_def response_encodable_def new_response_def)
  next
    case other
    then show ?thesis
      using inv valid by (auto simp: run_request_def response_encodable_def new_response_def)
  qed
qed

lemma execute_ok:
  assumes inv: "conn_inv hash c env"
  shows "\<exists>r c' env'. execute hash req c env = Some (r, c', env') \<and> conn_inv hash c' env' \<and>
           input_buffer c' = input_buffer c \<and> output_limit c' = output_limit c \<and>
           close_after_write c' = close_after_write c \<and> peer_closed c' = peer_closed c \<and>
           (r = Inr True \<longrightarrow> closing c' = closing c) \<and> (r = Inr False \<longrightarrow> closing c')"
proof -
  from run_request_ok [of hash "env_engine env" req] inv obtain resp e where
    run: "run_request hash req (env_engine env) = Some (resp, e)" and e: "engine_inv hash e"
    and enc: "response_encodable resp" by (auto simp: conn_inv_def)
  have "conn_inv hash c (env\<lparr>env_engine := e\<rparr>)" using inv e by (simp add: conn_inv_def)
  from queue_response_ok [OF this enc] obtain r c' env' where
    "queue_response resp c (env\<lparr>env_engine := e\<rparr>) = Some (r, c', env')" "conn_inv hash c' env'"
    "input_buffer c' = input_buffer c" "output_limit c' = output_limit c"
    "close_after_write c' = close_after_write c" "peer_closed c' = peer_closed c"
    "r = Inr True \<longrightarrow> closing c' = closing c" "r = Inr False \<longrightarrow> closing c'" by blast
  then show ?thesis using run by (simp add: execute_def)
qed

lemma queue_protocol_error_ok:
  assumes inv: "conn_inv hash c env" and msg: "length (error_message err) \<le> max_key_length"
  shows "\<exists>r c' env'. queue_protocol_error err c env = Some (r, c', env') \<and> conn_inv hash c' env' \<and>
           input_buffer c' = input_buffer c \<and> output_limit c' = output_limit c \<and>
           (r = Inr True \<longrightarrow> close_after_write c') \<and> (r = Inr False \<longrightarrow> closing c')"
proof -
  obtain q h1 where a: "container_alloc (env_heap env) = (q, h1)" by fastforce
  let ?env = "env\<lparr>env_heap := h1\<rparr>"
  have inv1: "conn_inv hash c' ?env \<longleftrightarrow> conn_inv hash c' env" for c' by (simp add: conn_inv_def)
  let ?resp = "\<lparr>response_id = (if has_request_id err then error_request_id err else 0),
      status = wire_protocol_error, resp_value = map of_char (error_message err)\<rparr>"
  have "response_encodable ?resp" using msg by (simp add: response_encodable_def is_valid_status_def)
  from queue_response_ok [of hash c ?env ?resp] inv inv1 this obtain r c' env' where
    q: "queue_response ?resp c ?env = Some (r, c', env')" "conn_inv hash c' env'"
      "input_buffer c' = input_buffer c" "output_limit c' = output_limit c"
      "r = Inr False \<longrightarrow> closing c'" by blast
  have caw: "conn_inv hash (c'\<lparr>close_after_write := True\<rparr>) env'" using q(2) by (simp add: conn_inv_def)
  show ?thesis
  proof (cases "container_alloc (env_heap env)")
    case (Pair q0 h0)
    then show ?thesis
      using a q caw inv inv1 by (cases q0; cases r) (auto simp: queue_protocol_error_def)
  qed
qed

section \<open>Processing the input\<close>

definition unfinished :: "bytes \<Rightarrow> bool" where
  "unfinished bs \<longleftrightarrow> (\<forall>req later. encodable req \<longrightarrow> bs \<noteq> request_frame req @ later)"

lemma unfinished_Nil [simp]: "unfinished []"
proof -
  have "request_frame req \<noteq> []" if "encodable req" for req using requests.frame_size [OF that] by simp
  then show ?thesis by (auto simp: unfinished_def)
qed

lemma unfinished_incomplete:
  assumes "buffer_inv b" and "decode_request b new_request no_error h = Some (Inr Decode_incomplete, b', req, err, h')"
  shows "unfinished (readable_view b)"
proof (rule ccontr)
  assume "\<not> unfinished (readable_view b)"
  then obtain r later where "encodable r" "readable_view b = request_frame r @ later" by (auto simp: unfinished_def)
  with request_frame_exact(1) [OF assms(1), of r later new_request no_error h] assms(2) show False by auto
qed

text \<open>What one round of the loop over the received bytes can do.\<close>

lemma process_input_cases:
  assumes inv: "conn_inv hash c env"
  obtains
    (empty) "buffer_empty (input_buffer c)" "process_input hash c env = Some (Inr True, c, env)"
  | (throws) x h where "process_input hash c env = Some (Inl x, c, env\<lparr>env_heap := h\<rparr>)"
  | (waits) h where "process_input hash c env = Some (Inr True, c, env\<lparr>env_heap := h\<rparr>)"
      "readable_bytes (input_buffer c) < max_request_frame_size" "unfinished (readable_view (input_buffer c))"
  | (malformed) err h where "length (error_message err) \<le> max_key_length"
      "conn_inv hash (c\<lparr>input_buffer := retrieve_all (input_buffer c)\<rparr>) (env\<lparr>env_heap := h\<rparr>)"
      "process_input hash c env =
         queue_protocol_error err (c\<lparr>input_buffer := retrieve_all (input_buffer c)\<rparr>) (env\<lparr>env_heap := h\<rparr>)"
  | (request) req b h where "encodable req" "readable_view (input_buffer c) = request_frame req @ readable_view b"
      "readable_bytes b < readable_bytes (input_buffer c)"
      "conn_inv hash (c\<lparr>input_buffer := b\<rparr>) (env\<lparr>env_heap := h\<rparr>)"
      "process_input hash c env =
         (case execute hash req (c\<lparr>input_buffer := b\<rparr>) (env\<lparr>env_heap := h\<rparr>) of
            None \<Rightarrow> None
          | Some (Inl x, c2, env2) \<Rightarrow> Some (Inl x, c2, env2)
          | Some (Inr again, c2, env2) \<Rightarrow>
              (if \<not> again then Some (Inr False, c2, env2) else process_input hash c2 env2))"
proof (cases "buffer_empty (input_buffer c)")
  case True
  then show ?thesis using empty by (simp add: process_input.simps [of hash c env])
next
  case False
  have b: "buffer_inv (input_buffer c)" using inv by (simp add: conn_inv_def)
  from decode_request_ok [OF b, of new_request no_error "env_heap env"] obtain r b' req err h where
    dec: "decode_request (input_buffer c) new_request no_error (env_heap env) = Some (r, b', req, err, h)"
    and prom: "decode_promise (input_buffer c) r b' req err" by blast
  note step = process_input.simps [of hash c env, unfolded dec, simplified False, simplified]
  have keep: "c\<lparr>input_buffer := b'\<rparr> = c" if "b' = input_buffer c" using that by simp
  consider x where "r = Inl x" | "r = Inr Decode_incomplete" | "r = Inr Decode_error" | "r = Inr Decode_complete"
    by (cases r) (metis decode_result.exhaust)+
  then show ?thesis
  proof cases
    case 1
    with throws [of x h] step prom keep show ?thesis by (simp add: decode_promise_def)
  next
    case 2
    with waits [of h] step prom keep unfinished_incomplete [OF b] dec show ?thesis by (simp add: decode_promise_def)
  next
    case 3
    have "conn_inv hash (c\<lparr>input_buffer := retrieve_all (input_buffer c)\<rparr>) (env\<lparr>env_heap := h\<rparr>)"
      using inv bytes_in.clear_ok [OF b] by (simp add: conn_inv_def retrieve_all_def)
    with malformed [of err h] 3 step prom keep show ?thesis by (simp add: decode_promise_def)
  next
    case 4
    have full: "encodable req" "readable_view (input_buffer c) = request_frame req @ readable_view b'" "buffer_inv b'"
      using prom 4 by (auto simp: decode_promise_def)
    then have "readable_bytes b' < readable_bytes (input_buffer c)"
      using arg_cong [OF full(2), of length] length_readable_view [OF b] length_readable_view [OF full(3)]
      by (simp add: length_request_frame)
    moreover have "conn_inv hash (c\<lparr>input_buffer := b'\<rparr>) (env\<lparr>env_heap := h\<rparr>)"
      using inv full(3) decode_request_memory [OF b dec] by (simp add: conn_inv_def)
    ultimately show ?thesis using request [OF full(1,2)] step 4 by simp
  qed
qed

text \<open>
  The loop over the received bytes returns, whatever they are: each round that goes on has
  consumed a frame. Afterwards, unless something was thrown or the connection is being
  closed, less than one frame is left.
\<close>

lemma process_input_ok:
  assumes "conn_inv hash c env"
  shows "\<exists>r c' env'. process_input hash c env = Some (r, c', env') \<and> conn_inv hash c' env' \<and>
           output_limit c' = output_limit c \<and>
           (r = Inr True \<longrightarrow> readable_bytes (input_buffer c') < max_request_frame_size) \<and>
           (r = Inr False \<longrightarrow> closing c')"
  using assms
proof (induction "readable_bytes (input_buffer c)" arbitrary: c env rule: less_induct)
  case less
  have memory: "conn_inv hash c (env\<lparr>env_heap := h\<rparr>)" for h using less.prems by (simp add: conn_inv_def)
  from less.prems show ?case
  proof (cases rule: process_input_cases)
    case empty
    then show ?thesis using less.prems by (simp add: buffer_empty_def)
  next
    case (malformed err h)
    have "readable_bytes (retrieve_all (input_buffer c)) = 0" by (simp add: retrieve_all_def readable_bytes_def)
    with queue_protocol_error_ok [OF malformed(2,1)] malformed(3) show ?thesis by fastforce
  next
    case (request req b h)
    from execute_ok [OF request(4), of req] obtain q c' env' where
      ex: "execute hash req (c\<lparr>input_buffer := b\<rparr>) (env\<lparr>env_heap := h\<rparr>) = Some (q, c', env')" "conn_inv hash c' env'"
        "input_buffer c' = b" "output_limit c' = output_limit c" "q = Inr False \<longrightarrow> closing c'" by auto
    then show ?thesis using less.hyps [of c' env'] request(3,5) by (cases q) auto
  qed (use memory in auto)
qed

text \<open>What the kernel may answer to \<^verbatim>\<open>recv\<close>: at most as many bytes as were asked for, and not none.\<close>

definition recv_results_ok :: "recv_result list \<Rightarrow> bool" where
  "recv_results_ok rs \<longleftrightarrow>
     (\<forall>r \<in> set rs. case r of Received bs \<Rightarrow> bs \<noteq> [] \<and> length bs \<le> read_chunk_size | _ \<Rightarrow> True)"

lemma note_peer_closed_inv: "conn_idle hash c env \<Longrightarrow> conn_idle hash (note_peer_closed c) env"
  by (simp add: conn_idle_def conn_inv_def note_peer_closed_def close_immediately_def Let_def)

text \<open>Received bytes that the size check lets through.\<close>

lemma append_input_inv:
  assumes inv: "conn_inv hash c env" and ap: "append_view bs (input_buffer c) h = Some (Inr u, b, h')"
    and fits: "\<not> length bs > max_input_buffer_size - readable_bytes (input_buffer c)"
  shows "conn_inv hash (c\<lparr>input_buffer := b\<rparr>) (env\<lparr>env_heap := h1\<rparr>)"
proof -
  have i: "buffer_inv (input_buffer c)" using inv by (simp add: conn_inv_def)
  have "storage_capacity b \<le> 2 * max_input_buffer_size"
  proof (cases "bs = []")
    case True
    then show ?thesis using ap inv by (auto simp: conn_inv_def append_view_def buffer_append_def)
  next
    case False
    then have "0 < length bs" by simp
    then have "readable_bytes (input_buffer c) + length bs \<le> max_input_buffer_size" using fits by linarith
    then show ?thesis using append_view_capacity [OF i ap] inv by (auto simp: conn_inv_def)
  qed
  then show ?thesis using inv append_view_length(1) [OF i ap] by (auto simp: conn_inv_def)
qed

text \<open>What one round of the loop can do with bytes that arrived.\<close>

lemma readable_received_cases:
  assumes inv: "conn_inv hash c env" and live: "\<not> close_after_write c" "\<not> closing c"
  obtains
    (refused) "length bs > max_input_buffer_size - readable_bytes (input_buffer c)"
      "readable_loop hash (Received bs # rs) c env = Some (Inr (), close_immediately c, env)"
  | (throws) x h where "readable_loop hash (Received bs # rs) c env = Some (Inl x, c, env\<lparr>env_heap := h\<rparr>)"
  | (processed) b h p c1 env1 where "readable_view b = readable_view (input_buffer c) @ bs"
      "conn_inv hash (c\<lparr>input_buffer := b\<rparr>) (env\<lparr>env_heap := h\<rparr>)"
      "process_input hash (c\<lparr>input_buffer := b\<rparr>) (env\<lparr>env_heap := h\<rparr>) = Some (p, c1, env1)"
      "conn_inv hash c1 env1" "output_limit c1 = output_limit c"
      "p = Inr True \<longrightarrow> readable_bytes (input_buffer c1) < max_request_frame_size" "p = Inr False \<longrightarrow> closing c1"
      "readable_loop hash (Received bs # rs) c env =
         (case p of Inl x \<Rightarrow> Some (Inl x, c1, env1)
          | Inr again \<Rightarrow> if again then readable_loop hash rs c1 env1 else Some (Inr (), c1, env1))"
proof (cases "length bs > max_input_buffer_size - readable_bytes (input_buffer c)")
  case True
  then show ?thesis using refused live by simp
next
  case fits: False
  have b: "buffer_inv (input_buffer c)" using inv by (simp add: conn_inv_def)
  obtain q b' h where ap: "append_view bs (input_buffer c) (env_heap env) = Some (q, b', h)"
    using bytes_in.append_defined [OF b] by blast
  show ?thesis
  proof (cases q)
    case (Inl x)
    then have "b' = input_buffer c" using bytes_in.append_throws [OF b] ap by blast
    then show ?thesis using throws [of x h] ap Inl fits live by simp
  next
    case (Inr u)
    note b' = append_view_length [OF b ap [unfolded Inr]]
    note inv1 = append_input_inv [OF inv ap [unfolded Inr] fits, of h]
    from process_input_ok [OF inv1] obtain p c1 env1 where
      "process_input hash (c\<lparr>input_buffer := b'\<rparr>) (env\<lparr>env_heap := h\<rparr>) = Some (p, c1, env1)"
      "conn_inv hash c1 env1" "output_limit c1 = output_limit c"
      "p = Inr True \<longrightarrow> readable_bytes (input_buffer c1) < max_request_frame_size" "p = Inr False \<longrightarrow> closing c1"
      by auto
    then show ?thesis using processed [OF b'(2) inv1] ap Inr fits live by (auto split: sum.splits)
  qed
qed

lemma readable_loop_ok:
  assumes "conn_idle hash c env" and "recv_results_ok rs"
  shows "\<exists>r c' env'. readable_loop hash rs c env = Some (r, c', env') \<and> conn_inv hash c' env' \<and>
           output_limit c' = output_limit c \<and> (r = Inr () \<longrightarrow> closing c' \<or> conn_idle hash c' env')"
  using assms
proof (induction rs arbitrary: c env)
  case Nil
  then show ?case by (simp add: conn_idle_def)
next
  case (Cons r rs)
  note idle = Cons.prems(1)
  have inv: "conn_inv hash c env" using idle by (simp add: conn_idle_def)
  have later: "recv_results_ok rs" using Cons.prems(2) by (simp add: recv_results_ok_def)
  show ?case
  proof (cases "close_after_write c \<or> closing c")
    case True
    then show ?thesis using idle inv by simp
  next
    case False
    then have live: "\<not> close_after_write c" "\<not> closing c" by simp_all
    show ?thesis
    proof (cases r)
      case (Received bs)
      from inv live show ?thesis
      proof (cases rule: readable_received_cases [where bs = bs and rs = rs])
        case refused
        then show ?thesis using inv Received by (simp add: close_immediately_def conn_inv_def)
      next
        case (throws x h)
        then show ?thesis using inv Received by (simp add: conn_inv_def)
      next
        case (processed b h p c1 env1)
        then show ?thesis
          using Cons.IH [OF _ later, of c1 env1] Received by (cases p) (auto simp: conn_idle_def split: if_splits)
      qed
    next
      case Recv_closed
      then show ?thesis using note_peer_closed_inv [OF idle] live
        by (simp add: conn_idle_def note_peer_closed_def close_immediately_def Let_def)
    qed (use live idle inv Cons.IH [OF idle later] in \<open>simp_all add: close_immediately_def conn_inv_def\<close>)
  qed
qed

section \<open>Writing\<close>

text \<open>The kernel accepts at most as many bytes as it was offered.\<close>

fun send_results_ok :: "send_result list \<Rightarrow> nat \<Rightarrow> bool" where
  "send_results_ok [] left = True"
| "send_results_ok (Sent n # rs) left = (n \<le> left \<and> send_results_ok rs (left - n))"
| "send_results_ok (_ # rs) left = send_results_ok rs left"

text \<open>
  What goes out and what stays queued is together what was queued, in order; the
  connection is closed only when it failed, or has nothing left to say to a peer that is
  gone or was told about a protocol error.
\<close>

lemma handle_writable_ok:
  assumes "conn_inv hash c env" and "send_results_ok rs (readable_bytes (output_buffer c))"
  shows "\<exists>r sent c'. handle_writable rs c = Some (r, sent, c') \<and> conn_inv hash c' env \<and>
           sent @ readable_view (output_buffer c') = readable_view (output_buffer c) \<and>
           input_buffer c' = input_buffer c \<and> output_limit c' = output_limit c \<and>
           r = (\<not> closing c')"
  using assms
proof (induction rs arbitrary: c)
  case Nil
  then show ?case
    by (auto simp: writable_done_def Let_def close_immediately_def should_close_def conn_inv_def)
next
  case (Cons r rs)
  note inv = Cons.prems(1)
  show ?case
  proof (cases "buffer_empty (output_buffer c) \<or> closing c")
    case True
    then show ?thesis
      using inv by (auto simp: writable_done_def Let_def close_immediately_def should_close_def conn_inv_def)
  next
    case False
    show ?thesis
    proof (cases r)
      case (Sent n)
      show ?thesis
      proof (cases "n = 0")
        case True
        with Sent False inv show ?thesis by (auto simp: close_immediately_def conn_inv_def)
      next
        case nz: False
        have b: "buffer_inv (output_buffer c)" using inv by (simp add: conn_inv_def)
        have n: "n \<le> readable_bytes (output_buffer c)" using Cons.prems(2) Sent by simp
        then have "n \<le> length (readable_view (output_buffer c))" using length_readable_view [OF b] by simp
        from bytes_in.retrieve_ok [OF b this] obtain b' where
          b': "retrieve n (output_buffer c) = Some b'" "buffer_inv b'"
            "readable_view b' = drop n (readable_view (output_buffer c))" by blast
        let ?c = "c\<lparr>output_buffer := b'\<rparr>"
        have len: "readable_bytes b' = readable_bytes (output_buffer c) - n"
          using arg_cong [OF b'(3), of length] length_readable_view b b'(2) by simp
        have "conn_inv hash ?c env" using inv b'(2) len retrieve_capacity [OF b'(1)] by (auto simp: conn_inv_def)
        moreover have "send_results_ok rs (readable_bytes (output_buffer ?c))"
          using Cons.prems(2) Sent len by simp
        ultimately obtain r' sent c' where
          IH: "handle_writable rs ?c = Some (r', sent, c')" "conn_inv hash c' env"
            "sent @ readable_view (output_buffer c') = readable_view b'" "input_buffer c' = input_buffer c"
            "output_limit c' = output_limit c" "r' = (\<not> closing c')"
          using Cons.IH [of ?c] by auto
        have "(take n (readable_view (output_buffer c)) @ sent) @ readable_view (output_buffer c') =
            readable_view (output_buffer c)" using IH(3) b'(3) by simp
        then show ?thesis using Sent nz False b'(1) IH by simp
      qed
    qed (use Cons False in \<open>auto simp: close_immediately_def conn_inv_def\<close>)
  qed
qed

end
