(* ===== verification/Connection_Stream.thy ===== *)
theory Connection_Stream
  imports Connection
begin

text \<open>
  The connection as a server of a stream of requests: whatever way the network cuts the
  stream into chunks, the responses are those of executing the requests one after the
  other, in order, each exactly once.
\<close>

section \<open>The specification\<close>

fun serve ::
    "(bytes \<Rightarrow> u64) \<Rightarrow> request list \<Rightarrow> cache_engine \<Rightarrow> (response list \<times> cache_engine) option" where
  "serve hash [] e = Some ([], e)"
| "serve hash (req # reqs) e =
     (case run_request hash req e of
        None \<Rightarrow> None
      | Some (resp, e1) \<Rightarrow>
          map_option (\<lambda>(resps, e2). (resp # resps, e2)) (serve hash reqs e1))"

abbreviation request_stream :: "request list \<Rightarrow> bytes" where
  "request_stream reqs \<equiv> concat (map request_frame reqs)"

abbreviation response_stream :: "response list \<Rightarrow> bytes" where
  "response_stream resps \<equiv> concat (map response_frame resps)"

lemma serve_ok:
  assumes "engine_inv hash e"
  shows "\<exists>resps e'. serve hash reqs e = Some (resps, e') \<and> engine_inv hash e' \<and>
           length resps = length reqs \<and> map response_id resps = map request_id reqs \<and>
           (\<forall>r \<in> set resps. response_encodable r)"
  using assms
proof (induction reqs arbitrary: e)
  case (Cons req reqs)
  from run_request_ok [OF Cons.prems, of req] obtain resp e1 where
    r: "run_request hash req e = Some (resp, e1)" "engine_inv hash e1"
      "response_encodable resp" "response_id resp = request_id req" by blast
  from Cons.IH [OF r(2)] r show ?case by auto
qed simp

lemma serve_append:
  "serve hash (xs @ ys) e =
     (case serve hash xs e of
        None \<Rightarrow> None
      | Some (as, e1) \<Rightarrow> map_option (\<lambda>(bs, e2). (as @ bs, e2)) (serve hash ys e1))"
  by (induction xs arbitrary: e)
     (auto simp: option.map_comp comp_def case_prod_unfold option.map_ident split: option.splits)

section \<open>One batch of bytes\<close>

text \<open>
  By the invariant the buffers are at most twice as large as what the connection may hold, so
  with memory at hand and a sensible limit of the output nothing fails.
\<close>

lemma queue_response_succeeds:
  assumes inv: "conn_inv hash c env" and room: "output_limit c \<le> 2 ^ 60" and mem: "oom (env_heap env) = []"
    and enc: "response_encodable resp"
    and fits: "readable_bytes (output_buffer c) + length (response_frame resp) \<le> output_limit c"
  shows "\<exists>b. queue_response resp c env = Some (Inr True, c\<lparr>output_buffer := b\<rparr>, env) \<and>
           conn_inv hash (c\<lparr>output_buffer := b\<rparr>) env \<and>
           readable_view b = readable_view (output_buffer c) @ response_frame resp \<and>
           readable_bytes b = readable_bytes (output_buffer c) + length (response_frame resp)"
proof -
  have b: "buffer_inv (output_buffer c)" using inv by (simp add: conn_inv_def)
  have "storage_capacity (output_buffer c) \<le> 2 ^ 61" "length (response_frame resp) \<le> 2 ^ 61"
    using inv room fits by (auto simp: conn_inv_def)
  from append_view_succeeds [OF b mem this] obtain b' where
    ap: "append_view (response_frame resp) (output_buffer c) (env_heap env) = Some (Inr (), b', env_heap env)" by blast
  have "encode_response resp (env_heap env) = (Inr (response_frame resp), env_heap env)"
    using encode_response_accepts [OF enc] container_alloc_nil [OF mem] by simp
  then have run: "queue_response resp c env = Some (Inr True, c\<lparr>output_buffer := b'\<rparr>, env)"
    using ap fits by (auto simp: queue_response_def Let_def)
  then show ?thesis
    using queue_response_ok [OF inv enc] append_view_length [OF b ap] by auto
qed

text \<open>With less than a frame in the input there is nothing to do yet.\<close>

lemma process_input_partial:
  assumes "buffer_inv (input_buffer c)" and "requests.partial (readable_view (input_buffer c))"
  shows "process_input hash c env = Some (Inr True, c, env)"
proof (cases "buffer_empty (input_buffer c)")
  case True
  then show ?thesis by (subst process_input.simps) simp
next
  case False
  from assms(2) obtain r n where "encodable r" "n < length (request_frame r)"
    "readable_view (input_buffer c) = take n (request_frame r)" by (auto simp: requests.partial_def)
  with request_prefix_incomplete [OF assms(1)] have
    "decode_request (input_buffer c) new_request no_error (env_heap env) =
      Some (Inr Decode_incomplete, input_buffer c, new_request, no_error, env_heap env)" by simp
  with False show ?thesis by (subst process_input.simps) simp
qed

text \<open>A frame at the front of the input is served and its answer queued.\<close>

lemma process_input_request:
  assumes inv: "conn_inv hash c env" and room: "output_limit c \<le> 2 ^ 60" and mem: "oom (env_heap env) = []"
    and view: "readable_view (input_buffer c) = request_frame req @ rest" and enc: "encodable req"
    and run: "run_request hash req (env_engine env) = Some (resp, e1)"
    and fits: "readable_bytes (output_buffer c) + length (response_frame resp) \<le> output_limit c"
  obtains bi bo where
    "process_input hash c env =
       process_input hash (c\<lparr>input_buffer := bi, output_buffer := bo\<rparr>) (env\<lparr>env_engine := e1\<rparr>)"
    "conn_inv hash (c\<lparr>input_buffer := bi, output_buffer := bo\<rparr>) (env\<lparr>env_engine := e1\<rparr>)"
    "readable_view bi = rest"
    "readable_view bo = readable_view (output_buffer c) @ response_frame resp"
    "readable_bytes bo = readable_bytes (output_buffer c) + length (response_frame resp)"
proof -
  have b: "buffer_inv (input_buffer c)" using inv by (simp add: conn_inv_def)
  have e1: "engine_inv hash e1" "response_encodable resp"
    using run_request_ok [of hash "env_engine env" req] run inv by (auto simp: conn_inv_def)
  from request_frame_exact(2) [OF b view enc mem, of new_request no_error] obtain bi where
    dec: "decode_request (input_buffer c) new_request no_error (env_heap env) =
        Some (Inr Decode_complete, bi, req, no_error, env_heap env)"
    and bi: "buffer_inv bi" "readable_view bi = rest"
      "storage_capacity bi = storage_capacity (input_buffer c)" by blast
  let ?c = "c\<lparr>input_buffer := bi\<rparr>" and ?env = "env\<lparr>env_engine := e1\<rparr>"
  have inv1: "conn_inv hash ?c ?env" using inv bi e1 by (auto simp: conn_inv_def)
  from queue_response_succeeds [OF inv1 _ _ e1(2)] room mem fits obtain bo where
    q: "queue_response resp ?c ?env = Some (Inr True, ?c\<lparr>output_buffer := bo\<rparr>, ?env)"
    and bo: "conn_inv hash (?c\<lparr>output_buffer := bo\<rparr>) ?env"
      "readable_view bo = readable_view (output_buffer c) @ response_frame resp"
      "readable_bytes bo = readable_bytes (output_buffer c) + length (response_frame resp)" by auto
  have "\<not> buffer_empty (input_buffer c)"
    using arg_cong [OF view, of length] length_readable_view [OF b]
    by (simp add: buffer_empty_def length_request_frame)
  then have step: "process_input hash c env = process_input hash (?c\<lparr>output_buffer := bo\<rparr>) ?env"
    using dec run q by (subst process_input.simps) (simp add: execute_def)
  from that [OF step bo(1) bi(2) bo(2,3)] show ?thesis .
qed

lemma process_input_serves:
  assumes "conn_inv hash c env" and "output_limit c \<le> 2 ^ 60" and "oom (env_heap env) = []"
    and "readable_view (input_buffer c) = request_stream reqs @ part" and "requests.partial part"
    and "\<forall>r \<in> set reqs. encodable r" and "serve hash reqs (env_engine env) = Some (resps, e')"
    and "readable_bytes (output_buffer c) + length (response_stream resps) \<le> output_limit c"
  shows "\<exists>bi bo. process_input hash c env =
             Some (Inr True, c\<lparr>input_buffer := bi, output_buffer := bo\<rparr>, env\<lparr>env_engine := e'\<rparr>) \<and>
           conn_inv hash (c\<lparr>input_buffer := bi, output_buffer := bo\<rparr>) (env\<lparr>env_engine := e'\<rparr>) \<and>
           readable_view bi = part \<and>
           readable_view bo = readable_view (output_buffer c) @ response_stream resps"
  using assms
proof (induction reqs arbitrary: c env resps)
  case Nil
  have "buffer_inv (input_buffer c)" using Nil.prems(1) by (simp add: conn_inv_def)
  with process_input_partial Nil.prems(4,5) have "process_input hash c env = Some (Inr True, c, env)" by simp
  moreover have "resps = []" "e' = env_engine env" using Nil.prems(7) by auto
  ultimately show ?case
    by - (rule exI [of _ "input_buffer c"], rule exI [of _ "output_buffer c"], use Nil.prems in auto)
next
  case (Cons req reqs)
  from Cons.prems(7) obtain resp e1 resps' where
    run: "run_request hash req (env_engine env) = Some (resp, e1)"
    and rest: "serve hash reqs e1 = Some (resps', e')" and resps: "resps = resp # resps'"
    by (auto split: option.splits)
  have "readable_view (input_buffer c) = request_frame req @ (request_stream reqs @ part)" "encodable req"
    "readable_bytes (output_buffer c) + length (response_frame resp) \<le> output_limit c"
    using Cons.prems(4,6,8) resps by simp_all
  from process_input_request [OF Cons.prems(1-3) this(1,2) run this(3)] obtain bi bo where
    step: "process_input hash c env =
       process_input hash (c\<lparr>input_buffer := bi, output_buffer := bo\<rparr>) (env\<lparr>env_engine := e1\<rparr>)"
    and inv: "conn_inv hash (c\<lparr>input_buffer := bi, output_buffer := bo\<rparr>) (env\<lparr>env_engine := e1\<rparr>)"
    and bi: "readable_view bi = request_stream reqs @ part"
    and bo: "readable_view bo = readable_view (output_buffer c) @ response_frame resp"
      "readable_bytes bo = readable_bytes (output_buffer c) + length (response_frame resp)" by blast
  let ?c = "c\<lparr>input_buffer := bi, output_buffer := bo\<rparr>" and ?env = "env\<lparr>env_engine := e1\<rparr>"
  from Cons.IH [of ?c ?env resps'] inv Cons.prems(2,3,5,6,8) bi rest bo(2) resps
  obtain bi' bo' where
    "process_input hash ?c ?env =
       Some (Inr True, ?c\<lparr>input_buffer := bi', output_buffer := bo'\<rparr>, ?env\<lparr>env_engine := e'\<rparr>)"
    "conn_inv hash (?c\<lparr>input_buffer := bi', output_buffer := bo'\<rparr>) (?env\<lparr>env_engine := e'\<rparr>)"
    "readable_view bi' = part"
    "readable_view bo' = readable_view bo @ response_stream resps'" by auto
  then show ?case using step bo(1) resps by auto
qed

section \<open>Any chunking of the stream\<close>

lemma readable_loop_serves:
  assumes "conn_inv hash c env" and "output_limit c \<le> 2 ^ 60" and "oom (env_heap env) = []"
    and "requests.partial (readable_view (input_buffer c))"
    and "readable_view (input_buffer c) @ concat chunks = request_stream reqs"
    and "\<forall>r \<in> set reqs. encodable r" and "\<forall>bs \<in> set chunks. length bs \<le> read_chunk_size"
    and "serve hash reqs (env_engine env) = Some (resps, e')"
    and "readable_bytes (output_buffer c) + length (response_stream resps) \<le> output_limit c"
    and "\<not> close_after_write c" and "\<not> closing c"
  shows "\<exists>bi bo. readable_loop hash (map Received chunks) c env =
             Some (Inr (), c\<lparr>input_buffer := bi, output_buffer := bo\<rparr>, env\<lparr>env_engine := e'\<rparr>) \<and>
           conn_inv hash (c\<lparr>input_buffer := bi, output_buffer := bo\<rparr>) (env\<lparr>env_engine := e'\<rparr>) \<and>
           readable_view bi = [] \<and> readable_view bo = readable_view (output_buffer c) @ response_stream resps"
  using assms
proof (induction chunks arbitrary: c env reqs resps)
  case Nil
  then have "reqs = []" using requests.partial_stream [of reqs] by simp
  with Nil.prems show ?case
    by - (rule exI [of _ "input_buffer c"], rule exI [of _ "output_buffer c"], auto)
next
  case (Cons bs chunks)
  note inv = Cons.prems(1)
  let ?i = "input_buffer c"
  have b: "buffer_inv ?i" using inv by (simp add: conn_inv_def)
  have short: "readable_bytes ?i < max_request_frame_size"
    using requests.partial_short [OF Cons.prems(4)] length_readable_view [OF b] by simp
  have bs: "length bs \<le> read_chunk_size" using Cons.prems(7) by simp
  have guard: "\<not> length bs > max_input_buffer_size - readable_bytes ?i" using short bs by simp
  have "storage_capacity ?i \<le> 2 ^ 61" "length bs \<le> 2 ^ 61" using inv bs by (auto simp: conn_inv_def)
  from append_view_succeeds [OF b Cons.prems(3) this] obtain b1 where
    ap: "append_view bs ?i (env_heap env) = Some (Inr (), b1, env_heap env)" by blast
  note b1 = append_view_length [OF b ap]
  have "readable_view b1 @ concat chunks = request_stream reqs" using Cons.prems(5) b1(2) by simp
  from requests.stream_prefix [OF Cons.prems(6) this] obtain ds la part where
    reqs: "reqs = ds @ la" and view: "readable_view b1 = request_stream ds @ part"
    and rest: "part @ concat chunks = request_stream la" and part: "requests.partial part" by blast
  from Cons.prems(8) reqs obtain as e1 as' where
    s1: "serve hash ds (env_engine env) = Some (as, e1)" and s2: "serve hash la e1 = Some (as', e')"
    and resps: "resps = as @ as'" by (auto simp: serve_append split: option.splits)
  let ?c = "c\<lparr>input_buffer := b1\<rparr>"
  have inv1: "conn_inv hash ?c env" using append_input_inv [OF inv ap guard, of "env_heap env"] by simp
  have "\<forall>r \<in> set ds. encodable r" using Cons.prems(6) reqs by simp
  moreover have "readable_bytes (output_buffer ?c) + length (response_stream as) \<le> output_limit ?c"
    using Cons.prems(9) resps by simp
  ultimately obtain bi bo where
    pi: "process_input hash ?c env =
        Some (Inr True, ?c\<lparr>input_buffer := bi, output_buffer := bo\<rparr>, env\<lparr>env_engine := e1\<rparr>)"
    and inv2: "conn_inv hash (?c\<lparr>input_buffer := bi, output_buffer := bo\<rparr>) (env\<lparr>env_engine := e1\<rparr>)"
    and bi: "readable_view bi = part"
    and bo: "readable_view bo = readable_view (output_buffer c) @ response_stream as"
    using process_input_serves [OF inv1 _ Cons.prems(3) _ part _ s1] Cons.prems(2) view by auto
  let ?c2 = "?c\<lparr>input_buffer := bi, output_buffer := bo\<rparr>" and ?env2 = "env\<lparr>env_engine := e1\<rparr>"
  have "readable_bytes bo + length (response_stream as') \<le> output_limit c"
    using arg_cong [OF bo, of length] length_readable_view [of bo] length_readable_view [of "output_buffer c"]
      inv inv2 Cons.prems(9) resps by (simp add: conn_inv_def)
  with Cons.IH [of ?c2 ?env2 la as'] inv2 Cons.prems bi part rest reqs s2 obtain bi' bo' where
    "readable_loop hash (map Received chunks) ?c2 ?env2 =
       Some (Inr (), ?c2\<lparr>input_buffer := bi', output_buffer := bo'\<rparr>, ?env2\<lparr>env_engine := e'\<rparr>)"
    "conn_inv hash (?c2\<lparr>input_buffer := bi', output_buffer := bo'\<rparr>) (?env2\<lparr>env_engine := e'\<rparr>)"
    "readable_view bi' = []" "readable_view bo' = readable_view bo @ response_stream as'" by auto
  then show ?case using ap guard pi Cons.prems(10,11) bo resps by auto
qed

lemma handle_readable_serves:
  assumes "conn_idle hash c env" and "output_limit c \<le> 2 ^ 60" and "oom (env_heap env) = []"
    and "readable_view (input_buffer c) = []" and "\<not> close_after_write c" and "\<not> closing c"
    and "\<forall>r \<in> set reqs. encodable r" and "concat chunks = request_stream reqs"
    and "\<forall>bs \<in> set chunks. length bs \<le> read_chunk_size"
    and "serve hash reqs (env_engine env) = Some (resps, e')"
    and "pending_output_bytes c + length (response_stream resps) \<le> output_limit c"
  shows "\<exists>bi bo. handle_readable hash (map Received chunks) c env =
             Some (Inr True, c\<lparr>input_buffer := bi, output_buffer := bo\<rparr>, env\<lparr>env_engine := e'\<rparr>) \<and>
           conn_inv hash (c\<lparr>input_buffer := bi, output_buffer := bo\<rparr>) (env\<lparr>env_engine := e'\<rparr>) \<and>
           readable_view bi = [] \<and> readable_view bo = readable_view (output_buffer c) @ response_stream resps"
proof -
  have "conn_inv hash c env" using assms(1) by (simp add: conn_idle_def)
  then obtain bi bo where
    "readable_loop hash (map Received chunks) c env =
       Some (Inr (), c\<lparr>input_buffer := bi, output_buffer := bo\<rparr>, env\<lparr>env_engine := e'\<rparr>)"
    "conn_inv hash (c\<lparr>input_buffer := bi, output_buffer := bo\<rparr>) (env\<lparr>env_engine := e'\<rparr>)"
    "readable_view bi = []" "readable_view bo = readable_view (output_buffer c) @ response_stream resps"
    using readable_loop_serves [of hash c env chunks reqs resps e'] assms requests.partial_nil
    by (auto simp: pending_output_bytes_def)
  then show ?thesis using assms(6) by (auto simp: handle_readable_def should_close_def)
qed

end
