(* ===== verification/Client.thy ===== *)
theory Client
  imports Config Connection_Stream
begin

text \<open>
  The command line client, \<^verbatim>\<open>src/client/main.cpp\<close>: it turns its arguments into a request,
  sends the encoded request and reads one response. The system calls are inputs: how the
  attempt to connect ends, and the results of the calls of \<^verbatim>\<open>send\<close> and \<^verbatim>\<open>recv\<close>. The socket
  blocks, with a timeout of five seconds; a list of results that is used up stands for a
  call that timed out.
\<close>

section \<open>Definitions\<close>

definition c_string :: "string \<Rightarrow> bytes" where
  "c_string s = map of_char s"

definition client_parse_unsigned :: "string \<Rightarrow> exn + u64" where
  "client_parse_unsigned s =
     (let (end_pos, error, parsed) = from_chars s
      in if error \<noteq> Errc_ok \<or> end_pos \<noteq> length s
         then Inl (Std_invalid_argument ''expected unsigned decimal integer'')
         else Inr parsed)"

datatype connect_result = Connected | Socket_failed | Timeout_setup_failed | Host_invalid | Connect_failed

definition connect_to :: "connect_result \<Rightarrow> exn + unit" where
  "connect_to result =
     (case result of
        Connected \<Rightarrow> Inr ()
      | Socket_failed \<Rightarrow> Inl (Runtime_error ''socket failed'')
      | Timeout_setup_failed \<Rightarrow> Inl (Runtime_error ''socket timeout setup failed'')
      | Host_invalid \<Rightarrow> Inl (Std_invalid_argument ''host must be an IPv4 address'')
      | Connect_failed \<Rightarrow> Inl (Runtime_error ''connect failed''))"

text \<open>\<^verbatim>\<open>send_all\<close>: its outcome and the bytes that went out; \<open>sent\<close> bytes went out before.\<close>

fun send_all :: "send_result list \<Rightarrow> bytes \<Rightarrow> nat \<Rightarrow> ((exn + unit) \<times> bytes) option" where
  "send_all [] to_send sent =
     (if sent < length to_send then Some (Inl (Runtime_error ''send failed''), []) else Some (Inr (), []))"
| "send_all (result # later) to_send sent =
     (if \<not> sent < length to_send then Some (Inr (), [])
      else case result of
        Sent n \<Rightarrow>
          (if n = 0 then Some (Inl (Runtime_error ''send failed''), [])
           else if n > length to_send - sent then None
           else map_option (\<lambda>(r, out). (r, take n (drop sent to_send) @ out))
                  (send_all later to_send (sent + n)))
      | Send_interrupted \<Rightarrow> send_all later to_send sent
      | _ \<Rightarrow> Some (Inl (Runtime_error ''send failed''), []))"

fun read_response :: "recv_result list \<Rightarrow> buffer \<Rightarrow> heap \<Rightarrow> ((exn + response) \<times> heap) option" where
  "read_response results inp h =
     (case decode_response inp new_response no_error h of
        None \<Rightarrow> None
      | Some (Inl x, inp1, resp, err, h1) \<Rightarrow> Some (Inl x, h1)
      | Some (Inr Decode_complete, inp1, resp, err, h1) \<Rightarrow> Some (Inr resp, h1)
      | Some (Inr Decode_error, inp1, resp, err, h1) \<Rightarrow>
          Some (Inl (Runtime_error (''invalid response: '' @ error_message err)), h1)
      | Some (Inr Decode_incomplete, inp1, resp, err, h1) \<Rightarrow>
          (case results of
             Received bs # later \<Rightarrow>
               (if bs = [] then Some (Inl (Runtime_error ''connection closed before response''), h1)
                else case append_view bs inp1 h1 of
                  None \<Rightarrow> None
                | Some (Inl x, inp2, h2) \<Rightarrow> Some (Inl x, h2)
                | Some (Inr _, inp2, h2) \<Rightarrow> read_response later inp2 h2)
           | Recv_interrupted # later \<Rightarrow> read_response later inp1 h1
           | _ \<Rightarrow> Some (Inl (Runtime_error ''connection closed before response''), h1)))"

declare read_response.simps [simp del]

abbreviation (input) client_usage :: string where
  "client_usage \<equiv> ''usage: highcache_client HOST PORT get|set|delete KEY [VALUE] [TTL_MS]''"

definition parse_request :: "string list \<Rightarrow> heap \<Rightarrow> (exn + request) \<times> heap" where
  "parse_request argv h =
     (if length argv < 5 then (Inl (Std_invalid_argument client_usage), h)
      else
        let command = argv ! 3; key = c_string (argv ! 4); argc = length argv
        in case string_assign key h of
             (Inl x, h1) \<Rightarrow> (Inl x, h1)
           | (Inr _, h1) \<Rightarrow>
               (let req = new_request\<lparr>request_id := 1, req_key := key\<rparr>
                in if command = ''get'' \<and> argc = 5 then (Inr (req\<lparr>opcode := opcode_get\<rparr>), h1)
                   else if command = ''delete'' \<and> argc = 5 then (Inr (req\<lparr>opcode := opcode_erase\<rparr>), h1)
                   else if command = ''set'' \<and> (argc = 6 \<or> argc = 7) then
                     (let v = c_string (argv ! 5)
                      in case string_assign v h1 of
                           (Inl x, h2) \<Rightarrow> (Inl x, h2)
                         | (Inr _, h2) \<Rightarrow>
                             (let req1 = req\<lparr>opcode := opcode_set, req_value := v\<rparr>
                              in if argc = 7
                                 then (case client_parse_unsigned (argv ! 6) of
                                         Inl x \<Rightarrow> (Inl x, h2)
                                       | Inr ttl \<Rightarrow> (Inr (req1\<lparr>ttl_ms := ttl\<rparr>), h2))
                                 else (Inr req1, h2)))
                   else (Inl (Std_invalid_argument client_usage), h1)))"

text \<open>\<^verbatim>\<open>what()\<close> of an exception.\<close>

fun exn_what :: "exn \<Rightarrow> string" where
  "exn_what Bad_alloc = ''std::bad_alloc''"
| "exn_what (Length_error message) = message"
| "exn_what (Overflow_error message) = message"
| "exn_what (Std_invalid_argument message) = message"
| "exn_what (Runtime_error message) = message"
| "exn_what (High_cache_error _ message) = message"

text \<open>The arguments as far as the socket is not needed: the port and the request.\<close>

definition client_arguments :: "string list \<Rightarrow> heap \<Rightarrow> (exn + u16 \<times> request) \<times> heap" where
  "client_arguments argv h =
     (case (if length argv \<ge> 3 then client_parse_unsigned (argv ! 2) else Inr 0) of
        Inl x \<Rightarrow> (Inl x, h)
      | Inr port_value \<Rightarrow>
          (if port_value = 0 \<or> port_value > 65535
           then (Inl (Std_invalid_argument ''port must be between 1 and 65535''), h)
           else case parse_request argv h of
             (Inl x, h1) \<Rightarrow> (Inl x, h1)
           | (Inr req, h1) \<Rightarrow> (Inr (ucast port_value, req), h1)))"

definition print_response :: "response \<Rightarrow> bytes" where
  "print_response resp =
     c_string (to_string_wire_status (status resp)) @
     (if resp_value resp \<noteq> [] then c_string '' '' @ resp_value resp else []) @ c_string [newline]"

text \<open>
  The \<^verbatim>\<open>try\<close> block of \<^verbatim>\<open>main\<close>: the response that was printed, and the bytes that were sent.
\<close>

definition client_exchange ::
    "string list \<Rightarrow> connect_result \<Rightarrow> send_result list \<Rightarrow> recv_result list \<Rightarrow> heap \<Rightarrow>
       ((exn + response) \<times> bytes) option" where
  "client_exchange argv connecting sends recvs h =
     (case client_arguments argv h of
        (Inl x, h1) \<Rightarrow> Some (Inl x, [])
      | (Inr (port, req), h1) \<Rightarrow>
          (case connect_to connecting of
             Inl x \<Rightarrow> Some (Inl x, [])
           | Inr _ \<Rightarrow>
               (case encode_request req h1 of
                  (Inl x, h2) \<Rightarrow> Some (Inl x, [])
                | (Inr bytes, h2) \<Rightarrow>
                    (case send_all sends bytes 0 of
                       None \<Rightarrow> None
                     | Some (Inl x, out) \<Rightarrow> Some (Inl x, out)
                     | Some (Inr _, out) \<Rightarrow>
                         (case new_buffer 4096 h2 of
                            (Inl x, h3) \<Rightarrow> Some (Inl x, out)
                          | (Inr inp, h3) \<Rightarrow>
                              map_option (\<lambda>(r, h4). (r, out)) (read_response recvs inp h3))))))"

record client_outcome =
  exit_code :: int
  std_out :: bytes
  std_err :: string
  on_wire :: bytes

definition client_main ::
    "string list \<Rightarrow> connect_result \<Rightarrow> send_result list \<Rightarrow> recv_result list \<Rightarrow> heap \<Rightarrow> client_outcome option" where
  "client_main argv connecting sends recvs h =
     map_option
       (\<lambda>(r, out). case r of
          Inr resp \<Rightarrow>
            \<lparr>exit_code = (if status resp = 0 then 0 else 2), std_out = print_response resp,
             std_err = [], on_wire = out\<rparr>
        | Inl x \<Rightarrow>
            \<lparr>exit_code = 1, std_out = [], std_err = ''highcache_client: '' @ exn_what x @ [newline],
             on_wire = out\<rparr>)
       (client_exchange argv connecting sends recvs h)"

section \<open>Sending\<close>

text \<open>What goes out is a prefix of the frame, and all of it exactly when no error is reported.\<close>

lemma send_all_ok:
  assumes "send_results_ok rs (length to_send - sent)" and "sent \<le> length to_send"
  shows "\<exists>r out rest. send_all rs to_send sent = Some (r, out) \<and> drop sent to_send = out @ rest \<and>
           (case r of Inr _ \<Rightarrow> rest = [] | Inl x \<Rightarrow> rest \<noteq> [] \<and> x = Runtime_error ''send failed'')"
  using assms
proof (induction rs arbitrary: sent)
  case Nil
  then show ?case by auto
next
  case (Cons r rs)
  show ?case
  proof (cases "sent < length to_send")
    case False
    then show ?thesis by simp
  next
    case more: True
    show ?thesis
    proof (cases r)
      case (Sent n)
      show ?thesis
      proof (cases "n = 0")
        case True
        then show ?thesis using more Sent by simp
      next
        case False
        have "send_results_ok rs (length to_send - (sent + n))" "sent + n \<le> length to_send"
          using Cons.prems Sent more by auto
        from Cons.IH [OF this] obtain r' out rest where
          IH: "send_all rs to_send (sent + n) = Some (r', out)" "drop (sent + n) to_send = out @ rest"
            "case r' of Inr _ \<Rightarrow> rest = [] | Inl x \<Rightarrow> rest \<noteq> [] \<and> x = Runtime_error ''send failed''" by blast
        have "drop sent to_send = take n (drop sent to_send) @ out @ rest"
          using IH(2) by (metis add.commute append_take_drop_id drop_drop)
        with IH False more Sent Cons.prems show ?thesis by auto
      qed
    next
      case Send_interrupted
      then show ?thesis using Cons more by auto
    qed (use more in auto)
  qed
qed

lemma send_all_complete:
  "send_all rs to_send sent = Some (Inr u, out) \<Longrightarrow> sent \<le> length to_send \<Longrightarrow> out = drop sent to_send"
proof (induction rs to_send sent arbitrary: out rule: send_all.induct)
  case (2 result later to_send sent)
  show ?case
  proof (cases "sent < length to_send \<and> (\<exists>n. result = Sent n)")
    case False
    then show ?thesis using 2 by (cases result) (auto split: if_splits)
  next
    case True
    then obtain n where n: "result = Sent n" "sent < length to_send" by blast
    with "2.prems"(1) obtain out' where o: "n \<noteq> 0" "\<not> n > length to_send - sent"
      "send_all later to_send (sent + n) = Some (Inr u, out')" "out = take n (drop sent to_send) @ out'"
      by (auto split: if_splits)
    then have "out' = drop (sent + n) to_send" using 2(1) n by auto
    then show ?thesis using o(4) by (metis add.commute append_take_drop_id drop_drop)
  qed
qed (auto split: if_splits)

section \<open>Receiving\<close>

definition arrived :: "recv_result list \<Rightarrow> bytes" where
  "arrived rs = concat (map (\<lambda>r. case r of Received bs \<Rightarrow> bs | _ \<Rightarrow> []) rs)"

text \<open>Nothing but non-empty chunks and interruptions.\<close>

definition only_data :: "recv_result list \<Rightarrow> bool" where
  "only_data rs \<longleftrightarrow> (\<forall>r \<in> set rs. r = Recv_interrupted \<or> (\<exists>bs. r = Received bs \<and> bs \<noteq> []))"

lemma read_response_whole:
  assumes "buffer_inv b" and "oom h = []" and "response_encodable resp" and "readable_view b = response_frame resp"
  shows "read_response rs b h = Some (Inr resp, h)"
proof -
  from assms(4) have "readable_view b = response_frame resp @ []" by simp
  from response_frame_exact [OF assms(1) this assms(3,2), where resp = new_response and err = no_error]
  show ?thesis by (subst read_response.simps) auto
qed

lemma read_response_ok:
  assumes "buffer_inv b" and "oom h = []" and "storage_capacity b \<le> 2 * 2 ^ 30"
    and "response_encodable resp" and "only_data rs" and "readable_view b @ arrived rs = response_frame resp"
  shows "read_response rs b h = Some (Inr resp, h)"
  using assms
proof (induction rs arbitrary: b)
  case Nil
  then show ?case by (intro read_response_whole) (simp_all add: arrived_def)
next
  case (Cons r rs)
  let ?f = "response_frame resp"
  show ?case
  proof (cases "arrived (r # rs) = []")
    case True
    then show ?thesis using Cons.prems by (intro read_response_whole) simp_all
  next
    case False
    have "readable_view b = take (length (readable_view b)) ?f" "length (readable_view b) < length ?f"
      unfolding Cons.prems(6) [symmetric] using False by simp_all
    from response_prefix_incomplete [OF Cons.prems(1) this(1) Cons.prems(4) this(2)]
    have dec: "decode_response b new_response no_error h =
      Some (Inr Decode_incomplete, b, new_response, no_error, h)" .
    have only: "only_data rs" using Cons.prems(5) by (simp add: only_data_def)
    show ?thesis
    proof (cases r)
      case (Received bs)
      have bs: "bs \<noteq> []" using Cons.prems(5) Received by (simp add: only_data_def)
      have "length (readable_view b @ arrived (r # rs)) = length ?f" using Cons.prems(6) by simp
      then have "readable_bytes b + length bs \<le> 2 ^ 30"
        using Cons.prems(4) length_readable_view [OF Cons.prems(1)] Received
        by (simp add: length_response_frame response_encodable_def arrived_def)
      from append_view_bounded [OF Cons.prems(1,2,3) this] obtain b' where
        b': "append_view bs b h = Some (Inr (), b', h)" "storage_capacity b' \<le> 2 * 2 ^ 30" by auto
      have "readable_view b' @ arrived rs = ?f"
        using append_view_length(2) [OF Cons.prems(1) b'(1)] Cons.prems(6) Received by (simp add: arrived_def)
      from Cons.IH [OF append_view_length(1) [OF Cons.prems(1) b'(1)] Cons.prems(2) b'(2) Cons.prems(4) only this]
      show ?thesis using dec b'(1) Received bs by (subst read_response.simps) simp
    next
      case Recv_interrupted
      then have "readable_view b @ arrived rs = ?f" using Cons.prems(6) by (simp add: arrived_def)
      from Cons.IH [OF Cons.prems(1-4) only this] show ?thesis
        using dec Recv_interrupted by (subst read_response.simps) simp
    qed (use Cons.prems(5) in \<open>auto simp: only_data_def\<close>)
  qed
qed

section \<open>The whole exchange\<close>

lemma string_assign_nil: "oom h = [] \<Longrightarrow> string_assign bs h = (Inr (), h)"
  by (simp add: string_assign_def)

lemma client_arguments_heap:
  assumes "oom h = []" and "client_arguments argv h = (Inr (port, req), h1)"
  shows "h1 = h"
  using assms by (auto simp: client_arguments_def parse_request_def string_assign_nil Let_def
      split: sum.splits if_splits)

lemma client_exchange_ok:
  assumes "oom h = []" and "client_arguments argv h = (Inr (port, req), h1)" and "encodable req"
    and "send_all sends (request_frame req) 0 = Some (Inr (), out)"
    and "response_encodable resp" and "only_data recvs" and "arrived recvs = response_frame resp"
  shows "client_exchange argv Connected sends recvs h = Some (Inr resp, out)"
proof -
  have h1: "h1 = h" by (rule client_arguments_heap [OF assms(1,2)])
  have enc: "encode_request req h = (Inr (request_frame req), h)"
    using encode_request_accepts [OF assms(3)] assms(1) by simp
  obtain b where b: "new_buffer 4096 h = (Inr b, h)" "storage_capacity b = 4096"
    using assms(1) by (simp add: new_buffer_def vector_max_size_def)
  have "buffer_inv b" "readable_view b = []" using new_buffer_ok [OF b(1)] by simp_all
  then have "read_response recvs b h = Some (Inr resp, h)"
    using assms b(2) by (intro read_response_ok) simp_all
  then show ?thesis
    using assms(2,4) h1 enc b(1) by (simp add: client_exchange_def connect_to_def)
qed

text \<open>A request made from the command line can be sent unless an argument is too long.\<close>

lemma client_request_encodable:
  assumes "client_arguments argv h = (Inr (port, req), h1)"
  shows "encodable req \<longleftrightarrow>
           length (req_key req) \<le> max_key_length \<and> length (req_value req) \<le> max_value_length \<and> ttl_ms req \<le> int64_max"
proof -
  have "is_valid_opcode (opcode req) \<and> (opcode req = opcode_set \<or> req_value req = [] \<and> ttl_ms req = 0)"
    using assms by (auto simp: client_arguments_def parse_request_def new_request_def is_valid_opcode_def Let_def
        split: sum.splits if_splits prod.splits)
  then show ?thesis by (auto simp: encodable_def)
qed

end
