(* ===== verification/Unique_Fd.thy ===== *)
theory Unique_Fd
  imports HC_Prelude
begin

text \<open>
  \<^verbatim>\<open>UniqueFd\<close> of \<^verbatim>\<open>include/highcache/net/unique_fd.h\<close>: the owner of a file descriptor. The
  calls of \<^verbatim>\<open>close\<close> are recorded in the order in which they are made.
\<close>

section \<open>Definitions\<close>

record unique_fd =
  raw_fd :: int

definition no_fd :: unique_fd where
  "no_fd = \<lparr>raw_fd = - 1\<rparr>"

definition make_fd :: "int \<Rightarrow> unique_fd" where
  "make_fd fd = \<lparr>raw_fd = fd\<rparr>"

definition fd_valid :: "unique_fd \<Rightarrow> bool" where
  "fd_valid u \<longleftrightarrow> raw_fd u \<ge> 0"

definition fd_release :: "unique_fd \<Rightarrow> int \<times> unique_fd" where
  "fd_release u = (raw_fd u, u\<lparr>raw_fd := - 1\<rparr>)"

definition fd_reset :: "int \<Rightarrow> unique_fd \<Rightarrow> int list \<Rightarrow> unique_fd \<times> int list" where
  "fd_reset replacement u closed =
     (u\<lparr>raw_fd := replacement\<rparr>, if raw_fd u \<ge> 0 then closed @ [raw_fd u] else closed)"

definition fd_destroy :: "unique_fd \<Rightarrow> int list \<Rightarrow> int list" where
  "fd_destroy u closed = snd (fd_reset (- 1) u closed)"

text \<open>The move constructor: the new handle and what is left of the old one.\<close>

definition fd_move :: "unique_fd \<Rightarrow> unique_fd \<times> unique_fd" where
  "fd_move other = (let (fd, other') = fd_release other in (make_fd fd, other'))"

text \<open>Move assignment between two different handles, and of a handle to itself.\<close>

definition fd_move_assign :: "unique_fd \<Rightarrow> unique_fd \<Rightarrow> int list \<Rightarrow> unique_fd \<times> unique_fd \<times> int list" where
  "fd_move_assign self other closed =
     (let (fd, other') = fd_release other; (self', closed') = fd_reset fd self closed
      in (self', other', closed'))"

definition fd_self_assign :: "unique_fd \<Rightarrow> int list \<Rightarrow> unique_fd \<times> int list" where
  "fd_self_assign self closed = (self, closed)"

section \<open>Ownership\<close>

text \<open>
  The descriptors that a list of handles owns. No operation loses or duplicates a
  descriptor: what was owned or closed before is owned or closed afterwards, once.
\<close>

definition fds_owned :: "unique_fd list \<Rightarrow> int multiset" where
  "fds_owned us = mset (filter (\<lambda>fd. fd \<ge> 0) (map raw_fd us))"

lemma fds_owned_simps [simp]:
  "fds_owned [] = {#}"
  "fds_owned (u # us) = (if raw_fd u \<ge> 0 then {#raw_fd u#} else {#}) + fds_owned us"
  "fds_owned (us @ vs) = fds_owned us + fds_owned vs"
  by (simp_all add: fds_owned_def)

lemma fd_destroy_owned: "fds_owned [] + mset (fd_destroy u closed) = fds_owned [u] + mset closed"
  by (simp add: fd_destroy_def fd_reset_def)

lemma fd_move_owned: "fd_move other = (new, old) \<Longrightarrow> fds_owned [new, old] = fds_owned [other] \<and> \<not> fd_valid old"
  by (auto simp: fd_move_def fd_release_def make_fd_def fd_valid_def)

lemma fd_move_assign_owned:
  "fd_move_assign self other closed = (self', other', closed') \<Longrightarrow>
     fds_owned [self', other'] + mset closed' = fds_owned [self, other] + mset closed \<and> \<not> fd_valid other' \<and>
     raw_fd self' = raw_fd other"
  by (auto simp: fd_move_assign_def fd_release_def fd_reset_def fd_valid_def)

end
