(* ===== verification/Cache_Server.thy ===== *)
theory Cache_Server
  imports Connection_Stream Cache_Liveness Unique_Fd
begin

text \<open>
  \<^verbatim>\<open>src/net/cache_server.cpp\<close>: an acceptor thread hands the accepted sockets round to the
  workers, each of which serves its connections; a timer makes time pass in the engine.
  This theory holds what each thread does between two points at which it waits; the theory
  \<^verbatim>\<open>Worker_Threads\<close> holds how they interleave. The system calls are inputs: the
  results of \<^verbatim>\<open>read\<close>, \<^verbatim>\<open>write\<close>, \<^verbatim>\<open>accept4\<close> and \<^verbatim>\<open>epoll_ctl\<close> in the order of the calls.
\<close>

section \<open>System calls\<close>

text \<open>
  A call that sets something up either works or fails, and then \<^verbatim>\<open>system_category().message\<close>
  names the reason.
\<close>

type_synonym sys_outcome = "string option"

definition network_error :: "string \<Rightarrow> string \<Rightarrow> exn" where
  "network_error operation reason = High_cache_error Network (operation @ '': '' @ reason)"

definition sys_call :: "string \<Rightarrow> sys_outcome \<Rightarrow> exn + unit" where
  "sys_call operation outcome =
     (case outcome of None \<Rightarrow> Inr () | Some reason \<Rightarrow> Inl (network_error operation reason))"

text \<open>The next statement, unless an exception has been thrown.\<close>

definition on_success :: "exn + 'a \<Rightarrow> ('a \<Rightarrow> exn + 'b) \<Rightarrow> exn + 'b" where
  "on_success r f = (case r of Inl x \<Rightarrow> Inl x | Inr a \<Rightarrow> f a)"

definition create_epoll :: "sys_outcome \<Rightarrow> exn + unit" where
  "create_epoll outcome = sys_call ''epoll_create1 failed'' outcome"

definition create_event :: "sys_outcome \<Rightarrow> exn + unit" where
  "create_event outcome = sys_call ''eventfd failed'' outcome"

definition create_timer :: "sys_outcome \<Rightarrow> exn + unit" where
  "create_timer outcome = sys_call ''timerfd_create failed'' outcome"

definition add_to_epoll :: "int \<Rightarrow> u32 \<Rightarrow> sys_outcome \<Rightarrow> (int \<Rightarrow> u32 option) \<Rightarrow> exn + (int \<Rightarrow> u32 option)" where
  "add_to_epoll fd events outcome watched =
     (case sys_call ''epoll_ctl add failed'' outcome of
        Inl x \<Rightarrow> Inl x
      | Inr _ \<Rightarrow> Inr (watched(fd \<mapsto> events)))"

definition modify_epoll :: "int \<Rightarrow> u32 \<Rightarrow> bool \<Rightarrow> (int \<Rightarrow> u32 option) \<Rightarrow> bool \<times> (int \<Rightarrow> u32 option)" where
  "modify_epoll fd events works watched = (works, if works then watched(fd \<mapsto> events) else watched)"

definition remove_from_epoll :: "int \<Rightarrow> (int \<Rightarrow> u32 option) \<Rightarrow> (int \<Rightarrow> u32 option)" where
  "remove_from_epoll fd watched = watched(fd := None)"

datatype io_result = Io_done u64 | Io_interrupted | Io_failed

text \<open>
  \<^verbatim>\<open>wake_event\<close> adds one to the counter of an event descriptor, unless the write fails;
  \<^verbatim>\<open>drain_counter\<close> reads it, which resets it. Both try again when interrupted.
\<close>

fun wake_event :: "io_result list \<Rightarrow> u64 \<Rightarrow> u64" where
  "wake_event [] counter = counter"
| "wake_event (Io_done _ # later) counter = counter + 1"
| "wake_event (Io_interrupted # later) counter = wake_event later counter"
| "wake_event (Io_failed # later) counter = counter"

fun drain_counter :: "io_result list \<Rightarrow> u64 \<Rightarrow> u64" where
  "drain_counter [] counter = counter"
| "drain_counter (Io_done _ # later) counter = 0"
| "drain_counter (Io_interrupted # later) counter = drain_counter later counter"
| "drain_counter (Io_failed # later) counter = counter"

section \<open>A worker\<close>

record worker =
  wk_output_limit :: nat
  wk_stop :: bool
  wk_pending :: "unique_fd list"
  wk_connections :: "(int \<times> connection) list"
  wk_watched :: "int \<Rightarrow> u32 option"
  wk_wakeup :: u64
  wk_closed :: "int list"

definition new_worker :: "nat \<Rightarrow> int \<Rightarrow> sys_outcome \<Rightarrow> sys_outcome \<Rightarrow> sys_outcome \<Rightarrow> exn + worker" where
  "new_worker limit wakeup_fd epoll_outcome event_outcome add_outcome =
     (case create_epoll epoll_outcome of
        Inl x \<Rightarrow> Inl x
      | Inr _ \<Rightarrow>
          (case create_event event_outcome of
             Inl x \<Rightarrow> Inl x
           | Inr _ \<Rightarrow>
               (case add_to_epoll wakeup_fd EPOLLIN add_outcome Map.empty of
                  Inl x \<Rightarrow> Inl x
                | Inr watched \<Rightarrow>
                    Inr \<lparr>wk_output_limit = limit, wk_stop = False, wk_pending = [], wk_connections = [],
                         wk_watched = watched, wk_wakeup = 0, wk_closed = []\<rparr>)))"

text \<open>
  \<^verbatim>\<open>enqueue\<close> owns the socket: when the worker has been told to stop, or when there is no
  memory for the queue, the socket is closed.
\<close>

definition enqueue ::
    "unique_fd \<Rightarrow> io_result list \<Rightarrow> worker \<Rightarrow> heap \<Rightarrow> (exn + unit) \<times> worker \<times> heap" where
  "enqueue socket writes w h =
     (if wk_stop w then (Inr (), w\<lparr>wk_closed := fd_destroy socket (wk_closed w)\<rparr>, h)
      else case container_alloc h of
        (Inl x, h1) \<Rightarrow> (Inl x, w\<lparr>wk_closed := fd_destroy socket (wk_closed w)\<rparr>, h1)
      | (Inr _, h1) \<Rightarrow>
          (let (stored, _) = fd_move socket
           in (Inr (), w\<lparr>wk_pending := wk_pending w @ [stored],
                         wk_wakeup := wake_event writes (wk_wakeup w)\<rparr>, h1)))"

definition worker_request_stop :: "io_result list \<Rightarrow> worker \<Rightarrow> worker" where
  "worker_request_stop writes w = w\<lparr>wk_stop := True, wk_wakeup := wake_event writes (wk_wakeup w)\<rparr>"

text \<open>
  The loop of \<^verbatim>\<open>install_pending\<close>, with the outcome of \<^verbatim>\<open>epoll_ctl\<close> for each socket: the
  connection object and its buffers, then the node of the table are allocated. The result
  also lists the handles left in the local vector; only a socket for which there was not
  even memory for the object is still there.
\<close>

fun install_loop ::
    "(int \<Rightarrow> sys_outcome) \<Rightarrow> unique_fd list \<Rightarrow> worker \<Rightarrow> conn_env \<Rightarrow> unique_fd list \<times> worker \<times> conn_env" where
  "install_loop outcomes [] w env = ([], w, env)"
| "install_loop outcomes (socket # later) w env =
     (let fd = raw_fd socket;
          next = (\<lambda>left w1 env1.
            case install_loop outcomes later w1 env1 of (ls, w2, env2) \<Rightarrow> (left # ls, w2, env2))
      in case container_alloc (env_heap env) of
           (Inl x, h1) \<Rightarrow> next socket w (env\<lparr>env_heap := h1\<rparr>)
         | (Inr _, h1) \<Rightarrow>
             (let (owned, left) = fd_move socket;
                  dropped = w\<lparr>wk_closed := fd_destroy owned (wk_closed w)\<rparr>
              in case new_connection (wk_output_limit w) h1 of
                   (Inl x, h2) \<Rightarrow> next left dropped (env\<lparr>env_heap := h2\<rparr>)
                 | (Inr c, h2) \<Rightarrow>
                     (case container_alloc h2 of
                        (Inl x, h3) \<Rightarrow> next left dropped (env\<lparr>env_heap := h3\<rparr>)
                      | (Inr _, h3) \<Rightarrow>
                          (if fd \<in> fst ` set (wk_connections w)
                           then next left dropped (env\<lparr>env_heap := h3\<rparr>)
                           else case add_to_epoll fd (desired_events c) (outcomes fd) (wk_watched w) of
                             Inl x \<Rightarrow> next left dropped (env\<lparr>env_heap := h3\<rparr>)
                           | Inr watched \<Rightarrow>
                               next left (w\<lparr>wk_connections := (fd, c) # wk_connections w,
                                            wk_watched := watched\<rparr>)
                                 (env\<lparr>env_heap := h3\<rparr>)))))"

definition destroy_all :: "unique_fd list \<Rightarrow> int list \<Rightarrow> int list" where
  "destroy_all us closed = fold fd_destroy us closed"

definition install_pending :: "(int \<Rightarrow> sys_outcome) \<Rightarrow> worker \<Rightarrow> conn_env \<Rightarrow> worker \<times> conn_env" where
  "install_pending outcomes w env =
     (case install_loop outcomes (wk_pending w) (w\<lparr>wk_pending := []\<rparr>) env of
        (left, w1, env1) \<Rightarrow> (w1\<lparr>wk_closed := destroy_all left (wk_closed w1)\<rparr>, env1))"

text \<open>
  \<^verbatim>\<open>handle_connection_event\<close>. First the connection: whether it is kept, what was sent, and
  the connection afterwards; an exception ends the handling, and the connection is dropped.
\<close>

definition connection_event ::
    "(bytes \<Rightarrow> u64) \<Rightarrow> u32 \<Rightarrow> recv_result list \<Rightarrow> send_result list \<Rightarrow> connection \<Rightarrow> conn_env \<Rightarrow>
       (bool \<times> bytes \<times> connection \<times> conn_env) option" where
  "connection_event hash events recvs sends c env =
     (let keep = (events AND EPOLLERR = 0)
      in case (if keep \<and> events AND (EPOLLIN OR EPOLLRDHUP OR EPOLLHUP) \<noteq> 0
               then handle_readable hash recvs c env else Some (Inr keep, c, env)) of
           None \<Rightarrow> None
         | Some (Inl x, c1, env1) \<Rightarrow> Some (False, [], c1, env1)
         | Some (Inr keep1, c1, env1) \<Rightarrow>
             (case (if keep1 \<and> events AND EPOLLOUT \<noteq> 0 then handle_writable sends c1
                    else Some (keep1, [], c1)) of
                None \<Rightarrow> None
              | Some (keep2, sent, c2) \<Rightarrow>
                  (if keep2 \<and> events AND (EPOLLRDHUP OR EPOLLHUP) \<noteq> 0
                   then let c3 = note_peer_closed c2 in Some (\<not> should_close c3, sent, c3, env1)
                   else Some (keep2, sent, c2, env1))))"

definition handle_connection_event ::
    "(bytes \<Rightarrow> u64) \<Rightarrow> int \<Rightarrow> u32 \<Rightarrow> recv_result list \<Rightarrow> send_result list \<Rightarrow> bool \<Rightarrow> worker \<Rightarrow> conn_env \<Rightarrow>
       (bytes \<times> worker \<times> conn_env) option" where
  "handle_connection_event hash fd events recvs sends mod_works w env =
     (case map_of (wk_connections w) fd of
        None \<Rightarrow> Some ([], w, env)
      | Some c \<Rightarrow>
          (case connection_event hash events recvs sends c env of
             None \<Rightarrow> None
           | Some (keep, sent, c1, env1) \<Rightarrow>
               (let (keep1, watched) =
                      (if keep \<and> \<not> should_close c1
                       then modify_epoll fd (desired_events c1) mod_works (wk_watched w)
                       else (keep, wk_watched w))
                in if \<not> keep1 \<or> should_close c1
                   then Some (sent,
                     w\<lparr>wk_connections := filter (\<lambda>x. fst x \<noteq> fd) (wk_connections w),
                       wk_watched := remove_from_epoll fd watched,
                       wk_closed := fd_destroy (make_fd fd) (wk_closed w)\<rparr>, env1)
                   else Some (sent,
                     w\<lparr>wk_connections := map (\<lambda>x. if fst x = fd then (fd, c1) else x) (wk_connections w),
                       wk_watched := watched\<rparr>, env1))))"

text \<open>
  One round of \<^verbatim>\<open>Worker::run\<close>: the events that \<^verbatim>\<open>epoll_wait\<close> reports are handled in order,
  then the new sockets are installed if the worker was woken up. The result lists what
  was sent to whom.
\<close>

datatype worker_event =
    Wakeup "io_result list"
  | Ready int u32 "recv_result list" "send_result list" bool

fun worker_events ::
    "(bytes \<Rightarrow> u64) \<Rightarrow> worker_event list \<Rightarrow> bool \<Rightarrow> worker \<Rightarrow> conn_env \<Rightarrow>
       (bool \<times> (int \<times> bytes) list \<times> worker \<times> conn_env) option" where
  "worker_events hash [] seen w env = Some (seen, [], w, env)"
| "worker_events hash (Wakeup reads # later) seen w env =
     worker_events hash later True (w\<lparr>wk_wakeup := drain_counter reads (wk_wakeup w)\<rparr>) env"
| "worker_events hash (Ready fd events recvs sends mod_works # later) seen w env =
     (case handle_connection_event hash fd events recvs sends mod_works w env of
        None \<Rightarrow> None
      | Some (sent, w1, env1) \<Rightarrow>
          map_option (\<lambda>(seen', out, w2, env2). (seen', (fd, sent) # out, w2, env2))
            (worker_events hash later seen w1 env1))"

definition worker_round ::
    "(bytes \<Rightarrow> u64) \<Rightarrow> worker_event list \<Rightarrow> (int \<Rightarrow> sys_outcome) \<Rightarrow> worker \<Rightarrow> conn_env \<Rightarrow>
       ((int \<times> bytes) list \<times> worker \<times> conn_env) option" where
  "worker_round hash events outcomes w env =
     (case worker_events hash events False w env of
        None \<Rightarrow> None
      | Some (seen, out, w1, env1) \<Rightarrow>
          (if seen \<and> \<not> wk_stop w1
           then (case install_pending outcomes w1 env1 of (w2, env2) \<Rightarrow> Some (out, w2, env2))
           else Some (out, w1, env1)))"

text \<open>What \<^verbatim>\<open>Worker::run\<close> does after its loop.\<close>

definition worker_finish :: "worker \<Rightarrow> worker" where
  "worker_finish w =
     (let w1 = w\<lparr>wk_closed := destroy_all (map (make_fd \<circ> fst) (wk_connections w)) (wk_closed w),
                 wk_connections := []\<rparr>
      in w1\<lparr>wk_closed := destroy_all (wk_pending w1) (wk_closed w1), wk_pending := []\<rparr>)"

section \<open>The server\<close>

record server_options =
  opt_host :: string
  opt_port :: u16
  opt_worker_threads :: u64
  opt_pending_output_limit :: u64

definition validate_options :: "server_options \<Rightarrow> exn + server_options" where
  "validate_options options =
     (if opt_worker_threads options = 0
      then Inl (High_cache_error Invalid_argument ''server worker count must be greater than zero'')
      else if opt_pending_output_limit options < of_nat response_header_size
      then Inl (High_cache_error Invalid_argument ''server output limit is too small'')
      else Inr options)"

text \<open>
  The outcomes of the calls that make the listening socket, in order; \<open>lo_inet_pton\<close> says which
  texts \<^verbatim>\<open>inet_pton\<close> accepts as an IPv4 address.
\<close>

record listen_outcomes =
  lo_socket :: sys_outcome
  lo_setsockopt :: sys_outcome
  lo_inet_pton :: "string \<Rightarrow> bool"
  lo_bind :: sys_outcome
  lo_listen :: sys_outcome
  lo_getsockname :: sys_outcome
  lo_port :: u16

text \<open>\<^verbatim>\<open>std::string::c_str\<close>, as a function that reads a C string sees it.\<close>

definition c_str :: "string \<Rightarrow> string" where
  "c_str s = takeWhile (\<lambda>c. c \<noteq> CHR 0x00) s"

definition create_listen_socket :: "server_options \<Rightarrow> listen_outcomes \<Rightarrow> exn + u16" where
  "create_listen_socket options lo =
     on_success (sys_call ''socket failed'' (lo_socket lo)) (\<lambda>_.
     on_success (sys_call ''setsockopt SO_REUSEADDR failed'' (lo_setsockopt lo)) (\<lambda>_.
     if \<not> lo_inet_pton lo (c_str (opt_host options))
     then Inl (High_cache_error Invalid_argument ''server host must be an IPv4 address'')
     else
     on_success (sys_call ''bind failed'' (lo_bind lo)) (\<lambda>_.
     on_success (sys_call ''listen failed'' (lo_listen lo)) (\<lambda>_.
     on_success (sys_call ''getsockname failed'' (lo_getsockname lo)) (\<lambda>_. Inr (lo_port lo))))))"

record server =
  srv_options :: server_options
  srv_port :: u16
  srv_workers :: "worker list"
  srv_threads :: "bool list"
  srv_acceptor :: bool
  srv_ever_started :: bool
  srv_stop :: bool
  srv_running :: bool
  srv_stop_event :: u64
  srv_next_worker :: u64

text \<open>
  The constructor of \<^verbatim>\<open>Impl\<close>. For each worker there is an allocation, and its own calls:
  the outcomes of \<^verbatim>\<open>epoll_create1\<close>, \<^verbatim>\<open>eventfd\<close> and \<^verbatim>\<open>epoll_ctl\<close>, and the wakeup descriptor.
\<close>

record setup_outcomes =
  so_listen :: listen_outcomes
  so_epoll :: sys_outcome
  so_event :: sys_outcome
  so_timer :: sys_outcome
  so_adds :: "sys_outcome \<times> sys_outcome \<times> sys_outcome"
  so_workers :: "nat \<Rightarrow> int \<times> sys_outcome \<times> sys_outcome \<times> sys_outcome"

fun make_workers ::
    "nat \<Rightarrow> (nat \<Rightarrow> int \<times> sys_outcome \<times> sys_outcome \<times> sys_outcome) \<Rightarrow> nat list \<Rightarrow> heap \<Rightarrow>
       (exn + worker list) \<times> heap" where
  "make_workers limit outs [] h = (Inr [], h)"
| "make_workers limit outs (i # is) h =
     (case container_alloc h of
        (Inl x, h1) \<Rightarrow> (Inl x, h1)
      | (Inr _, h1) \<Rightarrow>
          (case outs i of (fd, o1, o2, o3) \<Rightarrow>
             (case new_worker limit fd o1 o2 o3 of
                Inl x \<Rightarrow> (Inl x, h1)
              | Inr w \<Rightarrow>
                  (case make_workers limit outs is h1 of
                     (Inl x, h2) \<Rightarrow> (Inl x, h2)
                   | (Inr ws, h2) \<Rightarrow> (Inr (w # ws), h2)))))"

definition new_server :: "server_options \<Rightarrow> setup_outcomes \<Rightarrow> heap \<Rightarrow> (exn + server) \<times> heap" where
  "new_server options so h =
     (case (on_success (validate_options options) (\<lambda>_.
            on_success (create_listen_socket options (so_listen so)) (\<lambda>port.
            on_success (create_epoll (so_epoll so)) (\<lambda>_.
            on_success (create_event (so_event so)) (\<lambda>_.
            on_success (create_timer (so_timer so)) (\<lambda>_.
            on_success (sys_call ''epoll_ctl add failed'' (fst (so_adds so))) (\<lambda>_.
            on_success (sys_call ''epoll_ctl add failed'' (fst (snd (so_adds so)))) (\<lambda>_.
            on_success (sys_call ''epoll_ctl add failed'' (snd (snd (so_adds so)))) (\<lambda>_.
            Inr port))))))))) of
        Inl x \<Rightarrow> (Inl x, h)
      | Inr port \<Rightarrow>
          (if unat (opt_worker_threads options) > 2 ^ 60 - 1 then (Inl (Length_error ''vector::reserve''), h)
           else case container_alloc h of
             (Inl x, h1) \<Rightarrow> (Inl x, h1)
           | (Inr _, h1) \<Rightarrow>
               (case make_workers (unat (opt_pending_output_limit options)) (so_workers so)
                       [0..<unat (opt_worker_threads options)] h1 of
                  (Inl x, h2) \<Rightarrow> (Inl x, h2)
                | (Inr ws, h2) \<Rightarrow>
                    (Inr \<lparr>srv_options = options, srv_port = port, srv_workers = ws,
                          srv_threads = replicate (length ws) False, srv_acceptor = False,
                          srv_ever_started = False, srv_stop = False, srv_running = False,
                          srv_stop_event = 0, srv_next_worker = 0\<rparr>, h2))))"

text \<open>
  \<^verbatim>\<open>handle_timer\<close>: every expiration of the timer since the last time is one tick of the
  engine; an exception ends the loop, and the expirations that are left are forgotten.
\<close>

fun tick_times :: "nat \<Rightarrow> cache_engine \<Rightarrow> cache_engine option" where
  "tick_times 0 e = Some e"
| "tick_times (Suc n) e =
     (case engine_tick e of
        None \<Rightarrow> None
      | Some (Inl x, e1) \<Rightarrow> Some e1
      | Some (Inr _, e1) \<Rightarrow> tick_times n e1)"

fun handle_timer :: "io_result list \<Rightarrow> cache_engine \<Rightarrow> cache_engine option" where
  "handle_timer [] e = Some e"
| "handle_timer (Io_done expirations # later) e = tick_times (unat expirations) e"
| "handle_timer (Io_interrupted # later) e = handle_timer later e"
| "handle_timer (Io_failed # later) e = Some e"

text \<open>
  \<^verbatim>\<open>accept_connections\<close>. An observation is the result of \<^verbatim>\<open>accept4\<close> (with the results of the
  \<^verbatim>\<open>write\<close> calls that then wake the worker), or that the stop flag was found set.
\<close>

datatype accept_result =
  Accepted int "io_result list" | Accept_interrupted | Accept_aborted | Accept_failed | Accept_stop_seen

fun accept_connections :: "accept_result list \<Rightarrow> server \<Rightarrow> heap \<Rightarrow> (server \<times> heap) option" where
  "accept_connections [] s h = Some (s, h)"
| "accept_connections (result # later) s h =
     (case result of
        Accepted fd writes \<Rightarrow>
          (if srv_workers s = [] then None
           else let i = unat (srv_next_worker s mod of_nat (length (srv_workers s)));
                    s1 = s\<lparr>srv_next_worker := srv_next_worker s + 1\<rparr>
                in case enqueue (make_fd fd) writes (srv_workers s ! i) h of
                     (_, w, h1) \<Rightarrow>
                       accept_connections later (s1\<lparr>srv_workers := (srv_workers s)[i := w]\<rparr>) h1)
      | Accept_interrupted \<Rightarrow> accept_connections later s h
      | Accept_aborted \<Rightarrow> accept_connections later s h
      | Accept_failed \<Rightarrow> Some (s, h)
      | Accept_stop_seen \<Rightarrow> Some (s, h))"

text \<open>One round of \<^verbatim>\<open>run_acceptor\<close>.\<close>

datatype acceptor_event = Stop_ready "io_result list" | Timer_ready "io_result list" | Listen_ready "accept_result list"

fun acceptor_events :: "acceptor_event list \<Rightarrow> server \<Rightarrow> conn_env \<Rightarrow> (server \<times> conn_env) option" where
  "acceptor_events [] s env = Some (s, env)"
| "acceptor_events (Stop_ready reads # later) s env =
     acceptor_events later (s\<lparr>srv_stop_event := drain_counter reads (srv_stop_event s)\<rparr>) env"
| "acceptor_events (Timer_ready reads # later) s env =
     (case handle_timer reads (env_engine env) of
        None \<Rightarrow> None
      | Some e \<Rightarrow> acceptor_events later s (env\<lparr>env_engine := e\<rparr>))"
| "acceptor_events (Listen_ready results # later) s env =
     (case accept_connections results s (env_heap env) of
        None \<Rightarrow> None
      | Some (s1, h) \<Rightarrow> acceptor_events later s1 (env\<lparr>env_heap := h\<rparr>))"

section \<open>Starting and stopping\<close>

text \<open>
  A worker whose thread runs is joined after it has been told to stop: \<^verbatim>\<open>join\<close> returns when
  \<^verbatim>\<open>run\<close> has, so its last actions have been taken.
\<close>

definition worker_join :: "bool \<Rightarrow> worker \<Rightarrow> worker" where
  "worker_join joinable w = (if joinable then worker_finish w else w)"

text \<open>
  \<^verbatim>\<open>start\<close>: the outcome of \<^verbatim>\<open>timerfd_settime\<close> and of creating the threads of the workers and
  of the acceptor. When a thread cannot be created, those that run already are stopped.
\<close>

definition server_start :: "sys_outcome \<Rightarrow> (nat \<Rightarrow> sys_outcome) \<Rightarrow> sys_outcome \<Rightarrow> server \<Rightarrow> (exn + unit) \<times> server" where
  "server_start timer_outcome thread_outcomes acceptor_outcome s =
     (if srv_ever_started s
      then (Inl (High_cache_error Invalid_argument ''cache server can only be started once''), s)
      else
        let s1 = s\<lparr>srv_ever_started := True\<rparr>
        in case sys_call ''timerfd_settime failed'' timer_outcome of
             Inl x \<Rightarrow> (Inl x, s1)
           | Inr _ \<Rightarrow>
               (let n = length (srv_workers s);
                    started = length (takeWhile (\<lambda>i. thread_outcomes i = None) [0..<n]);
                    failure = (if started < n then the (thread_outcomes started) else the acceptor_outcome)
                in if started = n \<and> acceptor_outcome = None
                   then (Inr (), s1\<lparr>srv_threads := replicate n True, srv_acceptor := True, srv_running := True\<rparr>)
                   else (Inl (Runtime_error failure),
                     s1\<lparr>srv_running := False,
                        srv_workers := map (worker_join True \<circ> worker_request_stop [Io_done 8])
                          (take started (srv_workers s)) @ drop started (srv_workers s)\<rparr>)))"

definition server_request_stop :: "io_result list \<Rightarrow> server \<Rightarrow> server" where
  "server_request_stop writes s = s\<lparr>srv_stop := True, srv_stop_event := wake_event writes (srv_stop_event s)\<rparr>"

definition server_join :: "server \<Rightarrow> server" where
  "server_join s =
     s\<lparr>srv_acceptor := False,
       srv_workers := map2 (\<lambda>joinable w. worker_join joinable (worker_request_stop [Io_done 8] w))
         (srv_threads s) (srv_workers s),
       srv_threads := replicate (length (srv_workers s)) False,
       srv_running := False\<rparr>"

text \<open>
  The destructor of the server stops and joins, and so does, once more, the destructor of
  each worker, which finds no thread to join any more.
\<close>

definition worker_destroy :: "bool \<Rightarrow> worker \<Rightarrow> worker" where
  "worker_destroy joinable w = worker_join joinable (worker_request_stop [Io_done 8] w)"

definition server_destroy :: "io_result list \<Rightarrow> server \<Rightarrow> server" where
  "server_destroy writes s =
     (let s1 = server_join (server_request_stop writes s)
      in s1\<lparr>srv_workers := map2 worker_destroy (srv_threads s1) (srv_workers s1)\<rparr>)"

section \<open>The invariant of a worker\<close>

text \<open>
  Every connection in the table is open, between two calls, and watched for exactly the
  events it wants.
\<close>

definition served :: "(bytes \<Rightarrow> u64) \<Rightarrow> worker \<Rightarrow> conn_env \<Rightarrow> int \<times> connection \<Rightarrow> bool" where
  "served hash w env x \<longleftrightarrow>
     fst x \<ge> 0 \<and> conn_idle hash (snd x) env \<and> \<not> closing (snd x) \<and>
     output_limit (snd x) = wk_output_limit w \<and> wk_watched w (fst x) = Some (desired_events (snd x))"

lemma served_frame [simp]:
  "served hash (w\<lparr>wk_closed := cs\<rparr>) env x = served hash w env x"
  "served hash (w\<lparr>wk_pending := us\<rparr>) env x = served hash w env x"
  "served hash (w\<lparr>wk_wakeup := k\<rparr>) env x = served hash w env x"
  "served hash (w\<lparr>wk_stop := b\<rparr>) env x = served hash w env x"
  by (simp_all add: served_def)

definition worker_inv :: "(bytes \<Rightarrow> u64) \<Rightarrow> worker \<Rightarrow> conn_env \<Rightarrow> bool" where
  "worker_inv hash w env \<longleftrightarrow>
     engine_inv hash (env_engine env) \<and> distinct (map fst (wk_connections w)) \<and>
     (\<forall>x \<in> set (wk_connections w). served hash w env x) \<and> (\<forall>u \<in> set (wk_pending w). fd_valid u)"

text \<open>The sockets a worker is responsible for, or was until it closed them.\<close>

definition worker_fds :: "worker \<Rightarrow> int multiset" where
  "worker_fds w = fds_owned (wk_pending w) + mset (map fst (wk_connections w)) + mset (wk_closed w)"

text \<open>What the kernel may report: \<^verbatim>\<open>send\<close> takes at most what it is offered.\<close>

definition event_inputs_ok ::
    "(bytes \<Rightarrow> u64) \<Rightarrow> u32 \<Rightarrow> recv_result list \<Rightarrow> send_result list \<Rightarrow> connection \<Rightarrow> conn_env \<Rightarrow> bool" where
  "event_inputs_ok hash events recvs sends c env \<longleftrightarrow>
     recv_results_ok recvs \<and>
     (\<forall>r c1 env1.
        (if events AND (EPOLLIN OR EPOLLRDHUP OR EPOLLHUP) \<noteq> 0 then handle_readable hash recvs c env
         else Some (Inr True, c, env)) = Some (r, c1, env1) \<longrightarrow>
        send_results_ok sends (readable_bytes (output_buffer c1)))"

lemma event_inputs_ok_code [code]:
  "event_inputs_ok hash events recvs sends c env \<longleftrightarrow>
     recv_results_ok recvs \<and>
     (case (if events AND (EPOLLIN OR EPOLLRDHUP OR EPOLLHUP) \<noteq> 0 then handle_readable hash recvs c env
            else Some (Inr True, c, env)) of
        None \<Rightarrow> True
      | Some (r, c1, env1) \<Rightarrow> send_results_ok sends (readable_bytes (output_buffer c1)))"
  by (auto simp: event_inputs_ok_def split: option.splits prod.splits)

lemma handle_readable_ok:
  assumes "conn_idle hash c env" and "recv_results_ok rs"
  obtains (threw) x c' env' where "handle_readable hash rs c env = Some (Inl x, c', env')" "conn_inv hash c' env'"
      "output_limit c' = output_limit c"
  | (read) keep c' env' where "handle_readable hash rs c env = Some (Inr keep, c', env')" "conn_inv hash c' env'"
      "output_limit c' = output_limit c" "keep = (\<not> closing c')" "keep \<longrightarrow> conn_idle hash c' env'"
proof -
  from readable_loop_ok [OF assms] obtain r c' env' where
    r: "readable_loop hash rs c env = Some (r, c', env')" "conn_inv hash c' env'"
      "output_limit c' = output_limit c" "r = Inr () \<longrightarrow> closing c' \<or> conn_idle hash c' env'" by blast
  show ?thesis
  proof (cases r)
    case (Inl x)
    then show ?thesis using threw r by (simp add: handle_readable_def)
  next
    case (Inr u)
    then show ?thesis using read [of "\<not> closing c'" c' env'] r
      by (auto simp: handle_readable_def should_close_def)
  qed
qed

lemma connection_event_ok:
  assumes idle: "conn_idle hash c env" and opn: "\<not> closing c"
    and inputs: "event_inputs_ok hash events recvs sends c env"
  shows "\<exists>keep sent c' env'. connection_event hash events recvs sends c env = Some (keep, sent, c', env') \<and>
           conn_inv hash c' env' \<and> output_limit c' = output_limit c \<and>
           (keep \<longrightarrow> conn_idle hash c' env' \<and> \<not> closing c')"
proof -
  let ?read = "events AND (EPOLLIN OR EPOLLRDHUP OR EPOLLHUP) \<noteq> 0"
  have inv: "conn_inv hash c env" using idle by (simp add: conn_idle_def)
  have rest: ?thesis
    if 1: "(if events AND EPOLLERR = 0 \<and> ?read then handle_readable hash recvs c env
           else Some (Inr (events AND EPOLLERR = 0), c, env)) = Some (Inr keep1, c1, env1)"
      and c1: "conn_inv hash c1 env1" "output_limit c1 = output_limit c"
        "keep1 \<longrightarrow> conn_idle hash c1 env1 \<and> \<not> closing c1"
        "keep1 \<longrightarrow> send_results_ok sends (readable_bytes (output_buffer c1))" for keep1 c1 env1
  proof -
    obtain keep2 sent c2 where 2: "(if keep1 \<and> events AND EPOLLOUT \<noteq> 0 then handle_writable sends c1
        else Some (keep1, [], c1)) = Some (keep2, sent, c2)" "conn_inv hash c2 env1"
        "output_limit c2 = output_limit c" "keep2 \<longrightarrow> conn_idle hash c2 env1 \<and> \<not> closing c2"
    proof (cases "keep1 \<and> events AND EPOLLOUT \<noteq> 0")
      case True
      with c1(4) handle_writable_ok [OF c1(1), of sends] obtain r sent c' where
        "handle_writable sends c1 = Some (r, sent, c')" "conn_inv hash c' env1"
        "input_buffer c' = input_buffer c1" "output_limit c' = output_limit c1" "r = (\<not> closing c')" by blast
      with True c1 show ?thesis by (intro that [of r sent c']) (auto simp: conn_idle_def)
    next
      case False
      with c1 show ?thesis by (intro that [of keep1 "[]" c1]) auto
    qed
    let ?c3 = "note_peer_closed c2"
    have "output_limit ?c3 = output_limit c2" "conn_inv hash ?c3 env1"
      using 2(2) by (simp_all add: note_peer_closed_def close_immediately_def conn_inv_def Let_def)
    with 1 2 note_peer_closed_inv [of hash c2 env1] show ?thesis
      unfolding connection_event_def Let_def by (auto simp: should_close_def)
  qed
  show ?thesis
  proof (cases "events AND EPOLLERR = 0 \<and> ?read")
    case True
    have recvs: "recv_results_ok recvs" using inputs by (simp add: event_inputs_ok_def)
    from idle recvs show ?thesis
    proof (cases rule: handle_readable_ok)
      case (threw x c' env')
      then show ?thesis using True unfolding connection_event_def Let_def by auto
    next
      case (read keep c' env')
      have "send_results_ok sends (readable_bytes (output_buffer c'))"
        using inputs True read(1) unfolding event_inputs_ok_def by (metis (no_types, lifting))
      with read True show ?thesis by (intro rest [of keep c' env']) auto
    qed
  next
    case False
    have "events AND EPOLLERR = 0 \<longrightarrow> send_results_ok sends (readable_bytes (output_buffer c))"
      using inputs False unfolding event_inputs_ok_def by (metis (no_types, lifting))
    with False idle opn inv show ?thesis by (intro rest [of "events AND EPOLLERR = 0" c env]) auto
  qed
qed

text \<open>Other connections do not notice: they only share the engine and the store.\<close>

lemma conn_idle_env: "conn_idle hash c env \<Longrightarrow> engine_inv hash (env_engine env') \<Longrightarrow> conn_idle hash c env'"
  by (simp add: conn_idle_def conn_inv_def)

lemma fd_destroy_make [simp]: "fd \<ge> 0 \<Longrightarrow> fd_destroy (make_fd fd) closed = closed @ [fd]"
  by (simp add: fd_destroy_def fd_reset_def make_fd_def)

lemma mset_drop_key:
  "distinct (map fst xs) \<Longrightarrow> k \<in> fst ` set xs \<Longrightarrow>
     add_mset k (mset (map fst (filter (\<lambda>x. fst x \<noteq> k) xs))) = mset (map fst xs)"
proof (induction xs)
  case (Cons x xs)
  show ?case
  proof (cases "fst x = k")
    case True
    then have "k \<notin> fst ` set xs" using Cons.prems(1) by auto
    then have "filter (\<lambda>x. fst x \<noteq> k) xs = xs" by (intro filter_True) auto
    then show ?thesis using True by simp
  next
    case False
    then show ?thesis using Cons by (simp add: add_mset_commute)
  qed
qed simp

lemma map_fst_update: "map fst (map (\<lambda>x. if fst x = k then (k, v) else x) xs) = map fst xs"
  by (induction xs) auto

lemma map_of_update_at:
  "map_of (map (\<lambda>x. if fst x = k then (k, v) else x) xs) j =
     (if j = k then (if map_of xs k = None then None else Some v) else map_of xs j)"
  by (induction xs) auto

lemma map_of_drop_key: "map_of (filter (\<lambda>x. fst x \<noteq> k) xs) j = (if j = k then None else map_of xs j)"
  by (induction xs) auto

lemma handle_connection_event_ok:
  assumes inv: "worker_inv hash w env"
    and inputs: "\<forall>c. map_of (wk_connections w) fd = Some c \<longrightarrow> event_inputs_ok hash events recvs sends c env"
  shows "\<exists>sent w' env'. handle_connection_event hash fd events recvs sends mod_works w env = Some (sent, w', env') \<and>
           worker_inv hash w' env' \<and> worker_fds w' = worker_fds w \<and>
           wk_pending w' = wk_pending w \<and> wk_stop w' = wk_stop w \<and>
           (\<forall>g. g \<noteq> fd \<longrightarrow> map_of (wk_connections w') g = map_of (wk_connections w) g \<and> wk_watched w' g = wk_watched w g)"
proof (cases "map_of (wk_connections w) fd")
  case None
  then show ?thesis using inv by (simp add: handle_connection_event_def)
next
  case (Some c)
  then have mem: "(fd, c) \<in> set (wk_connections w)" by (rule map_of_SomeD)
  then have c: "fd \<ge> 0" "conn_idle hash c env" "\<not> closing c" "output_limit c = wk_output_limit w"
    using inv by (auto simp: worker_inv_def served_def)
  from connection_event_ok [OF c(2,3)] inputs Some obtain keep sent c' env' where
    ev: "connection_event hash events recvs sends c env = Some (keep, sent, c', env')"
      "conn_inv hash c' env'" "output_limit c' = output_limit c" "keep \<longrightarrow> conn_idle hash c' env' \<and> \<not> closing c'"
    by blast
  have dist: "distinct (map fst (wk_connections w))" using inv by (simp add: worker_inv_def)
  have eng: "engine_inv hash (env_engine env')" using ev(2) by (simp add: conn_inv_def)
  have others: "served hash w env' x" if "x \<in> set (wk_connections w)" for x
    using inv that eng by (auto simp: worker_inv_def served_def intro: conn_idle_env)
  show ?thesis
  proof (cases "keep \<and> mod_works")
    case True
    let ?w = "w\<lparr>wk_connections := map (\<lambda>x. if fst x = fd then (fd, c') else x) (wk_connections w),
                wk_watched := (wk_watched w)(fd \<mapsto> desired_events c')\<rparr>"
    have run: "handle_connection_event hash fd events recvs sends mod_works w env = Some (sent, ?w, env')"
      using Some ev True by (simp add: handle_connection_event_def modify_epoll_def should_close_def)
    have "served hash ?w env' x" if x: "x \<in> set (wk_connections ?w)" for x
    proof -
      consider "x = (fd, c')" | "x \<in> set (wk_connections w)" "fst x \<noteq> fd" using x by (auto split: if_splits)
      then show ?thesis
      proof cases
        case 1
        then show ?thesis using c ev True by (simp add: served_def)
      next
        case 2
        then show ?thesis using others [of x] by (simp add: served_def)
      qed
    qed
    then have "worker_inv hash ?w env'"
      using inv dist eng map_fst_update [of fd c' "wk_connections w"] by (simp add: worker_inv_def del: map_map)
    moreover have "worker_fds ?w = worker_fds w"
      using map_fst_update [of fd c' "wk_connections w"] by (simp add: worker_fds_def del: map_map mset_map)
    ultimately show ?thesis using run by (simp add: map_of_update_at)
  next
    case False
    let ?w = "w\<lparr>wk_connections := filter (\<lambda>x. fst x \<noteq> fd) (wk_connections w),
                wk_watched := (wk_watched w)(fd := None), wk_closed := wk_closed w @ [fd]\<rparr>"
    have run: "handle_connection_event hash fd events recvs sends mod_works w env = Some (sent, ?w, env')"
      using Some ev False c(1)
      by (auto simp: handle_connection_event_def modify_epoll_def remove_from_epoll_def should_close_def)
    have "served hash ?w env' x" if "x \<in> set (wk_connections ?w)" for x
      using that others [of x] by (auto simp: served_def)
    then have "worker_inv hash ?w env'"
      using inv dist eng by (simp add: worker_inv_def filter_fst_distinct)
    moreover have "worker_fds ?w = worker_fds w"
      using mset_drop_key [OF dist, of fd] mem by (force simp: worker_fds_def)
    ultimately show ?thesis using run by (simp add: map_of_drop_key)
  qed
qed

section \<open>Installing new sockets\<close>

lemma fd_move_eq: "fd_move u = (make_fd (raw_fd u), u\<lparr>raw_fd := - 1\<rparr>)"
  by (simp add: fd_move_def fd_release_def)

text \<open>New connections come in front of the others, with nothing read and nothing to say.\<close>

definition fresh_connection :: "connection \<Rightarrow> bool" where
  "fresh_connection c \<longleftrightarrow>
     readable_view (input_buffer c) = [] \<and> readable_view (output_buffer c) = [] \<and> \<not> close_after_write c"

definition installed :: "worker \<Rightarrow> worker \<Rightarrow> bool" where
  "installed w w' \<longleftrightarrow>
     (\<exists>news. wk_connections w' = news @ wk_connections w \<and> (\<forall>x \<in> set news. fresh_connection (snd x)))"

lemma installed_none [simp]: "wk_connections w' = wk_connections w \<Longrightarrow> installed w w'"
  by (simp add: installed_def)

lemma installed_one: "wk_connections w' = (fd, c) # wk_connections w \<Longrightarrow> fresh_connection c \<Longrightarrow> installed w w'"
  unfolding installed_def by (intro exI [of _ "[(fd, c)]"]) simp

lemma installed_trans: "installed w w1 \<Longrightarrow> installed w1 w2 \<Longrightarrow> installed w w2"
  unfolding installed_def by (metis Un_iff append.assoc set_append)

definition install_step_ok where
  "install_step_ok hash us w env left w' env' \<longleftrightarrow>
     worker_inv hash w' env' \<and> env_engine env' = env_engine env \<and> wk_pending w' = wk_pending w \<and>
     wk_stop w' = wk_stop w \<and> wk_output_limit w' = wk_output_limit w \<and>
     fds_owned left + mset (map fst (wk_connections w')) + mset (wk_closed w') =
       fds_owned us + mset (map fst (wk_connections w)) + mset (wk_closed w) \<and>
     installed w w'"

lemma worker_inv_heap: "worker_inv hash w env \<Longrightarrow> worker_inv hash w (env\<lparr>env_heap := h\<rparr>)"
  by (auto simp: worker_inv_def served_def intro: conn_idle_env)

text \<open>A socket with its connection in the table and at the epoll instance is served.\<close>

lemma install_registers:
  assumes inv: "worker_inv hash w env" and fd: "fd_valid u" and new: "raw_fd u \<notin> fst ` set (wk_connections w)"
    and c: "new_connection (wk_output_limit w) h1 = (Inr c, h2)"
  shows "install_step_ok hash [u] w env [u\<lparr>raw_fd := - 1\<rparr>]
           (w\<lparr>wk_connections := (raw_fd u, c) # wk_connections w,
              wk_watched := (wk_watched w)(raw_fd u \<mapsto> desired_events c)\<rparr>) (env\<lparr>env_heap := h3\<rparr>)"
    (is "install_step_ok hash _ _ _ _ ?w ?env")
proof -
  have "engine_inv hash (env_engine ?env)" using inv by (simp add: worker_inv_def)
  note conn = new_connection_ok [OF c this]
  have "served hash ?w ?env x" if "x \<in> set (wk_connections ?w)" for x
    using that conn fd new worker_inv_heap [OF inv, of h3] by (auto simp: served_def worker_inv_def image_iff fd_valid_def)
  then have "worker_inv hash ?w ?env" using inv new by (simp add: worker_inv_def)
  moreover have "installed w ?w" using conn by (intro installed_one) (simp_all add: fresh_connection_def)
  ultimately show ?thesis using fd by (auto simp: install_step_ok_def fd_valid_def)
qed

text \<open>One round of the loop: the socket is kept for lack of memory, closed, or served.\<close>

lemma install_one:
  assumes inv: "worker_inv hash w env" and valid: "fd_valid u"
  shows "\<exists>l w1 h. install_step_ok hash [u] w env [l] w1 (env\<lparr>env_heap := h\<rparr>) \<and>
           install_loop outcomes (u # us) w env =
             (case install_loop outcomes us w1 (env\<lparr>env_heap := h\<rparr>) of (ls, w2, env2) \<Rightarrow> (l # ls, w2, env2))"
proof -
  let ?gone = "u\<lparr>raw_fd := - 1\<rparr>" and ?dropped = "w\<lparr>wk_closed := wk_closed w @ [raw_fd u]\<rparr>"
  have fd: "raw_fd u \<ge> 0" using valid by (simp add: fd_valid_def)
  have kept: "install_step_ok hash [u] w env [u] w (env\<lparr>env_heap := h\<rparr>)" for h
    using worker_inv_heap [OF inv] by (simp add: install_step_ok_def)
  have "worker_inv hash ?dropped (env\<lparr>env_heap := h\<rparr>)" for h
    using worker_inv_heap [OF inv] by (simp add: worker_inv_def served_def)
  then have dropped: "install_step_ok hash [u] w env [?gone] ?dropped (env\<lparr>env_heap := h\<rparr>)" for h
    using fd by (simp add: install_step_ok_def)
  obtain r1 h1 r2 h2 r3 h3 where run: "container_alloc (env_heap env) = (r1, h1)"
    "new_connection (wk_output_limit w) h1 = (r2, h2)" "container_alloc h2 = (r3, h3)"
    by (metis surj_pair)
  note unfold = run fd fd_move_eq Let_def add_to_epoll_def sys_call_def
  consider x where "r1 = Inl x" | x where "r1 = Inr ()" "r2 = Inl x"
    | c where "r1 = Inr ()" "r2 = Inr c" "r3 = Inr ()" "raw_fd u \<notin> fst ` set (wk_connections w)" "outcomes (raw_fd u) = None"
    | c where "r1 = Inr ()" "r2 = Inr c"
        "\<not> (r3 = Inr () \<and> raw_fd u \<notin> fst ` set (wk_connections w) \<and> outcomes (raw_fd u) = None)"
    by (metis old.unit.exhaust sumE)
  then show ?thesis
  proof cases
    case 1
    then show ?thesis using kept [of h1] by (intro exI [of _ u] exI [of _ w] exI [of _ h1]) (simp add: unfold)
  next
    case 2
    then show ?thesis using dropped [of h2]
      by (intro exI [of _ ?gone] exI [of _ ?dropped] exI [of _ h2]) (simp add: unfold)
  next
    case (3 c)
    then show ?thesis using install_registers [OF inv valid 3(4), of h1 c h2 h3] run(2)
      by (auto simp: unfold intro!: exI [of _ ?gone] exI [of _ h3])
  next
    case (4 c)
    then show ?thesis using dropped [of h3]
      by (intro exI [of _ ?gone] exI [of _ ?dropped] exI [of _ h3]) (cases r3; auto simp: unfold split: option.splits)
  qed
qed

lemma install_loop_ok:
  assumes "worker_inv hash w env" and "\<forall>u \<in> set us. fd_valid u"
    and "install_loop outcomes us w env = (left, w', env')"
  shows "install_step_ok hash us w env left w' env'"
  using assms
proof (induction us arbitrary: w env left w' env')
  case Nil
  then show ?case by (simp add: install_step_ok_def)
next
  case (Cons u us)
  have "fd_valid u" using Cons.prems(2) by simp
  from install_one [OF Cons.prems(1) this, of outcomes us] Cons.prems(3) obtain l ls w1 h where
    one: "install_step_ok hash [u] w env [l] w1 (env\<lparr>env_heap := h\<rparr>)" and left: "left = l # ls"
    and run: "install_loop outcomes us w1 (env\<lparr>env_heap := h\<rparr>) = (ls, w', env')"
    by (elim exE conjE, simp only: prod.case_eq_if) (metis prod.collapse prod.inject)
  have "install_step_ok hash us w1 (env\<lparr>env_heap := h\<rparr>) ls w' env'"
    using Cons.IH [OF _ _ run] Cons.prems(2) one by (simp add: install_step_ok_def)
  with one show ?case unfolding left install_step_ok_def by (auto simp: ac_simps intro: installed_trans)
qed

lemma destroy_all_closed: "mset (destroy_all us closed) = fds_owned us + mset closed"
  by (induction us arbitrary: closed) (simp_all add: destroy_all_def fd_destroy_def fd_reset_def)

lemma install_pending_ok:
  assumes "worker_inv hash w env" and "install_pending outcomes w env = (w', env')"
  shows "worker_inv hash w' env'" "worker_fds w' = worker_fds w" "wk_pending w' = []" "wk_stop w' = wk_stop w"
    "installed w w'" "env_engine env' = env_engine env"
proof -
  obtain left w1 env1 where run: "install_loop outcomes (wk_pending w) (w\<lparr>wk_pending := []\<rparr>) env = (left, w1, env1)"
    by (cases "install_loop outcomes (wk_pending w) (w\<lparr>wk_pending := []\<rparr>) env") auto
  have inv: "worker_inv hash (w\<lparr>wk_pending := []\<rparr>) env" "\<forall>u \<in> set (wk_pending w). fd_valid u"
    using assms(1) by (simp_all add: worker_inv_def served_def)
  have w': "w' = w1\<lparr>wk_closed := destroy_all left (wk_closed w1)\<rparr>" "env' = env1"
    using assms(2) run by (simp_all add: install_pending_def)
  note ok = install_loop_ok [OF inv run, unfolded install_step_ok_def]
  show "worker_inv hash w' env'" using ok by (auto simp: w' worker_inv_def)
  show "worker_fds w' = worker_fds w"
    using ok by (simp add: w' worker_fds_def destroy_all_closed ac_simps)
  show "wk_pending w' = []" "wk_stop w' = wk_stop w" "installed w w'" "env_engine env' = env_engine env"
    using ok by (simp_all add: w' installed_def)
qed

section \<open>A round of a worker\<close>

fun events_ok :: "(bytes \<Rightarrow> u64) \<Rightarrow> worker_event list \<Rightarrow> worker \<Rightarrow> conn_env \<Rightarrow> bool" where
  "events_ok hash [] w env = True"
| "events_ok hash (Wakeup reads # later) w env =
     events_ok hash later (w\<lparr>wk_wakeup := drain_counter reads (wk_wakeup w)\<rparr>) env"
| "events_ok hash (Ready fd events recvs sends mod_works # later) w env =
     ((case map_of (wk_connections w) fd of
         None \<Rightarrow> True
       | Some c \<Rightarrow> event_inputs_ok hash events recvs sends c env) \<and>
      (case handle_connection_event hash fd events recvs sends mod_works w env of
         None \<Rightarrow> True
       | Some (sent, w1, env1) \<Rightarrow> events_ok hash later w1 env1))"

lemma worker_events_ok:
  assumes "worker_inv hash w env" and "events_ok hash evs w env"
  shows "\<exists>seen' out w' env'. worker_events hash evs seen w env = Some (seen', out, w', env') \<and>
           worker_inv hash w' env' \<and> worker_fds w' = worker_fds w \<and> wk_pending w' = wk_pending w"
  using assms
proof (induction evs arbitrary: seen w env)
  case Nil
  then show ?case by simp
next
  case (Cons ev evs)
  show ?case
  proof (cases ev)
    case (Wakeup reads)
    let ?w = "w\<lparr>wk_wakeup := drain_counter reads (wk_wakeup w)\<rparr>"
    have "worker_inv hash ?w env" using Cons.prems(1) by (simp add: worker_inv_def served_def)
    from Cons.IH [OF this, of True] Cons.prems(2) Wakeup show ?thesis by (simp add: worker_fds_def)
  next
    case (Ready fd events recvs sends mod_works)
    have "\<forall>c. map_of (wk_connections w) fd = Some c \<longrightarrow> event_inputs_ok hash events recvs sends c env"
      using Cons.prems(2) Ready by auto
    from handle_connection_event_ok [OF Cons.prems(1) this, of mod_works] obtain sent w1 env1 where
      ev: "handle_connection_event hash fd events recvs sends mod_works w env = Some (sent, w1, env1)"
        "worker_inv hash w1 env1" "worker_fds w1 = worker_fds w" "wk_pending w1 = wk_pending w" by blast
    from Cons.IH [OF ev(2), of seen] Cons.prems(2) Ready ev show ?thesis by auto
  qed
qed

lemma worker_round_ok:
  assumes "worker_inv hash w env" and "events_ok hash evs w env"
  shows "\<exists>out w' env'. worker_round hash evs outcomes w env = Some (out, w', env') \<and>
           worker_inv hash w' env' \<and> worker_fds w' = worker_fds w"
proof -
  from worker_events_ok [OF assms, of False] obtain seen out w1 env1 where
    ev: "worker_events hash evs False w env = Some (seen, out, w1, env1)" "worker_inv hash w1 env1"
      "worker_fds w1 = worker_fds w" by blast
  obtain w2 env2 where inst: "install_pending outcomes w1 env1 = (w2, env2)"
    by (cases "install_pending outcomes w1 env1")
  from install_pending_ok [OF ev(2) inst] ev inst show ?thesis
    by (cases "seen \<and> \<not> wk_stop w1") (auto simp: worker_round_def)
qed

text \<open>At the end of its life a worker has closed everything it was ever given.\<close>

lemma worker_finish_ok:
  assumes "worker_inv hash w env"
  shows "wk_pending (worker_finish w) = []" "wk_connections (worker_finish w) = []"
    "mset (wk_closed (worker_finish w)) = worker_fds w"
proof -
  have "\<forall>x \<in> set (wk_connections w). fst x \<ge> 0" using assms by (simp add: worker_inv_def served_def)
  then have "fds_owned (map (make_fd \<circ> fst) (wk_connections w)) = mset (map fst (wk_connections w))"
    by (induction "wk_connections w") (simp_all add: fds_owned_def make_fd_def comp_def)
  then show "wk_pending (worker_finish w) = []" "wk_connections (worker_finish w) = []"
    "mset (wk_closed (worker_finish w)) = worker_fds w"
    by (simp_all add: worker_finish_def worker_fds_def destroy_all_closed Let_def ac_simps)
qed

lemma enqueue_ok:
  assumes "worker_inv hash w env" and "fd \<ge> 0" and "enqueue (make_fd fd) writes w h = (r, w', h')"
  shows "worker_inv hash w' env" "worker_fds w' = add_mset fd (worker_fds w)"
    "r = Inr () \<Longrightarrow> \<not> wk_stop w \<Longrightarrow> wk_pending w' = wk_pending w @ [make_fd fd] \<and> wk_closed w' = wk_closed w"
  using assms
  by (auto simp: enqueue_def worker_inv_def worker_fds_def fd_move_eq fd_valid_def make_fd_def
      fd_destroy_def fd_reset_def split: if_splits prod.splits sum.splits)

end
