(* ===== verification/Server_Correct.thy ===== *)
theory Server_Correct
  imports Cache_Server
begin

text \<open>
  What the acceptor thread of \<^verbatim>\<open>src/net/cache_server.cpp\<close> achieves: it hands the accepted
  sockets round to the workers in turn and makes time pass in the engine; and what starting
  and stopping the server leaves behind.
\<close>

section \<open>Handing sockets round\<close>

text \<open>The sockets a run of \<^verbatim>\<open>accept_connections\<close> gets.\<close>

fun accepted :: "accept_result list \<Rightarrow> int list" where
  "accepted [] = []"
| "accepted (Accepted fd writes # later) = fd # accepted later"
| "accepted (Accept_interrupted # later) = accepted later"
| "accepted (Accept_aborted # later) = accepted later"
| "accepted (Accept_failed # later) = []"
| "accepted (Accept_stop_seen # later) = []"

definition dealt :: "nat \<Rightarrow> nat \<Rightarrow> int list \<Rightarrow> nat \<Rightarrow> int list" where
  "dealt start n fds j = map snd (filter (\<lambda>(i, fd). i mod n = j) (enumerate start fds))"

lemma dealt_Cons:
  "dealt start n (fd # fds) j = (if start mod n = j then [fd] else []) @ dealt (Suc start) n fds j"
  by (simp add: dealt_def)

lemma worker_choice:
  assumes "n < 2 ^ 64" and "0 < n"
  shows "unat (k mod of_nat n :: u64) = unat k mod n"
  using assms by (simp add: unat_mod unat_of_nat take_bit_nat_eq_self)

lemma enqueue_succeeds:
  assumes "oom h = []" and "\<not> wk_stop w"
  shows "enqueue (make_fd fd) writes w h =
           (Inr (), w\<lparr>wk_pending := wk_pending w @ [make_fd fd], wk_wakeup := wake_event writes (wk_wakeup w)\<rparr>, h)"
  using assms by (simp add: enqueue_def fd_move_eq make_fd_def)

definition queued :: "worker \<Rightarrow> int list" where
  "queued w = map raw_fd (wk_pending w)"

lemma accept_connections_deals:
  assumes "srv_workers s \<noteq> []" and "length (srv_workers s) < 2 ^ 64" and "oom h = []"
    and "\<forall>w \<in> set (srv_workers s). \<not> wk_stop w"
    and "unat (srv_next_worker s) + length (accepted rs) < 2 ^ 64"
  shows "\<exists>s'. accept_connections rs s h = Some (s', h) \<and>
           length (srv_workers s') = length (srv_workers s) \<and>
           (\<forall>j < length (srv_workers s). queued (srv_workers s' ! j) = queued (srv_workers s ! j) @
              dealt (unat (srv_next_worker s)) (length (srv_workers s)) (accepted rs) j) \<and>
           srv_next_worker s' = srv_next_worker s + of_nat (length (accepted rs))"
  using assms
proof (induction rs arbitrary: s)
  case Nil
  then show ?case by (simp add: dealt_def)
next
  case (Cons r rs)
  let ?n = "length (srv_workers s)" and ?k = "unat (srv_next_worker s)"
  show ?case
  proof (cases r)
    case (Accepted fd writes)
    let ?i = "?k mod ?n"
    let ?w = "(srv_workers s ! ?i)\<lparr>wk_pending := wk_pending (srv_workers s ! ?i) @ [make_fd fd],
                 wk_wakeup := wake_event writes (wk_wakeup (srv_workers s ! ?i))\<rparr>"
    let ?s = "s\<lparr>srv_next_worker := srv_next_worker s + 1, srv_workers := (srv_workers s)[?i := ?w]\<rparr>"
    have n: "0 < ?n" "?n < 2 ^ 64" using Cons.prems(1,2) by simp_all
    then have i: "?i < ?n" by simp
    have choice: "unat (srv_next_worker s mod of_nat ?n) = ?i" using worker_choice n by blast
    have "\<not> wk_stop (srv_workers s ! ?i)" using Cons.prems(4) i by (meson nth_mem)
    from enqueue_succeeds [OF Cons.prems(3) this, of fd writes] choice
    have run: "accept_connections (r # rs) s h = accept_connections rs ?s h"
      using Accepted Cons.prems(1) by (simp add: Let_def)
    have next_k: "unat (srv_next_worker ?s) = Suc ?k"
      using Cons.prems(5) Accepted by (simp add: unat_word_ariths)
    have "\<forall>w \<in> set (srv_workers ?s). \<not> wk_stop w"
      using Cons.prems(4) i nth_mem [OF i] set_update_subset_insert [of "srv_workers s" ?i ?w] by auto
    moreover have "unat (srv_next_worker ?s) + length (accepted rs) < 2 ^ 64"
      using next_k Cons.prems(5) Accepted by simp
    ultimately obtain s' where s': "accept_connections rs ?s h = Some (s', h)" "length (srv_workers s') = ?n"
      "\<forall>j < ?n. queued (srv_workers s' ! j) = queued (srv_workers ?s ! j) @ dealt (Suc ?k) ?n (accepted rs) j"
      "srv_next_worker s' = srv_next_worker ?s + of_nat (length (accepted rs))"
      using Cons.IH [of ?s] Cons.prems(1-3) next_k by auto
    have "queued (srv_workers s' ! j) = queued (srv_workers s ! j) @ dealt ?k ?n (accepted (r # rs)) j"
      if "j < ?n" for j
      using s'(3) that i Accepted by (auto simp: dealt_Cons nth_list_update queued_def make_fd_def)
    with s' run Accepted show ?thesis by (auto simp: algebra_simps)
  qed (use Cons in \<open>simp_all add: dealt_def\<close>)
qed

section \<open>Time\<close>

text \<open>The expirations a call of \<^verbatim>\<open>handle_timer\<close> learns about.\<close>

fun timer_expirations :: "io_result list \<Rightarrow> nat" where
  "timer_expirations [] = 0"
| "timer_expirations (Io_done n # later) = unat n"
| "timer_expirations (Io_interrupted # later) = timer_expirations later"
| "timer_expirations (Io_failed # later) = 0"

lemma handle_timer_eq: "handle_timer reads e = tick_times (timer_expirations reads) e"
  by (induction reads rule: timer_expirations.induct) simp_all

text \<open>No shard is going to run out of memory.\<close>

definition engine_calm :: "cache_engine \<Rightarrow> bool" where
  "engine_calm e \<longleftrightarrow> (\<forall>s \<in> set (shards e). oom (c_heap (shard_cache s)) = [])"

lemma tick_shards_calm:
  assumes "\<forall>s \<in> set ss. shard_inv s" and "\<forall>s \<in> set ss. oom (c_heap (shard_cache s)) = []"
  shows "\<exists>ss'. tick_shards ss = Some (Inr (), ss') \<and> (\<forall>s \<in> set ss'. oom (c_heap (shard_cache s)) = [])"
  using assms
proof (induction ss)
  case (Cons s ss)
  then have "\<not> mutex_held s" "cache_inv (shard_cache s)" "oom (c_heap (shard_cache s)) = []"
    by (simp_all add: shard_inv_def)
  with tick_succeeds [of "shard_cache s"] obtain c' where
    "cache_tick (shard_cache s) = Some (Inr (), c')" "oom (c_heap c') = []" by auto
  then have "shard_tick s = Some (Inr (), s\<lparr>mutex_held := False, shard_cache := c'\<rparr>)"
    using \<open>\<not> mutex_held s\<close> by (simp add: shard_tick_def with_lock_def)
  with Cons \<open>oom (c_heap c') = []\<close> show ?case by auto
qed simp

text \<open>The first \<open>m\<close> shards have ticked \<open>k + 1\<close> times, the others \<open>k\<close> times.\<close>

definition ticked :: "nat \<Rightarrow> nat \<Rightarrow> cache_engine \<Rightarrow> cache_engine \<Rightarrow> bool" where
  "ticked k m e e' \<longleftrightarrow>
     map shard_view (shards e') =
       map (lru_tick ^^ Suc k) (map shard_view (take m (shards e))) @
       map (lru_tick ^^ k) (map shard_view (drop m (shards e)))"

lemma ticked_0: "ticked 0 0 e e"
  by (simp add: ticked_def comp_def)

lemma ticked_Suc:
  assumes "map shard_view (shards e1) = map (lru_tick \<circ> shard_view) (shards e)" and "ticked k m e1 e'"
  shows "ticked (Suc k) m e e'"
proof -
  have "map shard_view (take m (shards e1)) = map lru_tick (map shard_view (take m (shards e)))"
    "map shard_view (drop m (shards e1)) = map lru_tick (map shard_view (drop m (shards e)))"
    using arg_cong [OF assms(1), of "take m"] arg_cong [OF assms(1), of "drop m"]
    by (simp_all add: take_map drop_map comp_def)
  then have "map (lru_tick ^^ j) (map shard_view (take m (shards e1))) =
      map (lru_tick ^^ Suc j) (map shard_view (take m (shards e)))"
    "map (lru_tick ^^ j) (map shard_view (drop m (shards e1))) =
      map (lru_tick ^^ Suc j) (map shard_view (drop m (shards e)))" for j
    by (simp_all only:) (simp_all add: comp_def funpow_swap1)
  with assms(2) show ?thesis by (simp only: ticked_def)
qed

text \<open>
  After \<open>n\<close> expirations every shard has ticked equally often, except that the first \<open>m\<close>
  shards are one tick ahead when the tick after the last complete one ran out of memory.
\<close>

lemma tick_times_ok:
  assumes "engine_inv hash e"
  shows "\<exists>e' k m. tick_times n e = Some e' \<and> engine_inv hash e' \<and> ticked k m e e' \<and>
           m < length (shards e) \<and> (k < n \<or> k = n \<and> m = 0) \<and> (engine_calm e \<longrightarrow> k = n)"
  using assms
proof (induction n arbitrary: e)
  case 0
  then show ?case using ticked_0 [of e] by (auto simp: engine_inv_def)
next
  case (Suc n)
  from engine_tick_ok [OF Suc.prems] obtain r e1 where t: "engine_tick e = Some (r, e1)" "engine_inv hash e1"
    "length (shards e1) = length (shards e)"
    "case r of
       Inr _ \<Rightarrow> map shard_view (shards e1) = map (lru_tick \<circ> shard_view) (shards e)
     | Inl x \<Rightarrow> (\<exists>n < length (shards e). map shard_view (shards e1) =
         map (lru_tick \<circ> shard_view) (take n (shards e)) @ map shard_view (drop n (shards e)))" by blast
  have calm: "r = Inr () \<and> engine_calm e1" if "engine_calm e"
    using tick_shards_calm [of "shards e"] that Suc.prems t(1)
    by (auto simp: engine_calm_def engine_inv_def engine_tick_def)
  show ?case
  proof (cases r)
    case (Inl x)
    with t(4) obtain m where m: "m < length (shards e)" "map shard_view (shards e1) =
        map (lru_tick \<circ> shard_view) (take m (shards e)) @ map shard_view (drop m (shards e))" by auto
    then have "ticked 0 m e e1" by (simp add: ticked_def comp_def)
    moreover have "\<not> engine_calm e" using calm Inl by auto
    ultimately show ?thesis using t Inl m(1) by auto
  next
    case (Inr u)
    from Suc.IH [OF t(2)] obtain e' k m where IH: "tick_times n e1 = Some e'" "engine_inv hash e'"
      "ticked k m e1 e'" "m < length (shards e1)" "k < n \<or> k = n \<and> m = 0" "engine_calm e1 \<longrightarrow> k = n" by blast
    have "ticked (Suc k) m e e'" using ticked_Suc [OF _ IH(3)] t(4) Inr by simp
    with IH t Inr calm show ?thesis by auto
  qed
qed

section \<open>Stopping\<close>

lemma worker_request_stop_inv:
  "worker_inv hash w env \<Longrightarrow> worker_inv hash (worker_request_stop writes w) env"
  "worker_fds (worker_request_stop writes w) = worker_fds w"
  by (simp_all add: worker_request_stop_def worker_inv_def worker_fds_def)

text \<open>After \<^verbatim>\<open>join\<close> no thread runs and every socket a worker was ever given is closed.\<close>

lemma server_join_ok:
  assumes "\<forall>w \<in> set (srv_workers s). worker_inv hash w env" and "srv_threads s = replicate (length (srv_workers s)) True"
  shows "\<not> srv_running (server_join s)" "\<not> srv_acceptor (server_join s)"
    and "set (srv_threads (server_join s)) \<subseteq> {False}" "length (srv_workers (server_join s)) = length (srv_workers s)"
    and "\<forall>i < length (srv_workers s). let w' = srv_workers (server_join s) ! i in
           wk_pending w' = [] \<and> wk_connections w' = [] \<and> mset (wk_closed w') = worker_fds (srv_workers s ! i)"
proof -
  show "\<not> srv_running (server_join s)" "\<not> srv_acceptor (server_join s)"
    "set (srv_threads (server_join s)) \<subseteq> {False}" by (auto simp: server_join_def)
  show len: "length (srv_workers (server_join s)) = length (srv_workers s)"
    using assms(2) by (simp add: server_join_def)
  have "srv_workers (server_join s) ! i = worker_finish (worker_request_stop [Io_done 8] (srv_workers s ! i))"
    if "i < length (srv_workers s)" for i
    using that assms(2) by (simp add: server_join_def worker_join_def)
  then show "\<forall>i < length (srv_workers s). let w' = srv_workers (server_join s) ! i in
           wk_pending w' = [] \<and> wk_connections w' = [] \<and> mset (wk_closed w') = worker_fds (srv_workers s ! i)"
    using assms(1) worker_finish_ok worker_request_stop_inv by (metis (no_types, lifting) nth_mem)
qed

text \<open>
  Destroying a server that has been stopped and joined, as its user does, closes nothing a
  second time.
\<close>

lemma worker_destroy_joined:
  "wk_closed (worker_destroy False w) = wk_closed w"
  by (simp add: worker_destroy_def worker_join_def worker_request_stop_def)

lemma server_destroy_joined:
  assumes "length (srv_threads s) = length (srv_workers s)"
  shows "map wk_closed (srv_workers (server_destroy writes (server_join s))) = map wk_closed (srv_workers (server_join s))"
  using assms
  by (intro nth_equalityI)
    (simp_all add: server_destroy_def Let_def server_join_def server_request_stop_def worker_destroy_joined
      worker_join_def [of False] worker_request_stop_def)

text \<open>A server is started at most once, whatever became of the first attempt.\<close>

lemma start_once:
  "srv_ever_started (snd (server_start t ths a s))"
  "server_start t' ths' a' (snd (server_start t ths a s)) =
     (Inl (High_cache_error Invalid_argument ''cache server can only be started once''), snd (server_start t ths a s))"
proof -
  show started: "srv_ever_started (snd (server_start t ths a s))"
    by (simp add: server_start_def Let_def split: sum.splits)
  then show "server_start t' ths' a' (snd (server_start t ths a s)) =
     (Inl (High_cache_error Invalid_argument ''cache server can only be started once''), snd (server_start t ths a s))"
    by (subst server_start_def) simp
qed

section \<open>Peers that have shut down their side\<close>

text \<open>
  A connection whose peer has shut down its sending side but has not yet taken all of the
  output stays registered for that very condition: the event changes nothing, and with a
  level-triggered descriptor it is reported again at once.
\<close>

lemma desired_events_rdhup: "\<not> closing c \<Longrightarrow> desired_events c AND EPOLLRDHUP \<noteq> 0"
  by (auto simp: desired_events_def should_close_def Let_def)

lemma half_closed_event:
  assumes "worker_inv hash w env" and "map_of (wk_connections w) fd = Some c"
    and "peer_closed c" and "\<not> close_after_write c" and "wants_write c"
  shows "handle_connection_event hash fd EPOLLRDHUP [Recv_closed] [] True w env = Some ([], w, env)"
proof -
  have c: "\<not> closing c" "wk_watched w fd = Some (desired_events c)" "distinct (map fst (wk_connections w))"
    using assms(1) map_of_SomeD [OF assms(2)] by (auto simp: worker_inv_def served_def)
  have same: "note_peer_closed c = c" using assms(3,5) by (simp add: note_peer_closed_def wants_write_def Let_def)
  have "connection_event hash EPOLLRDHUP [Recv_closed] [] c env = Some (True, [], c, env)"
    using c(1) assms(4) by (simp add: connection_event_def handle_readable_def same should_close_def Let_def)
  moreover have "map (\<lambda>x. if fst x = fd then (fd, c) else x) (wk_connections w) = wk_connections w"
    using c(3) assms(2) by (intro map_idI) (auto simp: map_of_eq_Some_iff split: if_splits dest: eq_key_imp_eq_value)
  moreover have "(wk_watched w)(fd \<mapsto> desired_events c) = wk_watched w" using c(2) by auto
  ultimately show ?thesis
    using assms(2) c(1) by (simp add: handle_connection_event_def modify_epoll_def should_close_def)
qed

end
