(* ===== verification/Conversation.thy ===== *)
theory Conversation
  imports Connection_Stream "HOL-Library.Sublist"
begin

text \<open>
  A whole conversation of a connection of \<^verbatim>\<open>src/net/connection.cpp\<close> with its peer: reads and writes in
  any order, any bytes from the peer in any portions, other threads that change the engine and
  use up memory in between, and any failure. What the peer gets is always the beginning of
  the answers to the requests it has sent, in order, each once; a message about a malformed
  request can only be the last one.
\<close>

section \<open>One batch of input\<close>

definition complains :: "bytes \<Rightarrow> bool" where
  "complains bs \<longleftrightarrow> (\<exists>resp. bs = response_frame resp \<and> response_encodable resp \<and> status resp = wire_protocol_error)"

lemma execute_runs:
  assumes "conn_inv hash c env"
  shows "\<exists>r c' env' resp e'. execute hash req c env = Some (r, c', env') \<and>
    run_request hash req (env_engine env) = Some (resp, e') \<and> env_engine env' = e' \<and> conn_inv hash c' env' \<and>
    input_buffer c' = input_buffer c \<and> close_after_write c' = close_after_write c \<and>
    (r = Inr True \<longrightarrow> readable_view (output_buffer c') = readable_view (output_buffer c) @ response_frame resp)"
proof -
  have inv: "engine_inv hash (env_engine env)" using assms by (simp add: conn_inv_def)
  from run_request_ok [OF inv, of req] obtain resp e' where
    run: "run_request hash req (env_engine env) = Some (resp, e')" "engine_inv hash e'" "response_encodable resp" by blast
  have "conn_inv hash c (env\<lparr>env_engine := e'\<rparr>)" using assms run(2) by (simp add: conn_inv_def)
  from queue_response_ok [OF this run(3)] obtain r c' env' where
    "queue_response resp c (env\<lparr>env_engine := e'\<rparr>) = Some (r, c', env')" "conn_inv hash c' env'"
    "input_buffer c' = input_buffer c" "close_after_write c' = close_after_write c" "env_engine env' = e'"
    "r = Inr True \<longrightarrow> readable_view (output_buffer c') = readable_view (output_buffer c) @ response_frame resp" by auto
  then show ?thesis using run(1) by (auto simp: execute_def)
qed

lemma queue_response_engine:
  "queue_response resp c env = Some (r, c', env') \<Longrightarrow> env_engine env' = env_engine env"
  by (auto simp: queue_response_def Let_def split: prod.splits sum.splits if_splits option.splits)

lemma protocol_error_engine:
  assumes "queue_protocol_error err c env = Some (r, c', env')"
  shows "env_engine env' = env_engine env"
  using assms unfolding queue_protocol_error_def
  by (auto split: prod.splits sum.splits if_splits option.splits dest!: queue_response_engine)

lemma protocol_error_queued:
  assumes inv: "conn_inv hash c env" and msg: "length (error_message err) \<le> max_key_length"
    and run: "queue_protocol_error err c env = Some (Inr True, c', env')"
  shows "\<exists>bs. complains bs \<and> readable_view (output_buffer c') = readable_view (output_buffer c) @ bs"
    and "env_engine env' = env_engine env" and "close_after_write c'" and "closing c' = closing c"
proof -
  let ?resp = "\<lparr>response_id = (if has_request_id err then error_request_id err else 0),
                status = wire_protocol_error, resp_value = map of_char (error_message err)\<rparr>"
  obtain x h where al: "container_alloc (env_heap env) = (x, h)" by fastforce
  have enc: "response_encodable ?resp" using msg by (simp add: response_encodable_def is_valid_status_def)
  have "conn_inv hash c (env\<lparr>env_heap := h\<rparr>)" using inv by (simp add: conn_inv_def)
  from queue_response_ok [OF this enc] run al have
    "env_engine env' = env_engine env \<and> close_after_write c' \<and> closing c' = closing c \<and>
     readable_view (output_buffer c') = readable_view (output_buffer c) @ response_frame ?resp"
    by (auto simp: queue_protocol_error_def split: sum.splits if_splits)
  then show "\<exists>bs. complains bs \<and> readable_view (output_buffer c') = readable_view (output_buffer c) @ bs"
    "env_engine env' = env_engine env" "close_after_write c'" "closing c' = closing c"
    using enc unfolding complains_def by auto
qed

text \<open>
  Whatever is in the input, \<^verbatim>\<open>process_input\<close> runs the requests at its front, in order. Unless the
  connection is given up, their answers are queued, followed by a complaint if what comes next
  is malformed; otherwise what comes next stays in the input.
\<close>

definition batch_done ::
    "(bytes \<Rightarrow> u64) \<Rightarrow> bytes \<Rightarrow> cache_engine \<Rightarrow> bool \<Rightarrow> bytes \<Rightarrow> connection \<Rightarrow> cache_engine \<Rightarrow> bool" where
  "batch_done hash inp e ok out c' e' \<longleftrightarrow>
     (\<exists>reqs resps rest. (\<forall>r \<in> set reqs. encodable r) \<and> inp = request_stream reqs @ rest \<and>
        serve hash reqs e = Some (resps, e') \<and>
        (ok \<and> \<not> close_after_write c' \<longrightarrow>
           readable_view (input_buffer c') = rest \<and> unfinished rest \<and>
           readable_view (output_buffer c') = out @ response_stream resps) \<and>
        (ok \<and> close_after_write c' \<longrightarrow>
           (\<exists>bs. complains bs \<and> readable_view (output_buffer c') = out @ response_stream resps @ bs)))"

lemma batch_done_Cons:
  assumes "batch_done hash inp e1 ok (out @ response_frame resp) c' e'"
    and "encodable req" and "run_request hash req e = Some (resp, e1)"
  shows "batch_done hash (request_frame req @ inp) e ok out c' e'"
proof -
  from assms(1) obtain reqs resps rest where
    "\<forall>r \<in> set reqs. encodable r" "inp = request_stream reqs @ rest" "serve hash reqs e1 = Some (resps, e')"
    "ok \<and> \<not> close_after_write c' \<longrightarrow> readable_view (input_buffer c') = rest \<and> unfinished rest \<and>
       readable_view (output_buffer c') = (out @ response_frame resp) @ response_stream resps"
    "ok \<and> close_after_write c' \<longrightarrow>
       (\<exists>bs. complains bs \<and> readable_view (output_buffer c') = (out @ response_frame resp) @ response_stream resps @ bs)"
    unfolding batch_done_def by blast
  then show ?thesis
    using assms(2,3) unfolding batch_done_def
    by (intro exI [of _ "req # reqs"] exI [of _ "resp # resps"] exI [of _ rest]) auto
qed

lemma batch_done_Nil:
  assumes "ok \<longrightarrow> readable_view (output_buffer c') = out \<and> \<not> close_after_write c' \<and>
                  readable_view (input_buffer c') = inp \<and> unfinished inp"
  shows "batch_done hash inp e ok out c' e"
  unfolding batch_done_def using assms by (intro exI [of _ "[]"] exI [of _ inp]) auto

lemma process_input_batch:
  assumes "conn_inv hash c env" and "\<not> close_after_write c" and "process_input hash c env = Some (r, c', env')"
  shows "batch_done hash (readable_view (input_buffer c)) (env_engine env) (r = Inr True)
           (readable_view (output_buffer c)) c' (env_engine env')"
  using assms
proof (induction "readable_bytes (input_buffer c)" arbitrary: c env rule: less_induct)
  case less
  note run = less.prems(3)
  from less.prems(1) show ?case
  proof (cases rule: process_input_cases)
    case empty
    then have "readable_view (input_buffer c) = []" by (simp add: readable_view_def)
    with empty run less.prems(2) show ?thesis by (auto intro!: batch_done_Nil)
  next
    case (throws x h)
    with run show ?thesis by (auto intro!: batch_done_Nil)
  next
    case (waits h)
    with run less.prems(2) show ?thesis by (auto intro!: batch_done_Nil)
  next
    case (malformed err h)
    have q: "queue_protocol_error err (c\<lparr>input_buffer := retrieve_all (input_buffer c)\<rparr>) (env\<lparr>env_heap := h\<rparr>) =
        Some (r, c', env')" using run malformed(3) by simp
    show ?thesis
    proof (cases "r = Inr True")
      case True
      note queued = protocol_error_queued [OF malformed(2,1) q [unfolded True]]
      then obtain bs where
        "complains bs" "readable_view (output_buffer c') = readable_view (output_buffer c) @ bs" by auto
      with queued(2,3) show ?thesis
        unfolding batch_done_def by (intro exI [of _ "[]"] exI [of _ "readable_view (input_buffer c)"]) auto
    next
      case False
      with protocol_error_engine [OF q] show ?thesis by (auto intro!: batch_done_Nil)
    qed
  next
    case (request req b h)
    obtain x c1 env1 resp e1 where
      ex: "execute hash req (c\<lparr>input_buffer := b\<rparr>) (env\<lparr>env_heap := h\<rparr>) = Some (x, c1, env1)"
        "run_request hash req (env_engine env) = Some (resp, e1)" "env_engine env1 = e1" "conn_inv hash c1 env1"
        "input_buffer c1 = b" "close_after_write c1 = close_after_write c"
        "x = Inr True \<longrightarrow> readable_view (output_buffer c1) = readable_view (output_buffer c) @ response_frame resp"
      using execute_runs [OF request(4), of req] by auto
    have "batch_done hash (readable_view b) e1 (r = Inr True) (readable_view (output_buffer c) @ response_frame resp)
        c' (env_engine env')"
    proof (cases "x = Inr True")
      case True
      then have "process_input hash c1 env1 = Some (r, c', env')" using run request(5) ex(1) by simp
      with less.hyps [of c1 env1] request(3) ex(3-7) less.prems(2) True show ?thesis by simp
    next
      case False
      then have "r \<noteq> Inr True" "env_engine env' = e1"
        using run request(5) ex(1,3) by (auto split: sum.splits if_splits)
      then show ?thesis by (auto intro!: batch_done_Nil)
    qed
    with batch_done_Cons [OF _ request(1) ex(2)] request(2) show ?thesis by simp
  qed
qed

section \<open>One round of reading\<close>

text \<open>The bytes that \<^verbatim>\<open>recv\<close> has to offer before it blocks, fails or reports the end.\<close>

fun taken :: "recv_result list \<Rightarrow> bytes" where
  "taken [] = []"
| "taken (Received bs # later) = bs @ taken later"
| "taken (Recv_interrupted # later) = taken later"
| "taken (_ # later) = []"

lemma batch_done_stop:
  assumes "batch_done hash inp e ok out c' e'" and "ok' \<Longrightarrow> ok \<and> close_after_write c'"
  shows "batch_done hash (inp @ later) e ok' out c' e'"
proof -
  from assms(1) obtain reqs resps rest where
    b: "\<forall>r \<in> set reqs. encodable r" "inp = request_stream reqs @ rest" "serve hash reqs e = Some (resps, e')"
      "ok \<and> close_after_write c' \<longrightarrow>
         (\<exists>bs. complains bs \<and> readable_view (output_buffer c') = out @ response_stream resps @ bs)"
    unfolding batch_done_def by blast
  show ?thesis
    unfolding batch_done_def
    by (rule exI [of _ reqs], rule exI [of _ resps], rule exI [of _ "rest @ later"]) (use b assms(2) in auto)
qed

lemma batch_done_more:
  assumes "batch_done hash inp e True out c1 e1" and "\<not> close_after_write c1"
    and "batch_done hash (readable_view (input_buffer c1) @ later) e1 ok (readable_view (output_buffer c1)) c' e'"
  shows "batch_done hash (inp @ later) e ok out c' e'"
proof -
  from assms(1,2) obtain reqs resps where
    b: "\<forall>r \<in> set reqs. encodable r" "inp = request_stream reqs @ readable_view (input_buffer c1)"
      "serve hash reqs e = Some (resps, e1)" "readable_view (output_buffer c1) = out @ response_stream resps"
    unfolding batch_done_def by blast
  from assms(3) b(4) obtain reqs' resps' rest where
    b': "\<forall>r \<in> set reqs'. encodable r" "readable_view (input_buffer c1) @ later = request_stream reqs' @ rest"
      "serve hash reqs' e1 = Some (resps', e')"
      "ok \<and> \<not> close_after_write c' \<longrightarrow> readable_view (input_buffer c') = rest \<and> unfinished rest \<and>
         readable_view (output_buffer c') = (out @ response_stream resps) @ response_stream resps'"
      "ok \<and> close_after_write c' \<longrightarrow>
         (\<exists>bs. complains bs \<and> readable_view (output_buffer c') = (out @ response_stream resps) @ response_stream resps' @ bs)"
    unfolding batch_done_def by auto
  show ?thesis
    unfolding batch_done_def
    by (rule exI [of _ "reqs @ reqs'"], rule exI [of _ "resps @ resps'"], rule exI [of _ rest])
       (use b b' in \<open>auto simp: serve_append\<close>)
qed

lemma readable_loop_stops:
  "close_after_write c \<or> closing c \<Longrightarrow> readable_loop hash rs c env = Some (Inr (), c, env)"
  by (cases rs) auto

lemma readable_loop_batch:
  assumes "conn_inv hash c env" and "\<not> close_after_write c" and "unfinished (readable_view (input_buffer c))"
    and "readable_loop hash rs c env = Some (r, c', env')"
  shows "batch_done hash (readable_view (input_buffer c) @ taken rs) (env_engine env) (r = Inr () \<and> \<not> closing c')
           (readable_view (output_buffer c)) c' (env_engine env')"
  using assms
proof (induction rs arbitrary: c env)
  case Nil
  then show ?case by (auto intro!: batch_done_Nil)
next
  case (Cons x rs)
  note inv = Cons.prems(1) and caw = Cons.prems(2) and idle = Cons.prems(3)
  have b: "buffer_inv (input_buffer c)" using inv by (simp add: conn_inv_def)
  show ?case
  proof (cases "closing c")
    case True
    with Cons.prems(4) show ?thesis by (auto intro!: batch_done_Nil)
  next
    case live: False
    note run = Cons.prems(4) [simplified readable_loop.simps caw live, simplified]
    show ?thesis
    proof (cases x)
      case (Received bs)
      note run = Cons.prems(4) [unfolded Received]
      from inv caw live show ?thesis
      proof (cases rule: readable_received_cases [where bs = bs and rs = rs])
        case refused
        with run Received show ?thesis by (auto simp: close_immediately_def intro!: batch_done_Nil)
      next
        case (throws y h)
        with run Received show ?thesis by (auto intro!: batch_done_Nil)
      next
        case (processed b h p c1 env1)
        from process_input_batch [OF processed(2) _ processed(3)] caw processed(1)
        have batch: "batch_done hash (readable_view (input_buffer c) @ bs) (env_engine env) (p = Inr True)
            (readable_view (output_buffer c)) c1 (env_engine env1)" by simp
        show ?thesis
        proof (cases "p = Inr True \<and> \<not> close_after_write c1")
          case True
          then have "readable_loop hash rs c1 env1 = Some (r, c', env')" using run processed by simp
          moreover have "unfinished (readable_view (input_buffer c1))" using batch True unfolding batch_done_def by blast
          ultimately have "batch_done hash (readable_view (input_buffer c1) @ taken rs) (env_engine env1)
              (r = Inr () \<and> \<not> closing c') (readable_view (output_buffer c1)) c' (env_engine env')"
            using Cons.IH [OF processed(4)] True by simp
          from batch_done_more [OF _ _ this, of "readable_view (input_buffer c) @ bs"] batch True Received
          show ?thesis by simp
        next
          case False
          then have "c' = c1" "env' = env1" and "p = Inr True \<or> r \<noteq> Inr () \<or> closing c1"
            using run processed readable_loop_stops [of c1 hash rs env1] by (cases p; auto split: if_splits)+
          with batch_done_stop [OF batch] False Received show ?thesis by auto
        qed
      qed
    next
      case Recv_interrupted
      with run Cons.IH [OF inv caw idle] show ?thesis by simp
    qed (use run caw idle in \<open>auto simp: close_immediately_def note_peer_closed_def Let_def split: if_splits intro!: batch_done_Nil\<close>)
  qed
qed

section \<open>The conversation\<close>

text \<open>
  The connection and what it shares with others, all bytes the peer has sent so far and all it
  has got, and whether the server still keeps the connection.
\<close>

record conversation =
  cv_conn :: connection
  cv_env :: conn_env
  cv_received :: bytes
  cv_sent :: bytes
  cv_open :: bool

definition start_conversation :: "connection \<Rightarrow> conn_env \<Rightarrow> conversation" where
  "start_conversation c env = \<lparr>cv_conn = c, cv_env = env, cv_received = [], cv_sent = [], cv_open = True\<rparr>"

text \<open>
  The steps: the handlers of the connection as the server calls them, on any results of the
  system calls, memory that other parts use up or give back, and, when the engine is shared,
  whatever the other connections make of it.
\<close>

inductive conv_step :: "(bytes \<Rightarrow> u64) \<Rightarrow> bool \<Rightarrow> conversation \<Rightarrow> conversation \<Rightarrow> bool"
    for hash :: "bytes \<Rightarrow> u64" and shared :: bool where
  conv_read: "cv_open v \<Longrightarrow> recv_results_ok rs \<Longrightarrow>
     handle_readable hash rs (cv_conn v) (cv_env v) = Some (r, c, env) \<Longrightarrow>
     conv_step hash shared v (v\<lparr>cv_conn := c, cv_env := env, cv_received := cv_received v @ taken rs,
                                cv_open := (r = Inr True)\<rparr>)"
| conv_write: "cv_open v \<Longrightarrow> send_results_ok ss (pending_output_bytes (cv_conn v)) \<Longrightarrow>
     handle_writable ss (cv_conn v) = Some (r, bs, c) \<Longrightarrow>
     conv_step hash shared v (v\<lparr>cv_conn := c, cv_sent := cv_sent v @ bs, cv_open := r\<rparr>)"
| conv_hangup: "cv_open v \<Longrightarrow> c = note_peer_closed (cv_conn v) \<Longrightarrow>
     conv_step hash shared v (v\<lparr>cv_conn := c, cv_open := \<not> should_close c\<rparr>)"
| conv_memory: "conv_step hash shared v (v\<lparr>cv_env := (cv_env v)\<lparr>env_heap := h\<rparr>\<rparr>)"
| conv_others: "shared \<Longrightarrow> engine_inv hash e \<Longrightarrow>
     conv_step hash shared v (v\<lparr>cv_env := (cv_env v)\<lparr>env_engine := e\<rparr>\<rparr>)"

inductive conv_reach :: "(bytes \<Rightarrow> u64) \<Rightarrow> bool \<Rightarrow> connection \<Rightarrow> conn_env \<Rightarrow> conversation \<Rightarrow> bool"
    for hash :: "bytes \<Rightarrow> u64" and shared :: bool and c :: connection and env :: conn_env where
  conv_start: "conv_reach hash shared c env (start_conversation c env)"
| conv_on: "conv_reach hash shared c env v \<Longrightarrow> conv_step hash shared v w \<Longrightarrow> conv_reach hash shared c env w"

text \<open>Each response is what the engine answers to the request at its place.\<close>

definition answered :: "(bytes \<Rightarrow> u64) \<Rightarrow> request list \<Rightarrow> response list \<Rightarrow> bool" where
  "answered hash = list_all2 (\<lambda>req resp. response_id resp = request_id req \<and> response_encodable resp \<and>
     (\<exists>e e'. engine_inv hash e \<and> run_request hash req e = Some (resp, e')))"

lemma serve_answered:
  assumes "engine_inv hash e" and "serve hash reqs e = Some (resps, e')"
  shows "answered hash reqs resps"
  using assms
proof (induction reqs arbitrary: e resps)
  case (Cons req reqs)
  from run_request_ok [OF Cons.prems(1), of req] obtain resp e1 where
    r: "run_request hash req e = Some (resp, e1)" "engine_inv hash e1"
      "response_encodable resp" "response_id resp = request_id req" by blast
  with Cons.prems obtain resps' where "resps = resp # resps'" "serve hash reqs e1 = Some (resps', e')" by auto
  with Cons.IH [OF r(2)] r Cons.prems(1) show ?case by (auto simp: answered_def)
qed (simp add: answered_def)

lemma answered_append:
  "answered hash reqs resps \<Longrightarrow> answered hash reqs' resps' \<Longrightarrow> answered hash (reqs @ reqs') (resps @ resps')"
  by (simp add: answered_def list_all2_appendI)

section \<open>What holds at every moment of a conversation\<close>

definition conv_told ::
    "(bytes \<Rightarrow> u64) \<Rightarrow> request list \<Rightarrow> bytes \<Rightarrow> response list \<Rightarrow> bytes \<Rightarrow> conversation \<Rightarrow> bool" where
  "conv_told hash reqs rest resps extra v \<longleftrightarrow>
     (\<forall>r \<in> set reqs. encodable r) \<and> cv_received v = request_stream reqs @ rest \<and>
     answered hash reqs resps \<and> (extra = [] \<or> complains extra) \<and>
     prefix (cv_sent v) (response_stream resps @ extra) \<and>
     (cv_open v \<longrightarrow>
        cv_sent v @ readable_view (output_buffer (cv_conn v)) = response_stream resps @ extra \<and>
        (if close_after_write (cv_conn v) then complains extra
         else extra = [] \<and> readable_view (input_buffer (cv_conn v)) = rest \<and> unfinished rest))"

lemma conv_told_env [simp]: "conv_told hash reqs rest resps extra (v\<lparr>cv_env := env\<rparr>) = conv_told hash reqs rest resps extra v"
  by (simp add: conv_told_def)

definition conv_alive :: "(bytes \<Rightarrow> u64) \<Rightarrow> conversation \<Rightarrow> bool" where
  "conv_alive hash v \<longleftrightarrow>
     engine_inv hash (env_engine (cv_env v)) \<and>
     (cv_open v \<longrightarrow> conn_idle hash (cv_conn v) (cv_env v) \<and> \<not> closing (cv_conn v))"

text \<open>
  A conversation goes on: the requests that are taken from the input are run on the engine,
  and their answers are added to what the peer is told.
\<close>

definition conv_advance :: "(bytes \<Rightarrow> u64) \<Rightarrow> conversation \<Rightarrow> conversation \<Rightarrow> bool" where
  "conv_advance hash v w \<longleftrightarrow> (conv_alive hash v \<longrightarrow> conv_alive hash w \<and>
     (\<forall>reqs rest resps extra. conv_told hash reqs rest resps extra v \<longrightarrow>
        (\<exists>reqs' rest' resps' extra'.
           serve hash reqs' (env_engine (cv_env v)) = Some (resps', env_engine (cv_env w)) \<and>
           conv_told hash (reqs @ reqs') rest' (resps @ resps') extra' w)))"

lemma conv_advanceI:
  assumes "conv_alive hash v \<Longrightarrow> conv_alive hash w"
    and "\<And>reqs rest resps extra. conv_alive hash v \<Longrightarrow> conv_told hash reqs rest resps extra v \<Longrightarrow>
       \<exists>reqs' rest' resps' extra'. serve hash reqs' (env_engine (cv_env v)) = Some (resps', env_engine (cv_env w)) \<and>
         conv_told hash (reqs @ reqs') rest' (resps @ resps') extra' w"
  shows "conv_advance hash v w"
  using assms unfolding conv_advance_def by blast

lemma conv_advanceE:
  assumes "conv_advance hash v w" and "conv_alive hash v" and "conv_told hash reqs rest resps extra v"
  obtains reqs' rest' resps' extra' where
    "serve hash reqs' (env_engine (cv_env v)) = Some (resps', env_engine (cv_env w))"
    "conv_told hash (reqs @ reqs') rest' (resps @ resps') extra' w" "conv_alive hash w"
  using assms unfolding conv_advance_def by blast

lemma conv_advance_refl [simp]: "conv_advance hash v v"
proof (rule conv_advanceI)
  fix reqs rest resps extra
  assume "conv_told hash reqs rest resps extra v"
  then show "\<exists>reqs' rest' resps' extra'. serve hash reqs' (env_engine (cv_env v)) = Some (resps', env_engine (cv_env v)) \<and>
      conv_told hash (reqs @ reqs') rest' (resps @ resps') extra' v"
    by (intro exI [of _ "[]"] exI [of _ rest] exI [of _ extra]) simp
qed

lemma conv_advance_trans:
  assumes "conv_advance hash u v" and "conv_advance hash v w"
  shows "conv_advance hash u w"
proof (rule conv_advanceI)
  fix reqs rest resps extra
  assume u: "conv_alive hash u" "conv_told hash reqs rest resps extra u"
  from conv_advanceE [OF assms(1) u] obtain reqs1 rest1 resps1 extra1 where
    1: "serve hash reqs1 (env_engine (cv_env u)) = Some (resps1, env_engine (cv_env v))"
      "conv_told hash (reqs @ reqs1) rest1 (resps @ resps1) extra1 v" "conv_alive hash v" .
  from conv_advanceE [OF assms(2) 1(3,2)] obtain reqs2 rest2 resps2 extra2 where
    2: "serve hash reqs2 (env_engine (cv_env v)) = Some (resps2, env_engine (cv_env w))"
      "conv_told hash ((reqs @ reqs1) @ reqs2) rest2 ((resps @ resps1) @ resps2) extra2 w" .
  from 1(1) 2 show "\<exists>reqs' rest' resps' extra'.
      serve hash reqs' (env_engine (cv_env u)) = Some (resps', env_engine (cv_env w)) \<and>
      conv_told hash (reqs @ reqs') rest' (resps @ resps') extra' w"
    by (intro exI [of _ "reqs1 @ reqs2"] exI [of _ rest2] exI [of _ "resps1 @ resps2"] exI [of _ extra2])
      (simp add: serve_append)
qed (use assms in \<open>auto simp: conv_advance_def\<close>)

text \<open>Steps that run no request and send nothing.\<close>

lemma conv_advance_quiet:
  assumes "cv_received w = cv_received v" and "cv_sent w = cv_sent v" and "env_engine (cv_env w) = env_engine (cv_env v)"
    and "cv_open w \<Longrightarrow> cv_open v \<and> (closing (cv_conn w) \<longrightarrow> closing (cv_conn v)) \<and>
           input_buffer (cv_conn w) = input_buffer (cv_conn v) \<and>
           output_buffer (cv_conn w) = output_buffer (cv_conn v) \<and>
           output_limit (cv_conn w) = output_limit (cv_conn v) \<and>
           close_after_write (cv_conn w) = close_after_write (cv_conn v)"
  shows "conv_advance hash v w"
proof (rule conv_advanceI)
  fix reqs rest resps extra
  assume "conv_told hash reqs rest resps extra v"
  then have "conv_told hash reqs rest resps extra w" using assms by (auto simp: conv_told_def)
  then show "\<exists>reqs' rest' resps' extra'. serve hash reqs' (env_engine (cv_env v)) = Some (resps', env_engine (cv_env w)) \<and>
      conv_told hash (reqs @ reqs') rest' (resps @ resps') extra' w"
    using assms(3) by (intro exI [of _ "[]"] exI [of _ rest] exI [of _ extra]) simp
qed (use assms in \<open>auto simp: conv_alive_def conn_idle_def conn_inv_def\<close>)

text \<open>What the read handler leaves behind.\<close>

lemma handle_readable_result:
  assumes "conn_idle hash c env" and "recv_results_ok rs" and "handle_readable hash rs c env = Some (r, c', env')"
  obtains q where "readable_loop hash rs c env = Some (q, c', env')" "conn_inv hash c' env'"
    "(r = Inr True) = (q = Inr () \<and> \<not> closing c')" "r = Inr True \<longrightarrow> conn_idle hash c' env' \<and> \<not> closing c'"
proof -
  from readable_loop_ok [OF assms(1,2)] obtain q c1 env1 where
    loop: "readable_loop hash rs c env = Some (q, c1, env1)" "conn_inv hash c1 env1"
      "q = Inr () \<longrightarrow> closing c1 \<or> conn_idle hash c1 env1" by blast
  then have "c1 = c'" "env1 = env'" "(r = Inr True) = (q = Inr () \<and> \<not> closing c')"
    using assms(3) by (cases q; auto simp: handle_readable_def should_close_def)+
  with loop show ?thesis by (intro that [of q]) auto
qed

lemma conv_advance_read:
  assumes opn: "cv_open v" and rs: "recv_results_ok rs"
    and run: "handle_readable hash rs (cv_conn v) (cv_env v) = Some (r, c, env)"
  shows "conv_advance hash v (v\<lparr>cv_conn := c, cv_env := env, cv_received := cv_received v @ taken rs,
                                cv_open := (r = Inr True)\<rparr>)" (is "conv_advance hash v ?w")
proof (rule conv_advanceI)
  assume alive: "conv_alive hash v"
  then have "conn_idle hash (cv_conn v) (cv_env v)" using opn by (simp add: conv_alive_def)
  from handle_readable_result [OF this rs run] show "conv_alive hash ?w"
    by (auto simp: conv_alive_def conn_inv_def)
next
  fix reqs rest resps extra
  assume alive: "conv_alive hash v" and told: "conv_told hash reqs rest resps extra v"
  have idle: "conn_idle hash (cv_conn v) (cv_env v)" and live: "\<not> closing (cv_conn v)"
    using alive opn by (auto simp: conv_alive_def)
  then have inv: "conn_inv hash (cv_conn v) (cv_env v)" by (simp add: conn_idle_def)
  from handle_readable_result [OF idle rs run] obtain q where
    loop: "readable_loop hash rs (cv_conn v) (cv_env v) = Some (q, c, env)"
    and r: "(r = Inr True) = (q = Inr () \<and> \<not> closing c)" by blast
  let ?goal = "\<lambda>reqs' rest' resps' extra'.
      serve hash reqs' (env_engine (cv_env v)) = Some (resps', env_engine (cv_env ?w)) \<and>
      conv_told hash (reqs @ reqs') rest' (resps @ resps') extra' ?w"
  show "\<exists>reqs' rest' resps' extra'. ?goal reqs' rest' resps' extra'"
  proof (cases "close_after_write (cv_conn v)")
    case True
    then have "q = Inr ()" "c = cv_conn v" "env = cv_env v" using loop readable_loop_stops by auto
    moreover from this told opn True live r
    have "conv_told hash reqs (rest @ taken rs) resps extra ?w" by (auto simp: conv_told_def)
    ultimately have "?goal [] (rest @ taken rs) [] extra" by simp
    then show ?thesis by blast
  next
    case False
    have now: "readable_view (input_buffer (cv_conn v)) = rest" "extra = []" "unfinished rest"
      "cv_sent v @ readable_view (output_buffer (cv_conn v)) = response_stream resps"
      using told opn False by (auto simp: conv_told_def)
    from readable_loop_batch [OF inv False _ loop] now(1,3) obtain reqs' resps' rest' where
      b: "\<forall>r \<in> set reqs'. encodable r" "rest @ taken rs = request_stream reqs' @ rest'"
        "serve hash reqs' (env_engine (cv_env v)) = Some (resps', env_engine env)"
        "r = Inr True \<and> \<not> close_after_write c \<longrightarrow> readable_view (input_buffer c) = rest' \<and> unfinished rest' \<and>
           readable_view (output_buffer c) = readable_view (output_buffer (cv_conn v)) @ response_stream resps'"
        "r = Inr True \<and> close_after_write c \<longrightarrow> (\<exists>bs. complains bs \<and>
           readable_view (output_buffer c) = readable_view (output_buffer (cv_conn v)) @ response_stream resps' @ bs)"
      using r unfolding batch_done_def by auto
    have ans: "answered hash (reqs @ reqs') (resps @ resps')"
      using told serve_answered [OF _ b(3)] inv by (auto simp: conv_told_def conn_inv_def intro: answered_append)
    obtain extra' where "extra' = [] \<or> complains extra'"
      "r = Inr True \<longrightarrow> readable_view (output_buffer c) =
         readable_view (output_buffer (cv_conn v)) @ response_stream resps' @ extra'"
      "r = Inr True \<longrightarrow> (if close_after_write c then complains extra' else extra' = [])"
      using b(4,5) by (cases "r = Inr True \<and> close_after_write c") auto
    moreover have "prefix (cv_sent v) (response_stream (resps @ resps') @ extra')"
      using now(4) [symmetric] by simp
    ultimately have "?goal reqs' rest' resps' extra'"
      using told b ans now by (auto simp: conv_told_def)
    then show ?thesis by blast
  qed
qed

lemma handle_writable_keeps:
  "handle_writable ss c = Some (r, sent, c') \<Longrightarrow> close_after_write c' = close_after_write c"
  by (induction ss c arbitrary: sent rule: handle_writable.induct)
     (auto simp: writable_done_def close_immediately_def Let_def split: if_splits send_result.splits option.splits)

lemma conv_advance_write:
  assumes opn: "cv_open v" and ss: "send_results_ok ss (pending_output_bytes (cv_conn v))"
    and run: "handle_writable ss (cv_conn v) = Some (r, bs, c)"
  shows "conv_advance hash v (v\<lparr>cv_conn := c, cv_sent := cv_sent v @ bs, cv_open := r\<rparr>)" (is "conv_advance hash v ?w")
proof -
  have w: "conn_inv hash c (cv_env v)" "bs @ readable_view (output_buffer c) = readable_view (output_buffer (cv_conn v))"
    "input_buffer c = input_buffer (cv_conn v)" "r = (\<not> closing c)" if "conv_alive hash v"
    using handle_writable_ok [OF _ ss [unfolded pending_output_bytes_def], of hash "cv_env v"] run opn that
    by (auto simp: conv_alive_def conn_idle_def)
  show ?thesis
  proof (rule conv_advanceI)
    assume "conv_alive hash v"
    with w opn show "conv_alive hash ?w" by (simp add: conv_alive_def conn_idle_def)
  next
    fix reqs rest resps extra
    assume alive: "conv_alive hash v" and told: "conv_told hash reqs rest resps extra v"
    have eq: "(cv_sent v @ bs) @ readable_view (output_buffer c) = response_stream resps @ extra"
      using told opn w(2) [OF alive] by (simp add: conv_told_def)
    then have "prefix (cv_sent v @ bs) (response_stream resps @ extra)" by (metis prefixI)
    then have "conv_told hash reqs rest resps extra ?w"
      using told opn eq w(3) [OF alive] handle_writable_keeps [OF run] by (auto simp: conv_told_def)
    then show "\<exists>reqs' rest' resps' extra'. serve hash reqs' (env_engine (cv_env v)) = Some (resps', env_engine (cv_env ?w)) \<and>
        conv_told hash (reqs @ reqs') rest' (resps @ resps') extra' ?w"
      by (intro exI [of _ "[]"] exI [of _ rest] exI [of _ extra]) simp
  qed
qed

lemma conv_advance_hangup:
  "conv_advance hash v (v\<lparr>cv_conn := note_peer_closed (cv_conn v),
                          cv_open := cv_open v \<and> \<not> should_close (note_peer_closed (cv_conn v))\<rparr>)"
  by (rule conv_advance_quiet)
     (auto simp: should_close_def note_peer_closed_def close_immediately_def Let_def split: if_splits)

text \<open>Every step of a conversation is an advance, but for what others do to the engine.\<close>

lemma conv_step_advance:
  assumes "conv_step hash shared v w"
  shows "conv_advance hash v w \<or>
    (shared \<and> (\<exists>e. engine_inv hash e \<and> w = v\<lparr>cv_env := (cv_env v)\<lparr>env_engine := e\<rparr>\<rparr>))"
  using assms
proof cases
  case (conv_hangup c)
  then show ?thesis using conv_advance_hangup [of hash v] by simp
next
  case (conv_memory h)
  then show ?thesis by (auto intro!: conv_advance_quiet simp: conv_alive_def)
qed (use conv_advance_read conv_advance_write in blast)+

definition conv_inv ::
    "(bytes \<Rightarrow> u64) \<Rightarrow> bool \<Rightarrow> cache_engine \<Rightarrow> conversation \<Rightarrow> bool" where
  "conv_inv hash shared e v \<longleftrightarrow> conv_alive hash v \<and>
     (\<exists>reqs rest resps extra. conv_told hash reqs rest resps extra v \<and>
        (\<not> shared \<longrightarrow> serve hash reqs e = Some (resps, env_engine (cv_env v))))"

lemma conv_inv_advance:
  assumes "conv_advance hash v w" and "conv_inv hash shared e v"
  shows "conv_inv hash shared e w"
proof -
  from assms(2) obtain reqs rest resps extra where
    v: "conv_alive hash v" "conv_told hash reqs rest resps extra v"
      "\<not> shared \<longrightarrow> serve hash reqs e = Some (resps, env_engine (cv_env v))" by (auto simp: conv_inv_def)
  from conv_advanceE [OF assms(1) v(1,2)] obtain reqs' rest' resps' extra' where
    "serve hash reqs' (env_engine (cv_env v)) = Some (resps', env_engine (cv_env w))"
    "conv_told hash (reqs @ reqs') rest' (resps @ resps') extra' w" "conv_alive hash w" .
  moreover from this v(3) have "\<not> shared \<longrightarrow> serve hash (reqs @ reqs') e = Some (resps @ resps', env_engine (cv_env w))"
    by (simp add: serve_append)
  ultimately show ?thesis unfolding conv_inv_def by blast
qed

lemma conv_step_inv:
  assumes "conv_step hash shared v w" and "conv_inv hash shared e v"
  shows "conv_inv hash shared e w"
proof -
  consider "conv_advance hash v w"
    | e' where "shared" "engine_inv hash e'" "w = v\<lparr>cv_env := (cv_env v)\<lparr>env_engine := e'\<rparr>\<rparr>"
    using conv_step_advance [OF assms(1)] by blast
  then show ?thesis
  proof cases
    case 1
    then show ?thesis using conv_inv_advance assms(2) by blast
  next
    case 2
    moreover have "conv_alive hash w" using 2 assms(2) by (auto simp: conv_inv_def conv_alive_def conn_idle_def conn_inv_def)
    ultimately show ?thesis using assms(2) by (simp add: conv_inv_def)
  qed
qed

lemma conv_reach_inv:
  assumes "conv_reach hash shared c env v" and "new_connection limit h = (Inr c, h')"
    and "engine_inv hash (env_engine env)"
  shows "conv_inv hash shared (env_engine env) v \<and> output_limit c = limit"
  using assms(1)
proof induction
  case conv_start
  note new = new_connection_ok [OF assms(2,3)]
  have "conv_told hash [] [] [] [] (start_conversation c env)"
    using new by (simp add: conv_told_def start_conversation_def answered_def)
  with new assms(3) show ?case
    unfolding conv_inv_def conv_alive_def
    by (intro conjI exI [of _ "[]"]) (auto simp: start_conversation_def)
qed (auto dest: conv_step_inv)

end
