(* ===== verification/Dialogues.thy ===== *)
theory Dialogues
  imports Cache_Server Conversation
begin

text \<open>
  What the clients of the server see. Each connection that a worker installs is a dialogue: the
  bytes its peer has sent and the bytes the peer has got. The theory records the dialogues of
  the events that a worker handles (\<^verbatim>\<open>src/net/cache_server.cpp\<close>) and shows that the requests of all
  dialogues, in the order in which they are run on the engine, are one sequential history:
  every peer is told the answers this history gives to its own requests, in order.
\<close>

section \<open>Recording dialogues\<close>

text \<open>
  A worker is identified by its index. Sockets are reused by the kernel, so a socket can occur
  in several dialogues, of which at most one is open.
\<close>

record dialogue =
  dg_worker :: nat
  dg_socket :: int
  dg_received :: bytes
  dg_sent :: bytes
  dg_open :: bool

definition new_dialogue :: "nat \<Rightarrow> int \<Rightarrow> dialogue" where
  "new_dialogue i fd = \<lparr>dg_worker = i, dg_socket = fd, dg_received = [], dg_sent = [], dg_open = True\<rparr>"

definition dg_key :: "dialogue \<Rightarrow> nat \<times> int" where
  "dg_key d = (dg_worker d, dg_socket d)"

definition speaks :: "nat \<Rightarrow> int \<Rightarrow> dialogue \<Rightarrow> bool" where
  "speaks i fd d \<longleftrightarrow> dg_open d \<and> dg_key d = (i, fd)"

text \<open>The bytes that an event makes the connection take from its socket.\<close>

definition event_input :: "u32 \<Rightarrow> recv_result list \<Rightarrow> bytes" where
  "event_input events recvs =
     (if events AND EPOLLERR = 0 \<and> events AND (EPOLLIN OR EPOLLRDHUP OR EPOLLHUP) \<noteq> 0 then taken recvs else [])"

definition note_event :: "nat \<Rightarrow> int \<Rightarrow> bytes \<Rightarrow> bytes \<Rightarrow> bool \<Rightarrow> dialogue list \<Rightarrow> dialogue list" where
  "note_event i fd inp sent kept =
     map (\<lambda>d. if speaks i fd d
              then d\<lparr>dg_received := dg_received d @ inp, dg_sent := dg_sent d @ sent, dg_open := kept\<rparr> else d)"

fun note_events ::
    "(bytes \<Rightarrow> u64) \<Rightarrow> nat \<Rightarrow> worker_event list \<Rightarrow> worker \<Rightarrow> conn_env \<Rightarrow> dialogue list \<Rightarrow> dialogue list" where
  "note_events hash i [] w env ds = ds"
| "note_events hash i (Wakeup reads # later) w env ds =
     note_events hash i later (w\<lparr>wk_wakeup := drain_counter reads (wk_wakeup w)\<rparr>) env ds"
| "note_events hash i (Ready fd events recvs sends mod_works # later) w env ds =
     (case handle_connection_event hash fd events recvs sends mod_works w env of
        None \<Rightarrow> ds
      | Some (sent, w1, env1) \<Rightarrow>
          note_events hash i later w1 env1
            (note_event i fd (event_input events recvs) sent (fd \<in> fst ` set (wk_connections w1)) ds))"

definition note_installed :: "nat \<Rightarrow> worker \<Rightarrow> worker \<Rightarrow> dialogue list \<Rightarrow> dialogue list" where
  "note_installed i w w' ds =
     ds @ map (new_dialogue i) (filter (\<lambda>fd. fd \<notin> fst ` set (wk_connections w)) (map fst (wk_connections w')))"

definition hang_up :: "nat \<Rightarrow> dialogue list \<Rightarrow> dialogue list" where
  "hang_up i = map (\<lambda>d. if dg_worker d = i then d\<lparr>dg_open := False\<rparr> else d)"

section \<open>Histories\<close>

text \<open>What happens to the engine: the answer to a request of a dialogue, and expirations of the timer.\<close>

datatype happening = Answered nat request response | Timer_fired "io_result list"

fun retrace :: "(bytes \<Rightarrow> u64) \<Rightarrow> happening list \<Rightarrow> cache_engine \<Rightarrow> cache_engine option" where
  "retrace hash [] e = Some e"
| "retrace hash (Answered k req resp # later) e =
     (case run_request hash req e of
        None \<Rightarrow> None
      | Some (resp', e') \<Rightarrow> if resp' = resp then retrace hash later e' else None)"
| "retrace hash (Timer_fired reads # later) e =
     (case handle_timer reads e of None \<Rightarrow> None | Some e' \<Rightarrow> retrace hash later e')"

lemma retrace_append: "retrace hash (xs @ ys) e = Option.bind (retrace hash xs e) (retrace hash ys)"
  by (induction hash xs e rule: retrace.induct) (auto split: option.splits)

fun asked :: "nat \<Rightarrow> happening list \<Rightarrow> request list" where
  "asked k [] = []"
| "asked k (Answered j req resp # later) = (if j = k then req # asked k later else asked k later)"
| "asked k (Timer_fired reads # later) = asked k later"

fun answers :: "nat \<Rightarrow> happening list \<Rightarrow> response list" where
  "answers k [] = []"
| "answers k (Answered j req resp # later) = (if j = k then resp # answers k later else answers k later)"
| "answers k (Timer_fired reads # later) = answers k later"

lemma asked_append [simp]: "asked k (xs @ ys) = asked k xs @ asked k ys"
  by (induction k xs rule: asked.induct) auto

lemma answers_append [simp]: "answers k (xs @ ys) = answers k xs @ answers k ys"
  by (induction k xs rule: answers.induct) auto

text \<open>A batch of requests of one dialogue.\<close>

definition batch :: "nat \<Rightarrow> request list \<Rightarrow> response list \<Rightarrow> happening list" where
  "batch k reqs resps = map2 (Answered k) reqs resps"

lemma batch_asked:
  "length reqs = length resps \<Longrightarrow>
     asked j (batch k reqs resps) = (if j = k then reqs else []) \<and>
     answers j (batch k reqs resps) = (if j = k then resps else [])"
  by (induction reqs resps rule: list_induct2) (auto simp: batch_def)

lemma retrace_batch:
  "serve hash reqs e = Some (resps, e') \<Longrightarrow>
     retrace hash (batch k reqs resps) e = Some e' \<and> length reqs = length resps"
  by (induction reqs arbitrary: e resps) (auto simp: batch_def split: option.splits)

section \<open>An event of a connection\<close>

text \<open>The three parts of \<^verbatim>\<open>connection_event\<close>: what has arrived, what can be sent, and the end of the peer.\<close>

lemma event_reads:
  assumes run: "(if events AND EPOLLERR = 0 \<and> events AND (EPOLLIN OR EPOLLRDHUP OR EPOLLHUP) \<noteq> 0
         then handle_readable hash recvs (cv_conn v) (cv_env v)
         else Some (Inr (events AND EPOLLERR = 0), cv_conn v, cv_env v)) = Some (r, c, env)"
    and opn: "cv_open v" and inputs: "event_inputs_ok hash events recvs sends (cv_conn v) (cv_env v)"
  shows "conv_advance hash v (v\<lparr>cv_conn := c, cv_env := env, cv_received := cv_received v @ event_input events recvs,
                                cv_open := (r = Inr True)\<rparr>)"
proof (cases "events AND EPOLLERR = 0 \<and> events AND (EPOLLIN OR EPOLLRDHUP OR EPOLLHUP) \<noteq> 0")
  case True
  with run inputs conv_advance_read [OF opn, of recvs hash r c env] show ?thesis
    by (simp add: event_input_def event_inputs_ok_def)
next
  case False
  with run opn show ?thesis by (intro conv_advance_quiet) (auto simp: event_input_def split: if_splits)
qed

lemma event_writes:
  assumes run: "(if cv_open v \<and> out then handle_writable sends (cv_conn v) else Some (cv_open v, [], cv_conn v)) =
         Some (keep, sent, c)"
    and sends: "cv_open v \<and> out \<Longrightarrow> send_results_ok sends (pending_output_bytes (cv_conn v))"
  shows "conv_advance hash v (v\<lparr>cv_conn := c, cv_sent := cv_sent v @ sent, cv_open := keep\<rparr>)"
proof (cases "cv_open v \<and> out")
  case True
  with run sends conv_advance_write [of v sends keep sent c hash] show ?thesis by simp
next
  case False
  with run show ?thesis by (intro conv_advance_quiet) (auto split: if_splits)
qed

lemma event_hangs_up:
  assumes "(if cv_open v \<and> hup then (\<not> should_close (note_peer_closed (cv_conn v)), note_peer_closed (cv_conn v))
         else (cv_open v, cv_conn v)) = (keep, c)"
  shows "conv_advance hash v (v\<lparr>cv_conn := c, cv_open := keep\<rparr>)"
proof (cases "cv_open v \<and> hup")
  case True
  then show ?thesis using conv_advance_hangup [of hash v] assms by auto
next
  case False
  then have "v\<lparr>cv_conn := c, cv_open := keep\<rparr> = v" using assms by (auto split: if_splits)
  then show ?thesis by simp
qed

lemma connection_event_advance:
  assumes run: "connection_event hash events recvs sends (cv_conn v) (cv_env v) = Some (keep, sent, c', env')"
    and opn: "cv_open v" and inputs: "event_inputs_ok hash events recvs sends (cv_conn v) (cv_env v)"
  shows "conv_advance hash v (v\<lparr>cv_conn := c', cv_env := env', cv_received := cv_received v @ event_input events recvs,
                                cv_sent := cv_sent v @ sent, cv_open := keep\<rparr>)"
proof -
  let ?err = "events AND EPOLLERR = 0" and ?in = "events AND (EPOLLIN OR EPOLLRDHUP OR EPOLLHUP) \<noteq> 0"
    and ?out = "events AND EPOLLOUT \<noteq> 0"
  from run obtain r c1 env1 where
    1: "(if ?err \<and> ?in then handle_readable hash recvs (cv_conn v) (cv_env v)
         else Some (Inr ?err, cv_conn v, cv_env v)) = Some (r, c1, env1)"
    unfolding connection_event_def Let_def by (auto split: option.splits prod.splits)
  define v1 where "v1 = v\<lparr>cv_conn := c1, cv_env := env1, cv_received := cv_received v @ event_input events recvs,
                          cv_open := (r = Inr True)\<rparr>"
  have adv1: "conv_advance hash v v1" unfolding v1_def by (rule event_reads [OF 1 opn inputs])
  show ?thesis
  proof (cases r)
    case (Inl x)
    with run 1 have "keep = False" "sent = []" "c' = c1" "env' = env1"
      unfolding connection_event_def Let_def by simp_all
    with adv1 Inl show ?thesis by (simp add: v1_def)
  next
    case (Inr keep1)
    with run 1 obtain keep2 c2 where
      2: "(if keep1 \<and> ?out then handle_writable sends c1 else Some (keep1, [], c1)) = Some (keep2, sent, c2)"
      and env': "env' = env1"
      and last: "(if keep2 \<and> events AND (EPOLLRDHUP OR EPOLLHUP) \<noteq> 0
         then (\<not> should_close (note_peer_closed c2), note_peer_closed c2) else (keep2, c2)) = (keep, c')"
      unfolding connection_event_def Let_def by (auto split: option.splits prod.splits if_splits)
    define v2 where "v2 = v1\<lparr>cv_conn := c2, cv_sent := cv_sent v1 @ sent, cv_open := keep2\<rparr>"
    have "send_results_ok sends (pending_output_bytes c1)" if "keep1 \<and> ?out"
      using inputs 1 Inr that unfolding event_inputs_ok_def
      by (cases "?err") (auto simp: pending_output_bytes_def split: if_splits)
    then have adv2: "conv_advance hash v1 v2"
      unfolding v2_def using 2 Inr by (intro event_writes [where out = "?out"]) (auto simp: v1_def split: if_splits)
    have "conv_advance hash v2 (v2\<lparr>cv_conn := c', cv_open := keep\<rparr>)"
      using last by (intro event_hangs_up [where hup = "events AND (EPOLLRDHUP OR EPOLLHUP) \<noteq> 0"]) (auto simp: v2_def split: if_splits)
    from conv_advance_trans [OF conv_advance_trans [OF adv1 adv2] this] show ?thesis
      by (cases v) (simp add: v1_def v2_def env')
  qed
qed

section \<open>Dialogues and their connections\<close>

definition conv_of :: "dialogue \<Rightarrow> connection \<Rightarrow> conn_env \<Rightarrow> conversation" where
  "conv_of d c env =
     \<lparr>cv_conn = c, cv_env = env, cv_received = dg_received d, cv_sent = dg_sent d, cv_open = dg_open d\<rparr>"

lemma conv_told_of_env:
  "conv_told hash reqs rest resps extra (conv_of d c env) \<Longrightarrow> conv_told hash reqs rest resps extra (conv_of d c env')"
  by (auto simp: conv_told_def conv_of_def)

lemma conv_told_close:
  "conv_told hash reqs rest resps extra v \<Longrightarrow> (opn \<longrightarrow> cv_open v) \<Longrightarrow>
     conv_told hash reqs rest resps extra (v\<lparr>cv_open := opn\<rparr>)"
  by (auto simp: conv_told_def)

text \<open>
  The connections of the server are a map from workers and sockets. The open dialogues are
  those of the connections, and each dialogue has been told what the history answers.
\<close>

definition dialogue_ok ::
    "(bytes \<Rightarrow> u64) \<Rightarrow> happening list \<Rightarrow> (nat \<times> int \<rightharpoonup> connection) \<Rightarrow> dialogue list \<Rightarrow> nat \<Rightarrow> bool" where
  "dialogue_ok hash hist conns ds k \<longleftrightarrow>
     (\<exists>rest extra c env. conv_told hash (asked k hist) rest (answers k hist) extra (conv_of (ds ! k) c env) \<and>
        (dg_open (ds ! k) \<longrightarrow> conns (dg_key (ds ! k)) = Some c))"

definition paired :: "(nat \<times> int \<rightharpoonup> connection) \<Rightarrow> dialogue list \<Rightarrow> bool" where
  "paired conns ds \<longleftrightarrow>
     (\<forall>i fd. \<forall>j < length ds. \<forall>k < length ds. speaks i fd (ds ! j) \<and> speaks i fd (ds ! k) \<longrightarrow> j = k) \<and>
     (\<forall>i fd. conns (i, fd) \<noteq> None \<longleftrightarrow> (\<exists>k < length ds. speaks i fd (ds ! k)))"

definition talks ::
    "(bytes \<Rightarrow> u64) \<Rightarrow> happening list \<Rightarrow> (nat \<times> int \<rightharpoonup> connection) \<Rightarrow> dialogue list \<Rightarrow> bool" where
  "talks hash hist conns ds \<longleftrightarrow>
     (\<forall>k < length ds. dialogue_ok hash hist conns ds k) \<and> paired conns ds \<and>
     (\<forall>k \<ge> length ds. asked k hist = [] \<and> answers k hist = [])"

lemma pairedD:
  assumes "paired conns ds"
  shows "j < length ds \<Longrightarrow> k < length ds \<Longrightarrow> speaks i fd (ds ! j) \<Longrightarrow> speaks i fd (ds ! k) \<Longrightarrow> j = k"
    and "conns (i, fd) \<noteq> None \<longleftrightarrow> (\<exists>k < length ds. speaks i fd (ds ! k))"
  using assms unfolding paired_def by blast+

lemma talksD:
  assumes "talks hash hist conns ds"
  shows "k < length ds \<Longrightarrow> dialogue_ok hash hist conns ds k"
    and "j < length ds \<Longrightarrow> k < length ds \<Longrightarrow> speaks i fd (ds ! j) \<Longrightarrow> speaks i fd (ds ! k) \<Longrightarrow> j = k"
    and "conns (i, fd) \<noteq> None \<longleftrightarrow> (\<exists>k < length ds. speaks i fd (ds ! k))"
    and "k \<ge> length ds \<Longrightarrow> asked k hist = [] \<and> answers k hist = []"
    and "paired conns ds"
  using assms unfolding talks_def paired_def by blast+

lemma ex_nth: "(\<exists>k < length xs. P (xs ! k)) \<longleftrightarrow> (\<exists>x \<in> set xs. P x)"
  by (metis in_set_conv_nth)

lemma talks_start: "talks hash [] (\<lambda>_. None) []"
  by (simp add: talks_def paired_def)

lemma talks_timer: "talks hash hist conns ds \<Longrightarrow> talks hash (hist @ [Timer_fired reads]) conns ds"
  by (simp add: talks_def dialogue_ok_def)

text \<open>A socket without a connection is in no open dialogue.\<close>

lemma note_event_none:
  assumes "talks hash hist conns ds" and "conns (i, fd) = None"
  shows "note_event i fd inp sent kept ds = ds"
proof -
  have "\<not> speaks i fd d" if "d \<in> set ds" for d
    using talksD(3) [OF assms(1), of i fd] assms(2) that by (metis in_set_conv_nth)
  then show ?thesis unfolding note_event_def by (intro map_idI) auto
qed

lemma nth_note_event:
  assumes "paired conns ds" and "k < length ds" and "speaks i fd (ds ! k)" and "j < length ds"
  shows "note_event i fd inp sent kept ds ! j =
           (if j = k then (ds ! k)\<lparr>dg_received := dg_received (ds ! k) @ inp, dg_sent := dg_sent (ds ! k) @ sent,
                                  dg_open := kept\<rparr>
            else ds ! j)"
proof -
  have "speaks i fd (ds ! j) \<longleftrightarrow> j = k" using pairedD(1) [OF assms(1,2,4) assms(3)] assms(3) by blast
  then show ?thesis using assms(4) by (auto simp: note_event_def)
qed

lemma length_note_event [simp]: "length (note_event i fd inp sent kept ds) = length ds"
  by (simp add: note_event_def)

lemma paired_note_event:
  assumes pair: "paired conns ds" and conn: "conns (i, fd) \<noteq> None"
  shows "paired (conns((i, fd) := if kept then Some c else None)) (note_event i fd inp sent kept ds)"
    (is "paired ?conns ?ds")
proof -
  from pairedD(2) [OF pair, of i fd] conn obtain k where k: "k < length ds" "speaks i fd (ds ! k)" by auto
  have speak: "speaks a b (?ds ! j) \<longleftrightarrow> speaks a b (ds ! j) \<and> (j = k \<longrightarrow> kept)" if "j < length ds" for a b j
    using nth_note_event [OF pair k that] k(2) by (auto simp: speaks_def dg_key_def)
  have "?conns (a, b) \<noteq> None \<longleftrightarrow> (\<exists>j < length ds. speaks a b (?ds ! j))" for a b
  proof (cases "(a, b) = (i, fd)")
    case True
    have "j = k" if "j < length ds" "speaks i fd (ds ! j)" for j using pairedD(1) [OF pair that(1) k(1) that(2) k(2)] .
    then have "(\<exists>j < length ds. speaks i fd (?ds ! j)) \<longleftrightarrow> kept" using speak k by blast
    then show ?thesis using True by simp
  next
    case False
    then have "\<not> speaks a b (ds ! k)" using k(2) by (auto simp: speaks_def)
    then have "(\<exists>j < length ds. speaks a b (?ds ! j)) \<longleftrightarrow> (\<exists>j < length ds. speaks a b (ds ! j))"
      using speak by metis
    then show ?thesis using pairedD(2) [OF pair, of a b] False by auto
  qed
  moreover have "x = y" if "speaks a b (?ds ! x)" "speaks a b (?ds ! y)" "x < length ds" "y < length ds" for a b x y
    using that speak pairedD(1) [OF pair, of x y a b] by blast
  ultimately show ?thesis unfolding paired_def length_note_event by blast
qed

lemma talks_event:
  assumes talks: "talks hash hist conns ds" and conn: "conns (i, fd) = Some c"
    and idle: "conn_idle hash c env" "\<not> closing c"
    and run: "connection_event hash events recvs sends c env = Some (keep, sent, c', env')"
    and inputs: "event_inputs_ok hash events recvs sends c env" and kept: "kept \<longrightarrow> keep"
  shows "\<exists>new. retrace hash new (env_engine env) = Some (env_engine env') \<and>
           talks hash (hist @ new) (conns((i, fd) := if kept then Some c' else None))
             (note_event i fd (event_input events recvs) sent kept ds)"
proof -
  from talksD(3) [OF talks, of i fd] conn obtain k where k: "k < length ds" "speaks i fd (ds ! k)" by auto
  let ?v = "conv_of (ds ! k) c env" and ?ds = "note_event i fd (event_input events recvs) sent kept ds"
  from talksD(1) [OF talks k(1)] conn k(2) obtain rest extra where
    told: "conv_told hash (asked k hist) rest (answers k hist) extra ?v"
    unfolding dialogue_ok_def by (auto simp: speaks_def intro: conv_told_of_env)
  let ?w = "?v\<lparr>cv_conn := c', cv_env := env', cv_received := dg_received (ds ! k) @ event_input events recvs,
      cv_sent := dg_sent (ds ! k) @ sent, cv_open := keep\<rparr>"
  have "conv_alive hash ?v" using idle by (simp add: conv_alive_def conv_of_def conn_idle_def conn_inv_def)
  moreover have "conv_advance hash ?v ?w"
    using connection_event_advance [of hash events recvs sends ?v keep sent c' env'] run inputs k(2)
    by (simp add: conv_of_def speaks_def)
  ultimately obtain reqs' rest' resps' extra' where
    serve: "serve hash reqs' (env_engine (cv_env ?v)) = Some (resps', env_engine (cv_env ?w))"
    and told': "conv_told hash (asked k hist @ reqs') rest' (answers k hist @ resps') extra' ?w"
    using told conv_advanceE by meson
  let ?new = "batch k reqs' resps'" and ?conns = "conns((i, fd) := if kept then Some c' else None)"
  from retrace_batch [OF serve] have new: "retrace hash ?new (env_engine env) = Some (env_engine env')"
    and len: "length reqs' = length resps'" by (auto simp: conv_of_def)
  note ds = nth_note_event [OF talksD(5) [OF talks] k]
  have "dialogue_ok hash (hist @ ?new) ?conns ?ds j" if j: "j < length ds" for j
  proof (cases "j = k")
    case True
    then show ?thesis
      using conv_told_close [OF told', of kept] kept ds [OF j] batch_asked [OF len] k(2)
      unfolding dialogue_ok_def by (fastforce simp: conv_of_def dg_key_def speaks_def)
  next
    case False
    then have "dg_open (ds ! j) \<longrightarrow> dg_key (ds ! j) \<noteq> (i, fd)" using talksD(2) [OF talks j k(1)] k(2) by (auto simp: speaks_def)
    then show ?thesis
      using talksD(1) [OF talks j] False ds [OF j] batch_asked [OF len] unfolding dialogue_ok_def by auto
  qed
  moreover have "paired ?conns ?ds" using paired_note_event [OF talksD(5) [OF talks]] conn by simp
  moreover have "asked j (hist @ ?new) = [] \<and> answers j (hist @ ?new) = []" if "j \<ge> length ds" for j
    using that talksD(4) [OF talks that] batch_asked [OF len, of j k] k(1) by simp
  ultimately have "talks hash (hist @ ?new) ?conns ?ds" by (simp add: talks_def)
  with new show ?thesis by blast
qed

text \<open>New connections start new dialogues, and at its end a worker ends all of its own.\<close>

lemma dialogue_ok_cong:
  assumes "dialogue_ok hash hist conns ds k" and "ds' ! k = (ds ! k)\<lparr>dg_open := opn\<rparr>"
    and "opn \<longrightarrow> dg_open (ds ! k) \<and> conns' (dg_key (ds ! k)) = conns (dg_key (ds ! k))"
  shows "dialogue_ok hash hist conns' ds' k"
proof -
  from assms(1) obtain rest extra c env where
    "conv_told hash (asked k hist) rest (answers k hist) extra (conv_of (ds ! k) c env)"
    "dg_open (ds ! k) \<longrightarrow> conns (dg_key (ds ! k)) = Some c" unfolding dialogue_ok_def by blast
  then have "conv_told hash (asked k hist) rest (answers k hist) extra (conv_of (ds' ! k) c env) \<and>
      (dg_open (ds' ! k) \<longrightarrow> conns' (dg_key (ds' ! k)) = Some c)"
    using conv_told_close [of hash _ rest _ extra "conv_of (ds ! k) c env" opn] assms(2,3)
    by (auto simp: conv_of_def dg_key_def)
  then show ?thesis unfolding dialogue_ok_def by blast
qed

lemma speaks_new [simp]: "speaks a b (new_dialogue i fd) \<longleftrightarrow> a = i \<and> b = fd"
  by (auto simp: speaks_def new_dialogue_def dg_key_def)

lemma paired_install:
  assumes pair: "paired conns ds" and dist: "distinct fds" and free: "\<forall>fd \<in> set fds. conns (i, fd) = None"
    and new: "\<forall>fd \<in> set fds. conns' (i, fd) \<noteq> None"
    and old: "\<forall>a b. a \<noteq> i \<or> b \<notin> set fds \<longrightarrow> conns' (a, b) = conns (a, b)"
  shows "paired conns' (ds @ map (new_dialogue i) fds)" (is "paired conns' ?ds")
proof -
  let ?n = "length ds"
  have nth_new: "?ds ! k = new_dialogue i (fds ! (k - ?n))" if "k < length ?ds" "\<not> k < ?n" for k
    using that by (simp add: nth_append)
  have "conns' (a, b) \<noteq> None \<longleftrightarrow> (\<exists>k < length ?ds. speaks a b (?ds ! k))" for a b
  proof (cases "a = i \<and> b \<in> set fds")
    case True
    then have "\<exists>d \<in> set ?ds. speaks a b d" by (intro bexI [of _ "new_dialogue i b"]) simp_all
    then show ?thesis using True new unfolding ex_nth by auto
  next
    case False
    then have "(\<exists>d \<in> set ?ds. speaks a b d) \<longleftrightarrow> (\<exists>d \<in> set ds. speaks a b d)" by auto
    then show ?thesis using pairedD(2) [OF pair, of a b] old False unfolding ex_nth by metis
  qed
  moreover have "j = k" if jk: "j < length ?ds" "k < length ?ds" "speaks a b (?ds ! j)" "speaks a b (?ds ! k)" for a b j k
  proof -
    have apart: False if "j < ?n" "\<not> k < ?n" "k < length ?ds" "speaks a b (ds ! j)" "speaks a b (?ds ! k)" for j k
    proof -
      from that nth_new have "a = i" "b \<in> set fds" by auto
      with free pairedD(2) [OF pair, of a b] that(1,4) show False by auto
    qed
    have both: "j = k" if "\<not> j < ?n" "\<not> k < ?n"
      using jk that nth_new nth_eq_iff_index_eq [OF dist, of "j - ?n" "k - ?n"] by auto
    show ?thesis
      using jk apart [of j k] apart [of k j] both pairedD(1) [OF pair, of j k a b]
      by (cases "j < ?n"; cases "k < ?n") (auto simp: nth_append)
  qed
  ultimately show ?thesis unfolding paired_def by blast
qed

lemma talks_install:
  assumes talks: "talks hash hist conns ds" and dist: "distinct fds" and free: "\<forall>fd \<in> set fds. conns (i, fd) = None"
    and new: "\<forall>fd \<in> set fds. \<exists>c. conns' (i, fd) = Some c \<and> fresh_connection c"
    and old: "\<forall>a b. a \<noteq> i \<or> b \<notin> set fds \<longrightarrow> conns' (a, b) = conns (a, b)"
  shows "talks hash hist conns' (ds @ map (new_dialogue i) fds)" (is "talks hash hist conns' ?ds")
proof -
  let ?n = "length ds"
  have same: "conns' (a, b) = conns (a, b)" if "k < ?n" "speaks a b (ds ! k)" for a b k
  proof -
    have "conns (a, b) \<noteq> None" using talksD(3) [OF talks, of a b] that by blast
    then have "a \<noteq> i \<or> b \<notin> set fds" using free by auto
    then show ?thesis using old by blast
  qed
  have "dialogue_ok hash hist conns' ?ds k" if k: "k < length ?ds" for k
  proof (cases "k < ?n")
    case True
    have "?ds ! k = (ds ! k)\<lparr>dg_open := dg_open (ds ! k)\<rparr>" using True by (simp add: nth_append)
    then show ?thesis
      using same [OF True, of "dg_worker (ds ! k)" "dg_socket (ds ! k)"]
      by (intro dialogue_ok_cong [OF talksD(1) [OF talks True]]) (auto simp: speaks_def dg_key_def)
  next
    case False
    then have "fds ! (k - ?n) \<in> set fds" using k by auto
    with new obtain c where "conns' (i, fds ! (k - ?n)) = Some c" "fresh_connection c" by blast
    moreover have "asked k hist = []" "answers k hist = []" using talksD(4) [OF talks] False by auto
    moreover have "?ds ! k = new_dialogue i (fds ! (k - ?n))" using k False by (simp add: nth_append)
    ultimately show ?thesis
      unfolding dialogue_ok_def conv_told_def
      by (auto simp: conv_of_def new_dialogue_def dg_key_def answered_def fresh_connection_def)
  qed
  moreover have "paired conns' ?ds" using paired_install [OF talksD(5) [OF talks] dist free _ old] new by auto
  ultimately show ?thesis using talksD(4) [OF talks] unfolding talks_def by auto
qed

lemma talks_hang_up:
  assumes talks: "talks hash hist conns ds"
  shows "talks hash hist (\<lambda>(a, b). if a = i then None else conns (a, b)) (hang_up i ds)"
proof -
  have nth: "hang_up i ds ! k = (ds ! k)\<lparr>dg_open := (dg_open (ds ! k) \<and> dg_worker (ds ! k) \<noteq> i)\<rparr>" if "k < length ds" for k
    using that by (auto simp: hang_up_def)
  have len: "length (hang_up i ds) = length ds" by (simp add: hang_up_def)
  have speaks: "speaks a b (hang_up i ds ! k) \<longleftrightarrow> a \<noteq> i \<and> speaks a b (ds ! k)" if "k < length ds" for a b k
    using nth [OF that] by (auto simp: speaks_def dg_key_def)
  have "dialogue_ok hash hist (\<lambda>(a, b). if a = i then None else conns (a, b)) (hang_up i ds) k" if "k < length ds" for k
    by (rule dialogue_ok_cong [OF talksD(1) [OF talks that] nth [OF that]]) (auto simp: dg_key_def)
  moreover have "(case (a, b) of (a, b) \<Rightarrow> if a = i then None else conns (a, b)) \<noteq> None \<longleftrightarrow>
      (\<exists>k < length ds. speaks a b (hang_up i ds ! k))" for a b
    using talksD(3) [OF talks, of a b] speaks by auto
  ultimately show ?thesis
    using talksD(2,4) [OF talks] speaks unfolding talks_def paired_def len by (simp; blast)
qed

section \<open>The connections of one worker\<close>

definition conns_with :: "(nat \<times> int \<rightharpoonup> connection) \<Rightarrow> nat \<Rightarrow> worker \<Rightarrow> nat \<times> int \<rightharpoonup> connection" where
  "conns_with conns i w = (\<lambda>(j, fd). if j = i then map_of (wk_connections w) fd else conns (j, fd))"

lemma conns_with_apply [simp]:
  "conns_with conns i w (j, fd) = (if j = i then map_of (wk_connections w) fd else conns (j, fd))"
  by (simp add: conns_with_def)

lemma conns_with_cong: "wk_connections w' = wk_connections w \<Longrightarrow> conns_with conns i w' = conns_with conns i w"
  by (simp add: conns_with_def cong: if_cong)

text \<open>What an event does to the table of the worker.\<close>

lemma handle_connection_event_table:
  assumes run: "handle_connection_event hash fd events recvs sends mod_works w env = Some (sent, w', env')"
    and conn: "map_of (wk_connections w) fd = Some c"
  obtains keep c' kept where
    "connection_event hash events recvs sends c env = Some (keep, sent, c', env')" "kept \<longrightarrow> keep"
    "kept \<longleftrightarrow> fd \<in> fst ` set (wk_connections w')"
    "map_of (wk_connections w') = (map_of (wk_connections w))(fd := if kept then Some c' else None)"
proof -
  from run conn obtain keep c' where
    ev: "connection_event hash events recvs sends c env = Some (keep, sent, c', env')"
    by (auto simp: handle_connection_event_def split: option.splits prod.splits if_splits)
  let ?kept = "fd \<in> fst ` set (wk_connections w')" and ?xs = "wk_connections w"
  have "keep \<and> wk_connections w' = map (\<lambda>x. if fst x = fd then (fd, c') else x) ?xs \<or>
      wk_connections w' = filter (\<lambda>x. fst x \<noteq> fd) ?xs"
    using run ev conn
    by (auto simp: handle_connection_event_def modify_epoll_def split: if_splits)
  then have "(?kept \<longrightarrow> keep) \<and> map_of (wk_connections w') = (map_of ?xs)(fd := if ?kept then Some c' else None)"
  proof
    assume kept: "keep \<and> wk_connections w' = map (\<lambda>x. if fst x = fd then (fd, c') else x) ?xs"
    then have "map fst (wk_connections w') = map fst ?xs" using map_fst_update [of fd c' ?xs] by simp
    then have "?kept" using map_of_SomeD [OF conn] by (metis fst_conv image_eqI list.set_map)
    with kept conn show ?thesis by (auto simp: map_of_update_at fun_eq_iff)
  next
    assume "wk_connections w' = filter (\<lambda>x. fst x \<noteq> fd) ?xs"
    then show ?thesis by (auto simp: map_of_drop_key fun_eq_iff)
  qed
  with that [of keep c' ?kept] ev show ?thesis by blast
qed

lemma event_talks:
  assumes inv: "worker_inv hash w env"
    and inputs: "\<forall>c. map_of (wk_connections w) fd = Some c \<longrightarrow> event_inputs_ok hash events recvs sends c env"
    and run: "handle_connection_event hash fd events recvs sends mod_works w env = Some (sent, w', env')"
    and talks: "talks hash hist (conns_with conns i w) ds"
  shows "\<exists>new. retrace hash new (env_engine env) = Some (env_engine env') \<and>
           talks hash (hist @ new) (conns_with conns i w')
             (note_event i fd (event_input events recvs) sent (fd \<in> fst ` set (wk_connections w')) ds)"
proof (cases "map_of (wk_connections w) fd")
  case None
  then have "w' = w" "env' = env" using run by (simp_all add: handle_connection_event_def)
  with talks note_event_none [OF talks, of i fd] None show ?thesis by (intro exI [of _ "[]"]) simp
next
  case (Some c)
  then have c: "conn_idle hash c env" "\<not> closing c"
    using inv map_of_SomeD [OF Some] by (auto simp: worker_inv_def served_def)
  from handle_connection_event_table [OF run Some] obtain keep c' kept where
    ev: "connection_event hash events recvs sends c env = Some (keep, sent, c', env')" "kept \<longrightarrow> keep"
    and kept: "kept \<longleftrightarrow> fd \<in> fst ` set (wk_connections w')"
    and table: "map_of (wk_connections w') = (map_of (wk_connections w))(fd := if kept then Some c' else None)" .
  have "conns_with conns i w' = (conns_with conns i w)((i, fd) := if kept then Some c' else None)"
    using table by (auto simp: conns_with_def fun_eq_iff)
  moreover have "event_inputs_ok hash events recvs sends c env" using inputs Some by blast
  ultimately show ?thesis
    using talks_event [OF talks _ c ev(1) _ ev(2), of i fd] Some kept by simp
qed

lemma worker_events_talk:
  assumes "worker_inv hash w env" and "events_ok hash evs w env"
    and "worker_events hash evs seen w env = Some (seen', out, w', env')"
    and "talks hash hist (conns_with conns i w) ds"
  shows "\<exists>new. retrace hash new (env_engine env) = Some (env_engine env') \<and>
           talks hash (hist @ new) (conns_with conns i w') (note_events hash i evs w env ds)"
  using assms
proof (induction evs arbitrary: seen out w env hist ds)
  case Nil
  then show ?case by (intro exI [of _ "[]"]) simp
next
  case (Cons ev evs)
  show ?case
  proof (cases ev)
    case (Wakeup reads)
    let ?w = "w\<lparr>wk_wakeup := drain_counter reads (wk_wakeup w)\<rparr>"
    have "worker_inv hash ?w env" using Cons.prems(1) by (simp add: worker_inv_def served_def)
    moreover have "conns_with conns i ?w = conns_with conns i w" by (rule conns_with_cong) simp
    ultimately show ?thesis
      using Cons.IH [of ?w env True out hist ds] Cons.prems Wakeup by simp
  next
    case (Ready fd events recvs sends mod_works)
    have inputs: "\<forall>c. map_of (wk_connections w) fd = Some c \<longrightarrow> event_inputs_ok hash events recvs sends c env"
      using Cons.prems(2) Ready by auto
    from handle_connection_event_ok [OF Cons.prems(1) this, of mod_works] obtain sent w1 env1 where
      ev: "handle_connection_event hash fd events recvs sends mod_works w env = Some (sent, w1, env1)"
        "worker_inv hash w1 env1" by blast
    let ?ds = "note_event i fd (event_input events recvs) sent (fd \<in> fst ` set (wk_connections w1)) ds"
    from event_talks [OF Cons.prems(1) inputs ev(1) Cons.prems(4)] obtain new where
      new: "retrace hash new (env_engine env) = Some (env_engine env1)"
        "talks hash (hist @ new) (conns_with conns i w1) ?ds" by blast
    from Cons.prems(3) Ready ev(1) obtain out' where
      "worker_events hash evs seen w1 env1 = Some (seen', out', w', env')" by auto
    from Cons.IH [OF ev(2) _ this new(2)] Cons.prems(2) Ready ev(1) obtain new' where
      "retrace hash new' (env_engine env1) = Some (env_engine env')"
      "talks hash ((hist @ new) @ new') (conns_with conns i w') (note_events hash i evs w1 env1 ?ds)" by auto
    with new(1) Ready ev(1) show ?thesis by (intro exI [of _ "new @ new'"]) (simp add: retrace_append)
  qed
qed

lemma installed_talk:
  assumes inv: "worker_inv hash w' env" and inst: "installed w w'"
    and talks: "talks hash hist (conns_with conns i w) ds"
  shows "talks hash hist (conns_with conns i w') (note_installed i w w' ds)"
proof -
  from inst obtain news where news: "wk_connections w' = news @ wk_connections w"
    "\<forall>x \<in> set news. fresh_connection (snd x)" by (auto simp: installed_def)
  have dist: "distinct (map fst (wk_connections w'))" using inv by (simp add: worker_inv_def)
  then have apart: "fst x \<notin> fst ` set (wk_connections w)" if "x \<in> set news" for x
    using news(1) that by auto
  then have "filter (\<lambda>fd. fd \<notin> fst ` set (wk_connections w)) (map fst (wk_connections w')) = map fst news"
    using news(1) by (auto simp: filter_id_conv filter_empty_conv)
  then have ds: "note_installed i w w' ds = ds @ map (new_dialogue i) (map fst news)"
    by (simp add: note_installed_def)
  have free: "map_of (wk_connections w) fd = None" if "fd \<in> fst ` set news" for fd
    using apart that by (auto simp: map_of_eq_None_iff)
  have "\<exists>c. map_of (wk_connections w') fd = Some c \<and> fresh_connection c" if "fd \<in> fst ` set news" for fd
    using that news dist by (auto simp: map_add_def)
  moreover have "map_of (wk_connections w') fd = map_of (wk_connections w) fd" if "fd \<notin> fst ` set news" for fd
    using that news(1) map_of_eq_None_iff [of news fd] by (simp add: map_add_def)
  ultimately show ?thesis
    unfolding ds using talks free dist news(1) by (intro talks_install [OF talks]) auto
qed

end
