(* ===== verification/Server_Run.thy ===== *)
theory Server_Run
  imports Server_Correct Dialogues
begin

text \<open>
  The whole server of \<^verbatim>\<open>src/net/cache_server.cpp\<close> at work: the acceptor, the workers and the thread
  that stops the server take turns on the shared engine. A turn of a worker or of the
  acceptor is one iteration of the loop in \<^verbatim>\<open>Worker::run\<close> or \<^verbatim>\<open>Impl::run_acceptor\<close>: it looks at its
  stop flag, waits, and handles what the wait reports. Where turns touch the same data they
  do so under the mutexes of the shards and of the queue; the finer interleaving is the
  subject of the theories \<^verbatim>\<open>Cache_Shard\<close> and \<^verbatim>\<open>Worker_Threads\<close>.
\<close>

section \<open>Turns\<close>

datatype 'e wait_result = Wait_events "'e list" | Wait_interrupted | Wait_failed

datatype loop_status = Looping | Ended | Died

definition worker_turn ::
    "(bytes \<Rightarrow> u64) \<Rightarrow> worker_event wait_result \<Rightarrow> (int \<Rightarrow> sys_outcome) \<Rightarrow> worker \<Rightarrow> conn_env \<Rightarrow>
       (loop_status \<times> (int \<times> bytes) list \<times> worker \<times> conn_env) option" where
  "worker_turn hash result outcomes w env =
     (if wk_stop w then Some (Ended, [], worker_finish w, env)
      else case result of
        Wait_interrupted \<Rightarrow> Some (Looping, [], w, env)
      | Wait_failed \<Rightarrow> Some (Died, [], worker_finish w, env)
      | Wait_events events \<Rightarrow>
          map_option (\<lambda>(out, w1, env1). (Looping, out, w1, env1)) (worker_round hash events outcomes w env))"

definition acceptor_turn ::
    "acceptor_event wait_result \<Rightarrow> server \<Rightarrow> conn_env \<Rightarrow> (bool \<times> server \<times> conn_env) option" where
  "acceptor_turn result s env =
     (if srv_stop s then Some (False, s\<lparr>srv_running := False\<rparr>, env)
      else case result of
        Wait_interrupted \<Rightarrow> Some (True, s, env)
      | Wait_failed \<Rightarrow> Some (False, s\<lparr>srv_running := False\<rparr>, env)
      | Wait_events events \<Rightarrow>
          map_option (\<lambda>(s1, env1). (True, s1, env1)) (acceptor_events events s env))"

text \<open>What a turn of a worker adds to the record of its dialogues.\<close>

definition note_turn ::
    "(bytes \<Rightarrow> u64) \<Rightarrow> nat \<Rightarrow> worker_event wait_result \<Rightarrow> (int \<Rightarrow> sys_outcome) \<Rightarrow> worker \<Rightarrow> conn_env \<Rightarrow>
       dialogue list \<Rightarrow> dialogue list" where
  "note_turn hash i result outcomes w env ds =
     (if wk_stop w then hang_up i ds
      else case result of
        Wait_interrupted \<Rightarrow> ds
      | Wait_failed \<Rightarrow> hang_up i ds
      | Wait_events events \<Rightarrow>
          (case worker_events hash events False w env of
             None \<Rightarrow> ds
           | Some (seen, out, w1, env1) \<Rightarrow>
               (let ds1 = note_events hash i events w env ds
                in if seen \<and> \<not> wk_stop w1 then note_installed i w1 (fst (install_pending outcomes w1 env1)) ds1
                   else ds1)))"

section \<open>The running server\<close>

text \<open>
  Besides the state of the program, the engine at the start, the sockets that have been accepted
  and the dialogues with the clients are recorded.
\<close>

record server_run =
  sr_server :: server
  sr_env :: conn_env
  sr_loops :: "loop_status list"
  sr_acceptor :: bool
  sr_accepted :: "int multiset"
  sr_first :: cache_engine
  sr_dialogues :: "dialogue list"

definition start_run :: "server \<Rightarrow> cache_engine \<Rightarrow> heap \<Rightarrow> server_run" where
  "start_run s e h =
     \<lparr>sr_server = s, sr_env = \<lparr>env_engine = e, env_heap = h\<rparr>, sr_loops = replicate (length (srv_workers s)) Looping,
      sr_acceptor = True, sr_accepted = {#}, sr_first = e, sr_dialogues = []\<rparr>"

fun event_sockets :: "acceptor_event \<Rightarrow> int list" where
  "event_sockets (Listen_ready results) = accepted results"
| "event_sockets _ = []"

definition sockets_of :: "acceptor_event wait_result \<Rightarrow> server \<Rightarrow> int list" where
  "sockets_of result s =
     (if srv_stop s then [] else case result of Wait_events events \<Rightarrow> concat (map event_sockets events) | _ \<Rightarrow> [])"

text \<open>What the kernel may report to a worker.\<close>

definition wait_ok :: "(bytes \<Rightarrow> u64) \<Rightarrow> worker_event wait_result \<Rightarrow> worker \<Rightarrow> conn_env \<Rightarrow> bool" where
  "wait_ok hash result w env \<longleftrightarrow> (case result of Wait_events events \<Rightarrow> events_ok hash events w env | _ \<Rightarrow> True)"

definition with_worker :: "nat \<Rightarrow> worker \<Rightarrow> server \<Rightarrow> server" where
  "with_worker i w s = s\<lparr>srv_workers := (srv_workers s)[i := w]\<rparr>"

text \<open>
  The stopping thread first asks the acceptor to stop (\<^verbatim>\<open>Impl::request_stop\<close>); \<^verbatim>\<open>Impl::join\<close> tells the
  workers to stop after it has waited for the acceptor.
\<close>

inductive server_step :: "(bytes \<Rightarrow> u64) \<Rightarrow> server_run \<Rightarrow> server_run \<Rightarrow> bool" for hash where
  worker_turns:
    "i < length (srv_workers (sr_server s)) \<Longrightarrow> sr_loops s ! i = Looping \<Longrightarrow>
     wait_ok hash result (srv_workers (sr_server s) ! i) (sr_env s) \<Longrightarrow>
     worker_turn hash result outcomes (srv_workers (sr_server s) ! i) (sr_env s) = Some (how, out, w, env) \<Longrightarrow>
     server_step hash s (s\<lparr>sr_server := with_worker i w (sr_server s), sr_env := env,
                           sr_loops := (sr_loops s)[i := how],
                           sr_dialogues := note_turn hash i result outcomes (srv_workers (sr_server s) ! i) (sr_env s)
                             (sr_dialogues s)\<rparr>)"
| acceptor_turns:
    "sr_acceptor s \<Longrightarrow> \<forall>fd \<in> set (sockets_of result (sr_server s)). fd \<ge> 0 \<Longrightarrow>
     acceptor_turn result (sr_server s) (sr_env s) = Some (goes_on, srv, env) \<Longrightarrow>
     server_step hash s (s\<lparr>sr_server := srv, sr_env := env, sr_acceptor := goes_on,
                           sr_accepted := sr_accepted s + mset (sockets_of result (sr_server s))\<rparr>)"
| stop_called:
    "server_step hash s (s\<lparr>sr_server := server_request_stop writes (sr_server s)\<rparr>)"
| worker_told:
    "\<not> sr_acceptor s \<Longrightarrow> i < length (srv_workers (sr_server s)) \<Longrightarrow>
     server_step hash s
       (s\<lparr>sr_server := with_worker i (worker_request_stop writes (srv_workers (sr_server s) ! i)) (sr_server s)\<rparr>)"

inductive run_reach :: "(bytes \<Rightarrow> u64) \<Rightarrow> server_run \<Rightarrow> bool" for hash where
  started:
    "new_server options setup h = (Inr srv, h1) \<Longrightarrow> server_start timer threads acceptor srv = (Inr u, srv1) \<Longrightarrow>
     engine_inv hash e \<Longrightarrow> run_reach hash (start_run srv1 e h1)"
| stepped: "run_reach hash s \<Longrightarrow> server_step hash s s' \<Longrightarrow> run_reach hash s'"

section \<open>The invariant\<close>

definition all_fds :: "worker list \<Rightarrow> int multiset" where
  "all_fds ws = sum_list (map worker_fds ws)"

definition quiet :: "worker \<Rightarrow> bool" where
  "quiet w \<longleftrightarrow> wk_stop w \<and> wk_pending w = [] \<and> wk_connections w = []"

definition server_inv :: "(bytes \<Rightarrow> u64) \<Rightarrow> server \<Rightarrow> conn_env \<Rightarrow> bool" where
  "server_inv hash s env \<longleftrightarrow>
     srv_workers s \<noteq> [] \<and> length (srv_workers s) < 2 ^ 64 \<and> engine_inv hash (env_engine env) \<and>
     (\<forall>w \<in> set (srv_workers s). worker_inv hash w env)"

definition run_inv :: "(bytes \<Rightarrow> u64) \<Rightarrow> server_run \<Rightarrow> bool" where
  "run_inv hash s \<longleftrightarrow>
     server_inv hash (sr_server s) (sr_env s) \<and>
     length (sr_loops s) = length (srv_workers (sr_server s)) \<and>
     all_fds (srv_workers (sr_server s)) = sr_accepted s \<and>
     (\<forall>i < length (sr_loops s). sr_loops s ! i = Ended \<longrightarrow> quiet (srv_workers (sr_server s) ! i))"

lemma worker_inv_env:
  "worker_inv hash w env \<Longrightarrow> engine_inv hash (env_engine env') \<Longrightarrow> worker_inv hash w env'"
  by (auto simp: worker_inv_def served_def conn_idle_env)

lemma all_fds_update:
  assumes "i < length ws"
  shows "all_fds (ws[i := w]) + worker_fds (ws ! i) = all_fds ws + worker_fds w"
proof -
  have "ws = take i ws @ ws ! i # drop (Suc i) ws" using assms by (rule id_take_nth_drop)
  then have "all_fds ws = all_fds (take i ws) + worker_fds (ws ! i) + all_fds (drop (Suc i) ws)"
    by (metis (no_types, lifting) add.assoc all_fds_def list.simps(9) map_append sum_list.Cons sum_list_append)
  moreover have "all_fds (ws[i := w]) = all_fds (take i ws) + worker_fds w + all_fds (drop (Suc i) ws)"
    using assms by (simp add: upd_conv_take_nth_drop all_fds_def ac_simps)
  ultimately show ?thesis by (simp add: ac_simps)
qed

lemma all_fds_same: "i < length ws \<Longrightarrow> worker_fds w = worker_fds (ws ! i) \<Longrightarrow> all_fds (ws[i := w]) = all_fds ws"
  using all_fds_update [of i ws w] by simp

lemma server_inv_update:
  assumes "server_inv hash s env" and "worker_inv hash w env'"
  shows "server_inv hash (with_worker i w s) env'"
proof -
  have e: "engine_inv hash (env_engine env')" using assms(2) by (simp add: worker_inv_def)
  have "worker_inv hash v env'" if "v \<in> set ((srv_workers s)[i := w])" for v
  proof -
    from set_update_subset_insert [of "srv_workers s" i w] that have "v = w \<or> v \<in> set (srv_workers s)" by blast
    then show ?thesis using assms worker_inv_env [OF _ e] by (auto simp: server_inv_def)
  qed
  with assms(1) e show ?thesis by (simp add: server_inv_def with_worker_def)
qed

section \<open>Turns keep the invariant\<close>

lemma worker_turn_ok:
  assumes "worker_inv hash w env" and "wait_ok hash result w env"
  shows "\<exists>how out w' env'. worker_turn hash result outcomes w env = Some (how, out, w', env') \<and>
           worker_inv hash w' env' \<and> worker_fds w' = worker_fds w \<and> (how = Ended \<longrightarrow> quiet w')"
proof -
  note fin = worker_finish_ok [OF assms(1)]
  have over: "worker_inv hash (worker_finish w) env" "worker_fds (worker_finish w) = worker_fds w"
    "wk_stop (worker_finish w) = wk_stop w"
    using assms(1) fin by (simp_all add: worker_inv_def worker_fds_def fds_owned_def)
      (simp add: worker_finish_def Let_def)
  show ?thesis
  proof (cases "wk_stop w")
    case True
    with over fin show ?thesis by (simp add: worker_turn_def quiet_def)
  next
    case False
    show ?thesis
    proof (cases result)
      case (Wait_events events)
      with assms(2) have "events_ok hash events w env" by (simp add: wait_ok_def)
      from worker_round_ok [OF assms(1) this, of outcomes] False Wait_events show ?thesis
        by (auto simp: worker_turn_def)
    qed (use False over assms(1) in \<open>simp_all add: worker_turn_def\<close>)
  qed
qed

lemma enqueue_quiet: "enqueue u writes w h = (r, w', h') \<Longrightarrow> quiet w \<Longrightarrow> quiet w'"
  by (auto simp: enqueue_def quiet_def)

lemma quiet_request_stop: "quiet w \<Longrightarrow> quiet (worker_request_stop writes w)"
  by (simp add: worker_request_stop_def quiet_def)

text \<open>What handling new sockets does to the workers.\<close>

definition fed :: "int list \<Rightarrow> worker list \<Rightarrow> worker list \<Rightarrow> bool" where
  "fed fds ws ws' \<longleftrightarrow>
     length ws' = length ws \<and> all_fds ws' = all_fds ws + mset fds \<and>
     (\<forall>i < length ws. quiet (ws ! i) \<longrightarrow> quiet (ws' ! i))"

lemma fed_refl [simp]: "fed [] ws ws"
  by (simp add: fed_def)

lemma fed_trans: "fed fds ws ws' \<Longrightarrow> fed fds' ws' ws'' \<Longrightarrow> fed (fds @ fds') ws ws''"
  by (auto simp: fed_def ac_simps)

lemma fed_enqueue:
  assumes "i < length ws" and "worker_inv hash (ws ! i) env" and "fd \<ge> 0"
    and "enqueue (make_fd fd) writes (ws ! i) h = (r, w, h')"
  shows "fed [fd] ws (ws[i := w])"
  using all_fds_update [OF assms(1), of w] enqueue_ok(2) [OF assms(2-4)] enqueue_quiet [OF assms(4)] assms(1)
  by (auto simp: fed_def nth_list_update)

lemma accept_connections_ok:
  assumes "server_inv hash s env" and "\<forall>fd \<in> set (accepted rs). fd \<ge> 0"
  shows "\<exists>s' h'. accept_connections rs s h = Some (s', h') \<and> server_inv hash s' env \<and>
           fed (accepted rs) (srv_workers s) (srv_workers s')"
  using assms
proof (induction rs arbitrary: s h)
  case (Cons r rs)
  show ?case
  proof (cases r)
    case (Accepted fd writes)
    let ?n = "length (srv_workers s)" and ?i = "unat (srv_next_worker s mod of_nat (length (srv_workers s)))"
    have n: "0 < ?n" "?n < 2 ^ 64" using Cons.prems(1) by (simp_all add: server_inv_def)
    have i: "?i < ?n" using worker_choice [OF n(2,1), of "srv_next_worker s"] n(1) by simp
    have inv: "worker_inv hash (srv_workers s ! ?i) env" using Cons.prems(1) i by (simp add: server_inv_def)
    obtain x w h1 where enq: "enqueue (make_fd fd) writes (srv_workers s ! ?i) h = (x, w, h1)"
      by (cases "enqueue (make_fd fd) writes (srv_workers s ! ?i) h")
    have fd: "fd \<ge> 0" using Cons.prems(2) Accepted by simp
    let ?s = "s\<lparr>srv_next_worker := srv_next_worker s + 1, srv_workers := (srv_workers s)[?i := w]\<rparr>"
    have "server_inv hash ?s env"
      using server_inv_update [OF Cons.prems(1) enqueue_ok(1) [OF inv fd enq], of ?i]
      by (simp add: server_inv_def with_worker_def)
    from Cons.IH [OF this] Cons.prems(2) Accepted obtain s' h' where
      rest: "accept_connections rs ?s h1 = Some (s', h')" "server_inv hash s' env"
        "fed (accepted rs) (srv_workers ?s) (srv_workers s')" by fastforce
    from fed_trans [OF fed_enqueue [OF i inv fd enq]] rest(3)
    have "fed (accepted (r # rs)) (srv_workers s) (srv_workers s')" using Accepted by fastforce
    with rest(1,2) enq Accepted n(1) show ?thesis by (auto simp: Let_def)
  qed (use Cons in auto)
qed simp

lemma acceptor_events_ok:
  assumes "server_inv hash s env" and "\<forall>fd \<in> set (concat (map event_sockets evs)). fd \<ge> 0"
  shows "\<exists>s' env'. acceptor_events evs s env = Some (s', env') \<and> server_inv hash s' env' \<and>
           fed (concat (map event_sockets evs)) (srv_workers s) (srv_workers s')"
  using assms
proof (induction evs arbitrary: s env)
  case (Cons ev evs)
  show ?case
  proof (cases ev)
    case (Stop_ready reads)
    let ?s = "s\<lparr>srv_stop_event := drain_counter reads (srv_stop_event s)\<rparr>"
    have "server_inv hash ?s env" using Cons.prems(1) by (simp add: server_inv_def)
    from Cons.IH [OF this] Cons.prems(2) Stop_ready show ?thesis by simp
  next
    case (Timer_ready reads)
    have "engine_inv hash (env_engine env)" using Cons.prems(1) by (simp add: server_inv_def)
    from tick_times_ok [OF this] obtain e where
      e: "handle_timer reads (env_engine env) = Some e" "engine_inv hash e"
      unfolding handle_timer_eq by blast
    have "server_inv hash s (env\<lparr>env_engine := e\<rparr>)"
      using Cons.prems(1) e(2) worker_inv_env [of hash _ env "env\<lparr>env_engine := e\<rparr>"] by (simp add: server_inv_def)
    from Cons.IH [OF this] Cons.prems(2) Timer_ready e(1) show ?thesis by simp
  next
    case (Listen_ready results)
    from accept_connections_ok [OF Cons.prems(1), of results "env_heap env"] Cons.prems(2) Listen_ready
    obtain s1 h1 where acc: "accept_connections results s (env_heap env) = Some (s1, h1)" "server_inv hash s1 env"
      "fed (accepted results) (srv_workers s) (srv_workers s1)" by fastforce
    have "server_inv hash s1 (env\<lparr>env_heap := h1\<rparr>)"
      using acc(2) worker_inv_env [of hash _ env "env\<lparr>env_heap := h1\<rparr>"] by (simp add: server_inv_def)
    from Cons.IH [OF this] Cons.prems(2) Listen_ready acc(1) fed_trans [OF acc(3)] show ?thesis by fastforce
  qed
qed simp

lemma acceptor_turn_ok:
  assumes "server_inv hash s env" and "\<forall>fd \<in> set (sockets_of result s). fd \<ge> 0"
  shows "\<exists>goes_on s' env'. acceptor_turn result s env = Some (goes_on, s', env') \<and> server_inv hash s' env' \<and>
           fed (sockets_of result s) (srv_workers s) (srv_workers s')"
proof (cases "srv_stop s")
  case True
  with assms(1) show ?thesis by (auto simp: acceptor_turn_def sockets_of_def server_inv_def)
next
  case False
  show ?thesis
  proof (cases result)
    case (Wait_events evs)
    from acceptor_events_ok [OF assms(1), of evs] assms(2) False Wait_events show ?thesis
      by (auto simp: acceptor_turn_def sockets_of_def)
  qed (use False assms(1) in \<open>auto simp: acceptor_turn_def sockets_of_def server_inv_def\<close>)
qed

section \<open>Every reachable state\<close>

lemma new_worker_fresh:
  assumes "new_worker limit fd o1 o2 o3 = Inr w" and "engine_inv hash (env_engine env)"
  shows "worker_inv hash w env" "worker_fds w = {#}"
  using assms
  by (auto simp: new_worker_def create_epoll_def create_event_def add_to_epoll_def sys_call_def
      worker_inv_def worker_fds_def fds_owned_def split: option.splits)

lemma make_workers_fresh:
  assumes "make_workers limit outs is h = (Inr ws, h')" and "engine_inv hash (env_engine env)"
  shows "length ws = length is \<and> (\<forall>w \<in> set ws. worker_inv hash w env) \<and> all_fds ws = {#}"
  using assms(1)
proof (induction "is" arbitrary: h ws)
  case (Cons i "is")
  obtain fd o1 o2 o3 where "outs i = (fd, o1, o2, o3)" by (cases "outs i")
  with Cons.prems obtain h1 w ws1 where "new_worker limit fd o1 o2 o3 = Inr w"
    "make_workers limit outs is h1 = (Inr ws1, h')" "ws = w # ws1"
    by (auto split: prod.splits sum.splits)
  with Cons.IH new_worker_fresh [OF _ assms(2)] show ?case by (simp add: all_fds_def)
qed (simp add: all_fds_def)

lemma new_server_fresh:
  assumes "new_server options so h = (Inr s, h')" and "engine_inv hash (env_engine env)"
  shows "server_inv hash s env" "all_fds (srv_workers s) = {#}"
proof -
  from assms(1) obtain h1 ws where ws: "srv_workers s = ws" "validate_options options = Inr options"
    "make_workers (unat (opt_pending_output_limit options)) (so_workers so)
       [0..<unat (opt_worker_threads options)] h1 = (Inr ws, h')"
    by (auto simp: new_server_def on_success_def validate_options_def split: prod.splits sum.splits if_splits)
  have "opt_worker_threads options \<noteq> 0" using ws(2) by (auto simp: validate_options_def split: if_splits)
  then have "0 < unat (opt_worker_threads options)" by (simp add: unat_gt_0)
  moreover have "unat (opt_worker_threads options) < 2 ^ 64"
    using unat_lt_u64 [of "opt_worker_threads options"] by simp
  ultimately show "server_inv hash s env" "all_fds (srv_workers s) = {#}"
    using make_workers_fresh [OF ws(3) assms(2)] ws(1) assms(2) by (auto simp: server_inv_def)
qed

lemma server_start_workers:
  assumes "server_start t ths a s = (Inr u, s')"
  shows "srv_workers s' = srv_workers s"
  using assms by (auto simp: server_start_def Let_def split: if_splits sum.splits)

lemma start_run_inv:
  assumes "new_server options so h = (Inr srv, h1)" and "server_start t ths a srv = (Inr u, srv1)"
    and "engine_inv hash e"
  shows "run_inv hash (start_run srv1 e h1)"
proof -
  let ?env = "\<lparr>env_engine = e, env_heap = h1\<rparr>"
  from new_server_fresh [OF assms(1), of hash ?env] assms(3) server_start_workers [OF assms(2)]
  show ?thesis by (simp add: run_inv_def start_run_def server_inv_def)
qed

lemma step_keeps_inv:
  assumes "server_step hash s s'" and "run_inv hash s"
  shows "run_inv hash s'"
  using assms
proof cases
  case (worker_turns i result outcomes how out w env)
  let ?ws = "srv_workers (sr_server s)"
  have "worker_inv hash (?ws ! i) (sr_env s)"
    using assms(2) worker_turns(2) by (simp add: run_inv_def server_inv_def)
  from worker_turn_ok [OF this worker_turns(4), of outcomes] worker_turns(5)
  have w: "worker_inv hash w env" "worker_fds w = worker_fds (?ws ! i)" "how = Ended \<longrightarrow> quiet w" by auto
  with assms(2) worker_turns(1,2) server_inv_update [OF _ w(1)] all_fds_same [OF worker_turns(2) w(2)]
  show ?thesis by (auto simp: run_inv_def with_worker_def nth_list_update)
next
  case (acceptor_turns result goes_on srv env)
  from acceptor_turn_ok [OF _ acceptor_turns(3)] assms(2) acceptor_turns(4)
  have "server_inv hash srv env" "fed (sockets_of result (sr_server s)) (srv_workers (sr_server s)) (srv_workers srv)"
    by (fastforce simp: run_inv_def)+
  with assms(2) acceptor_turns(1) show ?thesis by (auto simp: run_inv_def fed_def)
next
  case (stop_called writes)
  with assms(2) show ?thesis by (simp add: run_inv_def server_inv_def server_request_stop_def)
next
  case (worker_told i writes)
  let ?w = "worker_request_stop writes (srv_workers (sr_server s) ! i)"
  have "worker_inv hash ?w (sr_env s)"
    using assms(2) worker_told(3) worker_request_stop_inv(1) by (simp add: run_inv_def server_inv_def)
  with assms(2) worker_told(1,3) server_inv_update [OF _ this]
    all_fds_same [OF worker_told(3), of ?w] worker_request_stop_inv(2) quiet_request_stop
  show ?thesis by (auto simp: run_inv_def with_worker_def nth_list_update)
qed

lemma run_reach_inv: "run_reach hash s \<Longrightarrow> run_inv hash s"
  by (induction rule: run_reach.induct) (auto intro: start_run_inv step_keeps_inv)

text \<open>As long as its loop runs the acceptor can take whatever comes.\<close>

lemma acceptor_can_turn:
  assumes "run_reach hash s" and "sr_acceptor s" and "\<forall>fd \<in> set (sockets_of result (sr_server s)). fd \<ge> 0"
  shows "\<exists>s'. server_step hash s s' \<and> sr_accepted s' = sr_accepted s + mset (sockets_of result (sr_server s))"
proof -
  have "server_inv hash (sr_server s) (sr_env s)" using run_reach_inv [OF assms(1)] by (simp add: run_inv_def)
  from acceptor_turn_ok [OF this assms(3)] obtain goes_on srv env where
    "acceptor_turn result (sr_server s) (sr_env s) = Some (goes_on, srv, env)" by blast
  from acceptor_turns [OF assms(2,3) this] show ?thesis by (intro exI conjI) (assumption, simp)
qed

lemma all_fds_quiet:
  assumes "\<forall>w \<in> set ws. quiet w"
  shows "all_fds ws = mset (concat (map wk_closed ws))"
  using assms by (induction ws) (simp_all add: all_fds_def quiet_def worker_fds_def fds_owned_def)

lemma ended_closed_all:
  assumes "run_reach hash s" and "\<forall>st \<in> set (sr_loops s). st = Ended"
  shows "mset (concat (map wk_closed (srv_workers (sr_server s)))) = sr_accepted s"
proof -
  have inv: "run_inv hash s" using run_reach_inv [OF assms(1)] .
  then have "\<forall>w \<in> set (srv_workers (sr_server s)). quiet w"
    using assms(2) by (metis in_set_conv_nth nth_mem run_inv_def)
  from all_fds_quiet [OF this] inv show ?thesis by (simp add: run_inv_def)
qed

end
