(* ===== verification/Server_Dialogues.thy ===== *)
theory Server_Dialogues
  imports Server_Run
begin

text \<open>
  The dialogues of the whole running server: in every state that the turns of the acceptor, the
  workers and the stopping thread can reach there is one history of requests and ticks of
  which the engine is the result, and every client, whichever worker serves it and whatever the
  other clients do, has been told what this history answers to its requests.
\<close>

section \<open>Connections of the server\<close>

definition conns_of :: "server \<Rightarrow> nat \<times> int \<rightharpoonup> connection" where
  "conns_of s = (\<lambda>(i, fd). if i < length (srv_workers s) then map_of (wk_connections (srv_workers s ! i)) fd else None)"

lemma conns_of_with: "i < length (srv_workers s) \<Longrightarrow> conns_of s = conns_with (conns_of s) i (srv_workers s ! i)"
  by (auto simp: conns_of_def conns_with_def fun_eq_iff)

lemma conns_of_update:
  "i < length (srv_workers s) \<Longrightarrow> conns_of (with_worker i w s) = conns_with (conns_of s) i w"
  by (auto simp: conns_of_def conns_with_def with_worker_def fun_eq_iff nth_list_update)

text \<open>Only turns of workers touch the connections.\<close>

lemma conns_of_cong:
  assumes "map wk_connections (srv_workers s') = map wk_connections (srv_workers s)"
  shows "conns_of s' = conns_of s"
proof -
  have len: "length (srv_workers s') = length (srv_workers s)" using assms by (metis length_map)
  have "wk_connections (srv_workers s' ! i) = wk_connections (srv_workers s ! i)" if "i < length (srv_workers s)" for i
    using assms that len by (metis nth_map)
  then show ?thesis using len by (auto simp: conns_of_def fun_eq_iff)
qed

lemma tables_update:
  assumes "wk_connections w = wk_connections (ws ! i)"
  shows "map wk_connections (ws[i := w]) = map wk_connections ws"
proof (cases "i < length ws")
  case True
  then show ?thesis using assms by (simp add: map_update list_update_same_conv)
next
  case False
  then show ?thesis by (simp add: list_update_beyond)
qed

lemma accept_connections_tables:
  "accept_connections rs s h = Some (s', h') \<Longrightarrow>
     map wk_connections (srv_workers s') = map wk_connections (srv_workers s)"
proof (induction rs arbitrary: s h)
  case (Cons r rs)
  show ?case
  proof (cases r)
    case (Accepted fd writes)
    let ?i = "unat (srv_next_worker s mod of_nat (length (srv_workers s)))"
    obtain x w h1 where enq: "enqueue (make_fd fd) writes (srv_workers s ! ?i) h = (x, w, h1)"
      by (cases "enqueue (make_fd fd) writes (srv_workers s ! ?i) h")
    then have w: "wk_connections w = wk_connections (srv_workers s ! ?i)"
      by (auto simp: enqueue_def split: if_splits sum.splits prod.splits)
    from Cons.prems Accepted enq have "map wk_connections (srv_workers s') = map wk_connections ((srv_workers s)[?i := w])"
      by (auto simp: Let_def dest!: Cons.IH split: if_splits)
    also have "\<dots> = map wk_connections (srv_workers s)" using w by (rule tables_update)
    finally show ?thesis .
  qed (use Cons in auto)
qed simp

section \<open>The history\<close>

definition told_all :: "(bytes \<Rightarrow> u64) \<Rightarrow> happening list \<Rightarrow> server_run \<Rightarrow> bool" where
  "told_all hash hist s \<longleftrightarrow>
     retrace hash hist (sr_first s) = Some (env_engine (sr_env s)) \<and>
     talks hash hist (conns_of (sr_server s)) (sr_dialogues s)"

lemma acceptor_events_retrace:
  assumes "acceptor_events evs s env = Some (s', env')" and "talks hash hist conns ds"
  shows "\<exists>new. retrace hash new (env_engine env) = Some (env_engine env') \<and> talks hash (hist @ new) conns ds \<and>
           map wk_connections (srv_workers s') = map wk_connections (srv_workers s)"
  using assms
proof (induction evs arbitrary: s env hist)
  case Nil
  then show ?case by (intro exI [of _ "[]"]) simp
next
  case (Cons ev evs)
  show ?case
  proof (cases ev)
    case (Stop_ready reads)
    with Cons show ?thesis by fastforce
  next
    case (Timer_ready reads)
    with Cons.prems(1) obtain e where e: "handle_timer reads (env_engine env) = Some e"
      "acceptor_events evs s (env\<lparr>env_engine := e\<rparr>) = Some (s', env')" by (auto split: option.splits)
    from Cons.IH [OF e(2) talks_timer [OF Cons.prems(2), of reads]] obtain new where
      "retrace hash new e = Some (env_engine env')" "talks hash ((hist @ [Timer_fired reads]) @ new) conns ds"
      "map wk_connections (srv_workers s') = map wk_connections (srv_workers s)" by auto
    with e(1) show ?thesis by (intro exI [of _ "Timer_fired reads # new"]) simp
  next
    case (Listen_ready results)
    with Cons.prems(1) obtain s1 h1 where acc: "accept_connections results s (env_heap env) = Some (s1, h1)"
      "acceptor_events evs s1 (env\<lparr>env_heap := h1\<rparr>) = Some (s', env')" by (auto split: option.splits)
    from Cons.IH [OF acc(2) Cons.prems(2)] accept_connections_tables [OF acc(1)] show ?thesis by auto
  qed
qed

lemma acceptor_turn_retrace:
  assumes "acceptor_turn result s env = Some (goes_on, s', env')" and "talks hash hist (conns_of s) ds"
  shows "\<exists>new. retrace hash new (env_engine env) = Some (env_engine env') \<and> talks hash (hist @ new) (conns_of s') ds"
proof -
  consider evs where "acceptor_events evs s env = Some (s', env')"
    | "env' = env" "srv_workers s' = srv_workers s"
    using assms(1) by (auto simp: acceptor_turn_def split: if_splits wait_result.splits)
  then show ?thesis
  proof cases
    case 1
    from acceptor_events_retrace [OF 1 assms(2)] conns_of_cong [of s' s] show ?thesis by auto
  next
    case 2
    with conns_of_cong [of s' s] assms(2) show ?thesis by (intro exI [of _ "[]"]) simp
  qed
qed

lemma worker_turn_retrace:
  assumes inv: "worker_inv hash w env" and ok: "wait_ok hash result w env"
    and run: "worker_turn hash result outcomes w env = Some (how, out, w', env')"
    and talks: "talks hash hist (conns_with conns i w) ds"
  shows "\<exists>new. retrace hash new (env_engine env) = Some (env_engine env') \<and>
           talks hash (hist @ new) (conns_with conns i w') (note_turn hash i result outcomes w env ds)"
proof -
  have over: ?thesis if "wk_stop w \<or> result = Wait_failed"
  proof -
    have "w' = worker_finish w" "env' = env" using run that by (auto simp: worker_turn_def split: if_splits)
    moreover have "conns_with conns i (worker_finish w) = (\<lambda>(a, b). if a = i then None else conns_with conns i w (a, b))"
      using worker_finish_ok(2) [OF inv] by (auto simp: conns_with_def fun_eq_iff)
    ultimately show ?thesis
      using talks_hang_up [OF talks, of i] that by (intro exI [of _ "[]"]) (auto simp: note_turn_def)
  qed
  consider "wk_stop w \<or> result = Wait_failed" | "\<not> wk_stop w" "result = Wait_interrupted"
    | evs where "\<not> wk_stop w" "result = Wait_events evs" by (cases result) auto
  then show ?thesis
  proof cases
    case 2
    with run talks show ?thesis by (intro exI [of _ "[]"]) (auto simp: worker_turn_def note_turn_def)
  next
    case (3 evs)
    then have evs: "events_ok hash evs w env" using ok by (simp add: wait_ok_def)
    from worker_events_ok [OF inv evs, of False] obtain seen out1 w1 env1 where
      ev: "worker_events hash evs False w env = Some (seen, out1, w1, env1)" "worker_inv hash w1 env1" by blast
    from worker_events_talk [OF inv evs ev(1) talks] obtain new where
      new: "retrace hash new (env_engine env) = Some (env_engine env1)"
        "talks hash (hist @ new) (conns_with conns i w1) (note_events hash i evs w env ds)" by blast
    obtain w2 env2 where inst: "install_pending outcomes w1 env1 = (w2, env2)" by fastforce
    note inst_ok = install_pending_ok [OF ev(2) inst]
    show ?thesis
    proof (cases "seen \<and> \<not> wk_stop w1")
      case True
      then have "w' = w2" "env_engine env' = env_engine env1"
        using run 3 ev(1) inst inst_ok(6) by (auto simp: worker_turn_def worker_round_def)
      with True new installed_talk [OF inst_ok(1,5) new(2)] 3 ev(1) inst show ?thesis
        by (intro exI [of _ new]) (simp add: note_turn_def)
    next
      case False
      with run 3 ev(1) new show ?thesis
        by (intro exI [of _ new]) (auto simp: worker_turn_def worker_round_def note_turn_def Let_def)
    qed
  qed (use over in blast)
qed

section \<open>Every reachable state\<close>

lemma new_worker_table:
  "new_worker limit fd o1 o2 o3 = Inr w \<Longrightarrow> wk_connections w = []"
  by (auto simp: new_worker_def create_epoll_def create_event_def add_to_epoll_def sys_call_def split: option.splits)

lemma make_workers_tables:
  "make_workers limit outs is h = (Inr ws, h') \<Longrightarrow> \<forall>w \<in> set ws. wk_connections w = []"
proof (induction "is" arbitrary: h ws)
  case (Cons i "is")
  obtain fd o1 o2 o3 where "outs i = (fd, o1, o2, o3)" by (cases "outs i")
  with Cons.prems obtain h1 w ws1 where "new_worker limit fd o1 o2 o3 = Inr w"
    "make_workers limit outs is h1 = (Inr ws1, h')" "ws = w # ws1"
    by (auto split: prod.splits sum.splits)
  with Cons.IH new_worker_table show ?case by simp
qed simp

lemma new_server_tables:
  assumes "new_server options so h = (Inr s, h')"
  shows "\<forall>w \<in> set (srv_workers s). wk_connections w = []"
proof -
  from assms obtain h1 where
    "make_workers (unat (opt_pending_output_limit options)) (so_workers so)
       [0..<unat (opt_worker_threads options)] h1 = (Inr (srv_workers s), h')"
    by (auto simp: new_server_def on_success_def validate_options_def split: prod.splits sum.splits if_splits)
  then show ?thesis by (rule make_workers_tables)
qed

lemma told_all_step:
  assumes step: "server_step hash s s'" and inv: "run_inv hash s" and told: "told_all hash hist s"
  shows "\<exists>new. told_all hash (hist @ new) s'"
proof -
  have engine: "retrace hash hist (sr_first s) = Some (env_engine (sr_env s))"
    and talks: "talks hash hist (conns_of (sr_server s)) (sr_dialogues s)" using told by (auto simp: told_all_def)
  have quiet: ?thesis if "sr_first s' = sr_first s" "sr_env s' = sr_env s" "sr_dialogues s' = sr_dialogues s"
      "map wk_connections (srv_workers (sr_server s')) = map wk_connections (srv_workers (sr_server s))"
    using told that conns_of_cong [OF that(4)] by (intro exI [of _ "[]"]) (simp add: told_all_def)
  from step show ?thesis
  proof cases
    case (worker_turns i result outcomes how out w env)
    let ?w = "srv_workers (sr_server s) ! i"
    have "worker_inv hash ?w (sr_env s)" using inv worker_turns(2) by (simp add: run_inv_def server_inv_def)
    moreover have "talks hash hist (conns_with (conns_of (sr_server s)) i ?w) (sr_dialogues s)"
      using talks conns_of_with [OF worker_turns(2)] by simp
    ultimately obtain new where "retrace hash new (env_engine (sr_env s)) = Some (env_engine env)"
      "talks hash (hist @ new) (conns_with (conns_of (sr_server s)) i w)
         (note_turn hash i result outcomes ?w (sr_env s) (sr_dialogues s))"
      using worker_turn_retrace worker_turns(4,5) by blast
    with engine worker_turns(1) conns_of_update [OF worker_turns(2)] show ?thesis
      by (intro exI [of _ new]) (simp add: told_all_def retrace_append)
  next
    case (acceptor_turns result goes_on srv env)
    from acceptor_turn_retrace [OF acceptor_turns(4) talks] obtain new where
      "retrace hash new (env_engine (sr_env s)) = Some (env_engine env)"
      "talks hash (hist @ new) (conns_of srv) (sr_dialogues s)" by blast
    with engine acceptor_turns(1) show ?thesis by (intro exI [of _ new]) (simp add: told_all_def retrace_append)
  next
    case (stop_called writes)
    then show ?thesis by (intro quiet) (simp_all add: server_request_stop_def)
  next
    case (worker_told i writes)
    then show ?thesis
      by (intro quiet) (simp_all add: with_worker_def worker_request_stop_def tables_update)
  qed
qed

lemma run_reach_told:
  assumes "run_reach hash s"
  shows "\<exists>hist. told_all hash hist s"
  using assms
proof induction
  case (started options so h srv h1 timer threads acceptor u srv1 e)
  have "srv_workers srv1 = srv_workers srv" using server_start_workers [OF started(2)] .
  then have "conns_of srv1 = (\<lambda>_. None)"
    using new_server_tables [OF started(1)] by (auto simp: conns_of_def fun_eq_iff)
  then show ?case by (intro exI [of _ "[]"]) (simp add: told_all_def start_run_def talks_start)
next
  case (stepped s s')
  then show ?case using told_all_step [OF stepped(2) run_reach_inv [OF stepped(1)]] by blast
qed

lemma run_reach_first:
  assumes "run_reach hash s"
  shows "engine_inv hash (sr_first s)"
  using assms by (induction rule: run_reach.induct) (auto simp: start_run_def elim!: server_step.cases)

end
