(* ===== verification/Server_Progress.thy ===== *)
theory Server_Progress
  imports Server_Dialogues
begin

text \<open>
  What the running server can get done: a worker answers, in one turn, all requests that have
  arrived for a connection; and from every reachable state the server can be stopped, as
  \<^verbatim>\<open>Impl::request_stop\<close> and \<^verbatim>\<open>Impl::join\<close> of \<^verbatim>\<open>src/net/cache_server.cpp\<close> do it, first the acceptor and
  then every worker.
\<close>

section \<open>Answering\<close>

text \<open>The whole output goes out.\<close>

lemma handle_writable_all:
  assumes inv: "conn_inv hash c env" and opn: "\<not> closing c" and caw: "\<not> close_after_write c"
  obtains c' where
    "handle_writable [Sent (readable_bytes (output_buffer c))] c =
       Some (\<not> peer_closed c, readable_view (output_buffer c), c')"
    "closing c' \<longleftrightarrow> peer_closed c"
proof -
  have b: "buffer_inv (output_buffer c)" using inv by (simp add: conn_inv_def)
  show ?thesis
  proof (cases "readable_bytes (output_buffer c) = 0")
    case True
    then have "readable_view (output_buffer c) = []" using length_readable_view [OF b] by simp
    with True opn caw that show ?thesis
      by (cases "peer_closed c")
        (auto simp: buffer_empty_def writable_done_def Let_def close_immediately_def should_close_def)
  next
    case False
    let ?n = "readable_bytes (output_buffer c)"
    have all: "retrieve ?n (output_buffer c) = Some (retrieve_all (output_buffer c))"
      by (simp add: retrieve_def)
    have "take ?n (readable_view (output_buffer c)) = readable_view (output_buffer c)"
      using length_readable_view [OF b] by simp
    with False all opn caw that show ?thesis
      by (cases "peer_closed c")
        (auto simp: buffer_empty_def readable_bytes_def retrieve_all_def writable_done_def Let_def
          close_immediately_def should_close_def)
  qed
qed

text \<open>The event in which all requests arrive and all answers go out.\<close>

lemma connection_answers:
  assumes idle: "conn_idle hash c env" "\<not> closing c" and input: "readable_view (input_buffer c) = []"
    and caw: "\<not> close_after_write c" and mem: "oom (env_heap env) = []" and limit: "output_limit c \<le> 2 ^ 60"
    and reqs: "\<forall>r \<in> set reqs. encodable r" and chunks: "concat chunks = request_stream reqs"
    and sizes: "\<forall>bs \<in> set chunks. bs \<noteq> [] \<and> length bs \<le> read_chunk_size"
    and serve: "serve hash reqs (env_engine env) = Some (resps, e')"
    and fits: "pending_output_bytes c + length (response_stream resps) \<le> output_limit c"
  obtains sends c' where
    "connection_event hash (EPOLLIN OR EPOLLOUT) (map Received chunks) sends c env =
       Some (\<not> peer_closed c, readable_view (output_buffer c) @ response_stream resps, c', env\<lparr>env_engine := e'\<rparr>)"
    "closing c' \<longleftrightarrow> peer_closed c" "event_inputs_ok hash (EPOLLIN OR EPOLLOUT) (map Received chunks) sends c env"
    "event_input (EPOLLIN OR EPOLLOUT) (map Received chunks) = request_stream reqs"
proof -
  let ?recvs = "map Received chunks"
  from handle_readable_serves [OF idle(1) limit mem input caw idle(2) reqs chunks _ serve fits] sizes obtain bi bo where
    read: "handle_readable hash ?recvs c env =
        Some (Inr True, c\<lparr>input_buffer := bi, output_buffer := bo\<rparr>, env\<lparr>env_engine := e'\<rparr>)"
    and inv1: "conn_inv hash (c\<lparr>input_buffer := bi, output_buffer := bo\<rparr>) (env\<lparr>env_engine := e'\<rparr>)"
    and bo: "readable_view bo = readable_view (output_buffer c) @ response_stream resps" by blast
  let ?sends = "[Sent (readable_bytes bo)]"
  from handle_writable_all [OF inv1] idle(2) caw obtain c' where
    out: "handle_writable ?sends (c\<lparr>input_buffer := bi, output_buffer := bo\<rparr>) =
        Some (\<not> peer_closed c, readable_view bo, c')" "closing c' \<longleftrightarrow> peer_closed c" by auto
  have "connection_event hash (EPOLLIN OR EPOLLOUT) ?recvs ?sends c env =
      Some (\<not> peer_closed c, readable_view bo, c', env\<lparr>env_engine := e'\<rparr>)"
    unfolding connection_event_def Let_def using read out by simp
  moreover have "recv_results_ok ?recvs" using sizes by (auto simp: recv_results_ok_def)
  then have "event_inputs_ok hash (EPOLLIN OR EPOLLOUT) ?recvs ?sends c env"
    using read by (simp add: event_inputs_ok_def)
  moreover have "taken ?recvs = concat chunks" by (induction chunks) simp_all
  then have "event_input (EPOLLIN OR EPOLLOUT) ?recvs = request_stream reqs" using chunks by (simp add: event_input_def)
  ultimately show ?thesis using that out(2) bo by simp
qed

text \<open>What the worker makes of an event after which the epoll set can be changed.\<close>

lemma handle_connection_event_works:
  assumes conn: "map_of (wk_connections w) fd = Some c"
    and event: "connection_event hash events recvs sends c env = Some (keep, sent, c', env')"
    and close: "closing c' \<longleftrightarrow> \<not> keep"
  obtains w' where "handle_connection_event hash fd events recvs sends True w env = Some (sent, w', env')"
    "fd \<in> fst ` set (wk_connections w') \<longleftrightarrow> keep"
proof -
  let ?w' = "if keep
      then w\<lparr>wk_connections := map (\<lambda>x. if fst x = fd then (fd, c') else x) (wk_connections w),
             wk_watched := (wk_watched w)(fd \<mapsto> desired_events c')\<rparr>
      else w\<lparr>wk_connections := filter (\<lambda>x. fst x \<noteq> fd) (wk_connections w),
             wk_watched := remove_from_epoll fd (wk_watched w), wk_closed := fd_destroy (make_fd fd) (wk_closed w)\<rparr>"
  have "fd \<in> fst ` set (wk_connections ?w') \<longleftrightarrow> keep"
  proof (cases keep)
    case True
    have "map fst (wk_connections ?w') = map fst (wk_connections w)"
      using True map_fst_update [of fd c' "wk_connections w"] by simp
    then have "fst ` set (wk_connections ?w') = fst ` set (wk_connections w)" by (metis list.set_map)
    then show ?thesis using True map_of_SomeD [OF conn] by force
  qed auto
  moreover have "handle_connection_event hash fd events recvs sends True w env = Some (sent, ?w', env')"
    using conn event close by (auto simp: handle_connection_event_def modify_epoll_def should_close_def)
  ultimately show ?thesis using that by blast
qed

lemma server_answers:
  assumes reach: "run_reach hash s" and i: "i < length (srv_workers (sr_server s))" and loop: "sr_loops s ! i = Looping"
    and running: "\<not> wk_stop (srv_workers (sr_server s) ! i)" and conn: "conns_of (sr_server s) (i, fd) = Some c"
    and input: "readable_view (input_buffer c) = []" and caw: "\<not> close_after_write c"
    and mem: "oom (env_heap (sr_env s)) = []" and limit: "output_limit c \<le> 2 ^ 60"
    and reqs: "\<forall>r \<in> set reqs. encodable r" and chunks: "concat chunks = request_stream reqs"
    and sizes: "\<forall>bs \<in> set chunks. bs \<noteq> [] \<and> length bs \<le> read_chunk_size"
    and serve: "serve hash reqs (env_engine (sr_env s)) = Some (resps, e')"
    and fits: "pending_output_bytes c + length (response_stream resps) \<le> output_limit c"
  shows "\<exists>s'. server_step hash s s' \<and> env_engine (sr_env s') = e' \<and>
           sr_dialogues s' = note_event i fd (request_stream reqs)
             (readable_view (output_buffer c) @ response_stream resps) (\<not> peer_closed c) (sr_dialogues s)"
proof -
  let ?w = "srv_workers (sr_server s) ! i" and ?env = "sr_env s" and ?recvs = "map Received chunks"
    and ?events = "EPOLLIN OR EPOLLOUT" and ?sent = "readable_view (output_buffer c) @ response_stream resps"
  have c: "map_of (wk_connections ?w) fd = Some c" using conn i by (simp add: conns_of_def)
  have inv: "worker_inv hash ?w ?env" using run_reach_inv [OF reach] i by (simp add: run_inv_def server_inv_def)
  have idle: "conn_idle hash c ?env" "\<not> closing c"
    using inv map_of_SomeD [OF c] by (auto simp: worker_inv_def served_def)
  from connection_answers [OF idle input caw mem limit reqs chunks sizes serve fits] obtain sends c' where
    event: "connection_event hash ?events ?recvs sends c ?env =
        Some (\<not> peer_closed c, ?sent, c', ?env\<lparr>env_engine := e'\<rparr>)" "closing c' \<longleftrightarrow> peer_closed c"
      "event_inputs_ok hash ?events ?recvs sends c ?env" "event_input ?events ?recvs = request_stream reqs" .
  from handle_connection_event_works [OF c event(1)] event(2) obtain w' where
    run: "handle_connection_event hash fd ?events ?recvs sends True ?w ?env = Some (?sent, w', ?env\<lparr>env_engine := e'\<rparr>)"
      "fd \<in> fst ` set (wk_connections w') \<longleftrightarrow> \<not> peer_closed c" by auto
  let ?ev = "Wait_events [Ready fd ?events ?recvs sends True]"
  have ok: "wait_ok hash ?ev ?w ?env" using c event(3) run(1) by (simp add: wait_ok_def)
  have "worker_turn hash ?ev (\<lambda>_. None) ?w ?env = Some (Looping, [(fd, ?sent)], w', ?env\<lparr>env_engine := e'\<rparr>)"
    using run(1) running by (simp add: worker_turn_def worker_round_def)
  from worker_turns [OF i loop ok this] have
    step: "server_step hash s (s\<lparr>sr_server := with_worker i w' (sr_server s), sr_env := ?env\<lparr>env_engine := e'\<rparr>,
       sr_loops := (sr_loops s)[i := Looping],
       sr_dialogues := note_turn hash i ?ev (\<lambda>_. None) ?w ?env (sr_dialogues s)\<rparr>)" (is "server_step hash s ?s'") .
  have "note_turn hash i ?ev (\<lambda>_. None) ?w ?env (sr_dialogues s) =
      note_event i fd (request_stream reqs) ?sent (\<not> peer_closed c) (sr_dialogues s)"
    using run running event(4) by (simp add: note_turn_def)
  then show ?thesis by (intro exI [of _ ?s'] conjI step) simp_all
qed

section \<open>Stopping\<close>

text \<open>What the steps towards the end do not change.\<close>

definition stopping :: "server_run \<Rightarrow> server_run \<Rightarrow> bool" where
  "stopping s s' \<longleftrightarrow> \<not> sr_acceptor s' \<and> sr_accepted s' = sr_accepted s \<and>
     length (srv_workers (sr_server s')) = length (srv_workers (sr_server s)) \<and> length (sr_loops s') = length (sr_loops s)"

lemma stopping_trans: "stopping s s1 \<Longrightarrow> stopping s1 s2 \<Longrightarrow> stopping s s2"
  by (simp add: stopping_def)

lemma acceptor_stops:
  "\<exists>s'. (server_step hash)\<^sup>*\<^sup>* s s' \<and> stopping s s' \<and> sr_loops s' = sr_loops s"
proof (cases "sr_acceptor s")
  case True
  let ?s1 = "s\<lparr>sr_server := server_request_stop [] (sr_server s)\<rparr>"
  let ?s2 = "?s1\<lparr>sr_server := (sr_server ?s1)\<lparr>srv_running := False\<rparr>, sr_acceptor := False\<rparr>"
  have stop: "server_step hash s ?s1" by (rule stop_called)
  have socks: "sockets_of Wait_interrupted (sr_server ?s1) = []"
    by (simp add: sockets_of_def server_request_stop_def)
  moreover have "acceptor_turn Wait_interrupted (sr_server ?s1) (sr_env ?s1) =
      Some (False, (sr_server ?s1)\<lparr>srv_running := False\<rparr>, sr_env ?s1)"
    by (simp add: acceptor_turn_def server_request_stop_def)
  ultimately have "server_step hash ?s1 (?s1\<lparr>sr_server := (sr_server ?s1)\<lparr>srv_running := False\<rparr>, sr_env := sr_env ?s1,
      sr_acceptor := False, sr_accepted := sr_accepted ?s1 + mset (sockets_of Wait_interrupted (sr_server ?s1))\<rparr>)"
    using True by (intro acceptor_turns) simp_all
  with socks have "server_step hash ?s1 ?s2" by simp
  then have "(server_step hash)\<^sup>*\<^sup>* s ?s2"
    by (intro converse_rtranclp_into_rtranclp [of "server_step hash", OF stop] r_into_rtranclp)
  moreover have "stopping s ?s2" by (simp add: stopping_def server_request_stop_def)
  ultimately show ?thesis by (intro exI [of _ ?s2]) simp
next
  case False
  then show ?thesis by (intro exI [of _ s]) (simp add: stopping_def)
qed

lemma workers_told:
  assumes "\<not> sr_acceptor s" and "n \<le> length (srv_workers (sr_server s))"
  shows "\<exists>s'. (server_step hash)\<^sup>*\<^sup>* s s' \<and> stopping s s' \<and> sr_loops s' = sr_loops s \<and>
           (\<forall>j < n. wk_stop (srv_workers (sr_server s') ! j))"
  using assms(2)
proof (induction n)
  case 0
  with assms(1) show ?case by (intro exI [of _ s]) (simp add: stopping_def)
next
  case (Suc n)
  then obtain s1 where s1: "(server_step hash)\<^sup>*\<^sup>* s s1" "stopping s s1" "sr_loops s1 = sr_loops s"
    "\<forall>j < n. wk_stop (srv_workers (sr_server s1) ! j)" by auto
  let ?s2 = "s1\<lparr>sr_server := with_worker n (worker_request_stop [] (srv_workers (sr_server s1) ! n)) (sr_server s1)\<rparr>"
  have n: "n < length (srv_workers (sr_server s1))" using s1(2) Suc.prems by (simp add: stopping_def)
  moreover have "\<not> sr_acceptor s1" using s1(2) by (simp add: stopping_def)
  ultimately have "server_step hash s1 ?s2" by (intro worker_told)
  with s1(1) have "(server_step hash)\<^sup>*\<^sup>* s ?s2" by (rule rtranclp.rtrancl_into_rtrancl)
  moreover have "stopping s ?s2" using s1(2) by (simp add: stopping_def with_worker_def)
  moreover have "wk_stop (srv_workers (sr_server ?s2) ! j)" if "j < Suc n" for j
    using that s1(4) n by (cases "j = n") (simp_all add: with_worker_def worker_request_stop_def)
  ultimately show ?case using s1(3) by (intro exI [of _ ?s2]) simp
qed

definition ended :: "loop_status \<Rightarrow> loop_status" where
  "ended st = (if st = Looping then Ended else st)"

lemma workers_end:
  assumes "\<forall>w \<in> set (srv_workers (sr_server s)). wk_stop w" and "\<not> sr_acceptor s"
    and "length (sr_loops s) = length (srv_workers (sr_server s))" and "n \<le> length (sr_loops s)"
  shows "\<exists>s'. (server_step hash)\<^sup>*\<^sup>* s s' \<and> stopping s s' \<and> (\<forall>w \<in> set (srv_workers (sr_server s')). wk_stop w) \<and>
           (\<forall>j < length (sr_loops s). sr_loops s' ! j = (if j < n then ended (sr_loops s ! j) else sr_loops s ! j))"
  using assms(4)
proof (induction n)
  case 0
  with assms(1,2) show ?case by (intro exI [of _ s]) (simp add: stopping_def)
next
  case (Suc n)
  then obtain s1 where s1: "(server_step hash)\<^sup>*\<^sup>* s s1" "stopping s s1" "\<forall>w \<in> set (srv_workers (sr_server s1)). wk_stop w"
    "\<forall>j < length (sr_loops s). sr_loops s1 ! j = (if j < n then ended (sr_loops s ! j) else sr_loops s ! j)" by auto
  have n: "n < length (srv_workers (sr_server s1))" "length (sr_loops s1) = length (sr_loops s)"
    using s1(2) Suc.prems assms(3) by (auto simp: stopping_def)
  show ?case
  proof (cases "sr_loops s ! n = Looping")
    case False
    with s1 show ?thesis by (intro exI [of _ s1]) (auto simp: ended_def less_Suc_eq)
  next
    case True
    let ?w = "srv_workers (sr_server s1) ! n"
    let ?s2 = "s1\<lparr>sr_server := with_worker n (worker_finish ?w) (sr_server s1), sr_env := sr_env s1,
        sr_loops := (sr_loops s1)[n := Ended],
        sr_dialogues := note_turn hash n Wait_interrupted (\<lambda>_. None) ?w (sr_env s1) (sr_dialogues s1)\<rparr>"
    have stop: "wk_stop ?w" using s1(3) n by simp
    then have "worker_turn hash Wait_interrupted (\<lambda>_. None) ?w (sr_env s1) = Some (Ended, [], worker_finish ?w, sr_env s1)"
      by (simp add: worker_turn_def)
    then have "server_step hash s1 ?s2"
      using n True s1(4) Suc.prems by (intro worker_turns) (simp_all add: wait_ok_def)
    with s1(1) have "(server_step hash)\<^sup>*\<^sup>* s ?s2" by (rule rtranclp.rtrancl_into_rtrancl)
    moreover have "stopping s ?s2" using s1(2) by (simp add: stopping_def with_worker_def)
    moreover have "wk_stop (worker_finish ?w)" using stop by (simp add: worker_finish_def Let_def)
    then have "\<forall>w \<in> set (srv_workers (sr_server ?s2)). wk_stop w"
      using s1(3) set_update_subset_insert [of "srv_workers (sr_server s1)" n "worker_finish ?w"]
      by (auto simp: with_worker_def)
    moreover have "sr_loops ?s2 ! j = (if j < Suc n then ended (sr_loops s ! j) else sr_loops s ! j)"
      if "j < length (sr_loops s)" for j
      using that s1(4) n True by (cases "j = n") (auto simp: ended_def)
    ultimately show ?thesis by (intro exI [of _ ?s2]) blast
  qed
qed

lemma run_reach_steps: "(server_step hash)\<^sup>*\<^sup>* s s' \<Longrightarrow> run_reach hash s \<Longrightarrow> run_reach hash s'"
  by (induction rule: rtranclp_induct) (auto intro: run_reach.stepped)

lemma server_stops:
  assumes "run_reach hash s"
  shows "\<exists>s'. (server_step hash)\<^sup>*\<^sup>* s s' \<and> run_reach hash s' \<and> \<not> sr_acceptor s' \<and> sr_accepted s' = sr_accepted s \<and>
           sr_loops s' = map ended (sr_loops s)"
proof -
  obtain s1 where s1: "(server_step hash)\<^sup>*\<^sup>* s s1" "stopping s s1" "sr_loops s1 = sr_loops s"
    using acceptor_stops by blast
  have "\<not> sr_acceptor s1" using s1(2) by (simp add: stopping_def)
  from workers_told [OF this order_refl] obtain s2 where
    s2: "(server_step hash)\<^sup>*\<^sup>* s1 s2" "stopping s1 s2" "sr_loops s2 = sr_loops s1"
      "\<forall>j < length (srv_workers (sr_server s1)). wk_stop (srv_workers (sr_server s2) ! j)" by blast
  have stop: "\<forall>w \<in> set (srv_workers (sr_server s2)). wk_stop w"
    using s2(2,4) by (auto simp: stopping_def in_set_conv_nth)
  have "run_inv hash s2" using run_reach_inv run_reach_steps s1(1) s2(1) assms by blast
  then have "length (sr_loops s2) = length (srv_workers (sr_server s2))" by (simp add: run_inv_def)
  moreover have "\<not> sr_acceptor s2" using s2(2) by (simp add: stopping_def)
  ultimately obtain s3 where s3: "(server_step hash)\<^sup>*\<^sup>* s2 s3" "stopping s2 s3"
    "\<forall>j < length (sr_loops s2). sr_loops s3 ! j = ended (sr_loops s2 ! j)"
    using workers_end [OF stop, of "length (sr_loops s2)" hash] by auto
  have path: "(server_step hash)\<^sup>*\<^sup>* s s3" using s1(1) s2(1) s3(1) by simp
  have "sr_loops s3 = map ended (sr_loops s)"
    using s1(3) s2(3) s3(2,3) by (intro nth_equalityI) (auto simp: stopping_def)
  moreover have "stopping s s3" using stopping_trans s1(2) s2(2) s3(2) by blast
  ultimately show ?thesis
    using path run_reach_steps [OF path assms] by (intro exI [of _ s3]) (simp add: stopping_def)
qed

text \<open>When all loops have ended as they should there is no connection and no open dialogue left.\<close>

lemma ended_silent:
  assumes "run_reach hash s" and "\<forall>st \<in> set (sr_loops s). st = Ended" and "d \<in> set (sr_dialogues s)"
  shows "\<not> dg_open d"
proof -
  have inv: "run_inv hash s" using run_reach_inv [OF assms(1)] .
  have "quiet (srv_workers (sr_server s) ! i)" if "i < length (srv_workers (sr_server s))" for i
    using inv that assms(2) nth_mem unfolding run_inv_def by metis
  then have "conns_of (sr_server s) = (\<lambda>_. None)" by (auto simp: conns_of_def quiet_def fun_eq_iff)
  moreover obtain hist where "talks hash hist (conns_of (sr_server s)) (sr_dialogues s)"
    using run_reach_told [OF assms(1)] by (auto simp: told_all_def)
  ultimately have "\<not> (\<exists>d \<in> set (sr_dialogues s). speaks i fd d)" for i fd
    using talksD(3) [of hash hist "conns_of (sr_server s)" "sr_dialogues s" i fd] unfolding ex_nth by simp
  with assms(3) show ?thesis by (auto simp: speaks_def dg_key_def)
qed

end
