(* ===== verification/Server_Main.thy ===== *)
theory Server_Main
  imports Client Server_Progress
begin

text \<open>
  The server program, \<^verbatim>\<open>src/server/main.cpp\<close>: it reads the configuration, builds the engine
  and the server from it, runs until a signal arrives, and reports what the engine holds.
  Between \<^verbatim>\<open>start\<close> and the end of \<^verbatim>\<open>join\<close> the acceptor and the workers take turns as in the theory
  \<^verbatim>\<open>Server_Run\<close>; in which order, and what the kernel reports to each, is an input.
\<close>

section \<open>Definitions\<close>

text \<open>
  A turn of a thread, with the report of the kernel it gets. A thread that has returned takes no
  more turns, and a report that the kernel cannot make (\<^verbatim>\<open>send\<close> taking more than it was offered, an
  accepted socket with a negative number) is not made.
\<close>

datatype turn =
    Worker_turn nat "worker_event wait_result" "int \<Rightarrow> sys_outcome"
  | Acceptor_turn "acceptor_event wait_result"

fun take_turn :: "(bytes \<Rightarrow> u64) \<Rightarrow> turn \<Rightarrow> server_run \<Rightarrow> server_run option" where
  "take_turn hash (Worker_turn i result outcomes) s =
     (let w = srv_workers (sr_server s) ! i
      in if i < length (srv_workers (sr_server s)) \<and> sr_loops s ! i = Looping \<and>
            (wk_stop w \<or> wait_ok hash result w (sr_env s))
         then map_option
                (\<lambda>(how, out, w1, env). s\<lparr>sr_server := with_worker i w1 (sr_server s), sr_env := env,
                   sr_loops := (sr_loops s)[i := how],
                   sr_dialogues := note_turn hash i result outcomes w (sr_env s) (sr_dialogues s)\<rparr>)
                (worker_turn hash result outcomes w (sr_env s))
         else Some s)"
| "take_turn hash (Acceptor_turn result) s =
     (if sr_acceptor s \<and> (\<forall>fd \<in> set (sockets_of result (sr_server s)). fd \<ge> 0)
      then map_option
             (\<lambda>(goes_on, srv, env). s\<lparr>sr_server := srv, sr_env := env, sr_acceptor := goes_on,
                sr_accepted := sr_accepted s + mset (sockets_of result (sr_server s))\<rparr>)
             (acceptor_turn result (sr_server s) (sr_env s))
      else Some s)"

fun take_turns :: "(bytes \<Rightarrow> u64) \<Rightarrow> turn list \<Rightarrow> server_run \<Rightarrow> server_run option" where
  "take_turns hash [] s = Some s"
| "take_turns hash (t # ts) s =
     (case take_turn hash t s of
        None \<Rightarrow> None
      | Some s1 \<Rightarrow> take_turns hash ts s1)"

definition tell_workers :: "server_run \<Rightarrow> server_run" where
  "tell_workers s =
     s\<lparr>sr_server := (sr_server s)\<lparr>srv_workers := map (worker_request_stop [Io_done 8]) (srv_workers (sr_server s))\<rparr>\<rparr>"

text \<open>
  \<^verbatim>\<open>join\<close>, with the turns that are taken while it waits for the acceptor and then for the workers.
  It returns when the threads have: otherwise there is no result.
\<close>

definition join_server :: "(bytes \<Rightarrow> u64) \<Rightarrow> turn list \<Rightarrow> turn list \<Rightarrow> server_run \<Rightarrow> server_run option" where
  "join_server hash accepting finishing s =
     (case take_turns hash accepting s of
        None \<Rightarrow> None
      | Some s1 \<Rightarrow>
          (if sr_acceptor s1 then None
           else case take_turns hash finishing (tell_workers s1) of
             None \<Rightarrow> None
           | Some s2 \<Rightarrow>
               (if Looping \<in> set (sr_loops s2) then None
                else Some (s2\<lparr>sr_server := (sr_server s2)\<lparr>srv_acceptor := False,
                  srv_threads := replicate (length (srv_workers (sr_server s2))) False, srv_running := False\<rparr>\<rparr>))))"

definition stop_server :: "(bytes \<Rightarrow> u64) \<Rightarrow> turn list \<Rightarrow> turn list \<Rightarrow> server_run \<Rightarrow> server_run option" where
  "stop_server hash accepting finishing s =
     join_server hash accepting finishing (s\<lparr>sr_server := server_request_stop [Io_done 8] (sr_server s)\<rparr>)"

text \<open>
  The inputs of the program: the files, the results of the calls, and the turns of the threads while
  the main thread waits for a signal, then for the acceptor, then for the workers.
\<close>

record main_inputs =
  in_files :: "string \<Rightarrow> (string \<times> bool) option"
  in_signal_set_ok :: bool
  in_signal_mask_ok :: bool
  in_shard_memory :: "nat \<Rightarrow> bool list"
  in_setup :: setup_outcomes
  in_timer :: sys_outcome
  in_threads :: "nat \<Rightarrow> sys_outcome"
  in_acceptor :: sys_outcome
  in_serving :: "turn list"
  in_wait_ok :: bool
  in_accepting :: "turn list"
  in_finishing :: "turn list"

datatype main_mode = Show_usage | Run config

definition main_config :: "(string \<Rightarrow> (string \<times> bool) option) \<Rightarrow> string list \<Rightarrow> exn + main_mode" where
  "main_config files argv =
     (if length argv = 2 \<and> argv ! 1 = ''--help'' then Inr Show_usage
      else if length argv > 2
      then Inl (High_cache_error Invalid_argument ''usage: highcache_server [config-file]'')
      else if length argv = 2
      then on_success (from_file files (argv ! 1)) (\<lambda>cfg. Inr (Run cfg))
      else Inr (Run default_config))"

definition block_shutdown_signals :: "bool \<Rightarrow> bool \<Rightarrow> exn + unit" where
  "block_shutdown_signals set_ok mask_ok =
     (if \<not> set_ok then Inl (High_cache_error Network ''unable to prepare shutdown signals'')
      else if \<not> mask_ok then Inl (High_cache_error Network ''unable to block shutdown signals'')
      else Inr ())"

definition config_options :: "config \<Rightarrow> server_options" where
  "config_options cfg =
     \<lparr>opt_host = cfg_host cfg, opt_port = cfg_port cfg, opt_worker_threads = cfg_worker_threads cfg,
      opt_pending_output_limit = 4 * 1024 * 1024\<rparr>"

definition number :: "u64 \<Rightarrow> string" where
  "number n = to_decimal (unat n)"

definition startup_message :: "server \<Rightarrow> cache_engine \<Rightarrow> string" where
  "startup_message s e =
     ''HighCache listening on '' @ opt_host (srv_options s) @ '':'' @ to_decimal (unat (srv_port s)) @
     '' with '' @ to_decimal (length (srv_workers s)) @ '' workers, '' @
     to_decimal (length (shards e)) @ '' cache shards, and '' @
     to_string_backend (engine_backend e) @ '' value allocation''"

definition metrics_message :: "cache_engine \<Rightarrow> string option" where
  "metrics_message e =
     do {
       a \<leftarrow> engine_allocator_metrics e;
       entries \<leftarrow> engine_size e;
       logical \<leftarrow> engine_memory_usage e;
       Some (''Cache metrics: entries='' @ number entries @
             '' logical_bytes='' @ number logical @
             '' allocator_reserved_bytes='' @ number (allocated_bytes a) @
             '' allocator_used_bytes='' @ number (used_bytes a) @
             '' allocator_fragmentation_bytes='' @ number (internal_fragmentation a) @
             '' allocator_allocations='' @ number (allocation_count a) @
             '' allocator_deallocations='' @ number (deallocation_count a) @
             '' allocator_slabs='' @ number (slab_count a))
     }"

text \<open>
  The log that has been written, and the exception that ended the run, if any. When \<^verbatim>\<open>sigwait\<close> fails it
  is the destructor of the server that stops and joins the threads.
\<close>

definition run_server ::
    "(bytes \<Rightarrow> u64) \<Rightarrow> config \<Rightarrow> main_inputs \<Rightarrow> heap \<Rightarrow> ((exn + unit) \<times> string) option" where
  "run_server hash cfg inp h =
     (let log = new_logger [] (cfg_log_level cfg)
      in case block_shutdown_signals (in_signal_set_ok inp) (in_signal_mask_ok inp) of
           Inl x \<Rightarrow> Some (Inl x, log_output log)
         | Inr _ \<Rightarrow>
             (case new_engine (cfg_capacity_bytes cfg) (cfg_shard_count cfg) (cfg_allocator cfg)
                     (in_shard_memory inp) h of
                (Inl x, h1) \<Rightarrow> Some (Inl x, log_output log)
              | (Inr e, h1) \<Rightarrow>
                  (case new_server (config_options cfg) (in_setup inp) h1 of
                     (Inl x, h2) \<Rightarrow> Some (Inl x, log_output log)
                   | (Inr s, h2) \<Rightarrow>
                       (case server_start (in_timer inp) (in_threads inp) (in_acceptor inp) s of
                          (Inl x, s1) \<Rightarrow> Some (Inl x, log_output log)
                        | (Inr _, s1) \<Rightarrow>
                            (let log1 = log_info_message (startup_message s1 e) log
                             in case Option.bind (take_turns hash (in_serving inp) (start_run s1 e h2))
                                       (stop_server hash (in_accepting inp) (in_finishing inp)) of
                                  None \<Rightarrow> None
                                | Some run \<Rightarrow>
                                    (if \<not> in_wait_ok inp
                                     then Some (Inl (High_cache_error Network ''unable to wait for shutdown signal''),
                                            log_output log1)
                                     else map_option
                                            (\<lambda>metrics. (Inr (),
                                               log_output (log_info_message ''HighCache stopped''
                                                 (log_info_message metrics log1))))
                                            (metrics_message (env_engine (sr_env run)))))))))"

record main_outcome =
  main_exit :: int
  main_out :: string
  main_err :: string
  main_log :: string

definition report :: "exn \<Rightarrow> string" where
  "report x =
     (case x of
        High_cache_error code message \<Rightarrow>
          ''highcache_server: '' @ to_string_error_code code @ '': '' @ message @ [newline]
      | _ \<Rightarrow> ''highcache_server: unexpected error: '' @ exn_what x @ [newline])"

definition server_main ::
    "(bytes \<Rightarrow> u64) \<Rightarrow> string list \<Rightarrow> main_inputs \<Rightarrow> heap \<Rightarrow> main_outcome option" where
  "server_main hash argv inp h =
     (case main_config (in_files inp) argv of
        Inl x \<Rightarrow> Some \<lparr>main_exit = 1, main_out = [], main_err = report x, main_log = []\<rparr>
      | Inr Show_usage \<Rightarrow>
          Some \<lparr>main_exit = 0, main_out = ''usage: highcache_server [config-file]'' @ [newline],
                main_err = [], main_log = []\<rparr>
      | Inr (Run cfg) \<Rightarrow>
          map_option
            (\<lambda>(r, log). case r of
               Inl x \<Rightarrow> \<lparr>main_exit = 1, main_out = [], main_err = report x, main_log = log\<rparr>
             | Inr _ \<Rightarrow> \<lparr>main_exit = 0, main_out = [], main_err = [], main_log = log\<rparr>)
            (run_server hash cfg inp h))"

section \<open>A configuration that is accepted can be run\<close>

definition config_valid :: "config \<Rightarrow> bool" where
  "config_valid cfg \<longleftrightarrow>
     unat (cfg_worker_threads cfg) \<in> {1..1024} \<and> unat (cfg_shard_count cfg) \<in> {1..1024} \<and>
     cfg_capacity_bytes cfg \<noteq> 0"

lemma of_number_within:
  "number_within lo hi v \<Longrightarrow> hi < 2 ^ 64 \<Longrightarrow> unat (of_nat (digits_value v) :: u64) = digits_value v"
  by (simp add: number_within_def unat_of_nat take_bit_nat_eq_self)

lemma config_of_valid:
  assumes "\<forall>kv \<in> set ps. acceptable kv"
  shows "config_valid (config_of (map_of ps))"
proof -
  have ok: "acceptable (key, v)" if "map_of ps key = Some v" for key v
    using assms map_of_SomeD [OF that] by blast
  have "number_within 1 1024 v" if "map_of ps ''worker_threads'' = Some v" for v
    using ok [OF that] by (simp add: acceptable_def)
  moreover have "number_within 1 1024 v" if "map_of ps ''shard_count'' = Some v" for v
    using ok [OF that] by (simp add: acceptable_def)
  moreover have "number_within 1 (2 ^ 64 - 1) v" if "map_of ps ''cache_capacity_bytes'' = Some v" for v
    using ok [OF that] by (simp add: acceptable_def)
  ultimately show ?thesis
    using of_number_within [of 1 1024] of_number_within [of 1 "2 ^ 64 - 1"]
    by (auto simp: config_valid_def config_of_def setting_def number_within_def unat_eq_0 [symmetric] split: option.split)
qed

lemma default_config_valid: "config_valid default_config"
  by (simp add: config_valid_def default_config_def)

lemma main_config_valid:
  assumes "main_config files argv = Inr (Run cfg)"
  shows "config_valid cfg"
proof -
  have "config_valid cfg" if "from_stream contents bad source = Inr cfg" for contents bad source
  proof -
    have "\<not> bad" using that by (auto simp: from_stream_def split: sum.splits if_splits)
    with that have "from_stream contents False source = Inr cfg" by simp
    then show ?thesis unfolding from_stream_iff using config_of_valid by blast
  qed
  then show ?thesis
    using assms default_config_valid
    by (auto simp: main_config_def on_success_def from_file_def split: if_splits sum.splits option.splits)
qed

text \<open>The engine and the options of the server are accepted whenever there is memory.\<close>

lemma valid_config_runs:
  assumes "config_valid cfg" and "oom h = []"
  shows "\<exists>e. new_engine (cfg_capacity_bytes cfg) (cfg_shard_count cfg) (cfg_allocator cfg) outs h = (Inr e, h)"
    and "validate_options (config_options cfg) = Inr (config_options cfg)"
proof -
  have n: "0 < unat (cfg_shard_count cfg)" "cfg_worker_threads cfg \<noteq> 0" "unat (cfg_shard_count cfg) < 2 ^ 60"
    using assms(1) by (auto simp: config_valid_def)
  then show "\<exists>e. new_engine (cfg_capacity_bytes cfg) (cfg_shard_count cfg) (cfg_allocator cfg) outs h = (Inr e, h)"
    by (intro new_engine_defined [OF assms(2)])
  show "validate_options (config_options cfg) = Inr (config_options cfg)"
    using n(2) by (simp add: validate_options_def config_options_def)
qed

section \<open>When every system call works, the program runs and ends well\<close>

text \<open>
  What \<^verbatim>\<open>inet_pton\<close> is documented to accept: four decimal numbers from 0 to 255 without leading
  zeros, separated by dots.
\<close>

fun split_dots :: "string \<Rightarrow> string list" where
  "split_dots [] = [[]]"
| "split_dots (c # cs) =
     (if c = CHR ''.'' then [] # split_dots cs
      else case split_dots cs of [] \<Rightarrow> [[c]] | p # ps \<Rightarrow> (c # p) # ps)"

definition octet :: "string \<Rightarrow> bool" where
  "octet s \<longleftrightarrow> s \<noteq> [] \<and> list_all is_digit s \<and> (length s > 1 \<longrightarrow> hd s \<noteq> CHR ''0'') \<and> digits_value s \<le> 255"

definition ipv4_text :: "string \<Rightarrow> bool" where
  "ipv4_text s \<longleftrightarrow> length (split_dots s) = 4 \<and> list_all octet (split_dots s)"

definition inet_pton_ok :: "(string \<Rightarrow> bool) \<Rightarrow> bool" where
  "inet_pton_ok accepts \<longleftrightarrow> (\<forall>s. ipv4_text s \<longrightarrow> accepts s)"

definition listen_works :: "listen_outcomes \<Rightarrow> bool" where
  "listen_works lo \<longleftrightarrow>
     lo_socket lo = None \<and> lo_setsockopt lo = None \<and> inet_pton_ok (lo_inet_pton lo) \<and> lo_bind lo = None \<and>
     lo_listen lo = None \<and> lo_getsockname lo = None"

definition setup_works :: "setup_outcomes \<Rightarrow> bool" where
  "setup_works so \<longleftrightarrow>
     listen_works (so_listen so) \<and> so_epoll so = None \<and> so_event so = None \<and> so_timer so = None \<and>
     so_adds so = (None, None, None) \<and> (\<forall>i. snd (so_workers so i) = (None, None, None))"

definition calls_work :: "main_inputs \<Rightarrow> bool" where
  "calls_work inp \<longleftrightarrow>
     in_signal_set_ok inp \<and> in_signal_mask_ok inp \<and> setup_works (in_setup inp) \<and> in_timer inp = None \<and>
     (\<forall>i. in_threads inp i = None) \<and> in_acceptor inp = None \<and> in_wait_ok inp"

lemma make_workers_defined:
  assumes "oom h = []" and "\<forall>i. snd (outs i) = (None, None, None)"
  shows "\<exists>ws. make_workers limit outs is h = (Inr ws, h) \<and> length ws = length is \<and>
           (\<forall>w \<in> set ws. wk_pending w = [] \<and> wk_connections w = [] \<and> \<not> wk_stop w)"
proof (induction "is")
  case (Cons i "is")
  obtain fd where "outs i = (fd, None, None, None)" using assms(2) by (metis surjective_pairing)
  then show ?case using Cons assms(1)
    by (auto simp: new_worker_def create_epoll_def create_event_def add_to_epoll_def sys_call_def)
qed simp

lemma new_server_defined:
  assumes "config_valid cfg" and "oom h = []" and "setup_works so"
    and "ipv4_text (c_str (cfg_host cfg))"
  shows "\<exists>s. new_server (config_options cfg) so h = (Inr s, h) \<and>
           srv_options s = config_options cfg \<and> srv_port s = lo_port (so_listen so) \<and>
           length (srv_workers s) = unat (cfg_worker_threads cfg) \<and> \<not> srv_ever_started s \<and> srv_next_worker s = 0 \<and>
           (\<forall>w \<in> set (srv_workers s). wk_pending w = [] \<and> wk_connections w = [] \<and> \<not> wk_stop w)"
proof -
  obtain ws where ws: "make_workers (4 * 1024 * 1024) (so_workers so) [0..<unat (cfg_worker_threads cfg)] h = (Inr ws, h)"
    "length ws = unat (cfg_worker_threads cfg)"
    "\<forall>w \<in> set ws. wk_pending w = [] \<and> wk_connections w = [] \<and> \<not> wk_stop w"
    using make_workers_defined [OF assms(2), of "so_workers so"] assms(3) by (fastforce simp: setup_works_def)
  have "unat (cfg_worker_threads cfg) \<le> 1024" using assms(1) by (simp add: config_valid_def)
  then show ?thesis
    using valid_config_runs(2) [OF assms(1,2)] ws assms(2-4)
    by (simp add: new_server_def setup_works_def inet_pton_ok_def listen_works_def on_success_def create_listen_socket_def
        create_epoll_def create_event_def create_timer_def sys_call_def config_options_def)
qed

lemma server_start_works:
  assumes "\<not> srv_ever_started s" and "\<forall>i. threads i = None"
  shows "server_start None threads None s =
           (Inr (), s\<lparr>srv_ever_started := True, srv_threads := replicate (length (srv_workers s)) True,
                      srv_acceptor := True, srv_running := True\<rparr>)"
proof -
  have "length (takeWhile (\<lambda>i. threads i = None) [0..<n]) = n" for n
    by (subst takeWhile_eq_all_conv [THEN iffD2]) (use assms(2) in auto)
  then show ?thesis using assms(1) by (simp add: server_start_def sys_call_def Let_def)
qed

lemma metrics_message_defined: "engine_inv hash e \<Longrightarrow> \<exists>m. metrics_message e = Some m"
proof -
  assume "engine_inv hash e"
  then have inv: "\<forall>s \<in> set (shards e). shard_inv s" by (simp add: engine_inv_def)
  have "\<exists>m. sum_metrics acc ss = Some m" if "\<forall>s \<in> set ss. shard_inv s" for acc ss
    using that by (induction ss arbitrary: acc) (auto simp: shard_observe_ok shard_inv_def)
  then obtain m where "sum_metrics zero_metrics (shards e) = Some m" using inv by blast
  then show ?thesis
    using sum_shards_value [OF inv]
    by (simp add: metrics_message_def engine_allocator_metrics_def engine_size_def engine_memory_usage_def)
qed

text \<open>A turn is a step of the running server, or nothing when the thread has returned.\<close>

lemma take_turn_step:
  assumes inv: "run_inv hash s"
  shows "\<exists>s'. take_turn hash t s = Some s' \<and> (s' = s \<or> server_step hash s s')"
proof (cases t)
  case (Worker_turn i result outcomes)
  let ?w = "srv_workers (sr_server s) ! i"
  show ?thesis
  proof (cases "i < length (srv_workers (sr_server s)) \<and> sr_loops s ! i = Looping \<and>
      (wk_stop ?w \<or> wait_ok hash result ?w (sr_env s))")
    case True
    then have i: "i < length (srv_workers (sr_server s))" and loop: "sr_loops s ! i = Looping" by auto
    define r where "r = (if wk_stop ?w then Wait_interrupted else result)"
    have ok: "wait_ok hash r ?w (sr_env s)" using True by (auto simp: r_def wait_ok_def)
    have same: "worker_turn hash r outcomes ?w (sr_env s) = worker_turn hash result outcomes ?w (sr_env s)"
      "note_turn hash i r outcomes ?w (sr_env s) = note_turn hash i result outcomes ?w (sr_env s)"
      by (auto simp: r_def worker_turn_def note_turn_def fun_eq_iff)
    have "worker_inv hash ?w (sr_env s)" using inv i by (simp add: run_inv_def server_inv_def)
    from worker_turn_ok [OF this ok, of outcomes] obtain how out w env where
      run: "worker_turn hash r outcomes ?w (sr_env s) = Some (how, out, w, env)" by blast
    from worker_turns [OF i loop ok run] run True Worker_turn show ?thesis by (auto simp: same Let_def)
  qed (use Worker_turn in \<open>auto simp: Let_def\<close>)
next
  case (Acceptor_turn result)
  show ?thesis
  proof (cases "sr_acceptor s \<and> (\<forall>fd \<in> set (sockets_of result (sr_server s)). fd \<ge> 0)")
    case True
    with inv acceptor_turn_ok [of hash "sr_server s" "sr_env s" result] obtain goes_on srv env where
      run: "acceptor_turn result (sr_server s) (sr_env s) = Some (goes_on, srv, env)"
      by (auto simp: run_inv_def)
    from acceptor_turns [OF _ _ run, of hash] run True Acceptor_turn show ?thesis by auto
  qed (use Acceptor_turn in auto)
qed

lemma take_turns_steps:
  assumes "run_reach hash s"
  shows "\<exists>s'. take_turns hash ts s = Some s' \<and> run_reach hash s'"
  using assms
proof (induction ts arbitrary: s)
  case (Cons t ts)
  from take_turn_step [OF run_reach_inv [OF Cons.prems], of t] obtain s1 where
    s1: "take_turn hash t s = Some s1" "s1 = s \<or> server_step hash s s1" by blast
  then have "run_reach hash s1" using Cons.prems run_reach.stepped by blast
  from Cons.IH [OF this] s1(1) show ?case by simp
qed simp

text \<open>A thread that takes a turn after it has been told to stop returns.\<close>

lemma take_turn_accepting:
  assumes "take_turn hash t s = Some s'" and "srv_stop (sr_server s)"
  shows "srv_stop (sr_server s')" and "sr_acceptor s' \<longrightarrow> sr_acceptor s \<and> (\<forall>r. t \<noteq> Acceptor_turn r)"
  using assms
  by (cases t; auto simp: Let_def with_worker_def acceptor_turn_def sockets_of_def split: if_splits)+

lemma take_turns_accepting:
  assumes "take_turns hash ts s = Some s'" and "srv_stop (sr_server s)"
  shows "sr_acceptor s' \<longrightarrow> sr_acceptor s \<and> (\<forall>r. Acceptor_turn r \<notin> set ts)"
  using assms
proof (induction ts arbitrary: s)
  case (Cons t ts)
  then obtain s1 where s1: "take_turn hash t s = Some s1" "take_turns hash ts s1 = Some s'"
    by (auto split: option.splits)
  note one = take_turn_accepting [OF s1(1) Cons.prems(2)]
  from Cons.IH [OF s1(2) one(1)] one(2) show ?case by auto
qed simp

definition told :: "server_run \<Rightarrow> bool" where
  "told s \<longleftrightarrow> \<not> sr_acceptor s \<and> length (sr_loops s) = length (srv_workers (sr_server s)) \<and>
     (\<forall>w \<in> set (srv_workers (sr_server s)). wk_stop w)"

lemma take_turn_finishing:
  assumes "take_turn hash t s = Some s'" and "told s"
  shows "told s'" and "length (sr_loops s') = length (sr_loops s)"
    and "i < length (sr_loops s) \<Longrightarrow> sr_loops s' ! i = Looping \<Longrightarrow>
           sr_loops s ! i = Looping \<and> (\<forall>r out. t \<noteq> Worker_turn i r out)"
proof -
  have stop: "wk_stop (srv_workers (sr_server s) ! j)" if "j < length (srv_workers (sr_server s))" for j
    using assms(2) that by (simp add: told_def)
  have "told s' \<and> length (sr_loops s') = length (sr_loops s) \<and>
     (\<forall>i < length (sr_loops s). sr_loops s' ! i = Looping \<longrightarrow>
        sr_loops s ! i = Looping \<and> (\<forall>r out. t \<noteq> Worker_turn i r out))"
  proof (cases t)
    case (Worker_turn j result outcomes)
    let ?w = "srv_workers (sr_server s) ! j"
    show ?thesis
    proof (cases "j < length (srv_workers (sr_server s)) \<and> sr_loops s ! j = Looping")
      case True
      then have w: "worker_turn hash result outcomes ?w (sr_env s) = Some (Ended, [], worker_finish ?w, sr_env s)"
        using stop by (simp add: worker_turn_def)
      have "wk_stop (worker_finish ?w)" using stop True by (simp add: worker_finish_def Let_def)
      then have "\<forall>v \<in> set ((srv_workers (sr_server s))[j := worker_finish ?w]). wk_stop v"
        using assms(2) set_update_subset_insert [of "srv_workers (sr_server s)" j "worker_finish ?w"]
        unfolding told_def by blast
      with assms True w stop Worker_turn show ?thesis
        by (auto simp: Let_def told_def with_worker_def nth_list_update split: if_splits)
    next
      case False
      with assms Worker_turn show ?thesis by (auto simp: Let_def told_def split: if_splits)
    qed
  next
    case (Acceptor_turn result)
    with assms show ?thesis by (auto simp: told_def)
  qed
  then show "told s'" "length (sr_loops s') = length (sr_loops s)"
    "i < length (sr_loops s) \<Longrightarrow> sr_loops s' ! i = Looping \<Longrightarrow>
       sr_loops s ! i = Looping \<and> (\<forall>r out. t \<noteq> Worker_turn i r out)" by auto
qed

lemma take_turns_finishing:
  assumes "take_turns hash ts s = Some s'" and "told s"
  shows "told s' \<and> length (sr_loops s') = length (sr_loops s) \<and>
     (\<forall>i < length (sr_loops s). sr_loops s' ! i = Looping \<longrightarrow>
        sr_loops s ! i = Looping \<and> (\<forall>r out. Worker_turn i r out \<notin> set ts))"
  using assms
proof (induction ts arbitrary: s)
  case (Cons t ts)
  then obtain s1 where s1: "take_turn hash t s = Some s1" "take_turns hash ts s1 = Some s'"
    by (auto split: option.splits)
  note one = take_turn_finishing [OF s1(1) Cons.prems(2)]
  from Cons.IH [OF s1(2) one(1)] one(2,3) show ?case by auto
qed simp

lemma tell_workers_steps:
  assumes "run_reach hash s" and "\<not> sr_acceptor s"
  shows "run_reach hash (tell_workers s)"
proof -
  let ?ws = "srv_workers (sr_server s)" and ?f = "worker_request_stop [Io_done 8]"
  let ?s = "\<lambda>n. s\<lparr>sr_server := (sr_server s)\<lparr>srv_workers := map ?f (take n ?ws) @ drop n ?ws\<rparr>\<rparr>"
  have "run_reach hash (?s n)" if "n \<le> length ?ws" for n
    using that
  proof (induction n)
    case 0
    then show ?case using assms(1) by simp
  next
    case (Suc n)
    have "server_step hash (?s n)
        (?s n\<lparr>sr_server := with_worker n (?f (srv_workers (sr_server (?s n)) ! n)) (sr_server (?s n))\<rparr>)"
      using Suc.prems assms(2) by (intro worker_told) simp_all
    moreover have "(map ?f (take n ?ws) @ drop n ?ws)[n := ?f (?ws ! n)] = map ?f (take (Suc n) ?ws) @ drop (Suc n) ?ws"
      using Suc.prems by (simp add: list_update_append take_Suc_conv_app_nth Cons_nth_drop_Suc [symmetric])
    ultimately show ?case
      using Suc run_reach.stepped [of hash "?s n"] by (simp add: with_worker_def nth_append)
  qed
  from this [of "length ?ws"] show ?thesis by (simp add: tell_workers_def)
qed

lemma take_turn_keeps:
  "take_turn hash t s = Some s' \<Longrightarrow> sr_first s' = sr_first s \<and> length (sr_loops s') = length (sr_loops s)"
  by (cases t) (auto simp: Let_def split: if_splits)

lemma take_turns_keep:
  "take_turns hash ts s = Some s' \<Longrightarrow> sr_first s' = sr_first s \<and> length (sr_loops s') = length (sr_loops s)"
  by (induction ts arbitrary: s) (auto split: option.splits dest!: take_turn_keeps)

lemma stop_server_returns:
  assumes reach: "run_reach hash s" and acc: "\<exists>r. Acceptor_turn r \<in> set accepting"
    and fin: "\<forall>i < length (sr_loops s). \<exists>r out. Worker_turn i r out \<in> set finishing"
  shows "\<exists>s1 s2. stop_server hash accepting finishing s = Some s2 \<and> sr_env s2 = sr_env s1 \<and>
           run_reach hash s1 \<and> sr_first s1 = sr_first s \<and> \<not> sr_acceptor s1 \<and> Looping \<notin> set (sr_loops s1)"
proof -
  let ?s = "s\<lparr>sr_server := server_request_stop [Io_done 8] (sr_server s)\<rparr>"
  have "run_reach hash ?s" using reach stop_called by (rule run_reach.stepped)
  from take_turns_steps [OF this, of accepting] obtain s1 where
    s1: "take_turns hash accepting ?s = Some s1" "run_reach hash s1" by blast
  have over: "\<not> sr_acceptor s1"
    using take_turns_accepting [OF s1(1)] acc by (auto simp: server_request_stop_def)
  have reach': "run_reach hash (tell_workers s1)" using tell_workers_steps [OF s1(2) over] .
  from take_turns_steps [OF this, of finishing] obtain s2 where
    s2: "take_turns hash finishing (tell_workers s1) = Some s2" "run_reach hash s2" by blast
  have "told (tell_workers s1)"
    using over run_reach_inv [OF reach'] by (auto simp: told_def tell_workers_def worker_request_stop_def run_inv_def)
  note all_done = take_turns_finishing [OF s2(1) this]
  have len: "length (sr_loops s2) = length (sr_loops s)" "sr_first s2 = sr_first s"
    using take_turns_keep [OF s1(1)] take_turns_keep [OF s2(1)] by (simp_all add: tell_workers_def)
  then have "Looping \<notin> set (sr_loops s2)" using all_done fin by (metis in_set_conv_nth)
  with s1(1) s2 over all_done len show ?thesis
    by - (rule exI [of _ s2], simp add: stop_server_def join_server_def told_def)
qed

lemma server_main_runs:
  assumes cfg: "main_config (in_files inp) argv = Inr (Run cfg)" and mem: "oom h = []" and calls: "calls_work inp"
    and host: "ipv4_text (c_str (cfg_host cfg))" and acc: "\<exists>r. Acceptor_turn r \<in> set (in_accepting inp)"
    and fin: "\<forall>i < unat (cfg_worker_threads cfg). \<exists>r out. Worker_turn i r out \<in> set (in_finishing inp)"
  shows "\<exists>e srv s metrics.
     new_engine (cfg_capacity_bytes cfg) (cfg_shard_count cfg) (cfg_allocator cfg) (in_shard_memory inp) h = (Inr e, h) \<and>
     srv_options srv = config_options cfg \<and> srv_port srv = lo_port (so_listen (in_setup inp)) \<and>
     length (srv_workers srv) = unat (cfg_worker_threads cfg) \<and>
     run_reach hash s \<and> sr_first s = e \<and> \<not> sr_acceptor s \<and> Looping \<notin> set (sr_loops s) \<and>
     metrics_message (env_engine (sr_env s)) = Some metrics \<and>
     server_main hash argv inp h = Some \<lparr>main_exit = 0, main_out = [], main_err = [],
       main_log = log_output (log_info_message ''HighCache stopped'' (log_info_message metrics
         (log_info_message (startup_message srv e) (new_logger [] (cfg_log_level cfg)))))\<rparr>"
proof -
  note valid = main_config_valid [OF cfg]
  obtain e where e: "new_engine (cfg_capacity_bytes cfg) (cfg_shard_count cfg) (cfg_allocator cfg)
      (in_shard_memory inp) h = (Inr e, h)" using valid_config_runs(1) [OF valid mem] by blast
  obtain s0 where s0: "new_server (config_options cfg) (in_setup inp) h = (Inr s0, h)"
      "srv_options s0 = config_options cfg" "srv_port s0 = lo_port (so_listen (in_setup inp))"
      "length (srv_workers s0) = unat (cfg_worker_threads cfg)" "\<not> srv_ever_started s0"
    using new_server_defined [OF valid mem _ host, of "in_setup inp"] calls by (auto simp: calls_work_def)
  define srv where "srv = s0\<lparr>srv_ever_started := True, srv_threads := replicate (length (srv_workers s0)) True,
    srv_acceptor := True, srv_running := True\<rparr>"
  have st: "server_start (in_timer inp) (in_threads inp) (in_acceptor inp) s0 = (Inr (), srv)"
    using server_start_works [OF s0(5), of "in_threads inp"] calls by (simp add: calls_work_def srv_def)
  have "run_reach hash (start_run srv e h)" using s0(1) st new_engine_ok(1) [OF e] by (rule run_reach.started)
  from take_turns_steps [OF this, of "in_serving inp"] obtain s where
    s: "take_turns hash (in_serving inp) (start_run srv e h) = Some s" "run_reach hash s" by blast
  have keep: "sr_first s = e" "length (sr_loops s) = unat (cfg_worker_threads cfg)"
    using take_turns_keep [OF s(1)] s0(4) by (simp_all add: start_run_def srv_def)
  from stop_server_returns [OF s(2) acc, of "in_finishing inp"] fin keep obtain s1 s2 where
    s1: "stop_server hash (in_accepting inp) (in_finishing inp) s = Some s2" "sr_env s2 = sr_env s1"
      "run_reach hash s1" "sr_first s1 = e" "\<not> sr_acceptor s1" "Looping \<notin> set (sr_loops s1)" by auto
  have "engine_inv hash (env_engine (sr_env s1))"
    using run_reach_inv [OF s1(3)] by (simp add: run_inv_def server_inv_def)
  then obtain m where m: "metrics_message (env_engine (sr_env s1)) = Some m" using metrics_message_defined by blast
  have "server_main hash argv inp h = Some \<lparr>main_exit = 0, main_out = [], main_err = [],
       main_log = log_output (log_info_message ''HighCache stopped'' (log_info_message m
         (log_info_message (startup_message srv e) (new_logger [] (cfg_log_level cfg)))))\<rparr>"
    using cfg calls e s0(1) st s(1) s1(1,2) m
    by (simp add: server_main_def run_server_def calls_work_def block_shutdown_signals_def Let_def)
  moreover have "srv_options srv = srv_options s0" "srv_port srv = srv_port s0" "srv_workers srv = srv_workers s0"
    by (simp_all add: srv_def)
  ultimately show ?thesis using e s0(2-4) s1(3-6) m by metis
qed

text \<open>A host that \<^verbatim>\<open>inet_pton\<close> does not accept is reported, and the program fails.\<close>

lemma server_main_refuses_host:
  assumes cfg: "main_config (in_files inp) argv = Inr (Run cfg)" and mem: "oom h = []" and calls: "calls_work inp"
    and host: "\<not> lo_inet_pton (so_listen (in_setup inp)) (c_str (cfg_host cfg))"
  shows "server_main hash argv inp h = Some \<lparr>main_exit = 1, main_out = [],
     main_err = ''highcache_server: invalid_argument: server host must be an IPv4 address'' @ [newline], main_log = []\<rparr>"
proof -
  note valid = main_config_valid [OF cfg]
  obtain e where e: "new_engine (cfg_capacity_bytes cfg) (cfg_shard_count cfg) (cfg_allocator cfg)
      (in_shard_memory inp) h = (Inr e, h)" using valid_config_runs(1) [OF valid mem] by blast
  have "new_server (config_options cfg) (in_setup inp) h =
      (Inl (High_cache_error Invalid_argument ''server host must be an IPv4 address''), h)"
    using valid_config_runs(2) [OF valid mem] calls host
    by (simp add: new_server_def calls_work_def setup_works_def listen_works_def on_success_def
        create_listen_socket_def sys_call_def config_options_def)
  with cfg calls e show ?thesis
    by (simp add: server_main_def run_server_def calls_work_def block_shutdown_signals_def Let_def report_def
        to_string_error_code_def new_logger_def)
qed

end
