(* ===== verification/Server_History.thy ===== *)
theory Server_History
  imports Dialogues Server_Correct
begin

text \<open>
  What a history of requests and ticks says about values: the engine never holds, and a read
  never delivers, anything but the value of the last successful write of the key. Eviction,
  expiry, refused writes and exceptions can only make a value disappear.
\<close>

section \<open>The last write\<close>

fun write_of :: "bytes \<Rightarrow> happening \<Rightarrow> bytes option \<Rightarrow> bytes option" where
  "write_of k (Answered j req resp) old =
     (if req_key req = k \<and> status resp = 0
      then if opcode req = opcode_set then Some (req_value req)
           else if opcode req = opcode_erase then None else old
      else old)"
| "write_of k (Timer_fired reads) old = old"

definition last_written :: "bytes \<Rightarrow> happening list \<Rightarrow> bytes option" where
  "last_written k hist = fold (write_of k) hist None"

definition held :: "(bytes \<Rightarrow> u64) \<Rightarrow> cache_engine \<Rightarrow> bytes \<Rightarrow> bytes option" where
  "held hash e k = map_option fst (engine_lookup hash e k)"

section \<open>What operations do to held values\<close>

text \<open>A write that throws leaves a key with its old value or with none.\<close>

lemma engine_set_throws:
  assumes inv: "engine_inv hash e" and run: "engine_set hash k v ttl e = Some (Inl x, e')"
  shows "held hash e' j \<in> {None, held hash e j}"
proof -
  let ?i = "shard_for hash k e"
  have s: "shard_inv (shards e ! ?i)" using shard_of [OF inv] by auto
  from run obtain s' where s': "shard_set k v ttl (shards e ! ?i) = Some (Inl x, s')"
    "e' = e\<lparr>shards := (shards e)[?i := s']\<rparr>"
    by (auto simp: engine_set_def on_shard_def split: if_splits)
  from shard.set_throws [OF s s'(1)] obtain n where n: "shard_view s' = take n (shard_view (shards e ! ?i))" by blast
  have "map_of (take n xs) j \<in> {None, map_of xs j}" if "distinct (map fst xs)" for xs :: "lru_item list"
    using that by (cases "map_of (take n xs) j") (auto dest!: map_of_SomeD in_set_takeD)
  from this [OF shard.content_distinct [OF s]] show ?thesis
    unfolding held_def s'(2) engine_lookup_update [OF inv refl] n by (auto simp: engine_lookup_def)
qed

lemma engine_tick_held:
  assumes inv: "engine_inv hash e" and run: "engine_tick e = Some (r, e')"
  shows "held hash e' j \<in> {None, held hash e j}"
proof -
  let ?i = "shard_for hash j e"
  have i: "?i < length (shards e)" and s: "shard_inv (shards e ! ?i)"
    using shard_for_less [OF inv] shard_of [OF inv] by auto
  from engine_tick_ok [OF inv] run have len: "length (shards e') = length (shards e)"
    and views: "case r of Inr _ \<Rightarrow> map shard_view (shards e') = map (lru_tick \<circ> shard_view) (shards e)
      | Inl x \<Rightarrow> (\<exists>n < length (shards e). map shard_view (shards e') =
          map (lru_tick \<circ> shard_view) (take n (shards e)) @ map shard_view (drop n (shards e)))" by auto
  have "map shard_view (shards e') ! ?i \<in> {lru_tick (shard_view (shards e ! ?i)), shard_view (shards e ! ?i)}"
    using views i by (cases r) (auto simp: nth_append)
  then have "shard_view (shards e' ! ?i) \<in> {lru_tick (shard_view (shards e ! ?i)), shard_view (shards e ! ?i)}"
    using i len by simp
  moreover have "map_option fst (map_of (lru_tick xs) j) \<in> {None, map_option fst (map_of xs j)}"
    if "distinct (map fst xs)" for xs using lru_tick_lookup [OF that, of j] by (auto split: option.splits)
  note this [OF shard.content_distinct [OF s]]
  moreover have "held hash e' j = map_option fst (map_of (shard_view (shards e' ! ?i)) j)"
    using len by (simp add: held_def engine_lookup_def shard_for_def)
  ultimately show ?thesis by (auto simp: held_def engine_lookup_def)
qed

lemma tick_times_held:
  assumes "engine_inv hash e" and "tick_times n e = Some e'"
  shows "engine_inv hash e' \<and> held hash e' j \<in> {None, held hash e j}"
  using assms
proof (induction n arbitrary: e)
  case (Suc n)
  from engine_tick_ok [OF Suc.prems(1)] obtain r e1 where t: "engine_tick e = Some (r, e1)" "engine_inv hash e1"
    by blast
  note first = engine_tick_held [OF Suc.prems(1) t(1), of j]
  show ?case
  proof (cases r)
    case (Inl x)
    with Suc.prems(2) t first show ?thesis by simp
  next
    case (Inr u)
    with Suc.prems(2) t(1) have "tick_times n e1 = Some e'" by simp
    from Suc.IH [OF t(2) this] first show ?thesis by auto
  qed
qed simp

lemma engine_set_held:
  assumes inv: "engine_inv hash e" and run: "engine_set hash k v ttl e = Some (r, e')"
  shows "held hash e' j \<in> (if r = Inr C_ok \<and> j = k then {Some v} else {None, held hash e j})"
proof (cases r)
  case (Inl x)
  then show ?thesis using engine_set_throws [OF inv, of k v ttl x e' j] run by simp
next
  case (Inr st)
  from engine_set_ok [OF inv, of k v ttl] run have
    new: "r = Inr C_ok \<longrightarrow> engine_lookup hash e' k = Some (v, ttl_deadline ttl)"
    and refused: "st \<noteq> C_ok \<longrightarrow> e' = e"
    and near: "j \<noteq> k \<longrightarrow> shard_for hash j e = shard_for hash k e \<longrightarrow> engine_lookup hash e' j \<in> {None, engine_lookup hash e j}"
    and far: "shard_for hash j e \<noteq> shard_for hash k e \<longrightarrow> engine_lookup hash e' j = engine_lookup hash e j"
    using Inr by (elim exE conjE; simp)+
  show ?thesis
  proof (cases "st = C_ok")
    case True
    then show ?thesis using Inr new near far
      by (cases "j = k"; cases "shard_for hash j e = shard_for hash k e") (auto simp: held_def)
  next
    case False
    then show ?thesis using Inr refused by simp
  qed
qed

lemma engine_get_held:
  assumes inv: "engine_inv hash e" and run: "engine_get hash k out e = Some ((r, out'), e')"
  shows "held hash e' = held hash e" and "r = Inr C_ok \<Longrightarrow> held hash e k = Some out'"
proof -
  have "held hash e' = held hash e \<and> (r = Inr C_ok \<longrightarrow> held hash e k = Some out')"
  proof (cases "validate_key k = C_ok")
    case True
    from engine_get_ok [OF inv True, of out] run show ?thesis
      by (auto simp: held_def fun_eq_iff split: sum.splits option.splits)
  next
    case False
    then show ?thesis using refused_on_shard(1) [OF inv False, of out] run by auto
  qed
  then show "held hash e' = held hash e" "r = Inr C_ok \<Longrightarrow> held hash e k = Some out'" by auto
qed

lemma engine_erase_held:
  assumes inv: "engine_inv hash e" and run: "engine_erase hash k e = Some (r, e')"
  shows "held hash e' j = (if r = Inr C_ok \<and> j = k then None else held hash e j)"
proof (cases "validate_key k = C_ok")
  case True
  from engine_erase_ok [OF inv True] run show ?thesis
    by (auto simp: held_def split: sum.splits if_splits)
next
  case False
  then show ?thesis using refused_on_shard(2) [OF inv False] run by auto
qed

text \<open>The status of a response says whether the operation succeeded.\<close>

lemma run_request_cases:
  assumes "run_request hash req e = Some (resp, e')"
  obtains
    (get) r out where "opcode req = opcode_get" "engine_get hash (req_key req) [] e = Some ((r, out), e')"
      "status resp = 0 \<longleftrightarrow> r = Inr C_ok" "r = Inr C_ok \<longrightarrow> resp_value resp = out"
  | (set) r where "opcode req = opcode_set"
      "engine_set hash (req_key req) (req_value req) (ttl_ms req) e = Some (r, e')" "status resp = 0 \<longleftrightarrow> r = Inr C_ok"
  | (erase) r where "opcode req = opcode_erase" "engine_erase hash (req_key req) e = Some (r, e')"
      "status resp = 0 \<longleftrightarrow> r = Inr C_ok"
  | (other) "opcode req \<notin> {opcode_get, opcode_set, opcode_erase}" "e' = e" "status resp \<noteq> 0"
proof -
  have wire: "to_wire_status st = 0 \<longleftrightarrow> st = C_ok" for st by (cases st) (simp_all add: to_wire_status_def)
  consider "opcode req = opcode_get" | "opcode req = opcode_set" | "opcode req = opcode_erase"
    | "opcode req \<notin> {opcode_get, opcode_set, opcode_erase}" by blast
  then show ?thesis
  proof cases
    case 1
    with assms obtain r out where "engine_get hash (req_key req) [] e = Some ((r, out), e')"
      "resp = (case r of Inl x \<Rightarrow> new_response\<lparr>response_id := request_id req, status := wire_internal_error, resp_value := []\<rparr>
         | Inr st \<Rightarrow> new_response\<lparr>response_id := request_id req, status := to_wire_status st,
                                  resp_value := (if r = Inr C_ok then out else [])\<rparr>)"
      by (auto simp: run_request_def Let_def)
    with 1 wire get show ?thesis by (cases r) auto
  next
    case 2
    with assms obtain r where "engine_set hash (req_key req) (req_value req) (ttl_ms req) e = Some (r, e')"
      "resp = (case r of Inl x \<Rightarrow> new_response\<lparr>response_id := request_id req, status := wire_internal_error, resp_value := []\<rparr>
         | Inr st \<Rightarrow> new_response\<lparr>response_id := request_id req, status := to_wire_status st, resp_value := []\<rparr>)"
      by (auto simp: run_request_def Let_def)
    with 2 wire set show ?thesis by (cases r) auto
  next
    case 3
    with assms obtain r where "engine_erase hash (req_key req) e = Some (r, e')"
      "resp = (case r of Inl x \<Rightarrow> new_response\<lparr>response_id := request_id req, status := wire_internal_error, resp_value := []\<rparr>
         | Inr st \<Rightarrow> new_response\<lparr>response_id := request_id req, status := to_wire_status st, resp_value := []\<rparr>)"
      by (auto simp: run_request_def Let_def)
    with 3 wire erase show ?thesis by (cases r) auto
  next
    case 4
    then have "e' = e" "status resp = to_wire_status C_not_found"
      using assms by (auto simp: run_request_def Let_def)
    then show ?thesis using 4 other wire [of C_not_found] by simp
  qed
qed

section \<open>Histories\<close>

text \<open>What is held was written last.\<close>

definition current :: "(bytes \<Rightarrow> u64) \<Rightarrow> cache_engine \<Rightarrow> (bytes \<Rightarrow> bytes option) \<Rightarrow> bool" where
  "current hash e w \<longleftrightarrow> engine_inv hash e \<and> (\<forall>k v. held hash e k = Some v \<longrightarrow> w k = Some v)"

lemma current_shrinks:
  "current hash e w \<Longrightarrow> engine_inv hash e' \<Longrightarrow> (\<And>k. held hash e' k \<in> {None, held hash e k}) \<Longrightarrow> current hash e' w"
  unfolding current_def by (metis insertE option.discI singletonD)

lemma run_request_current:
  assumes cur: "current hash e w" and run: "run_request hash req e = Some (resp, e')"
  shows "current hash e' (\<lambda>k. write_of k (Answered j req resp) (w k))"
    and "opcode req = opcode_get \<Longrightarrow> status resp = 0 \<Longrightarrow> w (req_key req) = Some (resp_value resp)"
proof -
  have inv: "engine_inv hash e" and old: "held hash e k = Some v \<Longrightarrow> w k = Some v" for k v
    using cur by (auto simp: current_def)
  have inv': "engine_inv hash e'" using run_request_ok [OF inv, of req] run by auto
  from run show "current hash e' (\<lambda>k. write_of k (Answered j req resp) (w k))"
  proof (cases rule: run_request_cases)
    case (get r out)
    then show ?thesis using engine_get_held(1) [OF inv get(2)] old inv' by (auto simp: current_def)
  next
    case (set r)
    have "write_of k (Answered j req resp) (w k) = Some v" if "held hash e' k = Some v" for k v
    proof (cases "r = Inr C_ok \<and> k = req_key req")
      case True
      then show ?thesis using engine_set_held [OF inv set(2), of k] that set(1,3) by simp
    next
      case False
      then have "held hash e k = Some v" using engine_set_held [OF inv set(2), of k] that by auto
      then show ?thesis using old set(1,3) False by auto
    qed
    then show ?thesis using inv' by (simp add: current_def)
  next
    case (erase r)
    then show ?thesis using engine_erase_held [OF inv erase(2)] old inv' by (auto simp: current_def split: if_splits)
  next
    case other
    then show ?thesis using old inv' by (auto simp: current_def)
  qed
  from run show "w (req_key req) = Some (resp_value resp)" if "opcode req = opcode_get" "status resp = 0"
  proof (cases rule: run_request_cases)
    case (get r out)
    then show ?thesis using engine_get_held(2) [OF inv get(2)] old that by simp
  qed (use that in auto)
qed

lemma retrace_current:
  assumes "current hash e w" and "retrace hash hist e = Some e'"
  shows "current hash e' (\<lambda>k. fold (write_of k) hist (w k))"
  using assms
proof (induction hash hist e arbitrary: w rule: retrace.induct)
  case (2 hash j req resp later e)
  then obtain e1 where run: "run_request hash req e = Some (resp, e1)" "retrace hash later e1 = Some e'"
    by (auto split: option.splits if_splits)
  from "2.IH" [OF run(1) refl refl run_request_current(1) [OF "2.prems"(1) run(1)] run(2)] show ?case by simp
next
  case (3 hash reads later e)
  then obtain e1 where run: "handle_timer reads e = Some e1" "retrace hash later e1 = Some e'"
    by (auto split: option.splits)
  have "engine_inv hash e" using "3.prems"(1) by (simp add: current_def)
  from tick_times_held [OF this run(1) [unfolded handle_timer_eq]] have "current hash e1 w"
    by (intro current_shrinks [OF "3.prems"(1)]) auto
  from "3.IH" [OF run(1) this run(2)] show ?case by simp
qed simp

text \<open>Every read that finds something finds what was written last.\<close>

lemma retrace_reads:
  assumes "current hash e w" and "retrace hash (pre @ Answered j req resp # post) e = Some e'"
    and "opcode req = opcode_get" and "status resp = 0"
  shows "fold (write_of (req_key req)) pre (w (req_key req)) = Some (resp_value resp)"
proof -
  from assms(2) obtain e1 e2 where "retrace hash pre e = Some e1" "run_request hash req e1 = Some (resp, e2)"
    by (auto simp: retrace_append bind_eq_Some_conv split: option.splits if_splits)
  with run_request_current(2) [OF retrace_current [OF assms(1)]] assms(3,4) show ?thesis by blast
qed

lemma current_empty: "engine_inv hash e \<Longrightarrow> \<forall>k. engine_lookup hash e k = None \<Longrightarrow> current hash e (\<lambda>_. None)"
  by (simp add: current_def held_def)

section \<open>Writing and reading with memory\<close>

lemma run_write_succeeds:
  assumes inv: "engine_inv hash e" and c: "c = shard_cache (shards e ! shard_for hash (req_key req) e)"
    and mem: "oom (c_heap c) = []" and gen: "generation_source c \<noteq> - 1" and set: "opcode req = opcode_set"
    and verdict: "set_verdict (capacity_bytes c) (req_key req) (req_value req) (ttl_ms req) = C_ok"
  shows "\<exists>resp e'. run_request hash req e = Some (resp, e') \<and> status resp = 0 \<and>
           oom (c_heap (shard_cache (shards e' ! shard_for hash (req_key req) e'))) = []"
proof -
  let ?i = "shard_for hash (req_key req) e"
  have i: "?i < length (shards e)" and s: "cache_inv c" "\<not> mutex_held (shards e ! ?i)"
    using shard_for_less [OF inv] shard_of [OF inv] by (auto simp: c shard_inv_def)
  from set_succeeds [OF s(1) mem gen, of "req_key req" "req_value req" "ttl_ms req"] verdict obtain c' where
    c': "cache_set (req_key req) (req_value req) (ttl_ms req) c = Some (Inr C_ok, c')" "oom (c_heap c') = []"
    by auto
  let ?e = "e\<lparr>shards := (shards e)[?i := (shards e ! ?i)\<lparr>shard_cache := c'\<rparr>]\<rparr>"
  have "engine_set hash (req_key req) (req_value req) (ttl_ms req) e = Some (Inr C_ok, ?e)"
    using i s(2) c'(1) by (auto simp: engine_set_def on_shard_def shard_set_def with_lock_run c)
  then show ?thesis using set i c'(2) by (simp add: run_request_def to_wire_status_def)
qed

lemma run_read_answers:
  assumes inv: "engine_inv hash e" and c: "c = shard_cache (shards e ! shard_for hash (req_key req) e)"
    and mem: "oom (c_heap c) = []" and get: "opcode req = opcode_get" and held: "held hash e (req_key req) = Some v"
    and key: "validate_key (req_key req) = C_ok"
  shows "\<exists>resp e'. run_request hash req e = Some (resp, e') \<and> status resp = 0 \<and> resp_value resp = v"
proof -
  let ?i = "shard_for hash (req_key req) e"
  have i: "?i < length (shards e)" and s: "cache_inv c" "\<not> mutex_held (shards e ! ?i)"
    using shard_for_less [OF inv] shard_of [OF inv] by (auto simp: c shard_inv_def)
  from get_answers [OF s(1) mem] obtain st out' c' where
    c': "cache_get (req_key req) [] c = Some (Inr st, out', c')" by blast
  then obtain e' where run: "engine_get hash (req_key req) [] e = Some ((Inr st, out'), e')"
    using i s(2) by (auto simp: engine_get_def on_shard_def shard_get_run c)
  from engine_get_ok [OF inv key, of "[]"] run held have "st = C_ok \<and> out' = v"
    by (auto simp: held_def split: option.splits)
  with run get show ?thesis by (simp add: run_request_def to_wire_status_def)
qed

end
