(* ===== verification/Worker_Threads.thy ===== *)
theory Worker_Threads
  imports Cache_Server
begin

text \<open>
  The threads around one worker of \<^verbatim>\<open>src/net/cache_server.cpp\<close>: the thread of the worker
  (\<^verbatim>\<open>Worker::run\<close>), the acceptor, which hands it sockets (\<^verbatim>\<open>Worker::enqueue\<close>), and the main
  thread, which tells it to stop (\<^verbatim>\<open>Worker::request_stop\<close>). They share the stop flag, the
  queue of new sockets with its mutex, and the event descriptor that wakes the worker.
  A step is what one thread does between two accesses to what is shared. Of the connections
  only the sockets are kept: by \<^verbatim>\<open>handle_connection_event_ok\<close> and \<^verbatim>\<open>install_pending_ok\<close> of the
  theory \<^verbatim>\<open>Cache_Server\<close> an event either keeps a connection or closes its socket, and a new
  socket is either installed or closed; here the outcome is left open.
\<close>

section \<open>State\<close>

datatype ready = Wake_ready | Conn_ready int

datatype worker_pc =
    At_top
  | In_wait
  | In_batch "ready list" bool
  | At_install
  | Installing "int list"
  | Clearing
  | Clearing_pending
  | Finished

datatype acceptor_pc = Acc_idle | Acc_enqueue int | Acc_locked int | Acc_waking

datatype stopper_pc = Stop_idle | Stop_called | Stop_waking

text \<open>
  The event descriptor is readable after a \<^verbatim>\<open>write\<close> until the next \<^verbatim>\<open>read\<close>. The last two
  components record history: the sockets handed to the worker, and whether its loop was
  left because \<^verbatim>\<open>epoll_wait\<close> failed.
\<close>

record worker_sys =
  ws_stop :: bool
  ws_pending :: "int list"
  ws_readable :: bool
  ws_conns :: "int multiset"
  ws_closed :: "int multiset"
  ws_pc :: worker_pc
  ws_acceptor :: acceptor_pc
  ws_stopper :: stopper_pc
  ws_handed :: "int multiset"
  ws_failed :: bool

definition start_sys :: worker_sys where
  "start_sys =
     \<lparr>ws_stop = False, ws_pending = [], ws_readable = False, ws_conns = {#}, ws_closed = {#},
      ws_pc = At_top, ws_acceptor = Acc_idle, ws_stopper = Stop_idle, ws_handed = {#}, ws_failed = False\<rparr>"

definition mutex_free :: "worker_sys \<Rightarrow> bool" where
  "mutex_free s \<longleftrightarrow> (\<forall>fd. ws_acceptor s \<noteq> Acc_locked fd)"

section \<open>Steps\<close>

inductive worker_step :: "worker_sys \<Rightarrow> worker_sys \<Rightarrow> bool" where
  top_stop: "ws_pc s = At_top \<Longrightarrow> ws_stop s \<Longrightarrow> worker_step s (s\<lparr>ws_pc := Clearing\<rparr>)"
| top_go: "ws_pc s = At_top \<Longrightarrow> \<not> ws_stop s \<Longrightarrow> worker_step s (s\<lparr>ws_pc := In_wait\<rparr>)"
| wait_ready: "ws_pc s = In_wait \<Longrightarrow> evs \<noteq> [] \<Longrightarrow> (Wake_ready \<in> set evs \<longrightarrow> ws_readable s) \<Longrightarrow>
    worker_step s (s\<lparr>ws_pc := In_batch evs False\<rparr>)"
| wait_interrupted: "ws_pc s = In_wait \<Longrightarrow> worker_step s (s\<lparr>ws_pc := At_top\<rparr>)"
| wait_failed: "ws_pc s = In_wait \<Longrightarrow> worker_step s (s\<lparr>ws_pc := Clearing, ws_failed := True\<rparr>)"
| batch_wake: "ws_pc s = In_batch (Wake_ready # evs) seen \<Longrightarrow>
    worker_step s (s\<lparr>ws_readable := False, ws_pc := In_batch evs True\<rparr>)"
| batch_keep: "ws_pc s = In_batch (Conn_ready fd # evs) seen \<Longrightarrow> worker_step s (s\<lparr>ws_pc := In_batch evs seen\<rparr>)"
| batch_drop: "ws_pc s = In_batch (Conn_ready fd # evs) seen \<Longrightarrow> fd \<in># ws_conns s \<Longrightarrow>
    worker_step s (s\<lparr>ws_conns := ws_conns s - {#fd#}, ws_closed := add_mset fd (ws_closed s),
                     ws_pc := In_batch evs seen\<rparr>)"
| batch_install: "ws_pc s = In_batch [] True \<Longrightarrow> \<not> ws_stop s \<Longrightarrow> worker_step s (s\<lparr>ws_pc := At_install\<rparr>)"
| batch_done: "ws_pc s = In_batch [] seen \<Longrightarrow> \<not> seen \<or> ws_stop s \<Longrightarrow> worker_step s (s\<lparr>ws_pc := At_top\<rparr>)"
| install_swap: "ws_pc s = At_install \<Longrightarrow> mutex_free s \<Longrightarrow>
    worker_step s (s\<lparr>ws_pc := Installing (ws_pending s), ws_pending := []\<rparr>)"
| install_add: "ws_pc s = Installing (fd # fds) \<Longrightarrow>
    worker_step s (s\<lparr>ws_conns := add_mset fd (ws_conns s), ws_pc := Installing fds\<rparr>)"
| install_drop: "ws_pc s = Installing (fd # fds) \<Longrightarrow>
    worker_step s (s\<lparr>ws_closed := add_mset fd (ws_closed s), ws_pc := Installing fds\<rparr>)"
| install_done: "ws_pc s = Installing [] \<Longrightarrow> worker_step s (s\<lparr>ws_pc := At_top\<rparr>)"
| clear_conns: "ws_pc s = Clearing \<Longrightarrow>
    worker_step s (s\<lparr>ws_closed := ws_closed s + ws_conns s, ws_conns := {#}, ws_pc := Clearing_pending\<rparr>)"
| clear_pending: "ws_pc s = Clearing_pending \<Longrightarrow> mutex_free s \<Longrightarrow>
    worker_step s (s\<lparr>ws_closed := ws_closed s + mset (ws_pending s), ws_pending := [], ws_pc := Finished\<rparr>)"

text \<open>
  \<^verbatim>\<open>enqueue\<close> takes the lock and looks at the stop flag; it may be set before the socket is
  stored. A socket that is not stored is closed.
\<close>

inductive acceptor_step :: "worker_sys \<Rightarrow> worker_sys \<Rightarrow> bool" where
  enqueue_refuse: "ws_acceptor s = Acc_enqueue fd \<Longrightarrow> ws_stop s \<Longrightarrow>
    acceptor_step s (s\<lparr>ws_closed := add_mset fd (ws_closed s), ws_acceptor := Acc_idle\<rparr>)"
| enqueue_lock: "ws_acceptor s = Acc_enqueue fd \<Longrightarrow> \<not> ws_stop s \<Longrightarrow> acceptor_step s (s\<lparr>ws_acceptor := Acc_locked fd\<rparr>)"
| enqueue_oom: "ws_acceptor s = Acc_locked fd \<Longrightarrow>
    acceptor_step s (s\<lparr>ws_closed := add_mset fd (ws_closed s), ws_acceptor := Acc_idle\<rparr>)"
| enqueue_push: "ws_acceptor s = Acc_locked fd \<Longrightarrow>
    acceptor_step s (s\<lparr>ws_pending := ws_pending s @ [fd], ws_acceptor := Acc_waking\<rparr>)"
| enqueue_wake: "ws_acceptor s = Acc_waking \<Longrightarrow> acceptor_step s (s\<lparr>ws_readable := True, ws_acceptor := Acc_idle\<rparr>)"

inductive stopper_step :: "worker_sys \<Rightarrow> worker_sys \<Rightarrow> bool" where
  stop_store: "ws_stopper s = Stop_called \<Longrightarrow> stopper_step s (s\<lparr>ws_stop := True, ws_stopper := Stop_waking\<rparr>)"
| stop_wake: "ws_stopper s = Stop_waking \<Longrightarrow> stopper_step s (s\<lparr>ws_readable := True, ws_stopper := Stop_idle\<rparr>)"

text \<open>New calls come from outside.\<close>

inductive call_step :: "worker_sys \<Rightarrow> worker_sys \<Rightarrow> bool" where
  call_enqueue: "ws_acceptor s = Acc_idle \<Longrightarrow>
    call_step s (s\<lparr>ws_acceptor := Acc_enqueue fd, ws_handed := add_mset fd (ws_handed s)\<rparr>)"
| call_stop: "ws_stopper s = Stop_idle \<Longrightarrow> call_step s (s\<lparr>ws_stopper := Stop_called\<rparr>)"

definition internal_step :: "worker_sys \<Rightarrow> worker_sys \<Rightarrow> bool" where
  "internal_step s s' \<longleftrightarrow> worker_step s s' \<or> acceptor_step s s' \<or> stopper_step s s'"

inductive sys_reach :: "worker_sys \<Rightarrow> bool" where
  start: "sys_reach start_sys"
| internal: "sys_reach s \<Longrightarrow> internal_step s s' \<Longrightarrow> sys_reach s'"
| call: "sys_reach s \<Longrightarrow> call_step s s' \<Longrightarrow> sys_reach s'"

lemmas sys_steps = worker_step.simps acceptor_step.simps stopper_step.simps call_step.simps

section \<open>The invariant\<close>

fun holding :: "acceptor_pc \<Rightarrow> int multiset" where
  "holding (Acc_enqueue fd) = {#fd#}"
| "holding (Acc_locked fd) = {#fd#}"
| "holding _ = {#}"

fun to_install :: "worker_pc \<Rightarrow> int multiset" where
  "to_install (Installing fds) = mset fds"
| "to_install _ = {#}"

definition waking :: "worker_sys \<Rightarrow> bool" where
  "waking s \<longleftrightarrow> ws_readable s \<or> ws_acceptor s = Acc_waking \<or> ws_stopper s = Stop_waking"

fun leaving :: "worker_pc \<Rightarrow> bool" where
  "leaving Clearing = True"
| "leaving Clearing_pending = True"
| "leaving Finished = True"
| "leaving _ = False"

fun looking :: "worker_pc \<Rightarrow> bool" where
  "looking (In_batch evs seen) = seen"
| "looking At_install = True"
| "looking _ = False"

text \<open>Every socket is somewhere, exactly once.\<close>

definition accounted :: "worker_sys \<Rightarrow> bool" where
  "accounted s \<longleftrightarrow>
     ws_handed s = mset (ws_pending s) + ws_conns s + ws_closed s + holding (ws_acceptor s) + to_install (ws_pc s)"

text \<open>A socket in the queue is seen: the worker is on its way to it, or is woken, or leaves.\<close>

definition seen_to :: "worker_sys \<Rightarrow> bool" where
  "seen_to s \<longleftrightarrow> ws_pending s \<noteq> [] \<longrightarrow> waking s \<or> looking (ws_pc s) \<or> ws_stop s \<or> ws_failed s"

definition stop_seen_to :: "worker_sys \<Rightarrow> bool" where
  "stop_seen_to s \<longleftrightarrow>
     (ws_stop s \<longrightarrow> ws_pc s = In_wait \<longrightarrow> waking s) \<and>
     (leaving (ws_pc s) \<longrightarrow> ws_stop s \<or> ws_failed s) \<and>
     (leaving (ws_pc s) \<and> ws_pc s \<noteq> Clearing \<longrightarrow> ws_conns s = {#}) \<and>
     (ws_pc s = Finished \<longrightarrow> \<not> ws_failed s \<longrightarrow> ws_pending s = [] \<and> mutex_free s)"

lemma accounted_worker: "worker_step s s' \<Longrightarrow> accounted s \<Longrightarrow> accounted s'"
proof (induction rule: worker_step.induct)
  case (batch_drop s fd evs seen)
  then obtain rest where "ws_conns s = add_mset fd rest" by (metis multi_member_split)
  with batch_drop show ?case by (simp add: accounted_def)
qed (simp_all add: accounted_def)

lemma seen_to_worker: "worker_step s s' \<Longrightarrow> seen_to s \<Longrightarrow> seen_to s'"
  by (induction rule: worker_step.induct) (auto simp: seen_to_def waking_def)

lemma stop_seen_to_worker: "worker_step s s' \<Longrightarrow> stop_seen_to s \<Longrightarrow> stop_seen_to s'"
  by (induction rule: worker_step.induct) (auto simp: stop_seen_to_def waking_def mutex_free_def)

definition sys_inv :: "worker_sys \<Rightarrow> bool" where
  "sys_inv s \<longleftrightarrow> accounted s \<and> seen_to s \<and> stop_seen_to s"

lemmas sys_inv_defs = sys_inv_def accounted_def seen_to_def stop_seen_to_def waking_def mutex_free_def

lemma worker_keeps: "worker_step s s' \<Longrightarrow> sys_inv s \<Longrightarrow> sys_inv s'"
  using accounted_worker seen_to_worker stop_seen_to_worker by (simp add: sys_inv_def)

lemma acceptor_keeps: "acceptor_step s s' \<Longrightarrow> sys_inv s \<Longrightarrow> sys_inv s'"
  by (induction rule: acceptor_step.induct) (auto simp: sys_inv_defs)

lemma stopper_keeps: "stopper_step s s' \<Longrightarrow> sys_inv s \<Longrightarrow> sys_inv s'"
  by (induction rule: stopper_step.induct) (auto simp: sys_inv_defs)

lemma call_keeps: "call_step s s' \<Longrightarrow> sys_inv s \<Longrightarrow> sys_inv s'"
  by (induction rule: call_step.induct) (auto simp: sys_inv_defs)

lemma sys_reach_inv: "sys_reach s \<Longrightarrow> sys_inv s"
proof (induction rule: sys_reach.induct)
  case start
  show ?case by (simp add: start_sys_def sys_inv_defs)
qed (auto simp: internal_step_def intro: worker_keeps acceptor_keeps stopper_keeps call_keeps)

text \<open>The worker is never asleep while a socket waits for it.\<close>

lemma queue_wakes_worker:
  assumes "sys_reach s" and "ws_pending s \<noteq> []" and "ws_pc s = In_wait" and "\<not> ws_failed s"
  shows "waking s"
  using sys_reach_inv [OF assms(1)] assms(2-4) by (auto simp: sys_inv_def seen_to_def stop_seen_to_def)

section \<open>Stopping\<close>

fun acceptor_rank :: "acceptor_pc \<Rightarrow> nat" where
  "acceptor_rank (Acc_enqueue fd) = 3"
| "acceptor_rank (Acc_locked fd) = 2"
| "acceptor_rank Acc_waking = 1"
| "acceptor_rank Acc_idle = 0"

fun stopper_rank :: "stopper_pc \<Rightarrow> nat" where
  "stopper_rank Stop_called = 2"
| "stopper_rank Stop_waking = 1"
| "stopper_rank Stop_idle = 0"

fun worker_level :: "worker_pc \<Rightarrow> nat" where
  "worker_level In_wait = 2"
| "worker_level (In_batch evs seen) = 1"
| "worker_level At_install = 1"
| "worker_level (Installing fds) = 1"
| "worker_level _ = 0"

fun worker_count :: "nat \<Rightarrow> worker_pc \<Rightarrow> nat" where
  "worker_count n (In_batch evs seen) = length evs"
| "worker_count n At_install = Suc n"
| "worker_count n (Installing fds) = length fds"
| "worker_count n At_top = 3"
| "worker_count n Clearing = 2"
| "worker_count n Clearing_pending = 1"
| "worker_count n _ = 0"

definition stop_order :: "(worker_sys \<times> worker_sys) set" where
  "stop_order = measures
     [\<lambda>s. acceptor_rank (ws_acceptor s) + stopper_rank (ws_stopper s),
      \<lambda>s. worker_level (ws_pc s),
      \<lambda>s. worker_count (length (ws_pending s)) (ws_pc s)]"

lemma wf_stop_order: "wf stop_order"
  by (simp add: stop_order_def)

text \<open>Once the flag is set, the threads have only so much left to do.\<close>

lemma stopping_decreases:
  assumes "internal_step s s'" and "ws_stop s"
  shows "(s', s) \<in> stop_order \<and> ws_stop s'"
proof -
  have "(s', s) \<in> stop_order \<and> ws_stop s'" if "worker_step s s'"
    using that assms(2) by (induction rule: worker_step.induct) (simp_all add: stop_order_def)
  moreover have "(s', s) \<in> stop_order \<and> ws_stop s'" if "acceptor_step s s'"
    using that assms(2) by (induction rule: acceptor_step.induct) (simp_all add: stop_order_def)
  moreover have "(s', s) \<in> stop_order \<and> ws_stop s'" if "stopper_step s s'"
    using that assms(2) by (induction rule: stopper_step.induct) (simp_all add: stop_order_def)
  ultimately show ?thesis using assms(1) by (auto simp: internal_step_def)
qed

text \<open>
  The steps the threads take without help: a worker that waits goes on when the event
  descriptor is readable, but it cannot count on events of connections or on signals.
\<close>

definition own_step :: "worker_sys \<Rightarrow> worker_sys \<Rightarrow> bool" where
  "own_step s s' \<longleftrightarrow>
     worker_step s s' \<and> (ws_pc s = In_wait \<longrightarrow> ws_readable s) \<or> acceptor_step s s' \<or> stopper_step s s'"

lemma worker_can_step:
  assumes "ws_pc s \<noteq> Finished" and "mutex_free s" and "ws_pc s = In_wait \<longrightarrow> ws_readable s"
  shows "\<exists>s'. worker_step s s'"
proof (cases "ws_pc s")
  case In_wait
  then show ?thesis using wait_interrupted by blast
next
  case (In_batch evs seen)
  show ?thesis
  proof (cases evs)
    case Nil
    then show ?thesis using In_batch batch_done [of s seen] batch_install [of s]
      by (cases "seen \<and> \<not> ws_stop s") auto
  next
    case (Cons ev later)
    then show ?thesis using In_batch batch_wake [of s] batch_keep [of s] by (cases ev) blast+
  qed
next
  case (Installing fds)
  then show ?thesis using install_add [of s] install_done [of s] by (cases fds) blast+
next
  case At_top
  then show ?thesis using top_stop [of s] top_go [of s] by blast
qed (use assms install_swap [of s] clear_conns [of s] clear_pending [of s] in blast)+

text \<open>Nothing blocks before the worker has finished.\<close>

lemma stop_progress:
  assumes "sys_reach s" and "ws_stop s" and "\<nexists>s'. own_step s s'"
  shows "ws_pc s = Finished \<and> ws_acceptor s = Acc_idle"
proof -
  have acc: "ws_acceptor s = Acc_idle"
    using assms(2,3) acceptor_step.intros [of s] unfolding own_step_def by (cases "ws_acceptor s") blast+
  have stp: "ws_stopper s = Stop_idle"
    using assms(3) stopper_step.intros [of s] unfolding own_step_def by (cases "ws_stopper s") blast+
  have "ws_pc s = In_wait \<longrightarrow> ws_readable s"
    using sys_reach_inv [OF assms(1)] assms(2) acc stp by (auto simp: sys_inv_def stop_seen_to_def waking_def)
  moreover have "mutex_free s" using acc by (simp add: mutex_free_def)
  ultimately show ?thesis using worker_can_step [of s] assms(3) acc unfolding own_step_def by blast
qed

text \<open>
  In the end every socket is closed or still in the queue, and the queue is empty unless the worker
  had died earlier.
\<close>

lemma finished_closed_all:
  assumes "sys_reach s" and "ws_pc s = Finished" and "ws_acceptor s = Acc_idle"
  shows "ws_handed s = ws_closed s + mset (ws_pending s) \<and>
         (\<not> ws_failed s \<longrightarrow> ws_pending s = [] \<and> ws_closed s = ws_handed s)"
  using sys_reach_inv [OF assms(1)] assms(2,3) by (simp add: sys_inv_def accounted_def stop_seen_to_def)

section \<open>A worker that died\<close>

text \<open>
  When \<^verbatim>\<open>epoll_wait\<close> fails, \<^verbatim>\<open>run\<close> returns but the stop flag stays clear: the acceptor goes on
  storing sockets that nobody looks at.
\<close>

lemma finished_keeps:
  assumes "ws_pc s = Finished" and "internal_step s s' \<or> call_step s s'"
  shows "ws_pc s' = Finished \<and> (\<exists>more. ws_pending s' = ws_pending s @ more)"
proof -
  have "\<not> worker_step s s'" using assms(1) by (auto elim: worker_step.cases)
  moreover have "ws_pc s' = Finished \<and> (\<exists>more. ws_pending s' = ws_pending s @ more)" if "acceptor_step s s'"
    using that assms(1) by (induction rule: acceptor_step.induct) auto
  moreover have "ws_pc s' = Finished \<and> (\<exists>more. ws_pending s' = ws_pending s @ more)" if "stopper_step s s'"
    using that assms(1) by (induction rule: stopper_step.induct) auto
  moreover have "ws_pc s' = Finished \<and> (\<exists>more. ws_pending s' = ws_pending s @ more)" if "call_step s s'"
    using that assms(1) by (induction rule: call_step.induct) auto
  ultimately show ?thesis using assms(2) by (auto simp: internal_step_def)
qed

lemma reach_worker: "sys_reach s \<Longrightarrow> worker_step s s' \<Longrightarrow> sys_reach s'"
  using sys_reach.internal internal_step_def by blast

lemma reach_acceptor: "sys_reach s \<Longrightarrow> acceptor_step s s' \<Longrightarrow> sys_reach s'"
  using sys_reach.internal internal_step_def by blast

lemma dead_worker_reached:
  "\<exists>s. sys_reach s \<and> ws_pc s = Finished \<and> ws_pending s = [fd] \<and> \<not> ws_stop s \<and> ws_acceptor s = Acc_idle"
proof -
  let ?s1 = "start_sys\<lparr>ws_pc := In_wait\<rparr>"
  let ?s2 = "?s1\<lparr>ws_pc := Clearing, ws_failed := True\<rparr>"
  let ?s3 = "?s2\<lparr>ws_closed := ws_closed ?s2 + ws_conns ?s2, ws_conns := {#}, ws_pc := Clearing_pending\<rparr>"
  let ?s4 = "?s3\<lparr>ws_closed := ws_closed ?s3 + mset (ws_pending ?s3), ws_pending := [], ws_pc := Finished\<rparr>"
  let ?s5 = "?s4\<lparr>ws_acceptor := Acc_enqueue fd, ws_handed := add_mset fd (ws_handed ?s4)\<rparr>"
  let ?s6 = "?s5\<lparr>ws_acceptor := Acc_locked fd\<rparr>"
  let ?s7 = "?s6\<lparr>ws_pending := ws_pending ?s6 @ [fd], ws_acceptor := Acc_waking\<rparr>"
  let ?s8 = "?s7\<lparr>ws_readable := True, ws_acceptor := Acc_idle\<rparr>"
  have "sys_reach ?s1" by (rule reach_worker [OF sys_reach.start top_go]) (simp_all add: start_sys_def)
  then have "sys_reach ?s2" by (rule reach_worker [OF _ wait_failed]) simp
  then have "sys_reach ?s3" by (rule reach_worker [OF _ clear_conns]) simp
  then have "sys_reach ?s4" by (rule reach_worker [OF _ clear_pending]) (simp_all add: mutex_free_def start_sys_def)
  then have "sys_reach ?s5" by (rule sys_reach.call [OF _ call_enqueue]) (simp add: start_sys_def)
  then have "sys_reach ?s6" by (rule reach_acceptor [OF _ enqueue_lock]) (simp_all add: start_sys_def)
  then have "sys_reach ?s7" by (rule reach_acceptor [OF _ enqueue_push]) simp
  then have "sys_reach ?s8" by (rule reach_acceptor [OF _ enqueue_wake]) simp
  then show ?thesis by (intro exI [of _ ?s8]) (simp add: start_sys_def)
qed

end
