(* ===== verification/Engine_Threads.thy ===== *)
theory Engine_Threads
  imports Cache_Engine
begin

text \<open>
  Many threads on one \<^verbatim>\<open>CacheEngine\<close> (\<^verbatim>\<open>src/cache/cache_engine.cpp\<close>). The engine itself has no lock: a
  call for a key goes to the shard of the key and takes the mutex of that shard only; \<^verbatim>\<open>tick\<close>
  goes through the shards one after the other and holds one mutex at a time. The steps of a
  thread at a shard are those of the theory \<^verbatim>\<open>Cache_Shard\<close>.
\<close>

section \<open>Threads in the engine\<close>

datatype engine_call = Call_set bytes bytes u64 | Call_get bytes bytes | Call_erase bytes | Call_tick

fun shard_call :: "engine_call \<Rightarrow> shard_op" where
  "shard_call (Call_set k v ttl) = Op_set k v ttl"
| "shard_call (Call_get k out) = Op_get k out"
| "shard_call (Call_erase k) = Op_erase k"
| "shard_call Call_tick = Op_tick"

text \<open>The shard a call starts with, among \<open>n\<close> shards.\<close>

fun first_shard :: "(bytes \<Rightarrow> u64) \<Rightarrow> nat \<Rightarrow> engine_call \<Rightarrow> nat" where
  "first_shard hash n (Call_set k v ttl) = unat (hash k mod of_nat n)"
| "first_shard hash n (Call_get k out) = unat (hash k mod of_nat n)"
| "first_shard hash n (Call_erase k) = unat (hash k mod of_nat n)"
| "first_shard hash n Call_tick = 0"

datatype engine_pc = Away | Before nat engine_call | During nat engine_call

text \<open>Where a thread goes on after a shard: only \<^verbatim>\<open>tick\<close> visits another one, unless it threw.\<close>

fun next_pc :: "engine_call \<Rightarrow> nat \<Rightarrow> op_result \<Rightarrow> engine_pc" where
  "next_pc Call_tick i (Res_tick (Inr u)) = Before (Suc i) Call_tick"
| "next_pc call i r = Away"

record engine_sys =
  sys_shards :: "shared_shard list"
  sys_pc :: "nat \<Rightarrow> engine_pc"
  sys_history :: "(nat \<times> nat \<times> shard_op \<times> op_result) list"

definition start_engine :: "cache_engine \<Rightarrow> engine_sys" where
  "start_engine e =
     \<lparr>sys_shards = map (start_shared \<circ> shard_cache) (shards e), sys_pc = (\<lambda>_. Away), sys_history = []\<rparr>"

definition at_shard :: "nat \<Rightarrow> shared_shard \<Rightarrow> nat \<Rightarrow> engine_pc \<Rightarrow> engine_sys \<Rightarrow> engine_sys" where
  "at_shard i sh t pc s = s\<lparr>sys_shards := (sys_shards s)[i := sh], sys_pc := (sys_pc s)(t := pc)\<rparr>"

text \<open>\<open>sys_history\<close> records the bodies, with thread and shard, in the order in which they ran.\<close>

inductive engine_step :: "(bytes \<Rightarrow> u64) \<Rightarrow> engine_sys \<Rightarrow> engine_sys \<Rightarrow> bool" for hash where
  engine_called: "sys_pc s t = Away \<Longrightarrow>
     engine_step hash s (s\<lparr>sys_pc := (sys_pc s)(t := Before (first_shard hash (length (sys_shards s)) call) call)\<rparr>)"
| shard_called: "sys_pc s t = Before i call \<Longrightarrow> i < length (sys_shards s) \<Longrightarrow> sh = sys_shards s ! i \<Longrightarrow>
     engine_step hash s
       (at_shard i (sh\<lparr>phases := (phases sh)(t := Waiting (shard_call call))\<rparr>) t (During i call) s)"
| shards_done: "sys_pc s t = Before i call \<Longrightarrow> \<not> i < length (sys_shards s) \<Longrightarrow>
     engine_step hash s (s\<lparr>sys_pc := (sys_pc s)(t := Away)\<rparr>)"
| shard_locked: "sys_pc s t = During i call \<Longrightarrow> sh = sys_shards s ! i \<Longrightarrow> phases sh t = Waiting op \<Longrightarrow> owner sh = None \<Longrightarrow>
     engine_step hash s
       (at_shard i (sh\<lparr>owner := Some t, phases := (phases sh)(t := Inside op)\<rparr>) t (During i call) s)"
| shard_ran: "sys_pc s t = During i call \<Longrightarrow> sh = sys_shards s ! i \<Longrightarrow> phases sh t = Inside op \<Longrightarrow>
     run_op op (shared_cache sh) = Some (r, c) \<Longrightarrow>
     engine_step hash s
       ((at_shard i (sh\<lparr>shared_cache := c, phases := (phases sh)(t := Leaving op r),
                        completed := completed sh @ [(t, op, r)]\<rparr>) t (During i call) s)
        \<lparr>sys_history := sys_history s @ [(t, i, op, r)]\<rparr>)"
| shard_left: "sys_pc s t = During i call \<Longrightarrow> sh = sys_shards s ! i \<Longrightarrow> phases sh t = Leaving op r \<Longrightarrow>
     engine_step hash s
       (at_shard i (sh\<lparr>owner := None, phases := (phases sh)(t := Outside)\<rparr>) t (next_pc call i r) s)"

inductive engine_reach :: "(bytes \<Rightarrow> u64) \<Rightarrow> cache_engine \<Rightarrow> engine_sys \<Rightarrow> bool" for hash e where
  init: "engine_reach hash e (start_engine e)"
| more: "engine_reach hash e s \<Longrightarrow> engine_step hash s s' \<Longrightarrow> engine_reach hash e s'"

section \<open>One thread at a time\<close>

text \<open>
  The same operations on the engine as a single thread sees it: the calls for a key are the
  member functions of the engine; a tick counts shard by shard.
\<close>

fun engine_apply :: "(bytes \<Rightarrow> u64) \<Rightarrow> nat \<Rightarrow> shard_op \<Rightarrow> cache_engine \<Rightarrow> (op_result \<times> cache_engine) option" where
  "engine_apply hash i (Op_set k v ttl) e = map_option (\<lambda>(r, e'). (Res_status r, e')) (engine_set hash k v ttl e)"
| "engine_apply hash i (Op_get k out) e =
     map_option (\<lambda>((r, out'), e'). (Res_get r out', e')) (engine_get hash k out e)"
| "engine_apply hash i (Op_erase k) e = map_option (\<lambda>(r, e'). (Res_status r, e')) (engine_erase hash k e)"
| "engine_apply hash i Op_tick e = map_option (\<lambda>(r, e'). (Res_tick r, e')) (on_shard i shard_tick e)"

fun engine_replay ::
    "(bytes \<Rightarrow> u64) \<Rightarrow> (nat \<times> nat \<times> shard_op \<times> op_result) list \<Rightarrow> cache_engine \<Rightarrow> cache_engine option" where
  "engine_replay hash [] e = Some e"
| "engine_replay hash ((t, i, op, r) # rest) e =
     (case engine_apply hash i op e of
        None \<Rightarrow> None
      | Some (r', e') \<Rightarrow> if r' = r then engine_replay hash rest e' else None)"

text \<open>The engine as it would be left if all threads stayed away from it.\<close>

definition engine_of :: "cache_engine \<Rightarrow> engine_sys \<Rightarrow> cache_engine" where
  "engine_of e s = e\<lparr>shards := map (\<lambda>sh. \<lparr>mutex_held = False, shard_cache = shared_cache sh\<rparr>) (sys_shards s)\<rparr>"

lemma engine_replay_append:
  "engine_replay hash (xs @ ys) e = Option.bind (engine_replay hash xs e) (engine_replay hash ys)"
  by (induction xs arbitrary: e) (auto split: option.splits prod.splits)

section \<open>The invariant\<close>

fun phase_op :: "phase \<Rightarrow> shard_op option" where
  "phase_op Outside = None"
| "phase_op (Waiting op) = Some op"
| "phase_op (Inside op) = Some op"
| "phase_op (Leaving op r) = Some op"

fun routed :: "(bytes \<Rightarrow> u64) \<Rightarrow> nat \<Rightarrow> engine_pc \<Rightarrow> bool" where
  "routed hash n Away = True"
| "routed hash n (Before i call) = (call = Call_tick \<or> i < n \<and> i = first_shard hash n call)"
| "routed hash n (During i call) = (i < n \<and> (call = Call_tick \<or> i = first_shard hash n call))"

text \<open>A thread is at a shard exactly when its call is there, and then with the operation of the call.\<close>

definition present :: "engine_sys \<Rightarrow> nat \<Rightarrow> nat \<Rightarrow> bool" where
  "present s i t \<longleftrightarrow>
     phase_op (phases (sys_shards s ! i) t) =
       (case sys_pc s t of During j call \<Rightarrow> if j = i then Some (shard_call call) else None | _ \<Rightarrow> None)"

definition engine_sys_inv :: "(bytes \<Rightarrow> u64) \<Rightarrow> cache_engine \<Rightarrow> engine_sys \<Rightarrow> bool" where
  "engine_sys_inv hash e s \<longleftrightarrow>
     length (sys_shards s) = length (shards e) \<and>
     (\<forall>i < length (shards e). shard_reach (shard_cache (shards e ! i)) (sys_shards s ! i) \<and> (\<forall>t. present s i t)) \<and>
     (\<forall>t. routed hash (length (shards e)) (sys_pc s t)) \<and>
     engine_replay hash (sys_history s) e = Some (engine_of e s)"

lemma first_shard_less:
  assumes "engine_inv hash e"
  shows "first_shard hash (length (shards e)) call < length (shards e)"
proof -
  have "unat (hash k mod of_nat (length (shards e))) < length (shards e)" for k
    using shard_for_less [OF assms, of k] by (simp add: shard_for_def)
  moreover have "length (shards e) > 0" using assms by (simp add: engine_inv_def)
  ultimately show ?thesis by (cases call) simp_all
qed

lemma with_lock_free:
  assumes "\<not> mutex_held s"
  shows "with_lock body s = map_option (\<lambda>(r, c). (r, s\<lparr>shard_cache := c\<rparr>)) (body (shard_cache s))"
  using assms by (cases s) (auto simp: with_lock_def Let_def split: option.split)

text \<open>Running a body at its shard is running the member function of the engine.\<close>

lemma engine_apply_at:
  assumes "i < length (shards e)" and "call = Call_tick \<or> i = first_shard hash (length (shards e)) call"
    and "run_op (shard_call call) (shard_cache (shards e ! i)) = Some (r, c)" and "\<not> mutex_held (shards e ! i)"
  shows "engine_apply hash i (shard_call call) e =
           Some (r, e\<lparr>shards := (shards e)[i := (shards e ! i)\<lparr>shard_cache := c\<rparr>]\<rparr>)"
  using assms
  by (cases call)
    (auto simp: engine_set_def engine_get_def engine_erase_def shard_for_def on_shard_def shard_set_def shard_get_def
      shard_erase_def shard_tick_def with_lock_free)

lemma engine_of_shard:
  assumes "i < length (sys_shards s)"
  shows "engine_of e (at_shard i sh t pc s) =
           (engine_of e s)\<lparr>shards := (shards (engine_of e s))
              [i := (shards (engine_of e s) ! i)\<lparr>shard_cache := shared_cache sh\<rparr>]\<rparr>"
  using assms by (simp add: engine_of_def at_shard_def map_update)

lemma engine_of_same:
  assumes "i < length (sys_shards s)" and "shared_cache sh = shared_cache (sys_shards s ! i)"
  shows "engine_of e (at_shard i sh t pc s) = engine_of e s"
  using engine_of_shard [OF assms(1), of e sh t pc] assms
  by (simp add: engine_of_def list_update_same_conv)

lemma shards_engine_of [simp]:
  "length (shards (engine_of e s)) = length (sys_shards s)"
  by (simp add: engine_of_def)

text \<open>A step at one shard is a step of that shard and leaves the others alone.\<close>

lemma at_shard_inv:
  assumes inv: "engine_sys_inv hash e s" and i: "i < length (shards e)"
    and step: "shard_step (sys_shards s ! i) sh" and others: "\<forall>u. u \<noteq> t \<longrightarrow> phases sh u = phases (sys_shards s ! i) u"
    and away: "\<forall>j call. sys_pc s t = During j call \<longrightarrow> j = i"
    and pc: "routed hash (length (shards e)) pc"
      "phase_op (phases sh t) = (case pc of During j call \<Rightarrow> if j = i then Some (shard_call call) else None | _ \<Rightarrow> None)"
      "\<forall>j call. pc = During j call \<longrightarrow> j = i"
    and history: "engine_replay hash hist e = Some (engine_of e (at_shard i sh t pc s))"
  shows "engine_sys_inv hash e ((at_shard i sh t pc s)\<lparr>sys_history := hist\<rparr>)"
proof -
  let ?s = "(at_shard i sh t pc s)\<lparr>sys_history := hist\<rparr>"
  have len: "length (sys_shards s) = length (shards e)" using inv by (simp add: engine_sys_inv_def)
  have "shard_reach (shard_cache (shards e ! j)) (sys_shards ?s ! j)" if "j < length (shards e)" for j
    using inv that len shard_reach.step [OF _ step] by (cases "j = i") (auto simp: engine_sys_inv_def at_shard_def)
  moreover have "present ?s j u" if j: "j < length (shards e)" for j u
  proof -
    have "present s j u" using inv j by (simp add: engine_sys_inv_def)
    then show ?thesis
      using others pc(2,3) away i j len
      by (cases "j = i"; cases "u = t")
        (auto simp: present_def at_shard_def nth_list_update split: engine_pc.splits if_splits)
  qed
  moreover have "engine_of e ?s = engine_of e (at_shard i sh t pc s)" by (simp add: engine_of_def at_shard_def)
  ultimately show ?thesis
    using inv history pc(1) by (simp add: engine_sys_inv_def at_shard_def)
qed

lemma phase_op_None [simp]: "phase_op p = None \<longleftrightarrow> p = Outside"
  by (cases p) simp_all

lemma engine_sys_inv_start:
  assumes "engine_inv hash e"
  shows "engine_sys_inv hash e (start_engine e)"
proof -
  have "\<forall>s \<in> set (shards e). \<not> mutex_held s" using assms by (simp add: engine_inv_def shard_inv_def)
  then have "map (\<lambda>s. \<lparr>mutex_held = False, shard_cache = shard_cache s\<rparr>) (shards e) = shards e"
    by (intro map_idI) (simp add: cache_shard.equality)
  then have "engine_of e (start_engine e) = e"
    by (simp add: engine_of_def start_engine_def comp_def start_shared_def)
  then show ?thesis
    by (simp add: engine_sys_inv_def start_engine_def shard_reach.start present_def)
      (simp add: start_shared_def)
qed

lemma engine_sys_invD:
  assumes "engine_sys_inv hash e s"
  shows "length (sys_shards s) = length (shards e)" "routed hash (length (shards e)) (sys_pc s t)"
    and "engine_replay hash (sys_history s) e = Some (engine_of e s)"
    and "i < length (shards e) \<Longrightarrow> present s i t"
    and "i < length (shards e) \<Longrightarrow> shard_reach (shard_cache (shards e ! i)) (sys_shards s ! i)"
  using assms by (simp_all add: engine_sys_inv_def)

text \<open>The body of a member function runs at the shard of its call, and is recorded as it runs.\<close>

lemma engine_body_inv:
  assumes inv: "engine_sys_inv hash e s" and pc: "sys_pc s t = During i call"
    and inside: "phases (sys_shards s ! i) t = Inside op"
    and run: "run_op op (shared_cache (sys_shards s ! i)) = Some (r, c)"
    and rt: "routed hash (length (shards e)) (During i call)"
  shows "engine_sys_inv hash e
           ((at_shard i ((sys_shards s ! i)\<lparr>shared_cache := c, phases := (phases (sys_shards s ! i))(t := Leaving op r),
                completed := completed (sys_shards s ! i) @ [(t, op, r)]\<rparr>) t (During i call) s)
              \<lparr>sys_history := sys_history s @ [(t, i, op, r)]\<rparr>)"
    (is "engine_sys_inv hash e ((at_shard i ?sh t _ s)\<lparr>sys_history := _\<rparr>)")
proof -
  note len = engine_sys_invD(1) [OF inv]
  have "present s i t" using inv rt by (simp add: engine_sys_inv_def)
  then have op: "op = shard_call call" using pc inside by (simp add: present_def)
  have "engine_apply hash i op (engine_of e s) = Some (r, engine_of e (at_shard i ?sh t (During i call) s))"
    using run rt len op engine_apply_at [of i "engine_of e s" call hash r c]
      engine_of_shard [of i s e ?sh t "During i call"]
    by (auto simp: engine_of_def)
  then have "engine_replay hash (sys_history s @ [(t, i, op, r)]) e =
      Some (engine_of e (at_shard i ?sh t (During i call) s))"
    using engine_sys_invD(3) [OF inv] by (simp add: engine_replay_append)
  then show ?thesis
    using pc inside run rt len op shard_step.body [of "sys_shards s ! i" t op r c]
    by (intro at_shard_inv [OF inv]) auto
qed

lemma engine_sys_inv_step:
  assumes "engine_inv hash e" and "engine_sys_inv hash e s" and "engine_step hash s s'"
  shows "engine_sys_inv hash e s'"
proof -
  note len = engine_sys_invD(1) [OF assms(2)] and hist = engine_sys_invD(3) [OF assms(2)]
  from assms(3) show ?thesis
  proof cases
    case (engine_called t call)
    then show ?thesis
      using assms(2) first_shard_less [OF assms(1), of call]
      by (auto simp: engine_sys_inv_def present_def engine_of_def split: if_splits)
  next
    case (shards_done t i call)
    then show ?thesis
      using assms(2) by (auto simp: engine_sys_inv_def present_def engine_of_def split: if_splits)
  next
    case (shard_called t i call sh)
    have rt: "routed hash (length (shards e)) (Before i call)"
      using engine_sys_invD(2) [OF assms(2), of t] shard_called(2) by simp
    have "present s i t" using assms(2) shard_called(3) len by (simp add: engine_sys_inv_def)
    then have out: "phases (sys_shards s ! i) t = Outside" using shard_called(2) by (simp add: present_def)
    let ?sh = "sh\<lparr>phases := (phases sh)(t := Waiting (shard_call call))\<rparr>"
    have "engine_sys_inv hash e ((at_shard i ?sh t (During i call) s)\<lparr>sys_history := sys_history s\<rparr>)"
      using shard_called rt len hist shard_step.call [OF out, of "shard_call call"]
      by (intro at_shard_inv [OF assms(2)]) (auto simp: engine_of_same)
    then show ?thesis using shard_called(1) by (simp add: at_shard_def)
  next
    case (shard_locked t i call sh op)
    have rt: "routed hash (length (shards e)) (During i call)"
      using engine_sys_invD(2) [OF assms(2), of t] shard_locked(2) by simp
    have "present s i t" using assms(2) rt by (simp add: engine_sys_inv_def)
    then have op: "op = shard_call call" using shard_locked(2-4) by (simp add: present_def)
    let ?sh = "sh\<lparr>owner := Some t, phases := (phases sh)(t := Inside op)\<rparr>"
    have "engine_sys_inv hash e ((at_shard i ?sh t (During i call) s)\<lparr>sys_history := sys_history s\<rparr>)"
      using shard_locked rt len hist op shard_step.acquire [of "sys_shards s ! i" t op]
      by (intro at_shard_inv [OF assms(2)]) (auto simp: engine_of_same)
    then show ?thesis using shard_locked(1) by (simp add: at_shard_def)
  next
    case (shard_ran t i call sh op r c)
    have "routed hash (length (shards e)) (During i call)"
      using engine_sys_invD(2) [OF assms(2), of t] shard_ran(2) by simp
    then show ?thesis
      unfolding shard_ran(1) using engine_body_inv [OF assms(2) shard_ran(2)] shard_ran(3-5) by simp
  next
    case (shard_left t i call sh op r)
    have rt: "routed hash (length (shards e)) (During i call)"
      using engine_sys_invD(2) [OF assms(2), of t] shard_left(2) by simp
    let ?sh = "sh\<lparr>owner := None, phases := (phases sh)(t := Outside)\<rparr>"
    have nxt: "next_pc call i r = Away \<or> next_pc call i r = Before (Suc i) Call_tick"
      by (cases "(call, i, r)" rule: next_pc.cases) simp_all
    have "engine_sys_inv hash e ((at_shard i ?sh t (next_pc call i r) s)\<lparr>sys_history := sys_history s\<rparr>)"
      using shard_left rt len hist nxt shard_step.release [of "sys_shards s ! i" t op r]
      by (intro at_shard_inv [OF assms(2)]) (auto simp: engine_of_same)
    then show ?thesis using shard_left(1) by (simp add: at_shard_def)
  qed
qed

lemma engine_reach_inv:
  assumes "engine_reach hash e s" and "engine_inv hash e"
  shows "engine_sys_inv hash e s"
  using assms
  by (induction rule: engine_reach.induct) (auto intro: engine_sys_inv_start engine_sys_inv_step)

section \<open>Linearizability\<close>

lemma tick_shard_inv:
  assumes "engine_inv hash e" and "on_shard i shard_tick e = Some (r, e')"
  shows "engine_inv hash e'"
proof -
  from assms(2) obtain s where i: "i < length (shards e)" and run: "shard_tick (shards e ! i) = Some (r, s)"
    and e': "e' = e\<lparr>shards := (shards e)[i := s]\<rparr>" by (auto simp: on_shard_def split: if_splits)
  have inv: "shard_inv (shards e ! i)" using assms(1) i by (simp add: engine_inv_def)
  have "fst ` set (shard_view s) \<subseteq> fst ` set (shard_view (shards e ! i))"
    using shard.tick_passes [OF inv] shard.tick_throws [OF inv] run
    by (cases r) (force simp: lru_tick_def split: if_splits option.splits)+
  moreover have "\<forall>k \<in> fst ` set (shard_view (shards e ! i)). shard_for hash k e = i"
    using assms(1) i unfolding engine_inv_def by blast
  ultimately have keys: "shard_for hash k e = i" if "k \<in> fst ` set (shard_view s)" for k using that by blast
  show ?thesis
    unfolding e' using shard.tick_keeps [OF inv run] by (intro engine_update [OF assms(1) i _ _ keys]) auto
qed

lemma engine_apply_inv:
  assumes "engine_inv hash e" and "engine_apply hash i op e = Some (r, e')"
  shows "engine_inv hash e'"
proof (cases op)
  case (Op_set k v ttl)
  then show ?thesis using assms engine_set_ok [OF assms(1), of k v ttl] by auto
next
  case (Op_get k out)
  then show ?thesis
    using assms engine_get_ok [OF assms(1), of k out] refused_on_shard(1) [OF assms(1), of k out]
    by (cases "validate_key k = C_ok") auto
next
  case (Op_erase k)
  then show ?thesis
    using assms engine_erase_ok [OF assms(1), of k] refused_on_shard(2) [OF assms(1), of k]
    by (cases "validate_key k = C_ok") auto
next
  case Op_tick
  then show ?thesis using assms tick_shard_inv by auto
qed

lemma engine_replay_inv:
  "engine_inv hash e \<Longrightarrow> engine_replay hash hist e = Some e' \<Longrightarrow> engine_inv hash e'"
  by (induction hash hist e rule: engine_replay.induct)
    (auto dest: engine_apply_inv split: option.splits prod.splits if_splits)

text \<open>
  Whatever the interleaving, the engine is what the recorded operations make of it when they
  are run one after the other through the member functions of the engine, with the same
  results, and at each shard only the owner of the mutex is in the critical section.
\<close>

lemma engine_history:
  assumes "engine_reach hash e s" and "engine_inv hash e"
  shows "engine_replay hash (sys_history s) e = Some (engine_of e s)" and "engine_inv hash (engine_of e s)"
    and "i < length (shards e) \<Longrightarrow> in_critical (phases (sys_shards s ! i) t) \<longleftrightarrow> owner (sys_shards s ! i) = Some t"
proof -
  note inv = engine_reach_inv [OF assms]
  show "engine_replay hash (sys_history s) e = Some (engine_of e s)" using engine_sys_invD(3) [OF inv] .
  then show "engine_inv hash (engine_of e s)" using engine_replay_inv [OF assms(2)] by blast
  show "in_critical (phases (sys_shards s ! i) t) \<longleftrightarrow> owner (sys_shards s ! i) = Some t" if "i < length (shards e)"
    using shard_reach_inv [OF engine_sys_invD(5) [OF inv that]] assms(2) that
    by (simp add: engine_inv_def shard_inv_def)
qed

section \<open>Progress\<close>

fun phase_left :: "phase \<Rightarrow> nat" where
  "phase_left Outside = 0"
| "phase_left (Waiting op) = 3"
| "phase_left (Inside op) = 2"
| "phase_left (Leaving op r) = 1"

text \<open>The number of steps a thread has left until its call returns.\<close>

definition steps_left :: "engine_sys \<Rightarrow> nat \<Rightarrow> nat" where
  "steps_left s t =
     (let n = length (sys_shards s); tail = (\<lambda>i call. if call = Call_tick then 4 * (n - i) + 1 else 0)
      in case sys_pc s t of
           Away \<Rightarrow> 0
         | Before i call \<Rightarrow> (if i < n then 4 + tail (Suc i) call else 1)
         | During i call \<Rightarrow> phase_left (phases (sys_shards s ! i) t) + tail (Suc i) call)"

definition moves :: "nat \<Rightarrow> engine_sys \<Rightarrow> engine_sys \<Rightarrow> bool" where
  "moves t s s' \<longleftrightarrow> steps_left s' t < steps_left s t \<and> (\<forall>u. u \<noteq> t \<longrightarrow> steps_left s' u = steps_left s u)"

lemma at_shard_left:
  assumes "i < length (sys_shards s)" and "u \<noteq> t" and "phases sh u = phases (sys_shards s ! i) u"
  shows "steps_left (at_shard i sh t pc s) u = steps_left s u"
  using assms by (auto simp: steps_left_def at_shard_def nth_list_update Let_def split: engine_pc.split)

lemma steps_left_history [simp]: "steps_left (s\<lparr>sys_history := hist\<rparr>) t = steps_left s t"
  by (simp add: steps_left_def Let_def split: engine_pc.split)

text \<open>Every step is the start of a call, or brings one call nearer to its end and delays no other.\<close>

lemma step_moves:
  assumes "engine_sys_inv hash e s" and "engine_step hash s s'"
  shows "(\<exists>t. sys_pc s t = Away \<and> sys_pc s' t \<noteq> Away) \<or> (\<exists>t. sys_pc s t \<noteq> Away \<and> moves t s s')"
  using assms(2)
proof cases
  case (engine_called t call)
  then show ?thesis by auto
next
  case (shard_called t i call sh)
  then show ?thesis
    using at_shard_left [of i s _ t]
    by (intro disjI2 exI [of _ t]) (auto simp: moves_def, simp add: steps_left_def at_shard_def)
next
  case (shards_done t i call)
  then show ?thesis by (intro disjI2 exI [of _ t]) (auto simp: moves_def steps_left_def Let_def split: engine_pc.split)
next
  case (shard_locked t i call sh op)
  moreover have "i < length (sys_shards s)"
    using engine_sys_invD(1) [OF assms(1)] engine_sys_invD(2) [OF assms(1), of t] shard_locked(2) by simp
  ultimately show ?thesis
    using at_shard_left [of i s _ t]
    by (intro disjI2 exI [of _ t]) (auto simp: moves_def, simp add: steps_left_def at_shard_def)
next
  case (shard_ran t i call sh op r c)
  moreover have "i < length (sys_shards s)"
    using engine_sys_invD(1) [OF assms(1)] engine_sys_invD(2) [OF assms(1), of t] shard_ran(2) by simp
  ultimately show ?thesis
    using at_shard_left [of i s _ t]
    by (intro disjI2 exI [of _ t]) (auto simp: moves_def, simp add: steps_left_def at_shard_def)
next
  case (shard_left t i call sh op r)
  moreover have "i < length (sys_shards s)"
    using engine_sys_invD(1) [OF assms(1)] engine_sys_invD(2) [OF assms(1), of t] shard_left(2) by simp
  ultimately show ?thesis
    using at_shard_left [of i s _ t]
    by (intro disjI2 exI [of _ t], cases "(call, i, r)" rule: next_pc.cases)
      (auto simp: moves_def, auto simp: steps_left_def at_shard_def Let_def)
qed

text \<open>As long as a call is in progress some call in progress can go on: there is no deadlock.\<close>

lemma engine_can_move:
  assumes reach: "engine_reach hash e s" and inv: "engine_inv hash e" and busy: "sys_pc s t \<noteq> Away"
  shows "\<exists>u s'. sys_pc s u \<noteq> Away \<and> engine_step hash s s' \<and> moves u s s'"
proof -
  note sys = engine_reach_inv [OF reach inv]
  have ready: ?thesis if "engine_step hash s s'" "\<forall>t. sys_pc s t = Away \<longrightarrow> sys_pc s' t = Away" for s'
    using step_moves [OF sys that(1)] that by blast
  show ?thesis
  proof (cases "sys_pc s t")
    case (Before i call)
    then show ?thesis
    proof (cases "i < length (sys_shards s)")
      case True
      from ready [OF shard_called [OF Before True refl]] Before show ?thesis by (simp add: at_shard_def)
    next
      case False
      from ready [OF shards_done [OF Before False]] Before show ?thesis by simp
    qed
  next
    case (During i call)
    have i: "i < length (shards e)" using engine_sys_invD(2) [OF sys, of t] During by simp
    let ?sh = "sys_shards s ! i"
    have free: "in_critical (phases ?sh u) \<longleftrightarrow> owner ?sh = Some u" for u
      using engine_history(3) [OF reach inv i] .
    have here: "\<exists>c. sys_pc s u = During i c" if "phases ?sh u \<noteq> Outside" for u
      using engine_sys_invD(4) [OF sys i, of u] that
      by (cases "sys_pc s u") (auto simp: present_def split: if_splits)
    have "phases ?sh t \<noteq> Outside" using engine_sys_invD(4) [OF sys i, of t] During by (auto simp: present_def)
    show ?thesis
    proof (cases "owner ?sh")
      case None
      then have "\<not> in_critical (phases ?sh t)" using free by simp
      with \<open>phases ?sh t \<noteq> Outside\<close> obtain op where "phases ?sh t = Waiting op"
        by (cases "phases ?sh t") (auto simp: in_critical_def)
      from ready [OF shard_locked [OF During refl this None]] During show ?thesis by (simp add: at_shard_def)
    next
      case (Some u)
      then have crit: "in_critical (phases ?sh u)" using free by simp
      then have "phases ?sh u \<noteq> Outside" by (auto simp: in_critical_def)
      then obtain c where pc: "sys_pc s u = During i c" using here by blast
      show ?thesis
      proof (cases "phases ?sh u")
        case (Inside op)
        have "cache_inv (shared_cache ?sh)"
          using shard_reach_inv [OF engine_sys_invD(5) [OF sys i]] inv i by (simp add: engine_inv_def shard_inv_def)
        from run_op_ok [OF this, of op] obtain r ca where "run_op op (shared_cache ?sh) = Some (r, ca)" by blast
        from ready [OF shard_ran [OF pc refl Inside this]] pc show ?thesis by (simp add: at_shard_def)
      next
        case (Leaving op r)
        from ready [OF shard_left [OF pc refl Leaving]] pc show ?thesis by (simp add: at_shard_def)
      qed (use crit in \<open>simp_all add: in_critical_def\<close>)
    qed
  qed (use busy in simp)
qed

end
