(* ===== verification/Benchmark_Plan.thy ===== *)
theory Benchmark_Plan
  imports Config Protocol_Codec "HOL-Library.Log_Nat"
begin

text \<open>
  The load generator, \<^verbatim>\<open>benchmark/benchmark.cpp\<close>, as far as it needs no socket: its options, the
  operations it plans, how the plan is divided among the threads, and how latencies are
  summarised. The pseudo-random numbers are parameters: how \<^verbatim>\<open>std::shuffle\<close> permutes for a seed,
  and which keys the distribution draws after it. Memory that runs out while options are
  parsed is left out.
\<close>

section \<open>Numbers of type double\<close>

text \<open>
  A finite number of type \<^verbatim>\<open>double\<close> is a multiple of the smallest positive one, 2 to the power of -1074, and is represented by that multiple. A
  quotient is rounded to the nearest number with 53 binary digits, to the even one of two.
\<close>

definition double_one :: nat where
  "double_one = 2 ^ 1074"

definition half_even :: "nat \<Rightarrow> nat \<Rightarrow> nat" where
  "half_even p q =
     (let m = p div q; r = p mod q
      in if 2 * r > q \<or> 2 * r = q \<and> odd m then m + 1 else m)"

definition round_double :: "nat \<Rightarrow> nat \<Rightarrow> nat" where
  "round_double p q =
     (let k = floorlog 2 (p div q) - 53 in half_even p (q * 2 ^ k) * 2 ^ k)"

definition double_of_nat :: "nat \<Rightarrow> nat" where
  "double_of_nat n = round_double (n * double_one) 1"

definition double_mult :: "nat \<Rightarrow> nat \<Rightarrow> nat" where
  "double_mult a b = round_double (a * b) double_one"

definition llround :: "nat \<Rightarrow> nat" where
  "llround v = (2 * v + double_one) div (2 * double_one)"

definition double_ceil :: "nat \<Rightarrow> nat" where
  "double_ceil v = (v + double_one - 1) div double_one"

section \<open>Options\<close>

record bench_options =
  bo_host :: string
  bo_port :: u16
  bo_threads :: u64
  bo_connections :: u64
  bo_requests :: u64
  bo_get_ratio :: int
  bo_value_size :: u64
  bo_key_space :: u64
  bo_seed :: u64
  bo_warmup_requests :: u64
  bo_pipeline :: u64
  bo_csv :: bool
  bo_help :: bool

definition default_options :: bench_options where
  "default_options =
     \<lparr>bo_host = ''127.0.0.1'', bo_port = 11211, bo_threads = 8, bo_connections = 128,
      bo_requests = 1000000, bo_get_ratio = int (round_double (8 * double_one) 10), bo_value_size = 256,
      bo_key_space = 100000, bo_seed = 12345, bo_warmup_requests = 10000, bo_pipeline = 1,
      bo_csv = False, bo_help = False\<rparr>"

definition bench_parse_unsigned :: "string \<Rightarrow> string \<Rightarrow> exn + u64" where
  "bench_parse_unsigned v option =
     (let (end_pos, error, parsed) = from_chars v
      in if error \<noteq> Errc_ok \<or> end_pos \<noteq> length v
         then Inl (Std_invalid_argument (option @ '' expects an unsigned integer''))
         else Inr parsed)"

text \<open>
  \<^verbatim>\<open>std::from_chars\<close> for a \<^verbatim>\<open>double\<close>, on a text it uses up completely: an optional minus sign, digits
  with at most one point, and an optional exponent. The result is the sign, the digits as
  one number, and the power of ten. The words for infinities and for what is not a number
  are not decimal numbers; \<^verbatim>\<open>parse_ratio\<close> rejects them as well.
\<close>

definition decimal_parts :: "string \<Rightarrow> (bool \<times> nat \<times> int) option" where
  "decimal_parts s =
     (let neg = (s \<noteq> [] \<and> hd s = CHR ''-'');
          s1 = (if neg then tl s else s);
          before = takeWhile is_digit s1;
          s2 = dropWhile is_digit s1;
          point = (s2 \<noteq> [] \<and> hd s2 = CHR ''.'');
          after = (if point then takeWhile is_digit (tl s2) else []);
          s3 = (if point then dropWhile is_digit (tl s2) else s2);
          digits = digits_value (before @ after);
          scale = - int (length after)
      in if before @ after = [] then None
         else if s3 = [] then Some (neg, digits, scale)
         else if hd s3 \<noteq> CHR ''e'' \<and> hd s3 \<noteq> CHR ''E'' then None
         else let s4 = tl s3;
                  minus = (s4 \<noteq> [] \<and> hd s4 = CHR ''-'');
                  s5 = (if minus \<or> (s4 \<noteq> [] \<and> hd s4 = CHR ''+'') then tl s4 else s4)
              in if s5 = [] \<or> \<not> list_all is_digit s5 then None
                 else Some (neg, digits,
                   scale + (if minus then - int (digits_value s5) else int (digits_value s5))))"

definition double_of_decimal :: "nat \<Rightarrow> int \<Rightarrow> nat" where
  "double_of_decimal digits scale =
     (if scale \<ge> 0 then round_double (digits * 10 ^ nat scale * double_one) 1
      else round_double (digits * double_one) (10 ^ nat (- scale)))"

definition parse_ratio :: "string \<Rightarrow> string \<Rightarrow> exn + int" where
  "parse_ratio v option =
     (let refuse = Inl (Std_invalid_argument (option @ '' expects a finite decimal number''))
      in case decimal_parts v of
           None \<Rightarrow> refuse
         | Some (neg, digits, scale) \<Rightarrow>
             (let d = double_of_decimal digits scale
              in if digits \<noteq> 0 \<and> d = 0 \<or> d \<ge> 2 ^ 1024 * double_one then refuse
                 else Inr (if neg then - int d else int d)))"

definition checked_size :: "u64 \<Rightarrow> string \<Rightarrow> exn + u64" where
  "checked_size v option =
     (if v > -1 then Inl (Std_invalid_argument (option @ '' is too large'')) else Inr v)"

definition validate_bench_options :: "bench_options \<Rightarrow> exn + unit" where
  "validate_bench_options opts =
     (let maximum_id_count = (-1 :: u64) - 1
      in if bo_host opts = [] then Inl (Std_invalid_argument ''--host must not be empty'')
         else if bo_port opts = 0 then Inl (Std_invalid_argument ''--port must be between 1 and 65535'')
         else if bo_threads opts = 0 then Inl (Std_invalid_argument ''--threads must be greater than zero'')
         else if bo_connections opts = 0 \<or> bo_connections opts < bo_threads opts
         then Inl (Std_invalid_argument ''--connections must be at least the thread count'')
         else if bo_requests opts = 0 then Inl (Std_invalid_argument ''--requests must be greater than zero'')
         else if bo_get_ratio opts < 0 \<or> bo_get_ratio opts > int double_one
         then Inl (Std_invalid_argument ''--get-ratio must be between 0 and 1'')
         else if unat (bo_value_size opts) > max_value_length
         then Inl (Std_invalid_argument ''--value-size exceeds the cache maximum'')
         else if bo_key_space opts = 0 then Inl (Std_invalid_argument ''--key-space must be greater than zero'')
         else if bo_pipeline opts = 0 \<or> bo_pipeline opts > 1024
         then Inl (Std_invalid_argument ''--pipeline must be between 1 and 1024'')
         else if bo_key_space opts > maximum_id_count \<or>
                 bo_warmup_requests opts > maximum_id_count - bo_key_space opts \<or>
                 bo_requests opts > maximum_id_count - bo_key_space opts - bo_warmup_requests opts
         then Inl (Std_invalid_argument ''benchmark request_id range overflows'')
         else Inr ())"

text \<open>An option that takes a number of type \<^verbatim>\<open>std::size_t\<close>, stored by \<open>put\<close>.\<close>

definition size_option ::
    "string \<Rightarrow> string \<Rightarrow> (u64 \<Rightarrow> bench_options) \<Rightarrow> exn + bench_options" where
  "size_option argument v put =
     (case bench_parse_unsigned v argument of
        Inl x \<Rightarrow> Inl x
      | Inr n \<Rightarrow> (case checked_size n argument of Inl x \<Rightarrow> Inl x | Inr m \<Rightarrow> Inr (put m)))"

definition value_options :: "string list" where
  "value_options =
     [''--host'', ''--port'', ''--threads'', ''--connections'', ''--requests'', ''--get-ratio'',
      ''--value-size'', ''--key-space'', ''--seed'', ''--warmup-requests'', ''--pipeline'']"

definition set_option :: "string \<Rightarrow> string \<Rightarrow> bench_options \<Rightarrow> exn + bench_options" where
  "set_option argument v opts =
     (if argument = ''--host'' then Inr (opts\<lparr>bo_host := v\<rparr>)
      else if argument = ''--port'' then
        (case bench_parse_unsigned v argument of
           Inl x \<Rightarrow> Inl x
         | Inr port \<Rightarrow>
             (if port = 0 \<or> port > 65535
              then Inl (Std_invalid_argument ''--port must be between 1 and 65535'')
              else Inr (opts\<lparr>bo_port := ucast port\<rparr>)))
      else if argument = ''--threads'' then size_option argument v (\<lambda>n. opts\<lparr>bo_threads := n\<rparr>)
      else if argument = ''--connections'' then size_option argument v (\<lambda>n. opts\<lparr>bo_connections := n\<rparr>)
      else if argument = ''--requests'' then size_option argument v (\<lambda>n. opts\<lparr>bo_requests := n\<rparr>)
      else if argument = ''--get-ratio'' then
        (case parse_ratio v argument of Inl x \<Rightarrow> Inl x | Inr r \<Rightarrow> Inr (opts\<lparr>bo_get_ratio := r\<rparr>))
      else if argument = ''--value-size'' then size_option argument v (\<lambda>n. opts\<lparr>bo_value_size := n\<rparr>)
      else if argument = ''--key-space'' then size_option argument v (\<lambda>n. opts\<lparr>bo_key_space := n\<rparr>)
      else if argument = ''--seed'' then
        (case bench_parse_unsigned v argument of Inl x \<Rightarrow> Inl x | Inr n \<Rightarrow> Inr (opts\<lparr>bo_seed := n\<rparr>))
      else if argument = ''--warmup-requests'' then
        size_option argument v (\<lambda>n. opts\<lparr>bo_warmup_requests := n\<rparr>)
      else size_option argument v (\<lambda>n. opts\<lparr>bo_pipeline := n\<rparr>))"

fun parse_arguments :: "string list \<Rightarrow> bench_options \<Rightarrow> exn + bench_options" where
  "parse_arguments [] opts = Inr opts"
| "parse_arguments (argument # rest) opts =
     (if argument = ''--help'' then parse_arguments rest (opts\<lparr>bo_help := True\<rparr>)
      else if argument = ''--csv'' then parse_arguments rest (opts\<lparr>bo_csv := True\<rparr>)
      else if argument \<notin> set value_options
      then Inl (Std_invalid_argument (''unknown benchmark option: '' @ argument))
      else case rest of
        [] \<Rightarrow> Inl (Std_invalid_argument (argument @ '' requires a value''))
      | v # later \<Rightarrow>
          (case set_option argument v opts of
             Inl x \<Rightarrow> Inl x
           | Inr opts' \<Rightarrow> parse_arguments later opts'))"

definition parse_options :: "string list \<Rightarrow> exn + bench_options" where
  "parse_options args =
     (case parse_arguments args default_options of
        Inl x \<Rightarrow> Inl x
      | Inr opts \<Rightarrow>
          (if bo_help opts then Inr opts
           else case validate_bench_options opts of Inl x \<Rightarrow> Inl x | Inr _ \<Rightarrow> Inr opts))"

section \<open>The plan\<close>

record operation =
  op_opcode :: u8
  op_key_index :: nat
  op_request_id :: u64

definition make_keys :: "nat \<Rightarrow> bytes list" where
  "make_keys key_space = map (\<lambda>i. map of_char (''highcache-bench-'' @ to_decimal i)) [0 ..< key_space]"

text \<open>\<open>generator seed i\<close> is the \<open>i\<close>-th number of \<^verbatim>\<open>std::mt19937_64\<close>.\<close>

definition make_value :: "(u64 \<Rightarrow> nat \<Rightarrow> u64) \<Rightarrow> nat \<Rightarrow> u64 \<Rightarrow> bytes" where
  "make_value generator sz seed = map (\<lambda>i. ucast (generator (seed XOR 0x56414C5545554C4C) i)) [0 ..< sz]"

definition make_preload :: "nat \<Rightarrow> operation list" where
  "make_preload key_space =
     map (\<lambda>i. \<lparr>op_opcode = opcode_set, op_key_index = i, op_request_id = of_nat (i + 1)\<rparr>) [0 ..< key_space]"

definition get_count :: "nat \<Rightarrow> int \<Rightarrow> nat" where
  "get_count request_count ratio = llround (double_mult (double_of_nat request_count) (nat ratio))"

definition opcode_vector_max :: nat where
  "opcode_vector_max = 2 ^ 63 - 1"

definition operation_vector_max :: nat where
  "operation_vector_max = (2 ^ 63 - 1) div 24"

definition generate_workload ::
    "(u64 \<Rightarrow> u8 list \<Rightarrow> u8 list) \<Rightarrow> (u64 \<Rightarrow> nat \<Rightarrow> nat \<Rightarrow> nat \<Rightarrow> nat) \<Rightarrow>
       u64 \<Rightarrow> int \<Rightarrow> u64 \<Rightarrow> u64 \<Rightarrow> u64 \<Rightarrow> heap \<Rightarrow> ((exn + operation list) \<times> heap) option" where
  "generate_workload shuffle draw request_count ratio key_space seed first_request_id h =
     (let n = unat request_count; gets = get_count n ratio
      in if key_space = 0 \<or> ratio < 0 \<or> ratio > int double_one
         then Some (Inl (Std_invalid_argument ''invalid workload generation parameters''), h)
         else if request_count \<noteq> 0 \<and> first_request_id > (-1) - (request_count - 1)
         then Some (Inl (Std_invalid_argument ''workload request_id range overflows''), h)
         else if n > opcode_vector_max
         then Some (Inl (Length_error ''cannot create std::vector larger than max_size()''), h)
         else case (if n = 0 then (Inr (), h) else container_alloc h) of
           (Inl x, h1) \<Rightarrow> Some (Inl x, h1)
         | (Inr _, h1) \<Rightarrow>
             (if gets > n then None
              else let opcodes = shuffle seed (replicate gets opcode_get @ replicate (n - gets) opcode_set)
              in if n > operation_vector_max then Some (Inl (Length_error ''vector::reserve''), h1)
                 else case (if n = 0 then (Inr (), h1) else container_alloc h1) of
                   (Inl x, h2) \<Rightarrow> Some (Inl x, h2)
                 | (Inr _, h2) \<Rightarrow>
                     Some (Inr (map (\<lambda>i. \<lparr>op_opcode = opcodes ! i,
                                          op_key_index = draw seed n (unat key_space) i,
                                          op_request_id = first_request_id + of_nat i\<rparr>) [0 ..< n]), h2)))"

section \<open>Dividing the plan\<close>

text \<open>The part of the plan and the connections of a thread; the products are 64-bit numbers.\<close>

definition slice_bound :: "nat \<Rightarrow> u64 \<Rightarrow> nat \<Rightarrow> nat" where
  "slice_bound n threads i = unat (of_nat n * of_nat i div threads)"

definition connection_count :: "u64 \<Rightarrow> u64 \<Rightarrow> nat \<Rightarrow> nat" where
  "connection_count connections threads i =
     unat (connections div threads) + (if of_nat i < connections mod threads then 1 else 0)"

section \<open>The summary of latencies\<close>

text \<open>
  Latencies are measured in nanoseconds and reported in microseconds, as numbers of type \<^verbatim>\<open>double\<close>.
\<close>

definition micros :: "int \<Rightarrow> int" where
  "micros ns = sgn ns * int (round_double (double_of_nat (nat \<bar>ns\<bar>)) 1000)"

record latency_summary =
  ls_average :: int
  ls_p50 :: int
  ls_p95 :: int
  ls_p99 :: int

definition percentile_index :: "nat \<Rightarrow> nat \<Rightarrow> nat" where
  "percentile_index quantile n =
     (let rank = double_ceil (double_mult quantile (double_of_nat n)) in max 1 rank - 1)"

definition percentile :: "nat \<Rightarrow> int list \<Rightarrow> int option" where
  "percentile quantile latencies =
     (let i = percentile_index quantile (length latencies)
      in if i < length latencies then Some (micros (latencies ! i)) else None)"

text \<open>The average is the quotient of the total in microseconds and the number of latencies.\<close>

definition average_of :: "int list \<Rightarrow> int" where
  "average_of latencies =
     (let total = micros (sum_list latencies); n = double_of_nat (length latencies)
      in sgn total * int (round_double (nat \<bar>total\<bar> * double_one) n))"

definition quantile_of :: "nat \<Rightarrow> nat" where
  "quantile_of hundredths = round_double (hundredths * double_one) 100"

definition summarize_latencies :: "int list \<Rightarrow> latency_summary option" where
  "summarize_latencies latencies =
     (if latencies = [] then Some \<lparr>ls_average = 0, ls_p50 = 0, ls_p95 = 0, ls_p99 = 0\<rparr>
      else let sorted_latencies = sort latencies
      in case percentile (quantile_of 50) sorted_latencies of
           None \<Rightarrow> None
         | Some p50 \<Rightarrow>
             (case percentile (quantile_of 95) sorted_latencies of
                None \<Rightarrow> None
              | Some p95 \<Rightarrow>
                  (case percentile (quantile_of 99) sorted_latencies of
                     None \<Rightarrow> None
                   | Some p99 \<Rightarrow> Some \<lparr>ls_average = average_of latencies, ls_p50 = p50, ls_p95 = p95, ls_p99 = p99\<rparr>)))"

section \<open>Rounding\<close>

lemma half_even_le: "p \<le> c * q \<Longrightarrow> 0 < q \<Longrightarrow> half_even p q \<le> c"
proof -
  assume p: "p \<le> c * q" and q: "0 < q"
  have "p div q \<le> c" using div_le_mono [OF p, of q] q by simp
  moreover have "p div q < c" if "0 < p mod q"
  proof (rule ccontr)
    assume "\<not> p div q < c"
    then have "c * q \<le> p div q * q" by simp
    with p that div_mult_mod_eq [of p q] show False by linarith
  qed
  ultimately show ?thesis using q by (auto simp: half_even_def Let_def)
qed

lemma half_even_ge: "c * q \<le> p \<Longrightarrow> 0 < q \<Longrightarrow> c \<le> half_even p q"
  using div_le_mono [of "c * q" p q] by (auto simp: half_even_def Let_def)

lemma half_even_mono:
  assumes "p \<le> p'" and "0 < q"
  shows "half_even p q \<le> half_even p' q"
proof (cases "p div q = p' div q")
  case True
  then have "p' div q * q + p mod q \<le> p' div q * q + p' mod q" using assms(1) by (metis div_mult_mod_eq)
  then have "p mod q \<le> p' mod q" by (simp only: add_le_cancel_left)
  then show ?thesis using True by (auto simp: half_even_def Let_def)
next
  case False
  then have "p div q + 1 \<le> p' div q" using div_le_mono [OF assms(1), of q] by linarith
  then show ?thesis by (auto simp: half_even_def Let_def)
qed

lemma half_even_exact [simp]: "0 < q \<Longrightarrow> half_even (m * q) q = m"
  by (simp add: half_even_def)

text \<open>The binary digits of the whole part, and what they say about the number.\<close>

lemma floorlog_div_less: "0 < q \<Longrightarrow> p < q * 2 ^ floorlog 2 (p div q)"
proof (cases "p div q = 0")
  case False
  assume "0 < q"
  have "p div q < 2 ^ floorlog 2 (p div q)" using floorlog_bounds [of "p div q" 2] False by simp
  with \<open>0 < q\<close> show ?thesis by (simp add: div_less_iff_less_mult mult.commute)
qed (simp add: floorlog_def div_eq_0_iff)

lemma floorlog_div_ge: "0 < p div q \<Longrightarrow> q * 2 ^ (floorlog 2 (p div q) - 1) \<le> p"
proof -
  assume pos: "0 < p div q"
  then have "2 ^ (floorlog 2 (p div q) - 1) \<le> p div q" using floorlog_bounds [of "p div q" 2] by simp
  then have "q * 2 ^ (floorlog 2 (p div q) - 1) \<le> q * (p div q)" by simp
  also have "\<dots> \<le> p" by simp
  finally show ?thesis .
qed

lemma round_double_le_power:
  assumes "0 < q"
  shows "round_double p q \<le> 2 ^ floorlog 2 (p div q)"
proof -
  let ?L = "floorlog 2 (p div q)" and ?k = "floorlog 2 (p div q) - 53"
  have split: "2 ^ (?L - ?k) * (2 :: nat) ^ ?k = 2 ^ ?L" by (simp flip: power_add)
  have "p \<le> q * (2 ^ (?L - ?k) * 2 ^ ?k)" using floorlog_div_less [OF assms, of p] split by simp
  then have "p \<le> 2 ^ (?L - ?k) * (q * 2 ^ ?k)" by (simp add: mult.left_commute)
  from half_even_le [OF this] assms have "half_even p (q * 2 ^ ?k) \<le> 2 ^ (?L - ?k)" by simp
  then have "half_even p (q * 2 ^ ?k) * 2 ^ ?k \<le> 2 ^ (?L - ?k) * 2 ^ ?k" by simp
  with split show ?thesis by (simp add: round_double_def Let_def)
qed

lemma round_double_ge_power:
  assumes "0 < q" and "53 < floorlog 2 (p div q)"
  shows "2 ^ (floorlog 2 (p div q) - 1) \<le> round_double p q"
proof -
  let ?L = "floorlog 2 (p div q)" and ?k = "floorlog 2 (p div q) - 53"
  have pos: "0 < p div q" using assms(2) by (cases "p div q") (auto simp: floorlog_def)
  have split: "2 ^ (?L - 1 - ?k) * (2 :: nat) ^ ?k = 2 ^ (?L - 1)" by (rule power_add [symmetric, THEN trans]) (use assms(2) in simp)
  have "q * (2 ^ (?L - 1 - ?k) * 2 ^ ?k) \<le> p" using floorlog_div_ge [OF pos] split by simp
  then have "2 ^ (?L - 1 - ?k) * (q * 2 ^ ?k) \<le> p" by (simp add: mult.left_commute)
  from half_even_ge [OF this] assms(1) have "2 ^ (?L - 1 - ?k) \<le> half_even p (q * 2 ^ ?k)" by simp
  then have "2 ^ (?L - 1 - ?k) * 2 ^ ?k \<le> half_even p (q * 2 ^ ?k) * 2 ^ ?k" by simp
  with split show ?thesis by (simp add: round_double_def Let_def)
qed

text \<open>Rounding respects the order, and leaves alone what has at most 53 digits.\<close>

lemma round_double_mono:
  assumes "p \<le> p'" and "0 < q"
  shows "round_double p q \<le> round_double p' q"
proof -
  let ?L = "floorlog 2 (p div q)" and ?L' = "floorlog 2 (p' div q)"
  have LL: "?L \<le> ?L'" using div_le_mono [OF assms(1), of q] by (simp add: floorlog_mono)
  show ?thesis
  proof (cases "?L - 53 = ?L' - 53")
    case True
    then show ?thesis using half_even_mono [OF assms(1), of "q * 2 ^ (?L' - 53)"] assms(2)
      by (simp add: round_double_def Let_def)
  next
    case False
    then have "53 < ?L'" "?L \<le> ?L' - 1" using LL by linarith+
    then have "(2 :: nat) ^ ?L \<le> 2 ^ (?L' - 1)" by (simp add: power_increasing)
    with round_double_le_power [OF assms(2), of p] round_double_ge_power [OF assms(2) \<open>53 < ?L'\<close>]
    show ?thesis by linarith
  qed
qed

lemma round_double_exact:
  assumes "2 ^ (floorlog 2 m - 53) dvd m" and "0 < q"
  shows "round_double (m * q) q = m"
proof -
  from assms(1) obtain c where c: "m = c * 2 ^ (floorlog 2 m - 53)" by (metis dvdE mult.commute)
  let ?k = "floorlog 2 m - 53"
  have eq: "m * q = c * (q * 2 ^ ?k)" using c by (metis mult.assoc mult.commute)
  have "half_even (m * q) (q * 2 ^ ?k) = c" unfolding eq using assms(2) by (intro half_even_exact) simp
  with c assms(2) show ?thesis by (simp add: round_double_def Let_def)
qed

lemma round_double_bound:
  assumes "p \<le> m * q" and "2 ^ (floorlog 2 m - 53) dvd m" and "0 < q"
  shows "round_double p q \<le> m"
  using round_double_mono [OF assms(1,3)] round_double_exact [OF assms(2,3)] by simp

lemma double_one_pos [simp]: "0 < double_one"
  by (simp add: double_one_def)

lemma floorlog_times_power: "0 < n \<Longrightarrow> floorlog 2 (n * 2 ^ k) = floorlog 2 n + k"
  by (simp add: floorlog_power)

lemma integer_digits:
  assumes "n \<le> 2 ^ 53"
  shows "2 ^ (floorlog 2 (n * double_one) - 53) dvd n * double_one"
proof -
  consider "n = 0" | "n = 2 ^ 53" | "0 < n" "n < 2 ^ 53" using assms by linarith
  then show ?thesis
  proof cases
    case 2
    have "floorlog 2 (2 ^ 53 * double_one) = 53 + 1 + 1074"
      unfolding double_one_def using floorlog_power [of 1 2 "53 + 1074"] by (simp add: floorlog_eq_zero_iff power_add floorlog_def)
    then show ?thesis using 2 by (simp add: double_one_def power_add [symmetric] le_imp_power_dvd)
  next
    case 3
    have "floorlog 2 n \<le> 53" using 3 by (intro floorlog_leI) auto
    then have "floorlog 2 (n * double_one) - 53 \<le> 1074"
      unfolding double_one_def floorlog_times_power [OF 3(1)] by linarith
    then have "(2 :: nat) ^ (floorlog 2 (n * double_one) - 53) dvd double_one"
      unfolding double_one_def by (rule le_imp_power_dvd)
    then show ?thesis by simp
  qed simp
qed

lemma double_of_nat_exact: "n \<le> 2 ^ 53 \<Longrightarrow> double_of_nat n = n * double_one"
  using round_double_exact [OF integer_digits, of n 1] by (simp add: double_of_nat_def)

text \<open>A number of at most one times a whole number is at most that number, also after rounding.\<close>

lemma double_mult_bound:
  assumes "r \<le> double_one" and "n \<le> 2 ^ 53"
  shows "double_mult r (double_of_nat n) \<le> n * double_one" and "double_mult (double_of_nat n) r \<le> n * double_one"
proof -
  have "r * (n * double_one) \<le> n * double_one * double_one" using assms(1) by (simp add: mult.commute)
  from round_double_bound [OF this integer_digits [OF assms(2)]]
  show "double_mult r (double_of_nat n) \<le> n * double_one" "double_mult (double_of_nat n) r \<le> n * double_one"
    by (simp_all add: double_mult_def double_of_nat_exact [OF assms(2)] mult.commute)
qed

lemma double_mult_mono: "a \<le> a' \<Longrightarrow> double_mult a b \<le> double_mult a' b"
  unfolding double_mult_def by (rule round_double_mono) auto

section \<open>Percentiles\<close>

lemma double_ceil_le: "v \<le> n * double_one \<Longrightarrow> double_ceil v \<le> n"
proof -
  assume "v \<le> n * double_one"
  then have "v + double_one - 1 < (n + 1) * double_one" using double_one_pos by (simp del: double_one_pos)
  then show ?thesis
    unfolding double_ceil_def by (simp add: less_mult_imp_div_less less_Suc_eq_le [symmetric] del: mult_Suc)
qed

lemma double_ceil_mono: "v \<le> w \<Longrightarrow> double_ceil v \<le> double_ceil w"
  unfolding double_ceil_def by (intro div_le_mono diff_le_mono) simp

lemma percentile_index_less:
  assumes "q \<le> double_one" and "0 < n" and "n \<le> 2 ^ 53"
  shows "percentile_index q n < n"
  using double_ceil_le [OF double_mult_bound(1) [OF assms(1,3)]] assms(2)
  by (auto simp: percentile_index_def)

lemma percentile_index_mono: "q \<le> q' \<Longrightarrow> percentile_index q n \<le> percentile_index q' n"
  using double_ceil_mono [OF double_mult_mono [of q q' "double_of_nat n"]]
  by (auto simp: percentile_index_def)

lemma quantile_of_mono: "a \<le> b \<Longrightarrow> quantile_of a \<le> quantile_of b"
  unfolding quantile_of_def by (rule round_double_mono) auto

lemma quantile_of_le_one: "a \<le> 100 \<Longrightarrow> quantile_of a \<le> double_one"
  unfolding quantile_of_def
  by (rule round_double_bound) (use integer_digits [of 1] in auto)

lemma percentile_defined:
  assumes "0 < length xs" and "length xs \<le> 2 ^ 53" and "a \<le> 100"
  shows "\<exists>i. i < length xs \<and> i = percentile_index (quantile_of a) (length xs) \<and>
           percentile (quantile_of a) xs = Some (micros (xs ! i))"
  using percentile_index_less [OF quantile_of_le_one [OF assms(3)] assms(1,2)]
  by (simp add: percentile_def Let_def)

lemma micros_mono: "a \<le> b \<Longrightarrow> micros a \<le> micros b"
proof -
  assume ab: "a \<le> b"
  let ?f = "\<lambda>n. int (round_double (double_of_nat n) 1000)"
  have mono: "?f m \<le> ?f n" if "m \<le> n" for m n
  proof -
    have "double_of_nat m \<le> double_of_nat n"
      unfolding double_of_nat_def using that by (intro round_double_mono) simp_all
    then show ?thesis by (simp add: round_double_mono)
  qed
  consider "0 \<le> a" | "a < 0" "0 \<le> b" | "b < 0" by linarith
  then show ?thesis
  proof cases
    case 1
    then show ?thesis using ab mono [of "nat a" "nat b"] by (auto simp: micros_def sgn_if)
  next
    case 2
    then show ?thesis by (auto simp: micros_def sgn_if)
  next
    case 3
    then show ?thesis using ab mono [of "nat (- b)" "nat (- a)"] by (auto simp: micros_def sgn_if)
  qed
qed

lemma summarize_latencies_ok:
  assumes "latencies \<noteq> []" and "length latencies \<le> 2 ^ 53"
  shows "\<exists>s. summarize_latencies latencies = Some s \<and> {ls_p50 s, ls_p95 s, ls_p99 s} \<subseteq> micros ` set latencies \<and>
           ls_p50 s \<le> ls_p95 s \<and> ls_p95 s \<le> ls_p99 s"
proof -
  let ?xs = "sort latencies" and ?i = "\<lambda>a. percentile_index (quantile_of a) (length latencies)"
  have at: "?i a < length latencies \<and> percentile (quantile_of a) ?xs = Some (micros (?xs ! ?i a))" if "a \<le> 100" for a
    using percentile_defined [of ?xs a] assms that by simp
  have mono: "micros (?xs ! ?i a) \<le> micros (?xs ! ?i b)" if "a \<le> b" "b \<le> 100" for a b
    using sorted_nth_mono [of ?xs "?i a" "?i b"] percentile_index_mono [OF quantile_of_mono [OF that(1)]] at that
    by (intro micros_mono) simp
  have mem: "?xs ! ?i a \<in> set latencies" if "a \<le> 100" for a
    using nth_mem [of "?i a" ?xs] at [OF that] by simp
  show ?thesis
    using at [of 50] at [of 95] at [of 99] mono [of 50 95] mono [of 95 99] mem assms(1)
    by (simp add: summarize_latencies_def Let_def)
qed

section \<open>Valid options\<close>

definition valid_options :: "bench_options \<Rightarrow> bool" where
  "valid_options opts \<longleftrightarrow>
     bo_host opts \<noteq> [] \<and> bo_port opts \<noteq> 0 \<and> 0 < bo_threads opts \<and> bo_threads opts \<le> bo_connections opts \<and>
     0 < bo_requests opts \<and> 0 \<le> bo_get_ratio opts \<and> bo_get_ratio opts \<le> int double_one \<and>
     unat (bo_value_size opts) \<le> max_value_length \<and> 0 < bo_key_space opts \<and>
     0 < bo_pipeline opts \<and> bo_pipeline opts \<le> 1024 \<and>
     unat (bo_key_space opts) + unat (bo_warmup_requests opts) + unat (bo_requests opts) \<le> 2 ^ 64 - 2"

lemma id_range:
  fixes k w r :: u64
  shows "(k > (-1) - 1 \<or> w > (-1) - 1 - k \<or> r > (-1) - 1 - k - w) \<longleftrightarrow> unat k + unat w + unat r > 2 ^ 64 - 2"
proof -
  have m: "unat ((-1 :: u64) - 1) = 2 ^ 64 - 2" by simp
  show ?thesis
  proof (cases "k > (-1) - 1")
    case True
    then show ?thesis using m by (simp add: word_less_nat_alt)
  next
    case k: False
    then have uk: "unat ((-1 :: u64) - 1 - k) = 2 ^ 64 - 2 - unat k"
      using m unat_sub [of k "(-1) - 1"] by (simp add: not_less)
    show ?thesis
    proof (cases "w > (-1) - 1 - k")
      case True
      then show ?thesis using uk by (simp add: word_less_nat_alt)
    next
      case False
      then have "unat ((-1 :: u64) - 1 - k - w) = 2 ^ 64 - 2 - unat k - unat w"
        using uk unat_sub [of w "(-1) - 1 - k"] by (simp add: not_less)
      then show ?thesis using k False uk m by (simp add: word_less_nat_alt) linarith
    qed
  qed
qed

lemma validate_options_iff: "validate_bench_options opts = Inr () \<longleftrightarrow> valid_options opts"
  using id_range [of "bo_key_space opts" "bo_warmup_requests opts" "bo_requests opts"]
  unfolding validate_bench_options_def valid_options_def Let_def
  by (auto simp: word_gt_0 not_less not_le)

lemma parse_options_valid:
  "parse_options args = Inr opts \<Longrightarrow> \<not> bo_help opts \<Longrightarrow> valid_options opts"
  using validate_options_iff [of opts]
  by (auto simp: parse_options_def split: sum.splits if_splits)

section \<open>The operations of a run\<close>

lemma get_count_le:
  assumes "r \<le> int double_one" and "n \<le> 2 ^ 53"
  shows "get_count n r \<le> n"
proof -
  have "nat r \<le> double_one" using assms(1) by simp
  from double_mult_bound(2) [OF this assms(2)]
  have "2 * double_mult (double_of_nat n) (nat r) + double_one < Suc n * (2 * double_one)"
    using double_one_pos by (simp only: mult_Suc)
  then show ?thesis unfolding get_count_def llround_def by (metis less_Suc_eq_le less_mult_imp_div_less)
qed

definition fair_shuffle :: "(u64 \<Rightarrow> u8 list \<Rightarrow> u8 list) \<Rightarrow> bool" where
  "fair_shuffle shuffle \<longleftrightarrow> (\<forall>seed xs. mset (shuffle seed xs) = mset xs)"

definition fair_draw :: "(u64 \<Rightarrow> nat \<Rightarrow> nat \<Rightarrow> nat \<Rightarrow> nat) \<Rightarrow> bool" where
  "fair_draw draw \<longleftrightarrow> (\<forall>seed n k i. 0 < k \<longrightarrow> draw seed n k i < k)"

definition plan_ok :: "nat \<Rightarrow> operation list \<Rightarrow> bool" where
  "plan_ok key_space plan \<longleftrightarrow>
     distinct (map op_request_id plan) \<and>
     (\<forall>p \<in> set plan. (op_opcode p = opcode_get \<or> op_opcode p = opcode_set) \<and> op_key_index p < key_space)"

lemma ids_distinct: "a + n \<le> 2 ^ 64 \<Longrightarrow> distinct (map (\<lambda>i. of_nat (a + i) :: u64) [0 ..< n])"
proof -
  assume a: "a + n \<le> 2 ^ 64"
  have "inj_on (\<lambda>i. of_nat (a + i) :: u64) (set [0 ..< n])"
  proof (rule inj_onI)
    fix i j
    assume ij: "i \<in> set [0 ..< n]" "j \<in> set [0 ..< n]" and eq: "(of_nat (a + i) :: u64) = of_nat (a + j)"
    have "unat (of_nat (a + i) :: u64) = a + i" "unat (of_nat (a + j) :: u64) = a + j"
      using a ij by (auto simp del: of_nat_add intro!: unat_of_nat_u64)
    with eq show "i = j" by simp
  qed
  then show ?thesis by (simp add: distinct_map)
qed

lemma generate_workload_ok:
  assumes "fair_shuffle shuffle" and "fair_draw draw" and "key_space \<noteq> 0" and "0 \<le> ratio" and "ratio \<le> int double_one"
    and small: "unat n \<le> 2 ^ 53" and ids: "unat first + unat n \<le> 2 ^ 64" and "oom h = []"
  shows "\<exists>ops. generate_workload shuffle draw n ratio key_space seed first h = Some (Inr ops, h) \<and>
           length ops = unat n \<and> plan_ok (unat key_space) ops \<and>
           map op_request_id ops = map (\<lambda>i. of_nat (unat first + i)) [0 ..< unat n] \<and>
           length (filter (\<lambda>p. op_opcode p = opcode_get) ops) = get_count (unat n) ratio"
proof -
  let ?n = "unat n" and ?g = "get_count (unat n) ratio"
  let ?ops = "replicate ?g opcode_get @ replicate (?n - ?g) opcode_set"
  let ?op = "\<lambda>i. \<lparr>op_opcode = shuffle seed ?ops ! i, op_key_index = draw seed ?n (unat key_space) i,
                   op_request_id = first + of_nat i\<rparr>"
  have g: "?g \<le> ?n" using get_count_le assms(5) small by blast
  have perm: "mset (shuffle seed ?ops) = mset ?ops" using assms(1) by (simp add: fair_shuffle_def)
  then have len: "length (shuffle seed ?ops) = ?n" using g by (metis (no_types, lifting) le_add_diff_inverse length_append length_replicate size_mset)
  have max: "\<not> ?n > opcode_vector_max" "\<not> ?n > operation_vector_max"
    using small by (auto simp: opcode_vector_max_def operation_vector_max_def)
  have over: "\<not> (n \<noteq> 0 \<and> first > (-1) - (n - 1))"
  proof
    assume *: "n \<noteq> 0 \<and> first > (-1) - (n - 1)"
    then have "1 \<le> n" using word_gt_0 by (simp add: word_le_nat_alt Suc_le_eq unat_gt_0)
    then have "unat (n - 1) = ?n - 1" by (simp add: unat_sub)
    then have "unat ((-1 :: u64) - (n - 1)) = 2 ^ 64 - 1 - (?n - 1)"
      using unat_sub [of "n - 1" "-1"] by (simp add: unsigned_minus_1_eq_mask mask_eq_exp_minus_1)
    with * ids \<open>1 \<le> n\<close> show False by (simp add: word_less_nat_alt word_le_nat_alt) linarith
  qed
  have run: "generate_workload shuffle draw n ratio key_space seed first h = Some (Inr (map ?op [0 ..< ?n]), h)"
    unfolding generate_workload_def Let_def using assms(3-5) over max g container_alloc_nil [OF assms(8)] by (cases "n = 0") (auto simp: unat_gt_0)
  have op: "first + of_nat i = of_nat (unat first + i)" for i by simp
  have "set (shuffle seed ?ops) = set ?ops" using perm by (metis set_mset_mset)
  then have "shuffle seed ?ops ! i = opcode_get \<or> shuffle seed ?ops ! i = opcode_set" if "i < ?n" for i
    using nth_mem [of i "shuffle seed ?ops"] len that by (auto split: if_splits)
  moreover have "draw seed ?n (unat key_space) i < unat key_space" for i
    using assms(2,3) by (simp add: fair_draw_def unat_gt_0)
  ultimately have ok: "plan_ok (unat key_space) (map ?op [0 ..< ?n])"
    using ids_distinct [OF ids] by (auto simp: plan_ok_def comp_def)
  have codes: "map op_opcode (map ?op [0 ..< ?n]) = shuffle seed ?ops" using len by (auto intro: nth_equalityI)
  have "length (filter (\<lambda>p. op_opcode p = opcode_get) (map ?op [0 ..< ?n])) =
      length (filter (\<lambda>c. c = opcode_get) (map op_opcode (map ?op [0 ..< ?n])))"
    by (simp only: filter_map length_map comp_def)
  also have "\<dots> = size (filter_mset (\<lambda>c. c = opcode_get) (mset (shuffle seed ?ops)))"
    unfolding codes by (metis mset_filter size_mset)
  also have "\<dots> = length (filter (\<lambda>c. c = opcode_get) ?ops)" unfolding perm by (metis mset_filter size_mset)
  also have "\<dots> = ?g" by simp
  finally show ?thesis using run ok by (simp add: comp_def)
qed

lemma make_preload_ok:
  assumes "k < 2 ^ 64"
  shows "plan_ok k (make_preload k)" and "length (make_preload k) = k"
    and "map op_request_id (make_preload k) = map (\<lambda>i. of_nat (1 + i)) [0 ..< k]"
proof -
  have "distinct (map (\<lambda>i. of_nat (1 + i) :: u64) [0 ..< k])" using assms by (intro ids_distinct) simp
  then show "plan_ok k (make_preload k)" by (auto simp: plan_ok_def make_preload_def comp_def)
qed (simp_all add: make_preload_def)

section \<open>The division of the plan\<close>

lemma slice_bound_nat:
  assumes "n * unat threads < 2 ^ 64" and "i \<le> unat threads" and "0 < threads"
  shows "slice_bound n threads i = n * i div unat threads"
proof -
  have "1 \<le> unat threads" using assms(3) by (simp add: word_less_nat_alt Suc_le_eq)
  then have n: "n < 2 ^ 64" using assms(1) by (metis le_less_trans mult.right_neutral mult_le_mono2)
  have i: "i < 2 ^ 64" using assms(2) unat_lt_u64 [of threads] by simp
  have "n * i < 2 ^ 64" using assms(1,2) by (meson le_less_trans mult_le_mono2)
  then have "unat (of_nat n * of_nat i :: u64) = n * i" using n i by (simp flip: of_nat_mult add: unat_of_nat_u64)
  then show ?thesis by (simp add: slice_bound_def unat_div)
qed

lemma slices_concat:
  assumes "\<And>i. i < t \<Longrightarrow> f i \<le> f (Suc i)" and "f 0 = 0"
  shows "concat (map (\<lambda>i. take (f (Suc i) - f i) (drop (f i) xs)) [0 ..< t]) = take (f t) xs"
  using assms(1)
proof (induction t)
  case (Suc t)
  then show ?case by (simp add: take_add [symmetric])
qed (simp add: assms(2))

lemma plan_division:
  assumes "length plan * unat threads < 2 ^ 64" and "0 < threads"
  shows "concat (map (\<lambda>i. take (slice_bound (length plan) threads (Suc i) - slice_bound (length plan) threads i)
             (drop (slice_bound (length plan) threads i) plan)) [0 ..< unat threads]) = plan"
proof -
  let ?f = "slice_bound (length plan) threads" and ?t = "unat threads"
  have f: "?f i = length plan * i div ?t" if "i \<le> ?t" for i using slice_bound_nat [OF assms(1) that assms(2)] .
  have t: "0 < ?t" using assms(2) by (simp add: word_less_nat_alt)
  have "concat (map (\<lambda>i. take (?f (Suc i) - ?f i) (drop (?f i) plan)) [0 ..< ?t]) = take (?f ?t) plan"
    by (rule slices_concat) (use f in \<open>auto intro!: div_le_mono\<close>)
  then show ?thesis using f [of ?t] t by simp
qed

lemma sum_list_first: "(\<Sum>i\<leftarrow>[0 ..< t]. if i < m then 1 else 0) = min m (t :: nat)" for m :: nat
  by (induction t) auto

lemma connection_division:
  assumes "0 < threads" and "threads \<le> connections"
  shows "(\<Sum>i\<leftarrow>[0 ..< unat threads]. connection_count connections threads i) = unat connections"
    and "i < unat threads \<Longrightarrow> 0 < connection_count connections threads i"
proof -
  let ?t = "unat threads" and ?c = "unat connections"
  have t: "0 < ?t" "?t \<le> ?c" using assms by (simp_all add: word_less_nat_alt word_le_nat_alt)
  have cc: "connection_count connections threads i = ?c div ?t + (if i < ?c mod ?t then 1 else 0)" if "i < ?t" for i
  proof -
    have "unat (of_nat i :: u64) = i" using that unat_lt_u64 [of threads] by (intro unat_of_nat_u64) simp
    then show ?thesis by (simp add: connection_count_def unat_div unat_mod word_less_nat_alt)
  qed
  have "(\<Sum>i\<leftarrow>[0 ..< ?t]. connection_count connections threads i) =
      (\<Sum>i\<leftarrow>[0 ..< ?t]. ?c div ?t + (if i < ?c mod ?t then 1 else 0))"
    using cc by (intro arg_cong [of _ _ sum_list] map_cong) auto
  also have "\<dots> = ?t * (?c div ?t) + min (?c mod ?t) ?t"
    by (simp only: sum_list_addf sum_list_first) (simp add: sum_list_triv)
  also have "\<dots> = ?c" using t by (simp add: min_def less_imp_le)
  finally show "(\<Sum>i\<leftarrow>[0 ..< ?t]. connection_count connections threads i) = ?c" .
  show "0 < connection_count connections threads i" if "i < ?t"
    using cc [OF that] t by (simp add: div_greater_zero_iff)
qed

end
