(* ===== verification/Benchmark_Worker.thy ===== *)
theory Benchmark_Worker
  imports Benchmark_Plan Client
begin

text \<open>
  The part of the load generator, \<^verbatim>\<open>benchmark/benchmark.cpp\<close>, that talks to a server: the statistics,
  the requests in flight, a worker with its connections and its event loop, and a whole run.
  What the system calls return and what the clock shows are inputs; a list of results of
  \<^verbatim>\<open>epoll_wait\<close> that is used up stands for a call that times out. \<open>None\<close> stands for undefined
  behaviour and for a call of \<^verbatim>\<open>std::terminate\<close>.
\<close>

section \<open>Statistics\<close>

abbreviation (input) wire_ok :: u8 where "wire_ok \<equiv> 0"
abbreviation (input) wire_not_found :: u8 where "wire_not_found \<equiv> 1"

record statistics =
  st_successful :: nat
  st_failed :: nat
  st_get_hits :: nat
  st_get_misses :: nat
  st_latencies :: "int list"
  st_errors :: "string list"

definition new_statistics :: statistics where
  "new_statistics = \<lparr>st_successful = 0, st_failed = 0, st_get_hits = 0, st_get_misses = 0,
     st_latencies = [], st_errors = []\<rparr>"

definition handled :: "statistics \<Rightarrow> nat" where
  "handled st = st_successful st + st_failed st"

definition record_response ::
    "u8 \<Rightarrow> u8 \<Rightarrow> int \<Rightarrow> statistics \<Rightarrow> heap \<Rightarrow> (exn + unit) \<times> statistics \<times> heap" where
  "record_response oc wire latency st h =
     (case container_alloc h of
        (Inl x, h1) \<Rightarrow> (Inl x, st, h1)
      | (Inr _, h1) \<Rightarrow>
          (let st1 = st\<lparr>st_latencies := st_latencies st @ [latency]\<rparr>
           in if oc = opcode_get \<and> wire = wire_ok
              then (Inr (), st1\<lparr>st_get_hits := st_get_hits st + 1, st_successful := st_successful st + 1\<rparr>, h1)
              else if oc = opcode_get \<and> wire = wire_not_found
              then (Inr (), st1\<lparr>st_get_misses := st_get_misses st + 1, st_successful := st_successful st + 1\<rparr>, h1)
              else if oc = opcode_set \<and> wire = wire_ok
              then (Inr (), st1\<lparr>st_successful := st_successful st + 1\<rparr>, h1)
              else (Inr (), st1\<lparr>st_failed := st_failed st + 1\<rparr>, h1)))"

definition record_failures :: "nat \<Rightarrow> statistics \<Rightarrow> statistics" where
  "record_failures n_failed st = st\<lparr>st_failed := st_failed st + n_failed\<rparr>"

definition record_error :: "string \<Rightarrow> statistics \<Rightarrow> heap \<Rightarrow> (exn + unit) \<times> statistics \<times> heap" where
  "record_error message st h =
     (case string_assign (c_string message) h of
        (Inl x, h1) \<Rightarrow> (Inl x, st, h1)
      | (Inr _, h1) \<Rightarrow>
          (case container_alloc h1 of
             (Inl x, h2) \<Rightarrow> (Inl x, st, h2)
           | (Inr _, h2) \<Rightarrow> (Inr (), st\<lparr>st_errors := st_errors st @ [message]\<rparr>, h2)))"

definition merge_statistics :: "statistics \<Rightarrow> statistics \<Rightarrow> heap \<Rightarrow> (exn + unit) \<times> statistics \<times> heap" where
  "merge_statistics other st h =
     (let st1 = st\<lparr>st_successful := st_successful st + st_successful other,
                   st_failed := st_failed st + st_failed other,
                   st_get_hits := st_get_hits st + st_get_hits other,
                   st_get_misses := st_get_misses st + st_get_misses other\<rparr>
      in case container_alloc h of
           (Inl x, h1) \<Rightarrow> (Inl x, st1, h1)
         | (Inr _, h1) \<Rightarrow>
             (let st2 = st1\<lparr>st_latencies := st_latencies st @ st_latencies other\<rparr>
              in case container_alloc h1 of
                   (Inl x, h2) \<Rightarrow> (Inl x, st2, h2)
                 | (Inr _, h2) \<Rightarrow> (Inr (), st2\<lparr>st_errors := st_errors st @ st_errors other\<rparr>, h2)))"

section \<open>Requests in flight\<close>

type_synonym tracker = "(u64 \<times> (u8 \<times> int)) list"

definition tracker_add :: "u64 \<Rightarrow> u8 \<Rightarrow> int \<Rightarrow> tracker \<Rightarrow> heap \<Rightarrow> (exn + unit) \<times> tracker \<times> heap" where
  "tracker_add rid oc start tr h =
     (case container_alloc h of
        (Inl x, h1) \<Rightarrow> (Inl x, tr, h1)
      | (Inr _, h1) \<Rightarrow>
          (if map_of tr rid \<noteq> None then (Inl (Runtime_error ''duplicate benchmark request_id''), tr, h1)
           else (Inr (), (rid, oc, start) # tr, h1)))"

definition tracker_complete ::
    "response \<Rightarrow> int \<Rightarrow> tracker \<Rightarrow> statistics \<Rightarrow> heap \<Rightarrow> (exn + unit) \<times> tracker \<times> statistics \<times> heap" where
  "tracker_complete resp finish tr st h =
     (case map_of tr (response_id resp) of
        None \<Rightarrow> (Inl (Runtime_error ''response has unknown benchmark request_id''), tr, st, h)
      | Some (oc, start) \<Rightarrow>
          (case record_response oc (status resp) (finish - start) st h of
             (Inl x, st1, h1) \<Rightarrow> (Inl x, tr, st1, h1)
           | (Inr _, st1, h1) \<Rightarrow> (Inr (), filter (\<lambda>p. fst p \<noteq> response_id resp) tr, st1, h1)))"

definition fail_all :: "tracker \<Rightarrow> statistics \<Rightarrow> nat \<times> tracker \<times> statistics" where
  "fail_all tr st = (let n_failed = length tr in (n_failed, [], record_failures n_failed st))"

section \<open>A connection of a worker\<close>

text \<open>\<open>cc_interest\<close> is what \<^verbatim>\<open>epoll\<close> was told to watch for.\<close>

record client_conn =
  cc_fd :: int
  cc_input :: buffer
  cc_output :: buffer
  cc_tracker :: tracker
  cc_active :: bool
  cc_interest :: u32

text \<open>What a worker is given: the plan and its part of it, keys, the value, and the depth of the pipeline.\<close>

record bench_work =
  bw_plan :: "operation list"
  bw_keys :: "bytes list"
  bw_value :: bytes
  bw_pipeline :: nat
  bw_begin :: nat
  bw_end :: nat
  bw_clock :: "nat \<Rightarrow> int"

text \<open>What changes while it runs; \<open>be_calls\<close> counts how often the clock was read.\<close>

record bench_env =
  be_next :: nat
  be_stats :: statistics
  be_heap :: heap
  be_calls :: nat

type_synonym 'r bench_step = "((exn + 'r) \<times> client_conn \<times> bench_env) option"

definition throw_system_error :: "string \<Rightarrow> string \<Rightarrow> exn" where
  "throw_system_error operation errno_message = Runtime_error (operation @ '': '' @ errno_message)"

definition bench_interest :: "client_conn \<Rightarrow> u32" where
  "bench_interest c =
     (let events = EPOLLIN OR EPOLLRDHUP
      in if \<not> buffer_empty (cc_output c) then events OR EPOLLOUT else events)"

text \<open>The argument is the message of \<^verbatim>\<open>errno\<close> if \<^verbatim>\<open>epoll_ctl\<close> failed.\<close>

definition update_interest :: "string option \<Rightarrow> client_conn \<Rightarrow> (exn + unit) \<times> client_conn" where
  "update_interest failure c =
     (case failure of
        None \<Rightarrow> (Inr (), c\<lparr>cc_interest := bench_interest c\<rparr>)
      | Some m \<Rightarrow> (Inl (throw_system_error ''epoll_ctl modify failed'' m), c))"

text \<open>The request for an operation, and its bytes.\<close>

definition planned_request :: "bytes list \<Rightarrow> bytes \<Rightarrow> operation \<Rightarrow> request" where
  "planned_request keys v operation =
     new_request\<lparr>opcode := op_opcode operation, request_id := op_request_id operation,
                 req_key := keys ! op_key_index operation,
                 req_value := (if op_opcode operation = opcode_set then v else [])\<rparr>"

definition encode_planned :: "request \<Rightarrow> heap \<Rightarrow> (exn + bytes) \<times> heap" where
  "encode_planned req h =
     (case string_assign (req_key req) h of
        (Inl x, h1) \<Rightarrow> (Inl x, h1)
      | (Inr _, h1) \<Rightarrow>
          (case string_assign (req_value req) h1 of
             (Inl x, h2) \<Rightarrow> (Inl x, h2)
           | (Inr _, h2) \<Rightarrow> encode_request req h2))"

text \<open>One round of \<^verbatim>\<open>fill_pipeline\<close>.\<close>

definition issue_operation :: "bench_work \<Rightarrow> client_conn \<Rightarrow> bench_env \<Rightarrow> unit bench_step" where
  "issue_operation wk c env =
     (if be_next env \<ge> length (bw_plan wk) then None
      else let operation = bw_plan wk ! be_next env; env0 = env\<lparr>be_next := be_next env + 1\<rparr>
      in if op_key_index operation \<ge> length (bw_keys wk) then None
         else case encode_planned (planned_request (bw_keys wk) (bw_value wk) operation) (be_heap env0) of
           (Inl x, h1) \<Rightarrow> Some (Inl x, c, env0\<lparr>be_heap := h1\<rparr>)
         | (Inr bytes, h1) \<Rightarrow>
             (let start = bw_clock wk (be_calls env0); env1 = env0\<lparr>be_calls := be_calls env0 + 1\<rparr>
              in case append_view bytes (cc_output c) h1 of
                   None \<Rightarrow> None
                 | Some (Inl x, b, h2) \<Rightarrow> Some (Inl x, c\<lparr>cc_output := b\<rparr>, env1\<lparr>be_heap := h2\<rparr>)
                 | Some (Inr _, b, h2) \<Rightarrow>
                     (case tracker_add (op_request_id operation) (op_opcode operation) start (cc_tracker c) h2 of
                        (r, tr, h3) \<Rightarrow> Some (r, c\<lparr>cc_output := b, cc_tracker := tr\<rparr>, env1\<lparr>be_heap := h3\<rparr>))))"

lemma issue_operation_next:
  "issue_operation wk c env = Some (r, c', env') \<Longrightarrow> be_next env' = be_next env + 1"
  by (auto simp: issue_operation_def Let_def split: if_splits prod.splits sum.splits option.splits)

function (sequential) fill_pipeline :: "bench_work \<Rightarrow> client_conn \<Rightarrow> bench_env \<Rightarrow> unit bench_step" where
  "fill_pipeline wk c env =
     (if length (cc_tracker c) < bw_pipeline wk \<and> be_next env < bw_end wk
      then (case issue_operation wk c env of
              None \<Rightarrow> None
            | Some (Inl x, c1, env1) \<Rightarrow> Some (Inl x, c1, env1)
            | Some (Inr _, c1, env1) \<Rightarrow> fill_pipeline wk c1 env1)
      else Some (Inr (), c, env))"
  by pat_completeness auto
termination
  by (relation "measure (\<lambda>(wk, c, env). bw_end wk - be_next env)") (auto dest: issue_operation_next)

declare fill_pipeline.simps [simp del]

text \<open>
  \<^verbatim>\<open>send\<close> accepts at most what it is offered and \<^verbatim>\<open>recv\<close> gives at most what was asked for, whatever
  the lists of results say.
\<close>

fun bench_writable :: "send_result list \<Rightarrow> client_conn \<Rightarrow> (bool \<times> client_conn) option" where
  "bench_writable [] c = Some (True, c)"
| "bench_writable (result # later) c =
     (if buffer_empty (cc_output c) then Some (True, c)
      else case result of
        Sent n \<Rightarrow>
          (if n = 0 then Some (False, c)
           else case retrieve (min n (readable_bytes (cc_output c))) (cc_output c) of
             None \<Rightarrow> None
           | Some b \<Rightarrow> bench_writable later (c\<lparr>cc_output := b\<rparr>))
      | Send_interrupted \<Rightarrow> bench_writable later c
      | Send_would_block \<Rightarrow> Some (True, c)
      | Send_failed \<Rightarrow> Some (False, c))"

partial_function (option) decode_responses :: "bench_work \<Rightarrow> client_conn \<Rightarrow> bench_env \<Rightarrow> unit bench_step" where
  "decode_responses wk c env =
     (if buffer_empty (cc_input c) then Some (Inr (), c, env)
      else case decode_response (cc_input c) new_response no_error (be_heap env) of
        None \<Rightarrow> None
      | Some (r, inp, resp, err, h) \<Rightarrow>
          (let c1 = c\<lparr>cc_input := inp\<rparr>; env1 = env\<lparr>be_heap := h\<rparr>
           in case r of
                Inl x \<Rightarrow> Some (Inl x, c1, env1)
              | Inr Decode_incomplete \<Rightarrow> Some (Inr (), c1, env1)
              | Inr Decode_error \<Rightarrow>
                  Some (Inl (Runtime_error (''invalid benchmark response: '' @ error_message err)), c1, env1)
              | Inr Decode_complete \<Rightarrow>
                  (case tracker_complete resp (bw_clock wk (be_calls env1)) (cc_tracker c1) (be_stats env1) h of
                     (q, tr, st, h1) \<Rightarrow>
                       (let c2 = c1\<lparr>cc_tracker := tr\<rparr>;
                            env2 = env1\<lparr>be_stats := st, be_heap := h1, be_calls := be_calls env1 + 1\<rparr>
                        in case q of
                             Inl x \<Rightarrow> Some (Inl x, c2, env2)
                           | Inr _ \<Rightarrow> decode_responses wk c2 env2))))"

declare decode_responses.simps [code]

fun bench_readable :: "bench_work \<Rightarrow> recv_result list \<Rightarrow> client_conn \<Rightarrow> bench_env \<Rightarrow> bool bench_step" where
  "bench_readable wk [] c env = Some (Inr True, c, env)"
| "bench_readable wk (Received bs # later) c env =
     (if bs = [] then Some (Inr False, c, env)
      else case append_view (take read_chunk_size bs) (cc_input c) (be_heap env) of
        None \<Rightarrow> None
      | Some (Inl x, b, h) \<Rightarrow> Some (Inl x, c\<lparr>cc_input := b\<rparr>, env\<lparr>be_heap := h\<rparr>)
      | Some (Inr _, b, h) \<Rightarrow>
          (case decode_responses wk (c\<lparr>cc_input := b\<rparr>) (env\<lparr>be_heap := h\<rparr>) of
             None \<Rightarrow> None
           | Some (Inl x, c1, env1) \<Rightarrow> Some (Inl x, c1, env1)
           | Some (Inr _, c1, env1) \<Rightarrow> bench_readable wk later c1 env1))"
| "bench_readable wk (Recv_closed # later) c env = Some (Inr False, c, env)"
| "bench_readable wk (Recv_interrupted # later) c env = bench_readable wk later c env"
| "bench_readable wk (Recv_would_block # later) c env = Some (Inr True, c, env)"
| "bench_readable wk (Recv_failed # later) c env = Some (Inr False, c, env)"

definition fail_connection :: "string \<Rightarrow> client_conn \<Rightarrow> bench_env \<Rightarrow> client_conn \<times> bench_env" where
  "fail_connection error c env =
     (if \<not> cc_active c then (c, env)
      else case fail_all (cc_tracker c) (be_stats env) of
        (n_failed, tr, st) \<Rightarrow>
          (case (if n_failed \<noteq> 0 then record_error error st (be_heap env) else (Inr (), st, be_heap env)) of
             (_, st1, h) \<Rightarrow>
               (c\<lparr>cc_tracker := tr, cc_active := False, cc_interest := 0\<rparr>,
                env\<lparr>be_stats := st1, be_heap := h\<rparr>)))"

definition fail_unissued :: "bench_work \<Rightarrow> bench_env \<Rightarrow> bench_env" where
  "fail_unissued wk env =
     (if be_next env < bw_end wk
      then env\<lparr>be_stats := record_failures (bw_end wk - be_next env) (be_stats env), be_next := bw_end wk\<rparr>
      else env)"

fun fail_connections :: "client_conn list \<Rightarrow> bench_env \<Rightarrow> client_conn list \<times> bench_env" where
  "fail_connections [] env = ([], env)"
| "fail_connections (c # cs) env =
     (if cc_active c
      then case fail_all (cc_tracker c) (be_stats env) of
        (n_failed, tr, st) \<Rightarrow>
          (case fail_connections cs (env\<lparr>be_stats := st\<rparr>) of
             (cs', env') \<Rightarrow> (c\<lparr>cc_tracker := tr, cc_active := False, cc_interest := 0\<rparr> # cs', env'))
      else case fail_connections cs env of (cs', env') \<Rightarrow> (c # cs', env'))"

definition fail_everything :: "bench_work \<Rightarrow> client_conn list \<Rightarrow> bench_env \<Rightarrow> client_conn list \<times> bench_env" where
  "fail_everything wk cs env = (case fail_connections cs env of (cs', env') \<Rightarrow> (cs', fail_unissued wk env'))"

section \<open>The event loop of a worker\<close>

text \<open>
  An event: the descriptor, the flags, and what the system calls made for it will return.
\<close>

record bench_event =
  ev_fd :: int
  ev_flags :: u32
  ev_sends :: "send_result list"
  ev_recvs :: "recv_result list"
  ev_modify :: "string option"

text \<open>Writing and reading for an event: is the connection to be kept?\<close>

definition event_io :: "bench_work \<Rightarrow> bench_event \<Rightarrow> client_conn \<Rightarrow> bench_env \<Rightarrow> bool bench_step" where
  "event_io wk ev c env =
     (let keep0 = (ev_flags ev AND EPOLLERR = 0)
      in case (if keep0 \<and> ev_flags ev AND EPOLLOUT \<noteq> 0 then bench_writable (ev_sends ev) c else Some (keep0, c)) of
           None \<Rightarrow> None
         | Some (keep1, c1) \<Rightarrow>
             (case (if keep1 \<and> ev_flags ev AND (EPOLLIN OR EPOLLRDHUP OR EPOLLHUP) \<noteq> 0
                    then bench_readable wk (ev_recvs ev) c1 env else Some (Inr keep1, c1, env)) of
                None \<Rightarrow> None
              | Some (Inl x, c2, env2) \<Rightarrow> Some (Inl x, c2, env2)
              | Some (Inr keep2, c2, env2) \<Rightarrow>
                  Some (Inr (keep2 \<and> ev_flags ev AND (EPOLLRDHUP OR EPOLLHUP) = 0), c2, env2)))"

definition event_attempt :: "bench_work \<Rightarrow> bench_event \<Rightarrow> client_conn \<Rightarrow> bench_env \<Rightarrow> unit bench_step" where
  "event_attempt wk ev c env =
     (case event_io wk ev c env of
        None \<Rightarrow> None
      | Some (Inl x, c1, env1) \<Rightarrow> Some (Inl x, c1, env1)
      | Some (Inr keep, c1, env1) \<Rightarrow>
          (if \<not> keep
           then (case fail_connection ''benchmark connection closed'' c1 env1 of
                   (c2, env2) \<Rightarrow> Some (Inr (), c2, env2))
           else case fill_pipeline wk c1 env1 of
                  None \<Rightarrow> None
                | Some (Inl x, c2, env2) \<Rightarrow> Some (Inl x, c2, env2)
                | Some (Inr _, c2, env2) \<Rightarrow>
                    (case update_interest (ev_modify ev) c2 of (r, c3) \<Rightarrow> Some (r, c3, env2))))"

definition handle_event ::
    "bench_work \<Rightarrow> bench_event \<Rightarrow> client_conn \<Rightarrow> bench_env \<Rightarrow> (client_conn \<times> bench_env) option" where
  "handle_event wk ev c env =
     (if \<not> cc_active c then Some (c, env)
      else case event_attempt wk ev c env of
        None \<Rightarrow> None
      | Some (Inl x, c1, env1) \<Rightarrow> Some (fail_connection (exn_what x) c1 env1)
      | Some (Inr _, c1, env1) \<Rightarrow> Some (c1, env1))"

fun handle_events ::
    "bench_work \<Rightarrow> (int \<times> nat) list \<Rightarrow> bench_event list \<Rightarrow> client_conn list \<Rightarrow> bench_env \<Rightarrow>
       (client_conn list \<times> bench_env) option" where
  "handle_events wk indexes [] cs env = Some (cs, env)"
| "handle_events wk indexes (ev # evs) cs env =
     (case map_of indexes (ev_fd ev) of
        None \<Rightarrow> handle_events wk indexes evs cs env
      | Some i \<Rightarrow>
          (if i \<ge> length cs then None
           else case handle_event wk ev (cs ! i) env of
             None \<Rightarrow> None
           | Some (c, env1) \<Rightarrow> handle_events wk indexes evs (cs[i := c]) env1))"

datatype bench_wait = Wait_interrupted | Wait_failed string | Wait_ready "bench_event list"

definition active_connection_count :: "client_conn list \<Rightarrow> nat" where
  "active_connection_count cs = length (filter cc_active cs)"

fun run_loop ::
    "bench_work \<Rightarrow> (int \<times> nat) list \<Rightarrow> bench_wait list \<Rightarrow> client_conn list \<Rightarrow> bench_env \<Rightarrow>
       ((exn + unit) \<times> client_conn list \<times> bench_env) option" where
  "run_loop wk indexes waits cs env =
     (if \<not> handled (be_stats env) < bw_end wk - bw_begin wk then Some (Inr (), cs, env)
      else if active_connection_count cs = 0 then Some (Inr (), cs, fail_unissued wk env)
      else case waits of
        [] \<Rightarrow> Some (Inl (Runtime_error ''benchmark I/O timed out''), cs, env)
      | Wait_interrupted # later \<Rightarrow> run_loop wk indexes later cs env
      | Wait_failed m # later \<Rightarrow> Some (Inl (throw_system_error ''benchmark epoll_wait failed'' m), cs, env)
      | Wait_ready evs # later \<Rightarrow>
          (if evs = [] then Some (Inl (Runtime_error ''benchmark I/O timed out''), cs, env)
           else case handle_events wk indexes evs cs env of
             None \<Rightarrow> None
           | Some (cs1, env1) \<Rightarrow> run_loop wk indexes later cs1 env1))"

declare run_loop.simps [simp del]

text \<open>The first round, before any event; \<open>modify i\<close> is the result of \<^verbatim>\<open>epoll_ctl\<close> for connection \<open>i\<close>.\<close>

fun fill_all ::
    "bench_work \<Rightarrow> (nat \<Rightarrow> string option) \<Rightarrow> nat \<Rightarrow> client_conn list \<Rightarrow> bench_env \<Rightarrow>
       ((exn + unit) \<times> client_conn list \<times> bench_env) option" where
  "fill_all wk modify i [] env = Some (Inr (), [], env)"
| "fill_all wk modify i (c # cs) env =
     (case fill_pipeline wk c env of
        None \<Rightarrow> None
      | Some (Inl x, c1, env1) \<Rightarrow> Some (Inl x, c1 # cs, env1)
      | Some (Inr _, c1, env1) \<Rightarrow>
          (case update_interest (modify i) c1 of
             (Inl x, c2) \<Rightarrow> Some (Inl x, c2 # cs, env1)
           | (Inr _, c2) \<Rightarrow>
               map_option (\<lambda>(r, cs', env'). (r, c2 # cs', env')) (fill_all wk modify (Suc i) cs env1)))"

definition run_attempt ::
    "bench_work \<Rightarrow> (int \<times> nat) list \<Rightarrow> (nat \<Rightarrow> string option) \<Rightarrow> bench_wait list \<Rightarrow> client_conn list \<Rightarrow> bench_env \<Rightarrow>
       ((exn + unit) \<times> client_conn list \<times> bench_env) option" where
  "run_attempt wk indexes modify waits cs env =
     (case fill_all wk modify 0 cs env of
        None \<Rightarrow> None
      | Some (Inl x, cs1, env1) \<Rightarrow> Some (Inl x, cs1, env1)
      | Some (Inr _, cs1, env1) \<Rightarrow> run_loop wk indexes waits cs1 env1)"

text \<open>\<^verbatim>\<open>run\<close> does not let exceptions out: if even the error cannot be recorded, the program ends.\<close>

definition worker_run ::
    "bench_work \<Rightarrow> (int \<times> nat) list \<Rightarrow> (nat \<Rightarrow> string option) \<Rightarrow> bench_wait list \<Rightarrow> client_conn list \<Rightarrow> heap \<Rightarrow>
       statistics option" where
  "worker_run wk indexes modify waits cs h =
     (case run_attempt wk indexes modify waits cs
             \<lparr>be_next = bw_begin wk, be_stats = new_statistics, be_heap = h, be_calls = 0\<rparr> of
        None \<Rightarrow> None
      | Some (Inr _, cs1, env1) \<Rightarrow> Some (be_stats env1)
      | Some (Inl x, cs1, env1) \<Rightarrow>
          (case record_error (exn_what x) (be_stats env1) (be_heap env1) of
             (Inl _, st, h1) \<Rightarrow> None
           | (Inr _, st, h1) \<Rightarrow>
               (case fail_everything wk cs1 (env1\<lparr>be_stats := st, be_heap := h1\<rparr>) of
                  (cs2, env2) \<Rightarrow> Some (be_stats env2))))"

end
