(* ===== verification/Benchmark_Accounting.thy ===== *)
theory Benchmark_Accounting
  imports Benchmark_Worker
begin

text \<open>
  The accounting of a worker of the load generator: with memory at hand, every operation of its
  part of the plan is counted exactly once, as a success or as a failure, whatever the server
  and the network do in any finite number of reports before they fall silent. That the worker ends without
  waiting for the timeout, as long as something can be done, is in the theory \<^verbatim>\<open>Benchmark_Progress\<close>.
\<close>

section \<open>The invariant\<close>

definition stats_ok :: "statistics \<Rightarrow> bool" where
  "stats_ok st \<longleftrightarrow> st_get_hits st + st_get_misses st \<le> st_successful st \<and> length (st_latencies st) \<le> handled st"

text \<open>A bound for the bytes of a request, and one for the buffers.\<close>

definition frame_room :: "bench_work \<Rightarrow> nat" where
  "frame_room wk = request_header_size + max_key_length + length (bw_value wk)"

definition work_ok :: "bench_work \<Rightarrow> nat \<Rightarrow> bool" where
  "work_ok wk B \<longleftrightarrow>
     bw_begin wk \<le> bw_end wk \<and> bw_end wk \<le> length (bw_plan wk) \<and> plan_ok (length (bw_keys wk)) (bw_plan wk) \<and>
     (\<forall>k \<in> set (bw_keys wk). length k \<le> max_key_length) \<and> length (bw_value wk) \<le> max_value_length \<and>
     (bw_end wk - bw_begin wk) * frame_room wk \<le> B \<and> max_response_frame_size + read_chunk_size \<le> B \<and> B \<le> 2 ^ 60"

definition env_ok :: "bench_work \<Rightarrow> bench_env \<Rightarrow> bool" where
  "env_ok wk env \<longleftrightarrow>
     bw_begin wk \<le> be_next env \<and> be_next env \<le> bw_end wk \<and> oom (be_heap env) = [] \<and> stats_ok (be_stats env)"

definition tracker_ok :: "bench_work \<Rightarrow> bench_env \<Rightarrow> client_conn \<Rightarrow> bool" where
  "tracker_ok wk env c \<longleftrightarrow>
     distinct (map fst (cc_tracker c)) \<and>
     fst ` set (cc_tracker c) \<subseteq> op_request_id ` set (take (be_next env) (bw_plan wk))"

definition buffers_ok :: "bench_work \<Rightarrow> nat \<Rightarrow> bench_env \<Rightarrow> client_conn \<Rightarrow> bool" where
  "buffers_ok wk B env c \<longleftrightarrow>
     buffer_inv (cc_input c) \<and> storage_capacity (cc_input c) \<le> 2 * B \<and>
     buffer_inv (cc_output c) \<and> storage_capacity (cc_output c) \<le> 2 * B \<and>
     readable_bytes (cc_output c) \<le> (be_next env - bw_begin wk) * frame_room wk"

definition cc_live :: "bench_work \<Rightarrow> nat \<Rightarrow> bench_env \<Rightarrow> client_conn \<Rightarrow> bool" where
  "cc_live wk B env c \<longleftrightarrow>
     tracker_ok wk env c \<and> buffers_ok wk B env c \<and> readable_bytes (cc_input c) < max_response_frame_size"

definition balance :: "bench_work \<Rightarrow> client_conn \<Rightarrow> bench_env \<Rightarrow> nat" where
  "balance wk c env = handled (be_stats env) + length (cc_tracker c) + (bw_end wk - be_next env)"

text \<open>
  What is left to do, as a number: the bytes to send and the bytes that may still arrive for the requests
  of a connection, and what the operations that have not been issued will add to that.
\<close>

definition conn_load :: "client_conn \<Rightarrow> int" where
  "conn_load c =
     (if cc_active c
      then 1 + int (readable_bytes (cc_output c)) + int (max_response_frame_size * Suc (length (cc_tracker c))) -
           int (readable_bytes (cc_input c))
      else 0)"

definition plan_load :: "bench_work \<Rightarrow> bench_env \<Rightarrow> int" where
  "plan_load wk env = int ((bw_end wk - be_next env) * (max_response_frame_size + frame_room wk))"

lemma plan_load_mono: "be_next env \<le> be_next env' \<Longrightarrow> plan_load wk env' \<le> plan_load wk env"
  unfolding plan_load_def by (intro zle_int [THEN iffD2] mult_le_mono1 diff_le_mono2)

lemma plan_load_next:
  "be_next env < bw_end wk \<Longrightarrow>
     plan_load wk (env\<lparr>be_next := Suc (be_next env), be_calls := n\<rparr>) + int (max_response_frame_size + frame_room wk) =
       plan_load wk env"
  unfolding plan_load_def by (subst Suc_diff_Suc [symmetric]) (auto simp del: of_nat_add of_nat_mult simp flip: of_nat_add)

text \<open>What a step of a connection promises; what it leaves of the buffers matters only if nothing was thrown.\<close>

definition step_ok ::
    "bench_work \<Rightarrow> nat \<Rightarrow> client_conn \<Rightarrow> bench_env \<Rightarrow> bool \<Rightarrow> client_conn \<Rightarrow> bench_env \<Rightarrow> bool" where
  "step_ok wk B c env fine c' env' \<longleftrightarrow>
     env_ok wk env' \<and> be_next env \<le> be_next env' \<and> balance wk c' env' = balance wk c env \<and>
     cc_active c' = cc_active c \<and>
     (fine \<longrightarrow> cc_live wk B env' c' \<and> conn_load c' + plan_load wk env' \<le> conn_load c + plan_load wk env)"

lemma step_ok_trans:
  "step_ok wk B c env True c1 env1 \<Longrightarrow> step_ok wk B c1 env1 fine c2 env2 \<Longrightarrow> step_ok wk B c env fine c2 env2"
  by (auto simp: step_ok_def)

section \<open>Issuing requests\<close>

lemma encode_planned_ok:
  assumes "work_ok wk B" and "p \<in> set (bw_plan wk)" and "oom h = []"
  shows "\<exists>bytes. encode_planned (planned_request (bw_keys wk) (bw_value wk) p) h = (Inr bytes, h) \<and>
           length bytes \<le> frame_room wk"
proof -
  let ?r = "planned_request (bw_keys wk) (bw_value wk) p"
  have p: "op_opcode p = opcode_get \<or> op_opcode p = opcode_set" "op_key_index p < length (bw_keys wk)"
    using assms(1,2) by (auto simp: work_ok_def plan_ok_def)
  have key: "length (bw_keys wk ! op_key_index p) \<le> max_key_length" using assms(1) nth_mem [OF p(2)] by (simp add: work_ok_def)
  have "encodable ?r"
    using p(1) key assms(1) by (auto simp: encodable_def planned_request_def new_request_def is_valid_opcode_def work_ok_def)
  then have "encode_planned ?r h = (Inr (request_frame ?r), h)"
    using encode_request_accepts assms(3) by (simp add: encode_planned_def string_assign_cases(2))
  moreover have "length (request_frame ?r) \<le> frame_room wk"
    using key by (simp add: length_request_frame planned_request_def frame_room_def)
  ultimately show ?thesis by blast
qed

lemma fresh_id:
  assumes "plan_ok k plan" and "n < length plan"
  shows "op_request_id (plan ! n) \<notin> op_request_id ` set (take n plan)"
proof
  assume "op_request_id (plan ! n) \<in> op_request_id ` set (take n plan)"
  then obtain i where i: "i < n" "op_request_id (plan ! i) = op_request_id (plan ! n)"
    using assms(2) by (auto simp: in_set_conv_nth)
  have "distinct (map op_request_id plan)" using assms(1) by (simp add: plan_ok_def)
  from nth_eq_iff_index_eq [OF this, of i n] i assms(2) show False by simp
qed

lemma issue_operation_ok:
  assumes wk: "work_ok wk B" and env: "env_ok wk env" and live: "cc_live wk B env c" and more: "be_next env < bw_end wk"
  shows "\<exists>c' env'. issue_operation wk c env = Some (Inr (), c', env') \<and> step_ok wk B c env True c' env'"
proof -
  let ?p = "bw_plan wk ! be_next env" and ?F = "frame_room wk"
  have n: "be_next env < length (bw_plan wk)" using wk more by (simp add: work_ok_def)
  then have p: "?p \<in> set (bw_plan wk)" by simp
  then have key: "op_key_index ?p < length (bw_keys wk)" using wk by (auto simp: work_ok_def plan_ok_def)
  have h: "oom (be_heap env) = []" using env by (simp add: env_ok_def)
  obtain bytes where enc: "encode_planned (planned_request (bw_keys wk) (bw_value wk) ?p) (be_heap env) = (Inr bytes, be_heap env)"
    and len: "length bytes \<le> ?F" using encode_planned_ok [OF wk p h] by blast
  have out: "buffer_inv (cc_output c)" "storage_capacity (cc_output c) \<le> 2 * B"
    "readable_bytes (cc_output c) \<le> (be_next env - bw_begin wk) * ?F" using live by (auto simp: cc_live_def buffers_ok_def)
  have grow: "(be_next env - bw_begin wk) * ?F + ?F = (Suc (be_next env) - bw_begin wk) * ?F"
    using env by (simp add: env_ok_def Suc_diff_le)
  also have "\<dots> \<le> (bw_end wk - bw_begin wk) * ?F" using more by (intro mult_le_mono1) simp
  also have "\<dots> \<le> B" using wk by (simp add: work_ok_def)
  finally have need: "readable_bytes (cc_output c) + length bytes \<le> B" using out(3) len by linarith
  have B: "B \<le> 2 ^ 60" using wk by (simp add: work_ok_def)
  from append_view_bounded [OF out(1) h out(2) need B] obtain b where
    ap: "append_view bytes (cc_output c) (be_heap env) = Some (Inr (), b, be_heap env)" "storage_capacity b \<le> 2 * B" by blast
  note b = append_view_length [OF out(1) ap(1)]
  have "plan_ok (length (bw_keys wk)) (bw_plan wk)" using wk by (simp add: work_ok_def)
  from fresh_id [OF this n] have "op_request_id ?p \<notin> fst ` set (cc_tracker c)"
    using live unfolding cc_live_def tracker_ok_def by blast
  then have fresh: "map_of (cc_tracker c) (op_request_id ?p) = None" by (simp add: map_of_eq_None_iff)
  let ?tr = "(op_request_id ?p, op_opcode ?p, bw_clock wk (be_calls env)) # cc_tracker c"
  let ?c = "c\<lparr>cc_output := b, cc_tracker := ?tr\<rparr>"
    and ?env = "env\<lparr>be_next := be_next env + 1, be_calls := be_calls env + 1\<rparr>"
  have run: "issue_operation wk c env = Some (Inr (), ?c, ?env)"
    using n key enc ap(1) fresh h by (simp add: issue_operation_def Let_def tracker_add_def)
  have "readable_bytes b \<le> (Suc (be_next env) - bw_begin wk) * ?F" using b(3) out(3) len grow by linarith
  then have "cc_live wk B ?env ?c"
    using live b(1) ap(2) n \<open>op_request_id ?p \<notin> fst ` set (cc_tracker c)\<close>
    by (auto simp: cc_live_def buffers_ok_def tracker_ok_def take_Suc_conv_app_nth)
  moreover have "env_ok wk ?env" "balance wk ?c ?env = balance wk c env"
    using env more by (auto simp: env_ok_def balance_def)
  moreover have "conn_load ?c + plan_load wk ?env \<le> conn_load c + plan_load wk env"
    using plan_load_next [OF more, of "be_calls env + 1"] b(3) len by (simp add: conn_load_def)
  ultimately show ?thesis using run by (simp add: step_ok_def)
qed

lemma fill_pipeline_ok:
  assumes "work_ok wk B" and "env_ok wk env" and "cc_live wk B env c"
  shows "\<exists>c' env'. fill_pipeline wk c env = Some (Inr (), c', env') \<and> step_ok wk B c env True c' env'"
  using assms
proof (induction wk c env rule: fill_pipeline.induct)
  case (1 wk c env)
  show ?case
  proof (cases "length (cc_tracker c) < bw_pipeline wk \<and> be_next env < bw_end wk")
    case True
    from issue_operation_ok [OF "1.prems"] True obtain c1 env1 where
      i: "issue_operation wk c env = Some (Inr (), c1, env1)" "step_ok wk B c env True c1 env1" by blast
    then have "env_ok wk env1" "cc_live wk B env1 c1" by (auto simp: step_ok_def)
    from "1.IH" [OF True i(1) refl refl refl "1.prems"(1) this] i True step_ok_trans [OF i(2)]
    show ?thesis by (auto simp: fill_pipeline.simps [of wk c env])
  next
    case False
    then show ?thesis using "1.prems" by (auto simp: fill_pipeline.simps [of wk c env] step_ok_def)
  qed
qed

section \<open>Reading and writing\<close>

lemma bench_writable_ok:
  assumes "cc_live wk B env c"
  shows "\<exists>keep c'. bench_writable ss c = Some (keep, c') \<and> cc_live wk B env c' \<and>
           cc_tracker c' = cc_tracker c \<and> cc_active c' = cc_active c \<and> conn_load c' \<le> conn_load c"
  using assms
proof (induction ss arbitrary: c)
  case (Cons s ss)
  show ?case
  proof (cases "buffer_empty (cc_output c)")
    case False
    show ?thesis
    proof (cases s)
      case (Sent n)
      let ?n = "min n (readable_bytes (cc_output c))"
      have out: "buffer_inv (cc_output c)" using Cons.prems by (simp add: cc_live_def buffers_ok_def)
      then have "?n \<le> length (readable_view (cc_output c))" by (simp add: length_readable_view)
      from bytes_in.retrieve_ok [OF out this] obtain b where
        b: "retrieve ?n (cc_output c) = Some b" "buffer_inv b" "readable_view b = drop ?n (readable_view (cc_output c))" by blast
      have "readable_bytes b \<le> readable_bytes (cc_output c)"
        using arg_cong [OF b(3), of length] length_readable_view out b(2) by simp
      then have "cc_live wk B env (c\<lparr>cc_output := b\<rparr>)"
        using Cons.prems b(2) retrieve_capacity [OF b(1)] by (auto simp: cc_live_def buffers_ok_def tracker_ok_def)
      moreover have "conn_load (c\<lparr>cc_output := b\<rparr>) \<le> conn_load c"
        using \<open>readable_bytes b \<le> readable_bytes (cc_output c)\<close> by (simp add: conn_load_def)
      ultimately show ?thesis using Cons.IH [of "c\<lparr>cc_output := b\<rparr>"] Sent False b(1) Cons.prems by fastforce
    qed (use Cons False in auto)
  qed (use Cons in auto)
qed auto

lemma record_response_ok:
  assumes "oom h = []" and "stats_ok st"
  shows "\<exists>st'. record_response oc wire latency st h = (Inr (), st', h) \<and>
           stats_ok st' \<and> handled st' = Suc (handled st)"
  using assms by (auto simp: record_response_def Let_def stats_ok_def handled_def)

lemma tracker_complete_ok:
  assumes "oom h = []" and "stats_ok st" and "distinct (map fst tr)"
  shows "\<exists>q tr' st'. tracker_complete resp finish tr st h = (q, tr', st', h) \<and> stats_ok st' \<and>
           distinct (map fst tr') \<and> set tr' \<subseteq> set tr \<and> handled st' + length tr' = handled st + length tr \<and>
           (q = Inr () \<longrightarrow> length tr = Suc (length tr'))"
proof (cases "map_of tr (response_id resp)")
  case None
  then show ?thesis using assms by (auto simp: tracker_complete_def)
next
  case (Some v)
  obtain oc start where v: "v = (oc, start)" by fastforce
  from record_response_ok [OF assms(1,2), of oc "status resp" "finish - start"] obtain st' where
    st: "record_response oc (status resp) (finish - start) st h = (Inr (), st', h)" "stats_ok st'" "handled st' = Suc (handled st)"
    by blast
  have "length tr = 1 + length (filter (\<lambda>p. fst p \<noteq> response_id resp) tr)"
    using sum_list_remove_key [OF assms(3) Some, of "\<lambda>_. 1"] by (simp add: sum_list_triv)
  then show ?thesis
    using Some v st filter_fst_distinct [OF assms(3)] by (auto simp: tracker_complete_def)
qed

text \<open>What one round of the decoding loop can do when memory suffices.\<close>

lemma decode_responses_cases:
  assumes inp: "buffer_inv (cc_input c)" and h: "oom (be_heap env) = []"
  obtains
    (empty) "readable_bytes (cc_input c) = 0" "decode_responses wk c env = Some (Inr (), c, env)"
  | (waits) "readable_bytes (cc_input c) < max_response_frame_size" "decode_responses wk c env = Some (Inr (), c, env)"
  | (fails) x where "decode_responses wk c env = Some (Inl x, c, env)"
  | (answer) resp b where "buffer_inv b" "storage_capacity b = storage_capacity (cc_input c)"
      "readable_bytes b < readable_bytes (cc_input c)"
      "readable_bytes (cc_input c) \<le> readable_bytes b + max_response_frame_size"
      "decode_responses wk c env =
         (case tracker_complete resp (bw_clock wk (be_calls env)) (cc_tracker c) (be_stats env) (be_heap env) of
            (q, tr, st, h1) \<Rightarrow>
              (let c2 = c\<lparr>cc_input := b, cc_tracker := tr\<rparr>;
                   env2 = env\<lparr>be_stats := st, be_heap := h1, be_calls := be_calls env + 1\<rparr>
               in case q of Inl x \<Rightarrow> Some (Inl x, c2, env2) | Inr _ \<Rightarrow> decode_responses wk c2 env2))"
proof (cases "buffer_empty (cc_input c)")
  case True
  then show ?thesis using empty by (simp add: decode_responses.simps [of wk c env] buffer_empty_def)
next
  case False
  from responses.decode_total [OF inp] obtain r b resp err h' where
    dec: "decode_response (cc_input c) new_response no_error (be_heap env) = Some (r, b, resp, err, h')"
    and b: "buffer_inv b"
    and what: "case r of Inl x \<Rightarrow> x = Bad_alloc \<and> b = cc_input c
        | Inr Decode_incomplete \<Rightarrow> b = cc_input c \<and> readable_bytes (cc_input c) < max_response_frame_size
        | Inr Decode_error \<Rightarrow> b = cc_input c
        | Inr Decode_complete \<Rightarrow> response_encodable resp \<and>
            readable_view (cc_input c) = response_frame resp @ readable_view b" by blast
  have mem: "storage_capacity b = storage_capacity (cc_input c)" "h' = be_heap env" "\<forall>x. r \<noteq> Inl x"
    using responses.decode_memory [OF inp dec] h by auto
  note step = decode_responses.simps [of wk c env, unfolded dec, simplified False mem(2), simplified]
  have keep: "c\<lparr>cc_input := b\<rparr> = c" if "b = cc_input c" using that by simp
  consider "r = Inr Decode_incomplete" | "r = Inr Decode_error" | "r = Inr Decode_complete"
    using mem(3) by (cases r) (auto intro: decode_result.exhaust)
  then show ?thesis
  proof cases
    case 1
    with waits step what keep show ?thesis by simp
  next
    case 2
    with fails step what keep show ?thesis by simp
  next
    case 3
    have "length (response_frame resp) > 0" "length (response_frame resp) \<le> max_response_frame_size"
      using what 3 responses.frame_size [of resp] by auto
    moreover have "readable_bytes (cc_input c) = length (response_frame resp) + readable_bytes b"
      using what 3 length_readable_view [OF b] length_readable_view [OF inp] by simp
    ultimately have "readable_bytes b < readable_bytes (cc_input c)"
      "readable_bytes (cc_input c) \<le> readable_bytes b + max_response_frame_size" by linarith+
    from answer [OF b mem(1) this] step 3 show ?thesis by (simp add: Let_def)
  qed
qed

lemma decode_responses_ok:
  assumes "env_ok wk env" and "tracker_ok wk env c" and "buffers_ok wk B env c"
  shows "\<exists>r c' env'. decode_responses wk c env = Some (r, c', env') \<and> step_ok wk B c env (r = Inr ()) c' env'"
  using assms
proof (induction "readable_bytes (cc_input c)" arbitrary: c env rule: less_induct)
  case less
  note env = less.prems(1) and tr = less.prems(2) and bufs = less.prems(3)
  have inp: "buffer_inv (cc_input c)" using bufs by (simp add: buffers_ok_def)
  have h: "oom (be_heap env) = []" using env by (simp add: env_ok_def)
  from inp h show ?case
  proof (cases rule: decode_responses_cases [where wk = wk])
    case (answer resp b)
    from tracker_complete_ok [OF h, of "be_stats env" "cc_tracker c" resp "bw_clock wk (be_calls env)"] env tr
    obtain q tr' st where
      t: "tracker_complete resp (bw_clock wk (be_calls env)) (cc_tracker c) (be_stats env) (be_heap env) = (q, tr', st, be_heap env)"
        "stats_ok st" "distinct (map fst tr')" "set tr' \<subseteq> set (cc_tracker c)"
        "handled st + length tr' = handled (be_stats env) + length (cc_tracker c)"
        "q = Inr () \<longrightarrow> length (cc_tracker c) = Suc (length tr')"
      by (auto simp: env_ok_def tracker_ok_def)
    let ?c = "c\<lparr>cc_input := b, cc_tracker := tr'\<rparr>"
      and ?env = "env\<lparr>be_stats := st, be_heap := be_heap env, be_calls := Suc (be_calls env)\<rparr>"
    have env1: "env_ok wk ?env" and tr1: "tracker_ok wk ?env ?c" and bufs1: "buffers_ok wk B ?env ?c"
      and bal: "balance wk ?c ?env = balance wk c env"
      using env tr t bufs answer(1,2) by (auto simp: env_ok_def tracker_ok_def buffers_ok_def balance_def)
    have run: "decode_responses wk c env =
        (case q of Inl x \<Rightarrow> Some (Inl x, ?c, ?env) | Inr _ \<Rightarrow> decode_responses wk ?c ?env)"
      using answer(5) t(1) by (simp add: Let_def)
    have load: "conn_load ?c + plan_load wk ?env \<le> conn_load c + plan_load wk env" if "q = Inr ()"
      using t(6) that answer(4) by (simp add: conn_load_def plan_load_def)
    have "\<exists>r' c' env'. decode_responses wk ?c ?env = Some (r', c', env') \<and> step_ok wk B ?c ?env (r' = Inr ()) c' env'"
      using less.hyps [OF _ env1 tr1 bufs1] answer(3) by simp
    then show ?thesis using run env1 bal load by (cases q) (fastforce simp: step_ok_def)+
  qed (use env tr bufs in \<open>auto simp: step_ok_def cc_live_def\<close>)
qed

lemma receive_ok:
  assumes "work_ok wk B" and "env_ok wk env" and "cc_live wk B env c" and "bs \<noteq> []"
  obtains b r c1 env1 where
    "append_view (take read_chunk_size bs) (cc_input c) (be_heap env) = Some (Inr (), b, be_heap env)"
    "decode_responses wk (c\<lparr>cc_input := b\<rparr>) env = Some (r, c1, env1)"
    "step_ok wk B c env (r = Inr ()) c1 env1"
    "r = Inr () \<and> cc_active c \<longrightarrow> conn_load c1 + plan_load wk env1 < conn_load c + plan_load wk env"
proof -
  let ?bs = "take read_chunk_size bs"
  have inp: "buffer_inv (cc_input c)" "storage_capacity (cc_input c) \<le> 2 * B"
    using assms(3) by (auto simp: cc_live_def buffers_ok_def)
  have h: "oom (be_heap env) = []" using assms(2) by (simp add: env_ok_def)
  have B: "readable_bytes (cc_input c) + length ?bs \<le> B" "B \<le> 2 ^ 60"
    using assms(1,3) by (auto simp: work_ok_def cc_live_def)
  from append_view_bounded [OF inp(1) h inp(2) B] obtain b where
    ap: "append_view ?bs (cc_input c) (be_heap env) = Some (Inr (), b, be_heap env)" "storage_capacity b \<le> 2 * B" by blast
  let ?c = "c\<lparr>cc_input := b\<rparr>"
  have "tracker_ok wk env ?c" "buffers_ok wk B env ?c"
    using assms(3) ap(2) append_view_length(1) [OF inp(1) ap(1)]
    by (auto simp: cc_live_def tracker_ok_def buffers_ok_def)
  from decode_responses_ok [OF assms(2) this] obtain r c1 env1 where
    d: "decode_responses wk ?c env = Some (r, c1, env1)" "step_ok wk B ?c env (r = Inr ()) c1 env1" by blast
  have load: "conn_load ?c \<le> conn_load c" "cc_active c \<Longrightarrow> conn_load ?c < conn_load c"
    using append_view_length(3) [OF inp(1) ap(1)] assms(4) by (auto simp: conn_load_def)
  with d have d': "step_ok wk B c env (r = Inr ()) c1 env1" by (auto simp: step_ok_def balance_def)
  have "conn_load c1 + plan_load wk env1 < conn_load c + plan_load wk env" if "r = Inr ()" "cc_active c"
    using d(2) load(2) that by (auto simp: step_ok_def)
  with that ap(1) d(1) d' show thesis by blast
qed

lemma bench_readable_ok:
  assumes "work_ok wk B" and "env_ok wk env" and "cc_live wk B env c"
  shows "\<exists>r c' env'. bench_readable wk rs c env = Some (r, c', env') \<and>
           step_ok wk B c env (r = Inr True \<or> r = Inr False) c' env'"
  using assms(2,3)
proof (induction rs arbitrary: c env)
  case (Cons x rs)
  have stay: "step_ok wk B c env fine c env" for fine using Cons.prems by (simp add: step_ok_def)
  show ?case
  proof (cases x)
    case (Received bs)
    show ?thesis
    proof (cases "bs = []")
      case False
      from receive_ok [OF assms(1) Cons.prems False] obtain b r c1 env1 where
        ap: "append_view (take read_chunk_size bs) (cc_input c) (be_heap env) = Some (Inr (), b, be_heap env)"
        and d: "decode_responses wk (c\<lparr>cc_input := b\<rparr>) env = Some (r, c1, env1)"
        and d': "step_ok wk B c env (r = Inr ()) c1 env1" .
      have env': "env\<lparr>be_heap := be_heap env\<rparr> = env" by simp
      show ?thesis
      proof (cases r)
        case (Inl y)
        then show ?thesis using Received False ap d d' env' by (auto simp: step_ok_def)
      next
        case (Inr u)
        then have s1: "step_ok wk B c env True c1 env1" using d' by simp
        then have "env_ok wk env1" "cc_live wk B env1 c1" by (auto simp: step_ok_def)
        from Cons.IH [OF this] obtain r2 c2 env2 where
          "bench_readable wk rs c1 env1 = Some (r2, c2, env2)"
          "step_ok wk B c1 env1 (r2 = Inr True \<or> r2 = Inr False) c2 env2" by blast
        with step_ok_trans [OF s1] Received False ap d Inr env' show ?thesis by auto
      qed
    qed (use Received stay in auto)
  qed (use Cons stay in auto)
qed (auto simp: step_ok_def)

section \<open>Events\<close>

lemma record_failures_ok:
  "stats_ok st \<Longrightarrow> stats_ok (record_failures n st)" "handled (record_failures n st) = handled st + n"
  by (simp_all add: record_failures_def stats_ok_def handled_def)

lemma record_error_ok:
  assumes "oom h = []" and "stats_ok st"
  shows "\<exists>st'. record_error m st h = (Inr (), st', h) \<and> stats_ok st' \<and> handled st' = handled st"
  using assms by (auto simp: record_error_def string_assign_cases(2) stats_ok_def handled_def)

definition conn_ok :: "bench_work \<Rightarrow> nat \<Rightarrow> bench_env \<Rightarrow> client_conn \<Rightarrow> bool" where
  "conn_ok wk B env c \<longleftrightarrow> (if cc_active c then cc_live wk B env c else cc_tracker c = [])"

text \<open>A connection that is given up leaves nothing in flight, and its requests count as failed.\<close>

lemma fail_connection_ok:
  assumes "env_ok wk env" and "cc_active c" and "fail_connection m c env = (c', env')"
  shows "env_ok wk env'" and "be_next env' = be_next env" and "balance wk c' env' = balance wk c env"
    and "\<not> cc_active c'" and "cc_tracker c' = []"
proof -
  let ?st = "record_failures (length (cc_tracker c)) (be_stats env)"
  have st: "stats_ok ?st" "handled ?st = handled (be_stats env) + length (cc_tracker c)"
    using assms(1) record_failures_ok by (auto simp: env_ok_def)
  have h: "oom (be_heap env) = []" using assms(1) by (simp add: env_ok_def)
  from record_error_ok [OF h st(1), of m] obtain st' where
    st': "record_error m ?st (be_heap env) = (Inr (), st', be_heap env)" "stats_ok st'" "handled st' = handled ?st" by blast
  then show "env_ok wk env'" "be_next env' = be_next env" "balance wk c' env' = balance wk c env"
    "\<not> cc_active c'" "cc_tracker c' = []"
    using assms st by (auto simp: fail_connection_def fail_all_def Let_def env_ok_def balance_def split: if_splits)
qed

definition event_done ::
    "bench_work \<Rightarrow> nat \<Rightarrow> client_conn \<Rightarrow> bench_env \<Rightarrow> client_conn \<Rightarrow> bench_env \<Rightarrow> bool" where
  "event_done wk B c env c' env' \<longleftrightarrow>
     env_ok wk env' \<and> be_next env \<le> be_next env' \<and> balance wk c' env' = balance wk c env \<and> conn_ok wk B env' c' \<and>
     conn_load c' + plan_load wk env' \<le> conn_load c + plan_load wk env"

lemma conn_load_live: "cc_live wk B env c \<Longrightarrow> cc_active c \<Longrightarrow> 0 < conn_load c"
  by (simp add: cc_live_def conn_load_def)

lemma fail_connection_done:
  assumes "step_ok wk B c env fine c1 env1" and "cc_active c" and "cc_live wk B env c"
  shows "case fail_connection m c1 env1 of (c2, env2) \<Rightarrow> event_done wk B c env c2 env2 \<and>
           conn_load c2 + plan_load wk env2 < conn_load c + plan_load wk env"
proof -
  obtain c2 env2 where f: "fail_connection m c1 env1 = (c2, env2)" by fastforce
  have "env_ok wk env1" "cc_active c1" using assms by (auto simp: step_ok_def)
  note g = fail_connection_ok [OF this f]
  have "plan_load wk env2 \<le> plan_load wk env" using assms(1) g(2) by (intro plan_load_mono) (simp add: step_ok_def)
  moreover have "conn_load c2 = 0" using g(4) by (simp add: conn_load_def)
  ultimately show ?thesis using g assms(1) f conn_load_live [OF assms(3,2)]
    by (auto simp: event_done_def step_ok_def conn_ok_def)
qed

lemma update_interest_ok:
  assumes "step_ok wk B c env True c1 env1" and "update_interest m c1 = (r, c2)"
  shows "step_ok wk B c env True c2 env1"
proof -
  have "cc_live wk B env1 (c1\<lparr>cc_interest := n\<rparr>) = cc_live wk B env1 c1" for n
    by (simp add: cc_live_def tracker_ok_def buffers_ok_def)
  moreover have "conn_load (c1\<lparr>cc_interest := n\<rparr>) = conn_load c1" for n by (simp add: conn_load_def)
  ultimately show ?thesis
    using assms by (cases m) (auto simp: update_interest_def step_ok_def balance_def)
qed

lemma event_io_ok:
  assumes wk: "work_ok wk B" and env: "env_ok wk env" and live: "cc_live wk B env c"
  shows "\<exists>r c' env'. event_io wk ev c env = Some (r, c', env') \<and> step_ok wk B c env (\<forall>x. r \<noteq> Inl x) c' env'"
proof -
  let ?w = "if ev_flags ev AND EPOLLERR = 0 \<and> ev_flags ev AND EPOLLOUT \<noteq> 0
            then bench_writable (ev_sends ev) c else Some (ev_flags ev AND EPOLLERR = 0, c)"
  have "\<exists>keep c1. ?w = Some (keep, c1) \<and> step_ok wk B c env True c1 env"
    using bench_writable_ok [OF live, of "ev_sends ev"] env live
    by (cases "ev_flags ev AND EPOLLERR = 0 \<and> ev_flags ev AND EPOLLOUT \<noteq> 0") (auto simp: step_ok_def balance_def)
  then obtain keep c1 where w: "?w = Some (keep, c1)" and s1: "step_ok wk B c env True c1 env" by blast
  then have live1: "cc_live wk B env c1" by (simp add: step_ok_def)
  let ?r = "if keep \<and> ev_flags ev AND (EPOLLIN OR EPOLLRDHUP OR EPOLLHUP) \<noteq> 0
            then bench_readable wk (ev_recvs ev) c1 env else Some (Inr keep, c1, env)"
  from bench_readable_ok [OF wk env live1, of "ev_recvs ev"] obtain r c2 env2 where
    b: "bench_readable wk (ev_recvs ev) c1 env = Some (r, c2, env2)"
      "step_ok wk B c1 env (r = Inr True \<or> r = Inr False) c2 env2" by blast
  have "(r = Inr True \<or> r = Inr False) = (\<forall>x. r \<noteq> Inl x)" by (cases r) auto
  then have "\<exists>r c2 env2. ?r = Some (r, c2, env2) \<and> step_ok wk B c env (\<forall>x. r \<noteq> Inl x) c2 env2"
    using b step_ok_trans [OF s1] s1 by auto
  then obtain r c2 env2 where r: "?r = Some (r, c2, env2)" "step_ok wk B c env (\<forall>x. r \<noteq> Inl x) c2 env2" by blast
  show ?thesis
    by (cases r) (use r(2) in \<open>simp_all only: event_io_def Let_def w r(1) option.case prod.case sum.case, auto\<close>)
qed

lemma event_attempt_ok:
  assumes wk: "work_ok wk B" and env: "env_ok wk env" and live: "cc_live wk B env c" and act: "cc_active c"
  shows "\<exists>r c' env'. event_attempt wk ev c env = Some (r, c', env') \<and>
           (case r of Inl x \<Rightarrow> step_ok wk B c env False c' env' | Inr _ \<Rightarrow> event_done wk B c env c' env')"
proof -
  from event_io_ok [OF wk env live, of ev] obtain r c1 env1 where
    io: "event_io wk ev c env = Some (r, c1, env1)" "step_ok wk B c env (\<forall>x. r \<noteq> Inl x) c1 env1" by blast
  show ?thesis
  proof (cases r)
    case (Inl x)
    then show ?thesis using io by (auto simp: event_attempt_def step_ok_def)
  next
    case (Inr keep)
    then have s1: "step_ok wk B c env True c1 env1" using io(2) by simp
    show ?thesis
    proof (cases keep)
      case False
      then show ?thesis
        using io Inr fail_connection_done [OF s1 act live, of "''benchmark connection closed''"]
        by (auto simp: event_attempt_def split: prod.splits)
    next
      case True
      from s1 have "env_ok wk env1" "cc_live wk B env1 c1" by (auto simp: step_ok_def)
      from fill_pipeline_ok [OF wk this] obtain c2 env2 where
        f: "fill_pipeline wk c1 env1 = Some (Inr (), c2, env2)" "step_ok wk B c1 env1 True c2 env2" by blast
      obtain q c3 where u: "update_interest (ev_modify ev) c2 = (q, c3)" by fastforce
      have s3: "step_ok wk B c env True c3 env2" using update_interest_ok [OF step_ok_trans [OF s1 f(2)] u] .
      have "event_attempt wk ev c env = Some (q, c3, env2)" using io Inr True f(1) u by (simp add: event_attempt_def)
      then show ?thesis using s3 act by (cases q) (auto simp: step_ok_def event_done_def conn_ok_def)
    qed
  qed
qed

lemma handle_event_ok:
  assumes wk: "work_ok wk B" and env: "env_ok wk env" and ok: "conn_ok wk B env c"
  shows "\<exists>c' env'. handle_event wk ev c env = Some (c', env') \<and> event_done wk B c env c' env'"
proof (cases "cc_active c")
  case True
  then have live: "cc_live wk B env c" using ok by (simp add: conn_ok_def)
  from event_attempt_ok [OF wk env live True, of ev] obtain r c1 env1 where
    e: "event_attempt wk ev c env = Some (r, c1, env1)"
      "case r of Inl x \<Rightarrow> step_ok wk B c env False c1 env1 | Inr _ \<Rightarrow> event_done wk B c env c1 env1" by blast
  show ?thesis
  proof (cases r)
    case (Inl x)
    then have "step_ok wk B c env False c1 env1" using e(2) by simp
    from fail_connection_done [OF this True live, of "exn_what x"] show ?thesis
      using e Inl True by (auto simp: handle_event_def split: prod.splits)
  qed (use e True in \<open>auto simp: handle_event_def\<close>)
qed (use env ok in \<open>auto simp: handle_event_def event_done_def\<close>)

section \<open>The whole worker\<close>

definition in_flight :: "client_conn list \<Rightarrow> nat" where
  "in_flight cs = (\<Sum>c\<leftarrow>cs. length (cc_tracker c))"

definition bench_inv :: "bench_work \<Rightarrow> nat \<Rightarrow> client_conn list \<Rightarrow> bench_env \<Rightarrow> bool" where
  "bench_inv wk B cs env \<longleftrightarrow>
     env_ok wk env \<and> (\<forall>c \<in> set cs. conn_ok wk B env c) \<and>
     handled (be_stats env) + in_flight cs + (bw_end wk - be_next env) = bw_end wk - bw_begin wk"

lemma conn_ok_mono:
  assumes "conn_ok wk B env c" and "be_next env \<le> be_next env'"
  shows "conn_ok wk B env' c"
proof (cases "cc_active c")
  case True
  then have live: "cc_live wk B env c" using assms(1) by (simp add: conn_ok_def)
  have "set (take (be_next env) (bw_plan wk)) \<subseteq> set (take (be_next env') (bw_plan wk))"
    using assms(2) by (rule set_take_subset_set_take)
  then have "tracker_ok wk env' c" using live unfolding cc_live_def tracker_ok_def by blast
  moreover have "buffers_ok wk B env' c"
  proof -
    have "readable_bytes (cc_output c) \<le> (be_next env - bw_begin wk) * frame_room wk"
      using live by (simp add: cc_live_def buffers_ok_def)
    also have "\<dots> \<le> (be_next env' - bw_begin wk) * frame_room wk" using assms(2) by (intro mult_le_mono1) simp
    finally show ?thesis using live by (simp add: cc_live_def buffers_ok_def)
  qed
  ultimately show ?thesis using True live by (simp add: conn_ok_def cc_live_def)
qed (use assms in \<open>simp add: conn_ok_def\<close>)

lemma in_flight_update:
  assumes "i < length cs"
  shows "in_flight (cs[i := c]) + length (cc_tracker (cs ! i)) = in_flight cs + length (cc_tracker c)"
proof -
  let ?f = "\<lambda>c. length (cc_tracker c)"
  have "?f (cs ! i) \<le> in_flight cs"
    using assms by (auto simp: in_flight_def intro!: member_le_sum_list)
  then show ?thesis
    using assms sum_list_update [of i "map ?f cs" "?f c"] by (simp add: in_flight_def map_update)
qed

lemma event_done_inv:
  assumes inv: "bench_inv wk B cs env" and ev: "event_done wk B (cs ! i) env c' env'" and i: "i < length cs"
  shows "bench_inv wk B (cs[i := c']) env'"
proof -
  have "\<forall>c \<in> set cs. conn_ok wk B env' c" using inv ev conn_ok_mono by (auto simp: bench_inv_def event_done_def)
  then have "\<forall>c \<in> set (cs[i := c']). conn_ok wk B env' c"
    using ev set_update_subset_insert [of cs i c'] by (auto simp: event_done_def)
  then show ?thesis
    using inv ev in_flight_update [OF i, of c'] by (auto simp: bench_inv_def event_done_def balance_def)
qed

lemma handle_events_ok:
  assumes "work_ok wk B" and "bench_inv wk B cs env" and "\<forall>(fd, i) \<in> set indexes. i < length cs"
  shows "\<exists>cs' env'. handle_events wk indexes evs cs env = Some (cs', env') \<and>
           bench_inv wk B cs' env' \<and> length cs' = length cs"
  using assms(2,3)
proof (induction evs arbitrary: cs env)
  case (Cons ev evs)
  show ?case
  proof (cases "map_of indexes (ev_fd ev)")
    case None
    then show ?thesis using Cons by simp
  next
    case (Some i)
    then have i: "i < length cs" using Cons.prems(2) map_of_SomeD by fastforce
    have "env_ok wk env" "conn_ok wk B env (cs ! i)" using Cons.prems(1) i by (auto simp: bench_inv_def)
    from handle_event_ok [OF assms(1) this, of ev] obtain c env1 where
      e: "handle_event wk ev (cs ! i) env = Some (c, env1)" "event_done wk B (cs ! i) env c env1" by blast
    from Cons.IH [OF event_done_inv [OF Cons.prems(1) e(2) i]] Cons.prems(2) show ?thesis
      using Some i e(1) by simp
  qed
qed simp

text \<open>When no connection is left, nothing is in flight, and the rest of the plan counts as failed.\<close>

lemma fail_unissued_ok:
  assumes "env_ok wk env"
  shows "env_ok wk (fail_unissued wk env)" and "be_next (fail_unissued wk env) = bw_end wk"
    and "handled (be_stats (fail_unissued wk env)) = handled (be_stats env) + (bw_end wk - be_next env)"
  using assms record_failures_ok by (auto simp: fail_unissued_def env_ok_def)

lemma fail_connections_ok:
  assumes "env_ok wk env" and "\<forall>c \<in> set cs. cc_active c \<or> cc_tracker c = []" and "fail_connections cs env = (cs', env')"
  shows "env_ok wk env' \<and> be_next env' = be_next env \<and>
         handled (be_stats env') = handled (be_stats env) + in_flight cs"
  using assms
proof (induction cs arbitrary: env cs' env')
  case (Cons c cs)
  let ?env = "if cc_active c then env\<lparr>be_stats := record_failures (length (cc_tracker c)) (be_stats env)\<rparr> else env"
  obtain cs1 env1 where f: "fail_connections cs ?env = (cs1, env1)" by fastforce
  have "env_ok wk ?env" using Cons.prems(1) record_failures_ok(1) by (simp add: env_ok_def)
  from Cons.IH [OF this _ f] Cons.prems(2)
  have "env_ok wk env1 \<and> be_next env1 = be_next ?env \<and> handled (be_stats env1) = handled (be_stats ?env) + in_flight cs"
    by simp
  moreover have "env' = env1" using Cons.prems(3) f by (auto simp: fail_all_def Let_def split: if_splits)
  moreover have "handled (be_stats ?env) = handled (be_stats env) + length (cc_tracker c)"
    using Cons.prems(2) record_failures_ok(2) by auto
  ultimately show ?case by (auto simp: in_flight_def)
qed (simp add: in_flight_def)

lemma fail_everything_ok:
  assumes "env_ok wk env" and "\<forall>c \<in> set cs. cc_active c \<or> cc_tracker c = []" and "fail_everything wk cs env = (cs', env')"
  shows "stats_ok (be_stats env') \<and>
         handled (be_stats env') = handled (be_stats env) + in_flight cs + (bw_end wk - be_next env)"
proof -
  obtain cs1 env1 where f: "fail_connections cs env = (cs1, env1)" by fastforce
  note g = fail_connections_ok [OF assms(1,2) f]
  have "env' = fail_unissued wk env1" using assms(3) f by (simp add: fail_everything_def)
  with g fail_unissued_ok [of wk env1] show ?thesis by (simp add: env_ok_def)
qed

lemma no_active_no_flight:
  assumes "bench_inv wk B cs env" and "active_connection_count cs = 0"
  shows "in_flight cs = 0"
proof -
  have "cc_tracker c = []" if "c \<in> set cs" for c
    using assms that by (auto simp: bench_inv_def conn_ok_def active_connection_count_def filter_empty_conv)
  then show ?thesis by (simp add: in_flight_def sum_list_eq_0_iff)
qed

definition run_done :: "bench_work \<Rightarrow> nat \<Rightarrow> (exn + unit) \<times> client_conn list \<times> bench_env \<Rightarrow> bool" where
  "run_done wk B = (\<lambda>(r, cs, env). stats_ok (be_stats env) \<and>
     (case r of Inl x \<Rightarrow> bench_inv wk B cs env | Inr _ \<Rightarrow> handled (be_stats env) = bw_end wk - bw_begin wk))"

lemma run_loop_ok:
  assumes "work_ok wk B" and "bench_inv wk B cs env" and "\<forall>(fd, i) \<in> set indexes. i < length cs"
  shows "\<exists>out. run_loop wk indexes waits cs env = Some out \<and> run_done wk B out"
  using assms(2,3)
proof (induction waits arbitrary: cs env)
  case Nil
  then show ?case
    using no_active_no_flight [OF Nil.prems(1)] fail_unissued_ok [of wk env]
    by (subst run_loop.simps) (auto simp: run_done_def bench_inv_def env_ok_def)
next
  case (Cons w waits)
  note inv = Cons.prems(1)
  show ?case
  proof (cases "handled (be_stats env) < bw_end wk - bw_begin wk \<and> active_connection_count cs \<noteq> 0")
    case False
    then show ?thesis
      using inv no_active_no_flight [OF inv] fail_unissued_ok [of wk env]
      by (subst run_loop.simps) (auto simp: run_done_def bench_inv_def env_ok_def)
  next
    case True
    show ?thesis
    proof (cases w)
      case Wait_interrupted
      then show ?thesis using True Cons.IH [OF Cons.prems] by (subst run_loop.simps) simp
    next
      case (Wait_failed m)
      then show ?thesis using True inv by (subst run_loop.simps) (auto simp: run_done_def bench_inv_def env_ok_def)
    next
      case (Wait_ready evs)
      from handle_events_ok [OF assms(1) Cons.prems, of evs] obtain cs1 env1 where
        h: "handle_events wk indexes evs cs env = Some (cs1, env1)" "bench_inv wk B cs1 env1" "length cs1 = length cs" by blast
      have timeout: "stats_ok (be_stats env)" using inv by (simp add: bench_inv_def env_ok_def)
      show ?thesis
        using True Wait_ready h Cons.IH [OF h(2)] Cons.prems(2) inv timeout
        by (subst run_loop.simps) (auto simp: run_done_def)
    qed
  qed
qed

lemma fill_all_ok:
  assumes "work_ok wk B" and "env_ok wk env" and "\<forall>c \<in> set cs. cc_active c \<and> cc_live wk B env c"
  shows "\<exists>r cs' env'. fill_all wk modify i cs env = Some (r, cs', env') \<and> env_ok wk env' \<and>
           be_next env \<le> be_next env' \<and> length cs' = length cs \<and> (\<forall>c \<in> set cs'. cc_active c \<and> cc_live wk B env' c) \<and>
           (\<Sum>c\<leftarrow>cs'. conn_load c) + plan_load wk env' \<le> (\<Sum>c\<leftarrow>cs. conn_load c) + plan_load wk env \<and>
           handled (be_stats env') + in_flight cs' + (bw_end wk - be_next env') =
             handled (be_stats env) + in_flight cs + (bw_end wk - be_next env)"
  using assms(2,3)
proof (induction cs arbitrary: i env)
  case (Cons c cs)
  from fill_pipeline_ok [OF assms(1) Cons.prems(1), of c] Cons.prems(2) obtain c1 env1 where
    f: "fill_pipeline wk c env = Some (Inr (), c1, env1)" "step_ok wk B c env True c1 env1" by auto
  obtain q c2 where u: "update_interest (modify i) c1 = (q, c2)" by fastforce
  have s2: "step_ok wk B c env True c2 env1" using update_interest_ok [OF f(2) u] .
  then have c2: "env_ok wk env1" "be_next env \<le> be_next env1" "cc_active c2" "cc_live wk B env1 c2"
    "balance wk c2 env1 = balance wk c env" "conn_load c2 + plan_load wk env1 \<le> conn_load c + plan_load wk env"
    using Cons.prems(2) by (auto simp: step_ok_def)
  have live: "\<forall>c \<in> set cs. cc_active c \<and> cc_live wk B env1 c"
    using Cons.prems(2) conn_ok_mono [OF _ c2(2)] by (auto simp: conn_ok_def)
  show ?case
  proof (cases q)
    case (Inl x)
    then show ?thesis using f u c2 live by (auto simp: balance_def in_flight_def)
  next
    case (Inr v)
    from Cons.IH [OF c2(1) live, of "Suc i"] obtain r cs' env' where
      a: "fill_all wk modify (Suc i) cs env1 = Some (r, cs', env')" "env_ok wk env'" "be_next env1 \<le> be_next env'"
        "length cs' = length cs" "\<forall>c \<in> set cs'. cc_active c \<and> cc_live wk B env' c"
        "(\<Sum>c\<leftarrow>cs'. conn_load c) + plan_load wk env' \<le> (\<Sum>c\<leftarrow>cs. conn_load c) + plan_load wk env1"
        "handled (be_stats env') + in_flight cs' + (bw_end wk - be_next env') =
           handled (be_stats env1) + in_flight cs + (bw_end wk - be_next env1)" by blast
    have "cc_live wk B env' c2" using conn_ok_mono [OF _ a(3), of wk B c2] c2(3,4) by (simp add: conn_ok_def)
    with a f u Inr c2 show ?thesis by (auto simp: balance_def in_flight_def)
  qed
qed simp

lemma worker_run_ok:
  assumes "work_ok wk B" and "oom h = []" and "\<forall>(fd, i) \<in> set indexes. i < length cs"
    and fresh: "\<forall>c \<in> set cs. cc_active c \<and> cc_tracker c = [] \<and>
      cc_live wk B \<lparr>be_next = bw_begin wk, be_stats = new_statistics, be_heap = h, be_calls = 0\<rparr> c"
  shows "\<exists>st. worker_run wk indexes modify waits cs h = Some st \<and> stats_ok st \<and>
           handled st = bw_end wk - bw_begin wk"
proof -
  let ?env = "\<lparr>be_next = bw_begin wk, be_stats = new_statistics, be_heap = h, be_calls = 0\<rparr>"
  have env: "env_ok wk ?env"
    using assms(1,2) by (simp add: env_ok_def work_ok_def stats_ok_def handled_def new_statistics_def)
  have zero: "in_flight cs = 0" using fresh by (simp add: in_flight_def sum_list_eq_0_iff)
  from fill_all_ok [OF assms(1) env, of cs modify 0] fresh obtain r cs1 env1 where
    f: "fill_all wk modify 0 cs ?env = Some (r, cs1, env1)" "env_ok wk env1" "length cs1 = length cs"
      "\<forall>c \<in> set cs1. cc_active c \<and> cc_live wk B env1 c"
      "handled (be_stats env1) + in_flight cs1 + (bw_end wk - be_next env1) = bw_end wk - bw_begin wk"
    using zero by (auto simp: handled_def new_statistics_def)
  then have inv1: "bench_inv wk B cs1 env1" by (auto simp: bench_inv_def conn_ok_def)
  have "\<exists>out. run_attempt wk indexes modify waits cs ?env = Some out \<and> run_done wk B out"
    using f(1,3) inv1 run_loop_ok [OF assms(1) inv1, of indexes waits] assms(3) f(2)
    by (cases r) (auto simp: run_attempt_def run_done_def bench_inv_def env_ok_def)
  then obtain q cs2 env2 where run: "run_attempt wk indexes modify waits cs ?env = Some (q, cs2, env2)"
    and fin: "run_done wk B (q, cs2, env2)" by auto
  show ?thesis
  proof (cases q)
    case (Inr u)
    then show ?thesis using run fin by (simp add: worker_run_def run_done_def)
  next
    case (Inl x)
    then have inv2: "bench_inv wk B cs2 env2" and st: "stats_ok (be_stats env2)" using fin by (auto simp: run_done_def)
    then have h2: "oom (be_heap env2) = []" by (simp add: bench_inv_def env_ok_def)
    from record_error_ok [OF h2 st, of "exn_what x"] obtain st3 where
      e: "record_error (exn_what x) (be_stats env2) (be_heap env2) = (Inr (), st3, be_heap env2)"
        "stats_ok st3" "handled st3 = handled (be_stats env2)" by blast
    let ?env3 = "env2\<lparr>be_stats := st3, be_heap := be_heap env2\<rparr>"
    obtain cs4 env4 where g: "fail_everything wk cs2 ?env3 = (cs4, env4)" by fastforce
    have "env_ok wk ?env3" "\<forall>c \<in> set cs2. cc_active c \<or> cc_tracker c = []"
      using inv2 e(2) unfolding bench_inv_def env_ok_def conn_ok_def by (auto split: if_splits)
    from fail_everything_ok [OF this g] have "stats_ok (be_stats env4)" "handled (be_stats env4) = bw_end wk - bw_begin wk"
      using inv2 e(3) by (auto simp: bench_inv_def)
    then show ?thesis using run Inl e(1) g by (simp add: worker_run_def)
  qed
qed

end
