(* ===== verification/Benchmark_Run.thy ===== *)
theory Benchmark_Run
  imports Benchmark_Accounting
begin

text \<open>
  A whole run of the load generator, \<^verbatim>\<open>benchmark/benchmark.cpp\<close> and \<^verbatim>\<open>benchmark/main.cpp\<close>: the workers
  with their connections, the threads that share a plan, the three phases, and the exit code.
  The threads share nothing they write, so the result of each is a function of what the system
  gives it; a thread that cannot be started is left out.
\<close>

section \<open>Starting a worker\<close>

text \<open>How the attempt to connect ends; a message is that of \<^verbatim>\<open>errno\<close>.\<close>

datatype bench_connect =
    Bc_socket_failed string
  | Bc_nodelay_failed string
  | Bc_host_invalid
  | Bc_connect_failed string
  | Bc_nonblock_failed string
  | Bc_connected int

definition connect_socket :: "bench_connect \<Rightarrow> exn + int" where
  "connect_socket outcome =
     (case outcome of
        Bc_socket_failed m \<Rightarrow> Inl (throw_system_error ''socket failed'' m)
      | Bc_nodelay_failed m \<Rightarrow> Inl (throw_system_error ''setsockopt TCP_NODELAY failed'' m)
      | Bc_host_invalid \<Rightarrow> Inl (Std_invalid_argument ''benchmark host must be an IPv4 address'')
      | Bc_connect_failed m \<Rightarrow> Inl (throw_system_error ''connect failed'' m)
      | Bc_nonblock_failed m \<Rightarrow> Inl (throw_system_error ''fcntl O_NONBLOCK failed'' m)
      | Bc_connected fd \<Rightarrow> Inr fd)"

text \<open>What the system gives a thread: results of its calls, a clock, and memory.\<close>

record thread_input =
  ti_epoll :: "string option"
  ti_connect :: "nat \<Rightarrow> bench_connect"
  ti_add :: "nat \<Rightarrow> string option"
  ti_modify :: "nat \<Rightarrow> string option"
  ti_waits :: "bench_wait list"
  ti_clock :: "nat \<Rightarrow> int"
  ti_heap :: heap

text \<open>The constructor of a connection: the two buffers.\<close>

definition new_client_conn :: "int \<Rightarrow> heap \<Rightarrow> (exn + client_conn) \<times> heap" where
  "new_client_conn fd h =
     (case new_buffer 4096 h of
        (Inl x, h1) \<Rightarrow> (Inl x, h1)
      | (Inr inp, h1) \<Rightarrow>
          (case new_buffer 4096 h1 of
             (Inl x, h2) \<Rightarrow> (Inl x, h2)
           | (Inr outp, h2) \<Rightarrow>
               (Inr \<lparr>cc_fd = fd, cc_input = inp, cc_output = outp, cc_tracker = [], cc_active = True,
                     cc_interest = 0\<rparr>, h2)))"

text \<open>The loop of the constructor of a worker: \<open>n\<close> connections are still to be made.\<close>

fun connect_all ::
    "thread_input \<Rightarrow> nat \<Rightarrow> client_conn list \<Rightarrow> (int \<times> nat) list \<Rightarrow> heap \<Rightarrow>
       (exn + client_conn list \<times> (int \<times> nat) list) \<times> heap" where
  "connect_all inp 0 cs indexes h = (Inr (cs, indexes), h)"
| "connect_all inp (Suc n) cs indexes h =
     (case connect_socket (ti_connect inp (length cs)) of
        Inl x \<Rightarrow> (Inl x, h)
      | Inr fd \<Rightarrow>
          (case new_client_conn fd h of
             (Inl x, h1) \<Rightarrow> (Inl x, h1)
           | (Inr c, h1) \<Rightarrow>
               (case container_alloc h1 of
                  (Inl x, h2) \<Rightarrow> (Inl x, h2)
                | (Inr _, h2) \<Rightarrow>
                    (let indexes' = (if map_of indexes fd = None then (fd, length cs) # indexes else indexes)
                     in case ti_add inp (length cs) of
                          Some m \<Rightarrow> (Inl (throw_system_error ''epoll_ctl add failed'' m), h2)
                        | None \<Rightarrow>
                            connect_all inp n (cs @ [c\<lparr>cc_interest := EPOLLIN OR EPOLLRDHUP\<rparr>]) indexes' h2))))"

text \<open>
  \<^verbatim>\<open>reserve\<close> on a new \<^verbatim>\<open>std::vector\<close> for \<open>n\<close> objects of \<open>width\<close> bytes. A connection has 136 bytes, a
  \<^verbatim>\<open>std::string\<close> 32, an operation 24, a \<^verbatim>\<open>Statistics\<close> object 80 and a \<^verbatim>\<open>std::thread\<close> 8.
\<close>

definition reserve :: "nat \<Rightarrow> nat \<Rightarrow> heap \<Rightarrow> (exn + unit) \<times> heap" where
  "reserve width n h =
     (if n > (2 ^ 63 - 1) div width then (Inl (Length_error ''vector::reserve''), h)
      else if n = 0 then (Inr (), h)
      else container_alloc h)"

definition new_client_worker ::
    "thread_input \<Rightarrow> nat \<Rightarrow> (exn + client_conn list \<times> (int \<times> nat) list) \<times> heap" where
  "new_client_worker inp n =
     (case ti_epoll inp of
        Some m \<Rightarrow> (Inl (throw_system_error ''epoll_create1 failed'' m), ti_heap inp)
      | None \<Rightarrow>
          (case reserve 136 n (ti_heap inp) of
             (Inl x, h) \<Rightarrow> (Inl x, h)
           | (Inr _, h) \<Rightarrow> connect_all inp n [] [] h))"

section \<open>The threads\<close>

definition thread_work ::
    "bench_options \<Rightarrow> operation list \<Rightarrow> bytes list \<Rightarrow> bytes \<Rightarrow> (nat \<Rightarrow> int) \<Rightarrow> nat \<Rightarrow> bench_work" where
  "thread_work opts plan keys v clock i =
     \<lparr>bw_plan = plan, bw_keys = keys, bw_value = v, bw_pipeline = unat (bo_pipeline opts),
      bw_begin = slice_bound (length plan) (bo_threads opts) i,
      bw_end = slice_bound (length plan) (bo_threads opts) (i + 1), bw_clock = clock\<rparr>"

definition thread_statistics :: "bench_work \<Rightarrow> nat \<Rightarrow> thread_input \<Rightarrow> statistics option" where
  "thread_statistics wk connections inp =
     (case new_client_worker inp connections of
        (Inl x, h) \<Rightarrow>
          (case record_error (exn_what x) (record_failures (bw_end wk - bw_begin wk) new_statistics) h of
             (Inl _, st, h1) \<Rightarrow> None
           | (Inr _, st, h1) \<Rightarrow> Some st)
      | (Inr (cs, indexes), h) \<Rightarrow> worker_run wk indexes (ti_modify inp) (ti_waits inp) cs h)"

fun merge_all :: "statistics list \<Rightarrow> statistics \<Rightarrow> heap \<Rightarrow> (exn + statistics) \<times> heap" where
  "merge_all [] combined h = (Inr combined, h)"
| "merge_all (st # sts) combined h =
     (case merge_statistics st combined h of
        (Inl x, _, h1) \<Rightarrow> (Inl x, h1)
      | (Inr _, combined', h1) \<Rightarrow> merge_all sts combined' h1)"

text \<open>Memory for a number of objects, one after the other.\<close>

fun allocations :: "nat \<Rightarrow> heap \<Rightarrow> (exn + unit) \<times> heap" where
  "allocations 0 h = (Inr (), h)"
| "allocations (Suc n) h =
     (case container_alloc h of (Inl x, h1) \<Rightarrow> (Inl x, h1) | (Inr _, h1) \<Rightarrow> allocations n h1)"

text \<open>
  \<^verbatim>\<open>execute_plan\<close>: memory for the results of the threads, the two barriers and the threads
  themselves; then every thread does its part, and the results are added up.
\<close>

definition new_per_thread :: "nat \<Rightarrow> heap \<Rightarrow> (exn + unit) \<times> heap" where
  "new_per_thread n h =
     (if n > (2 ^ 63 - 1) div 80 then (Inl (Length_error ''cannot create std::vector larger than max_size()''), h)
      else if n = 0 then (Inr (), h)
      else container_alloc h)"

definition prepare_threads :: "nat \<Rightarrow> heap \<Rightarrow> (exn + unit) \<times> heap" where
  "prepare_threads n h =
     (case new_per_thread n h of
        (Inl x, h1) \<Rightarrow> (Inl x, h1)
      | (Inr _, h1) \<Rightarrow>
          (case allocations 2 h1 of
             (Inl x, h2) \<Rightarrow> (Inl x, h2)
           | (Inr _, h2) \<Rightarrow> reserve 8 n h2))"

definition execute_plan ::
    "bench_options \<Rightarrow> operation list \<Rightarrow> bytes list \<Rightarrow> bytes \<Rightarrow> (nat \<Rightarrow> thread_input) \<Rightarrow> heap \<Rightarrow>
       ((exn + statistics) \<times> heap) option" where
  "execute_plan opts plan keys v inputs h =
     (case prepare_threads (unat (bo_threads opts)) h of
        (Inl x, h1) \<Rightarrow> Some (Inl x, h1)
      | (Inr _, h1) \<Rightarrow>
          (let results = map (\<lambda>i. thread_statistics (thread_work opts plan keys v (ti_clock (inputs i)) i)
                                   (connection_count (bo_connections opts) (bo_threads opts) i) (inputs i))
                             [0 ..< unat (bo_threads opts)]
           in if None \<in> set results then None
              else Some (merge_all (map the results) new_statistics h1)))"

definition require_success :: "statistics \<Rightarrow> string \<Rightarrow> exn + unit" where
  "require_success st phase =
     (if st_failed st \<noteq> 0
      then Inl (Runtime_error (phase @ '' failed for '' @ to_decimal (st_failed st) @ '' requests''))
      else Inr ())"

section \<open>The three phases\<close>

record bench_result =
  br_requests :: nat
  br_successful :: nat
  br_failed :: nat
  br_get_hits :: nat
  br_get_misses :: nat
  br_duration :: nat
  br_throughput_rps :: nat
  br_latency :: latency_summary
  br_errors :: "string list"

text \<open>The duration, in seconds, and the throughput are numbers of type \<^verbatim>\<open>double\<close>.\<close>

definition finish_statistics :: "nat \<Rightarrow> statistics \<Rightarrow> bench_result option" where
  "finish_statistics duration st =
     map_option (\<lambda>latency. \<lparr>br_requests = handled st, br_successful = st_successful st, br_failed = st_failed st,
         br_get_hits = st_get_hits st, br_get_misses = st_get_misses st, br_duration = duration,
         br_throughput_rps =
           (if duration > 0 then round_double (double_of_nat (handled st) * double_one) duration else 0),
         br_latency = latency,
         br_errors = st_errors st\<rparr>)
       (summarize_latencies (st_latencies st))"

text \<open>A phase whose failures end the run.\<close>

definition warming_phase ::
    "bench_options \<Rightarrow> string \<Rightarrow> operation list \<Rightarrow> bytes list \<Rightarrow> bytes \<Rightarrow> (nat \<Rightarrow> thread_input) \<Rightarrow> heap \<Rightarrow>
       ((exn + unit) \<times> heap) option" where
  "warming_phase opts phase plan keys v inputs h =
     (case execute_plan opts plan keys v inputs h of
        None \<Rightarrow> None
      | Some (Inl x, h1) \<Rightarrow> Some (Inl x, h1)
      | Some (Inr st, h1) \<Rightarrow> Some (require_success st phase, h1))"

record bench_random =
  rn_shuffle :: "u64 \<Rightarrow> u8 list \<Rightarrow> u8 list"
  rn_draw :: "u64 \<Rightarrow> nat \<Rightarrow> nat \<Rightarrow> nat \<Rightarrow> nat"
  rn_generator :: "u64 \<Rightarrow> nat \<Rightarrow> u64"

definition workload ::
    "bench_random \<Rightarrow> bench_options \<Rightarrow> u64 \<Rightarrow> u64 \<Rightarrow> u64 \<Rightarrow> heap \<Rightarrow> ((exn + operation list) \<times> heap) option" where
  "workload rn opts n seed first_id h =
     generate_workload (rn_shuffle rn) (rn_draw rn) n (bo_get_ratio opts) (bo_key_space opts) seed first_id h"

text \<open>The warm-up, if there is one.\<close>

definition warmup_phase ::
    "bench_random \<Rightarrow> bench_options \<Rightarrow> bytes list \<Rightarrow> bytes \<Rightarrow> (nat \<Rightarrow> thread_input) \<Rightarrow> heap \<Rightarrow>
       ((exn + unit) \<times> heap) option" where
  "warmup_phase rn opts keys v inputs h =
     (if bo_warmup_requests opts = 0 then Some (Inr (), h)
      else case workload rn opts (bo_warmup_requests opts) (bo_seed opts XOR 0x5741524D55504C4C)
                  (bo_key_space opts + 1) h of
        None \<Rightarrow> None
      | Some (Inl x, h1) \<Rightarrow> Some (Inl x, h1)
      | Some (Inr plan, h1) \<Rightarrow> warming_phase opts ''warmup'' plan keys v inputs h1)"

definition measured_phase ::
    "bench_random \<Rightarrow> bench_options \<Rightarrow> bytes list \<Rightarrow> bytes \<Rightarrow> (nat \<Rightarrow> thread_input) \<Rightarrow> nat \<Rightarrow> heap \<Rightarrow>
       (exn + bench_result) option" where
  "measured_phase rn opts keys v inputs duration h =
     (case workload rn opts (bo_requests opts) (bo_seed opts) (bo_key_space opts + 1 + bo_warmup_requests opts) h of
        None \<Rightarrow> None
      | Some (Inl x, h1) \<Rightarrow> Some (Inl x)
      | Some (Inr plan, h1) \<Rightarrow>
          (case execute_plan opts plan keys v inputs h1 of
             None \<Rightarrow> None
           | Some (Inl x, h2) \<Rightarrow> Some (Inl x)
           | Some (Inr st, h2) \<Rightarrow> map_option Inr (finish_statistics duration st)))"

text \<open>
  \<open>inputs\<close> gives the threads of each phase what they need, and the clock tells the duration of the
  last phase. The keys are a vector with an allocated string for each; the value and the first plan
  need memory as well.
\<close>

definition prepare_keys :: "nat \<Rightarrow> heap \<Rightarrow> (exn + unit) \<times> heap" where
  "prepare_keys n h =
     (case reserve 32 n h of
        (Inl x, h1) \<Rightarrow> (Inl x, h1)
      | (Inr _, h1) \<Rightarrow> allocations n h1)"

definition prepare_data :: "nat \<Rightarrow> heap \<Rightarrow> (exn + unit) \<times> heap" where
  "prepare_data n h =
     (case prepare_keys n h of
        (Inl x, h1) \<Rightarrow> (Inl x, h1)
      | (Inr _, h1) \<Rightarrow>
          (case container_alloc h1 of
             (Inl x, h2) \<Rightarrow> (Inl x, h2)
           | (Inr _, h2) \<Rightarrow> reserve 24 n h2))"

definition run_benchmark ::
    "bench_random \<Rightarrow> bench_options \<Rightarrow> (nat \<Rightarrow> nat \<Rightarrow> thread_input) \<Rightarrow> nat \<Rightarrow> heap \<Rightarrow> (exn + bench_result) option" where
  "run_benchmark rn opts inputs duration h =
     (case validate_bench_options opts of
        Inl x \<Rightarrow> Some (Inl x)
      | Inr _ \<Rightarrow>
          (case prepare_data (unat (bo_key_space opts)) h of
             (Inl x, h1) \<Rightarrow> Some (Inl x)
           | (Inr _, h1) \<Rightarrow>
               (let keys = make_keys (unat (bo_key_space opts));
                    v = make_value (rn_generator rn) (unat (bo_value_size opts)) (bo_seed opts);
                    preload = make_preload (unat (bo_key_space opts))
                in case warming_phase opts ''preload'' preload keys v (inputs 0) h1 of
                     None \<Rightarrow> None
                   | Some (Inl x, h2) \<Rightarrow> Some (Inl x)
                   | Some (Inr _, h2) \<Rightarrow>
                       (case warmup_phase rn opts keys v (inputs 1) h2 of
                          None \<Rightarrow> None
                        | Some (Inl x, h3) \<Rightarrow> Some (Inl x)
                        | Some (Inr _, h3) \<Rightarrow> measured_phase rn opts keys v (inputs 2) duration h3))))"

section \<open>The report\<close>

text \<open>A \<^verbatim>\<open>double\<close> as a stream prints it with three digits after the point.\<close>

definition fixed3 :: "nat \<Rightarrow> string" where
  "fixed3 d =
     (let m = half_even (d * 1000) double_one; frac = to_decimal (1000 + m mod 1000)
      in to_decimal (m div 1000) @ ''.'' @ tl frac)"

definition signed_fixed3 :: "int \<Rightarrow> string" where
  "signed_fixed3 d = (if d < 0 then ''-'' @ fixed3 (nat (- d)) else fixed3 (nat d))"

definition hit_ratio :: "bench_result \<Rightarrow> nat" where
  "hit_ratio res =
     (let gets = br_get_hits res + br_get_misses res
      in if gets = 0 then 0 else round_double (double_of_nat (br_get_hits res) * double_one) (double_of_nat gets))"

definition csv_columns :: "string list" where
  "csv_columns =
     [''requests'', ''successful'', ''failed'', ''threads'', ''connections'', ''value_size'', ''get_ratio'',
      ''duration_seconds'', ''throughput_rps'', ''avg_us'', ''p50_us'', ''p95_us'', ''p99_us'', ''get_hits'',
      ''get_misses'', ''hit_ratio'', ''key_space'', ''seed'', ''pipeline'', ''warmup_requests'', ''error_count'']"

definition csv_values :: "bench_options \<Rightarrow> bench_result \<Rightarrow> string list" where
  "csv_values opts res =
     [to_decimal (br_requests res), to_decimal (br_successful res), to_decimal (br_failed res),
      to_decimal (unat (bo_threads opts)), to_decimal (unat (bo_connections opts)),
      to_decimal (unat (bo_value_size opts)), signed_fixed3 (bo_get_ratio opts), fixed3 (br_duration res),
      fixed3 (br_throughput_rps res), signed_fixed3 (ls_average (br_latency res)),
      signed_fixed3 (ls_p50 (br_latency res)), signed_fixed3 (ls_p95 (br_latency res)),
      signed_fixed3 (ls_p99 (br_latency res)), to_decimal (br_get_hits res), to_decimal (br_get_misses res),
      fixed3 (hit_ratio res), to_decimal (unat (bo_key_space opts)), to_decimal (unat (bo_seed opts)),
      to_decimal (unat (bo_pipeline opts)), to_decimal (unat (bo_warmup_requests opts)),
      to_decimal (length (br_errors res))]"

fun separated :: "string list \<Rightarrow> string" where
  "separated [] = [newline]"
| "separated [x] = x @ [newline]"
| "separated (x # y # xs) = x @ '','' @ separated (y # xs)"

definition report_line :: "string \<Rightarrow> string \<Rightarrow> string \<Rightarrow> string" where
  "report_line name v unit_name = name @ '': '' @ v @ unit_name @ [newline]"

definition print_result :: "bench_options \<Rightarrow> bench_result \<Rightarrow> string" where
  "print_result opts res =
     (if bo_csv opts then separated csv_columns @ separated (csv_values opts res)
      else
        report_line ''Requests'' (to_decimal (br_requests res)) [] @
        report_line ''Successful'' (to_decimal (br_successful res)) [] @
        report_line ''Failed'' (to_decimal (br_failed res)) [] @
        report_line ''Threads'' (to_decimal (unat (bo_threads opts))) [] @
        report_line ''Connections'' (to_decimal (unat (bo_connections opts))) [] @
        report_line ''Value Size'' (to_decimal (unat (bo_value_size opts))) [] @
        report_line ''GET Ratio'' (signed_fixed3 (bo_get_ratio opts)) [] @
        report_line ''Duration'' (fixed3 (br_duration res)) '' s'' @
        report_line ''Throughput'' (fixed3 (br_throughput_rps res)) '' req/s'' @ [newline] @
        ''Latency:'' @ [newline] @
        report_line ''  AVG'' (signed_fixed3 (ls_average (br_latency res))) '' us'' @
        report_line ''  P50'' (signed_fixed3 (ls_p50 (br_latency res))) '' us'' @
        report_line ''  P95'' (signed_fixed3 (ls_p95 (br_latency res))) '' us'' @
        report_line ''  P99'' (signed_fixed3 (ls_p99 (br_latency res))) '' us'' @ [newline] @
        ''GET:'' @ [newline] @
        report_line ''  Hits'' (to_decimal (br_get_hits res)) [] @
        report_line ''  Misses'' (to_decimal (br_get_misses res)) [] @
        report_line ''  Hit Ratio'' (fixed3 (hit_ratio res)) [] @
        concat (map (\<lambda>e. report_line ''Error'' e []) (br_errors res)))"

definition bench_usage :: string where
  "bench_usage =
     concat (map (\<lambda>line. line @ [newline])
       [''usage: highcache_benchmark [options]'', ''  --host HOST'', ''  --port PORT'', ''  --threads COUNT'',
        ''  --connections COUNT'', ''  --requests COUNT'', ''  --get-ratio RATIO'', ''  --value-size BYTES'',
        ''  --key-space COUNT'', ''  --seed VALUE'', ''  --warmup-requests COUNT'', ''  --pipeline DEPTH'', ''  --csv''])"

text \<open>\<^verbatim>\<open>main\<close>: the exit code, the standard output and the standard error.\<close>

definition bench_main ::
    "bench_random \<Rightarrow> string list \<Rightarrow> (nat \<Rightarrow> nat \<Rightarrow> thread_input) \<Rightarrow> nat \<Rightarrow> heap \<Rightarrow> (nat \<times> string \<times> string) option" where
  "bench_main rn arguments inputs duration h =
     (let complain = (\<lambda>x. Some (1, [], ''highcache_benchmark: '' @ exn_what x @ [newline]))
      in case parse_options arguments of
           Inl x \<Rightarrow> complain x
         | Inr opts \<Rightarrow>
             (if bo_help opts then Some (0, bench_usage, [])
              else case run_benchmark rn opts inputs duration h of
                None \<Rightarrow> None
              | Some (Inl x) \<Rightarrow> complain x
              | Some (Inr res) \<Rightarrow> Some (if br_failed res = 0 then 0 else 2, print_result opts res, [])))"

section \<open>Every operation is counted\<close>

lemma connect_all_ok:
  assumes "oom h = []" and "\<forall>(fd, i) \<in> set indexes. i < length cs" and "\<forall>c \<in> set cs. P c"
    and "\<And>fd i o'. buffer_inv i \<Longrightarrow> readable_bytes i = 0 \<Longrightarrow> storage_capacity i = 4096 \<Longrightarrow>
           buffer_inv o' \<Longrightarrow> readable_bytes o' = 0 \<Longrightarrow> storage_capacity o' = 4096 \<Longrightarrow>
           P \<lparr>cc_fd = fd, cc_input = i, cc_output = o', cc_tracker = [], cc_active = True, cc_interest = EPOLLIN OR EPOLLRDHUP\<rparr>"
  shows "(\<exists>x. connect_all inp n cs indexes h = (Inl x, h)) \<or>
         (\<exists>cs' indexes'. connect_all inp n cs indexes h = (Inr (cs', indexes'), h) \<and>
            (\<forall>(fd, i) \<in> set indexes'. i < length cs') \<and> (\<forall>c \<in> set cs'. P c))"
  using assms(2,3)
proof (induction n arbitrary: cs indexes)
  case (Suc n)
  let ?b = "\<lparr>storage = [], storage_capacity = 4096, reader_index = 0\<rparr>"
  let ?c = "\<lambda>fd. \<lparr>cc_fd = fd, cc_input = ?b, cc_output = ?b, cc_tracker = [], cc_active = True, cc_interest = 0\<rparr>"
  have new: "new_client_conn fd h = (Inr (?c fd), h)" for fd
    using assms(1) by (simp add: new_client_conn_def new_buffer_def vector_max_size_def)
  have P: "P ((?c fd)\<lparr>cc_interest := EPOLLIN OR EPOLLRDHUP\<rparr>)" for fd
    using assms(4) [of ?b ?b fd] by (simp add: buffer_inv_def readable_bytes_def vector_max_size_def)
  show ?case
  proof (cases "connect_socket (ti_connect inp (length cs))")
    case (Inr fd)
    let ?cs = "cs @ [(?c fd)\<lparr>cc_interest := EPOLLIN OR EPOLLRDHUP\<rparr>]"
      and ?is = "if map_of indexes fd = None then (fd, length cs) # indexes else indexes"
    have "\<forall>(fd, i) \<in> set ?is. i < length ?cs" using Suc.prems(1) by (auto intro: less_SucI)
    moreover have "\<forall>c \<in> set ?cs. P c" using Suc.prems(2) P by simp
    ultimately show ?thesis
      using Suc.IH [of ?is ?cs] Inr new assms(1) by (cases "ti_add inp (length cs)") (auto simp: Let_def)
  qed simp
qed auto

text \<open>Either the worker cannot be made, or its connections are fresh.\<close>

definition fresh_conn :: "bench_work \<Rightarrow> heap \<Rightarrow> client_conn \<Rightarrow> bool" where
  "fresh_conn wk h c \<longleftrightarrow> cc_active c \<and> cc_tracker c = [] \<and> conn_load c = int (Suc max_response_frame_size) \<and>
     cc_live wk (2 ^ 60) \<lparr>be_next = bw_begin wk, be_stats = new_statistics, be_heap = h, be_calls = 0\<rparr> c"

lemma new_client_worker_ok:
  assumes "oom (ti_heap inp) = []"
  obtains (failed) x where "new_client_worker inp n = (Inl x, ti_heap inp)"
    | (made) cs indexes where "new_client_worker inp n = (Inr (cs, indexes), ti_heap inp)"
        "\<forall>(fd, i) \<in> set indexes. i < length cs" "\<forall>c \<in> set cs. fresh_conn wk (ti_heap inp) c"
proof -
  have "(\<exists>x. new_client_worker inp n = (Inl x, ti_heap inp)) \<or>
      (\<exists>cs indexes. new_client_worker inp n = (Inr (cs, indexes), ti_heap inp) \<and>
         (\<forall>(fd, i) \<in> set indexes. i < length cs) \<and> (\<forall>c \<in> set cs. fresh_conn wk (ti_heap inp) c))"
    using assms connect_all_ok [of "ti_heap inp" "[]" "[]" "fresh_conn wk (ti_heap inp)" inp n]
    by (cases "ti_epoll inp")
       (auto simp: new_client_worker_def reserve_def fresh_conn_def conn_load_def cc_live_def tracker_ok_def buffers_ok_def)
  then show thesis using failed made by blast
qed

lemma thread_statistics_ok:
  assumes "work_ok wk (2 ^ 60)" and "oom (ti_heap inp) = []"
  shows "\<exists>st. thread_statistics wk n inp = Some st \<and> stats_ok st \<and> handled st = bw_end wk - bw_begin wk"
proof -
  let ?st = "record_failures (bw_end wk - bw_begin wk) new_statistics"
  have st: "stats_ok ?st" "handled ?st = bw_end wk - bw_begin wk"
    by (auto simp: record_failures_def stats_ok_def handled_def new_statistics_def)
  from assms(2) show ?thesis
  proof (cases rule: new_client_worker_ok [where n = n and wk = wk])
    case (failed x)
    from record_error_ok [OF assms(2) st(1), of "exn_what x"] st failed show ?thesis
      by (auto simp: thread_statistics_def)
  next
    case (made cs indexes)
    from worker_run_ok [OF assms made(2)] made(1,3) show ?thesis
      by (simp add: thread_statistics_def fresh_conn_def)
  qed
qed

lemma merge_all_ok:
  assumes "oom h = []" and "stats_ok combined" and "\<forall>st \<in> set sts. stats_ok st"
  shows "\<exists>st. merge_all sts combined h = (Inr st, h) \<and> stats_ok st \<and>
           handled st = handled combined + (\<Sum>st\<leftarrow>sts. handled st)"
  using assms(2,3)
proof (induction sts arbitrary: combined)
  case (Cons s sts)
  obtain c where m: "merge_statistics s combined h = (Inr (), c, h)" "stats_ok c" "handled c = handled combined + handled s"
    using assms(1) Cons.prems by (auto simp: merge_statistics_def Let_def stats_ok_def handled_def)
  from Cons.IH [OF m(2)] Cons.prems(2) obtain st where
    "merge_all sts c h = (Inr st, h)" "stats_ok st" "handled st = handled c + (\<Sum>st\<leftarrow>sts. handled st)" by auto
  with m show ?case by auto
qed simp

lemma allocations_ok: "oom h = [] \<Longrightarrow> allocations n h = (Inr (), h)"
  by (induction n) auto

lemma reserve_ok: "oom h = [] \<Longrightarrow> n \<le> (2 ^ 63 - 1) div width \<Longrightarrow> reserve width n h = (Inr (), h)"
  by (simp add: reserve_def)

lemma prepare_threads_ok:
  assumes "oom h = []" and "n \<le> (2 ^ 63 - 1) div 80"
  shows "prepare_threads n h = (Inr (), h)"
  using assms reserve_ok [of h n 8]
  by (cases "n = 0") (simp_all add: prepare_threads_def new_per_thread_def allocations_ok del: allocations.simps)

lemma prepare_data_ok:
  assumes "oom h = []" and "n \<le> (2 ^ 63 - 1) div 32"
  shows "prepare_data n h = (Inr (), h)"
  using assms reserve_ok [of h n 32] reserve_ok [of h n 24]
  by (simp add: prepare_data_def prepare_keys_def allocations_ok del: allocations.simps)

lemma telescope:
  fixes f :: "nat \<Rightarrow> nat"
  assumes "\<And>i. i < t \<Longrightarrow> f i \<le> f (Suc i)"
  shows "f 0 \<le> f t \<and> (\<Sum>i\<leftarrow>[0 ..< t]. f (Suc i) - f i) = f t - f 0"
  using assms by (induction t) (auto, fastforce+)

text \<open>What a plan needs so that no buffer can outgrow the memory.\<close>

definition plan_fits :: "bench_options \<Rightarrow> operation list \<Rightarrow> bytes list \<Rightarrow> bytes \<Rightarrow> bool" where
  "plan_fits opts plan keys v \<longleftrightarrow>
     0 < bo_threads opts \<and> unat (bo_threads opts) \<le> (2 ^ 63 - 1) div 80 \<and> plan_ok (length keys) plan \<and> (\<forall>k \<in> set keys. length k \<le> max_key_length) \<and>
     length v \<le> max_value_length \<and> length plan * unat (bo_threads opts) < 2 ^ 64 \<and>
     length plan * (request_header_size + max_key_length + length v) \<le> 2 ^ 60"

lemma plan_fits_small:
  assumes "plan_fits opts plan keys v"
  shows "length plan \<le> 2 ^ 52"
proof -
  have "length plan * 256 \<le> length plan * (request_header_size + max_key_length + length v)" by (intro mult_le_mono2) simp
  also have "\<dots> \<le> 2 ^ 60" using assms by (simp add: plan_fits_def)
  finally show ?thesis by simp
qed

lemma thread_work_ok:
  assumes "plan_fits opts plan keys v" and "i < unat (bo_threads opts)"
  shows "work_ok (thread_work opts plan keys v clock i) (2 ^ 60)"
    and "bw_begin (thread_work opts plan keys v clock i) \<le> bw_end (thread_work opts plan keys v clock i)"
proof -
  let ?f = "slice_bound (length plan) (bo_threads opts)" and ?t = "unat (bo_threads opts)"
    and ?F = "request_header_size + max_key_length + length v"
  have f: "?f j = length plan * j div ?t" if "j \<le> ?t" for j
    using slice_bound_nat [of "length plan" "bo_threads opts" j] assms(1) that by (simp add: plan_fits_def)
  have mono: "?f i \<le> ?f (i + 1)" using f [of i] f [of "i + 1"] assms(2) by (simp add: div_le_mono)
  have "length plan * (i + 1) \<le> length plan * ?t" using assms(2) by (intro mult_le_mono2) simp
  from div_le_mono [OF this, of ?t] have top: "?f (i + 1) \<le> length plan" using f [of "i + 1"] assms(2) by simp
  then have "(?f (i + 1) - ?f i) * ?F \<le> length plan * ?F" by (intro mult_le_mono1) simp
  also have "\<dots> \<le> 2 ^ 60" using assms(1) by (simp add: plan_fits_def)
  finally show "work_ok (thread_work opts plan keys v clock i) (2 ^ 60)"
    using assms(1) mono top by (simp add: work_ok_def thread_work_def frame_room_def plan_fits_def)
  show "bw_begin (thread_work opts plan keys v clock i) \<le> bw_end (thread_work opts plan keys v clock i)"
    using mono by (simp add: thread_work_def)
qed

lemma execute_plan_ok:
  assumes fits: "plan_fits opts plan keys v" and "oom h = []" and "\<And>i. oom (ti_heap (inputs i)) = []"
  shows "\<exists>st. execute_plan opts plan keys v inputs h = Some (Inr st, h) \<and> stats_ok st \<and> handled st = length plan"
proof -
  let ?t = "unat (bo_threads opts)" and ?f = "slice_bound (length plan) (bo_threads opts)"
  let ?r = "\<lambda>i. thread_statistics (thread_work opts plan keys v (ti_clock (inputs i)) i)
      (connection_count (bo_connections opts) (bo_threads opts) i) (inputs i)"
  have one: "\<exists>st. ?r i = Some st \<and> stats_ok st \<and> handled st = ?f (Suc i) - ?f i \<and> ?f i \<le> ?f (Suc i)" if "i < ?t" for i
    using thread_statistics_ok [OF thread_work_ok(1) [OF fits that] assms(3)] thread_work_ok(2) [OF fits that]
    by (fastforce simp: thread_work_def)
  let ?sts = "map (\<lambda>i. the (?r i)) [0 ..< ?t]"
  have ok: "\<forall>st \<in> set ?sts. stats_ok st" using one by fastforce
  have no: "None \<notin> set (map ?r [0 ..< ?t])" using one by fastforce
  have "(\<Sum>st\<leftarrow>?sts. handled st) = (\<Sum>i\<leftarrow>[0 ..< ?t]. ?f (Suc i) - ?f i)"
    unfolding map_map comp_def by (intro arg_cong [of _ _ sum_list] map_cong) (use one in fastforce)+
  also have "\<dots> = ?f ?t - ?f 0" using telescope [of ?t ?f] one by blast
  also have "\<dots> = length plan"
    using slice_bound_nat [of "length plan" "bo_threads opts" ?t] fits
    by (auto simp: plan_fits_def slice_bound_def word_less_nat_alt)
  finally have sum: "(\<Sum>st\<leftarrow>?sts. handled st) = length plan" .
  have new: "stats_ok new_statistics" "handled new_statistics = 0"
    by (auto simp: stats_ok_def handled_def new_statistics_def)
  from merge_all_ok [OF assms(2) new(1) ok] sum new(2) obtain st where
    "merge_all ?sts new_statistics h = (Inr st, h)" "stats_ok st" "handled st = length plan" by auto
  moreover have "prepare_threads ?t h = (Inr (), h)"
    using prepare_threads_ok [OF assms(2)] fits by (simp add: plan_fits_def)
  ultimately show ?thesis using no by (auto simp: execute_plan_def Let_def comp_def)
qed

section \<open>The whole run\<close>

lemma length_to_decimal: "n < 10 ^ k \<Longrightarrow> 0 < k \<Longrightarrow> length (to_decimal n) \<le> k"
proof (induction k arbitrary: n)
  case (Suc k)
  show ?case
  proof (cases "n < 10")
    case False
    then have "0 < k" using Suc.prems(1) by (cases k) auto
    moreover have "n div 10 < 10 ^ k" using Suc.prems(1) by (simp add: div_less_iff_less_mult mult.commute)
    ultimately have "length (to_decimal (n div 10)) \<le> k" using Suc.IH by blast
    with False show ?thesis by (simp add: to_decimal.simps [of n])
  qed (simp add: to_decimal.simps [of n])
qed simp

lemma make_keys_ok:
  assumes "n < 2 ^ 64"
  shows "length (make_keys n) = n" and "\<forall>k \<in> set (make_keys n). length k \<le> max_key_length"
proof -
  have "length (to_decimal i) \<le> 20" if "i < n" for i using length_to_decimal [of i 20] that assms by simp
  then show "\<forall>k \<in> set (make_keys n). length k \<le> max_key_length" by (fastforce simp: make_keys_def)
qed (simp add: make_keys_def)

text \<open>The whole run, all phases together, within the memory and without wrapping around.\<close>

definition run_fits :: "bench_options \<Rightarrow> bool" where
  "run_fits opts \<longleftrightarrow>
     (let n = unat (bo_key_space opts) + unat (bo_warmup_requests opts) + unat (bo_requests opts)
      in n * unat (bo_threads opts) < 2 ^ 64 \<and> unat (bo_threads opts) \<le> (2 ^ 63 - 1) div 80 \<and>
         n * (request_header_size + max_key_length + unat (bo_value_size opts)) \<le> 2 ^ 60)"

lemma phase_fits:
  assumes "valid_options opts" and "run_fits opts" and "plan_ok (unat (bo_key_space opts)) plan"
    and "length plan \<le> unat (bo_key_space opts) + unat (bo_warmup_requests opts) + unat (bo_requests opts)"
  shows "plan_fits opts plan (make_keys (unat (bo_key_space opts))) (make_value g (unat (bo_value_size opts)) seed)"
proof -
  let ?N = "unat (bo_key_space opts) + unat (bo_warmup_requests opts) + unat (bo_requests opts)"
  let ?F = "request_header_size + max_key_length + unat (bo_value_size opts)"
  note keys = make_keys_ok [OF unat_lt_u64 [of "bo_key_space opts"]]
  have v: "length (make_value g (unat (bo_value_size opts)) seed) = unat (bo_value_size opts)" by (simp add: make_value_def)
  have fits: "?N * unat (bo_threads opts) < 2 ^ 64" "?N * ?F \<le> 2 ^ 60" "unat (bo_threads opts) \<le> (2 ^ 63 - 1) div 80"
    using assms(2) by (auto simp: run_fits_def Let_def)
  have "length plan * unat (bo_threads opts) < 2 ^ 64"
    using mult_le_mono1 [OF assms(4)] fits(1) by (rule le_less_trans)
  moreover have "length plan * ?F \<le> 2 ^ 60" using mult_le_mono1 [OF assms(4)] fits(2) by (rule order_trans)
  ultimately show ?thesis
    using assms(1,3) keys v fits(3) by (simp add: plan_fits_def valid_options_def)
qed

lemma workload_ok:
  assumes opts: "valid_options opts" and fits: "run_fits opts" and rn: "fair_shuffle (rn_shuffle rn)" "fair_draw (rn_draw rn)"
    and "oom h = []" and n: "unat n \<le> unat (bo_warmup_requests opts) + unat (bo_requests opts)"
    and ids: "unat first_id + unat n \<le> 2 ^ 64"
  shows "\<exists>plan. workload rn opts n seed first_id h = Some (Inr plan, h) \<and> length plan = unat n \<and>
           plan_ok (unat (bo_key_space opts)) plan \<and>
           map op_request_id plan = map (\<lambda>i. of_nat (unat first_id + i)) [0 ..< unat n]"
proof -
  let ?F = "request_header_size + max_key_length + unat (bo_value_size opts)"
  let ?N = "unat (bo_key_space opts) + unat (bo_warmup_requests opts) + unat (bo_requests opts)"
  have "?N * 256 \<le> ?N * ?F" by (intro mult_le_mono2) simp
  also have "\<dots> \<le> 2 ^ 60" using fits by (auto simp: run_fits_def Let_def)
  finally have "unat n \<le> 2 ^ 53" using n by simp
  moreover have "bo_key_space opts \<noteq> 0" "0 \<le> bo_get_ratio opts" "bo_get_ratio opts \<le> int double_one"
    using opts by (auto simp: valid_options_def)
  ultimately show ?thesis
    using generate_workload_ok [OF rn _ _ _ _ ids assms(5), of "bo_key_space opts" "bo_get_ratio opts" seed]
    unfolding workload_def by blast
qed

text \<open>The request identifiers of the three phases follow each other, and none occurs twice.\<close>

lemma first_ids:
  assumes "valid_options opts"
  shows "unat (bo_key_space opts + 1) = unat (bo_key_space opts) + 1"
    and "unat (bo_key_space opts + 1 + bo_warmup_requests opts) =
           unat (bo_key_space opts) + 1 + unat (bo_warmup_requests opts)"
proof -
  have N: "unat (bo_key_space opts) + unat (bo_warmup_requests opts) + unat (bo_requests opts) \<le> 2 ^ 64 - 2"
    using assms by (simp add: valid_options_def)
  then show a: "unat (bo_key_space opts + 1) = unat (bo_key_space opts) + 1"
    using unat_add_u64 [of "bo_key_space opts" 1] by simp
  show "unat (bo_key_space opts + 1 + bo_warmup_requests opts) =
      unat (bo_key_space opts) + 1 + unat (bo_warmup_requests opts)"
    using unat_add_u64 [of "bo_key_space opts + 1" "bo_warmup_requests opts"] a N by simp
qed

definition phase_failed :: "exn \<Rightarrow> bool" where
  "phase_failed x \<longleftrightarrow> (\<exists>phase n. (phase = ''preload'' \<or> phase = ''warmup'') \<and> 0 < n \<and>
     x = Runtime_error (phase @ '' failed for '' @ to_decimal n @ '' requests''))"

lemma warming_phase_ok:
  assumes "plan_fits opts plan keys v" and "oom h = []" and "\<And>i. oom (ti_heap (inputs i)) = []"
    and phase: "phase = ''preload'' \<or> phase = ''warmup''"
  shows "\<exists>r. warming_phase opts phase plan keys v inputs h = Some (r, h) \<and> (r = Inr () \<or> (\<exists>x. r = Inl x \<and> phase_failed x))"
proof -
  from execute_plan_ok [OF assms(1,2), of inputs] assms(3) obtain st where
    st: "execute_plan opts plan keys v inputs h = Some (Inr st, h)" by blast
  have "phase_failed (Runtime_error (phase @ '' failed for '' @ to_decimal (st_failed st) @ '' requests''))"
    if "st_failed st \<noteq> 0" using phase that unfolding phase_failed_def by blast
  with st show ?thesis unfolding warming_phase_def require_success_def by (cases "st_failed st = 0") simp_all
qed

lemma finish_statistics_ok:
  assumes "stats_ok st" and "handled st \<le> 2 ^ 53"
  shows "\<exists>res. finish_statistics d st = Some res \<and> br_requests res = handled st \<and>
           br_successful res + br_failed res = br_requests res \<and>
           br_get_hits res + br_get_misses res \<le> br_successful res \<and>
           ls_p50 (br_latency res) \<le> ls_p95 (br_latency res) \<and> ls_p95 (br_latency res) \<le> ls_p99 (br_latency res)"
proof (cases "st_latencies st = []")
  case True
  then show ?thesis using assms by (auto simp: finish_statistics_def summarize_latencies_def stats_ok_def handled_def)
next
  case False
  have "length (st_latencies st) \<le> 2 ^ 53" using assms by (simp add: stats_ok_def)
  from summarize_latencies_ok [OF False this] obtain s where
    "summarize_latencies (st_latencies st) = Some s" "ls_p50 s \<le> ls_p95 s" "ls_p95 s \<le> ls_p99 s" by blast
  then show ?thesis using assms(1) by (auto simp: finish_statistics_def stats_ok_def handled_def)
qed

lemma run_benchmark_ok:
  assumes opts: "valid_options opts" and fits: "run_fits opts" and rn: "fair_shuffle (rn_shuffle rn)" "fair_draw (rn_draw rn)"
    and mem: "oom h = []" "\<And>p i. oom (ti_heap (inputs p i)) = []"
  shows "\<exists>out. run_benchmark rn opts inputs duration h = Some out \<and>
           (case out of
              Inl x \<Rightarrow> phase_failed x
            | Inr res \<Rightarrow> br_requests res = unat (bo_requests opts) \<and>
                br_successful res + br_failed res = br_requests res \<and>
                br_get_hits res + br_get_misses res \<le> br_successful res \<and>
                ls_p50 (br_latency res) \<le> ls_p95 (br_latency res) \<and> ls_p95 (br_latency res) \<le> ls_p99 (br_latency res))"
proof -
  let ?k = "unat (bo_key_space opts)"
  let ?keys = "make_keys ?k" and ?v = "make_value (rn_generator rn) (unat (bo_value_size opts)) (bo_seed opts)"
  have N: "?k + unat (bo_warmup_requests opts) + unat (bo_requests opts) \<le> 2 ^ 64 - 2"
    using opts by (simp add: valid_options_def)
  note fit = phase_fits [OF opts fits, of _ "rn_generator rn" "bo_seed opts"]
  have pre: "plan_fits opts (make_preload ?k) ?keys ?v" using make_preload_ok [OF unat_lt_u64 [of "bo_key_space opts"]] by (intro fit) auto
  from warming_phase_ok [OF pre mem(1), of "inputs 0" "''preload''"] mem(2) obtain r0 where
    r0: "warming_phase opts ''preload'' (make_preload ?k) ?keys ?v (inputs 0) h = Some (r0, h)"
      "r0 = Inr () \<or> (\<exists>x. r0 = Inl x \<and> phase_failed x)" by blast
  have "\<exists>r1. warmup_phase rn opts ?keys ?v (inputs 1) h = Some (r1, h) \<and> (r1 = Inr () \<or> (\<exists>x. r1 = Inl x \<and> phase_failed x))"
  proof (cases "bo_warmup_requests opts = 0")
    case False
    obtain plan where p: "workload rn opts (bo_warmup_requests opts) (bo_seed opts XOR 0x5741524D55504C4C)
        (bo_key_space opts + 1) h = Some (Inr plan, h)" "length plan = unat (bo_warmup_requests opts)" "plan_ok ?k plan"
      using workload_ok [OF opts fits rn mem(1), of "bo_warmup_requests opts" "bo_key_space opts + 1"] first_ids [OF opts] N
      by fastforce
    have "plan_fits opts plan ?keys ?v" using p by (intro fit) auto
    with warming_phase_ok [OF this mem(1), of "inputs 1" "''warmup''"] mem(2) p(1) False show ?thesis
      by (simp add: warmup_phase_def)
  qed (simp add: warmup_phase_def)
  then obtain r1 where r1: "warmup_phase rn opts ?keys ?v (inputs 1) h = Some (r1, h)"
      "r1 = Inr () \<or> (\<exists>x. r1 = Inl x \<and> phase_failed x)" by blast
  obtain plan where p: "workload rn opts (bo_requests opts) (bo_seed opts)
      (bo_key_space opts + 1 + bo_warmup_requests opts) h = Some (Inr plan, h)"
      "length plan = unat (bo_requests opts)" "plan_ok ?k plan"
    using workload_ok [OF opts fits rn mem(1), of "bo_requests opts" "bo_key_space opts + 1 + bo_warmup_requests opts"]
      first_ids [OF opts] N by fastforce
  have pf: "plan_fits opts plan ?keys ?v" using p by (intro fit) auto
  from execute_plan_ok [OF pf mem(1), of "inputs 2"] mem(2) obtain st where
    st: "execute_plan opts plan ?keys ?v (inputs 2) h = Some (Inr st, h)" "stats_ok st" "handled st = length plan" by blast
  have "length plan \<le> 2 ^ 53" using plan_fits_small [OF pf] by simp
  with finish_statistics_ok [OF st(2), of duration] st(3) p(2) obtain res where
    res: "finish_statistics duration st = Some res" "br_requests res = unat (bo_requests opts)"
      "br_successful res + br_failed res = br_requests res" "br_get_hits res + br_get_misses res \<le> br_successful res"
      "ls_p50 (br_latency res) \<le> ls_p95 (br_latency res)" "ls_p95 (br_latency res) \<le> ls_p99 (br_latency res)" by auto
  have "validate_bench_options opts = Inr ()" using opts validate_options_iff by blast
  moreover have "length (make_preload ?k) \<le> 2 ^ 52" using plan_fits_small [OF pre] .
  then have "prepare_data ?k h = (Inr (), h)" by (intro prepare_data_ok mem(1)) (simp add: make_preload_def)
  ultimately show ?thesis
    using r0 r1 p(1) st(1) res by (auto simp: run_benchmark_def Let_def measured_phase_def)
qed

lemma phase_ids:
  assumes opts: "valid_options opts" and fits: "run_fits opts" and rn: "fair_shuffle (rn_shuffle rn)" "fair_draw (rn_draw rn)"
    and mem: "oom h = []"
  shows "\<exists>warm plan.
           workload rn opts (bo_warmup_requests opts) seed (bo_key_space opts + 1) h = Some (Inr warm, h) \<and>
           workload rn opts (bo_requests opts) (bo_seed opts) (bo_key_space opts + 1 + bo_warmup_requests opts) h =
             Some (Inr plan, h) \<and>
           map (unat \<circ> op_request_id) (make_preload (unat (bo_key_space opts)) @ warm @ plan) =
             [1 ..< 1 + unat (bo_key_space opts) + unat (bo_warmup_requests opts) + unat (bo_requests opts)]"
proof -
  let ?k = "unat (bo_key_space opts)" and ?w = "unat (bo_warmup_requests opts)" and ?r = "unat (bo_requests opts)"
  have N: "?k + ?w + ?r \<le> 2 ^ 64 - 2" using opts by (simp add: valid_options_def)
  have small: "map (unat \<circ> op_request_id) ops = [a ..< a + n]"
    if "map op_request_id ops = map (\<lambda>i. of_nat (a + i)) [0 ..< n]" "a + n < 2 ^ 64" for ops a n
  proof -
    have "map (unat \<circ> op_request_id) ops = map (\<lambda>i. unat (of_nat (a + i) :: u64)) [0 ..< n]"
      using that(1) by (metis (no_types, lifting) comp_def list.map_comp map_eq_conv)
    also have "\<dots> = map (\<lambda>i. a + i) [0 ..< n]"
      using that(2) by (intro map_cong refl unat_of_nat_u64) simp
    finally show ?thesis by (simp add: map_add_upt add.commute)
  qed
  obtain warm where warm: "workload rn opts (bo_warmup_requests opts) seed (bo_key_space opts + 1) h = Some (Inr warm, h)"
      "map op_request_id warm = map (\<lambda>i. of_nat (?k + 1 + i)) [0 ..< ?w]"
    using workload_ok [OF opts fits rn mem, of "bo_warmup_requests opts" "bo_key_space opts + 1" seed] first_ids [OF opts] N
    by fastforce
  obtain plan where plan: "workload rn opts (bo_requests opts) (bo_seed opts) (bo_key_space opts + 1 + bo_warmup_requests opts) h =
        Some (Inr plan, h)" "map op_request_id plan = map (\<lambda>i. of_nat (?k + 1 + ?w + i)) [0 ..< ?r]"
    using workload_ok [OF opts fits rn mem, of "bo_requests opts" "bo_key_space opts + 1 + bo_warmup_requests opts" "bo_seed opts"]
      first_ids [OF opts] N by fastforce
  have "map (unat \<circ> op_request_id) (make_preload ?k) = [1 ..< 1 + ?k]"
    "map (unat \<circ> op_request_id) warm = [?k + 1 ..< ?k + 1 + ?w]"
    "map (unat \<circ> op_request_id) plan = [?k + 1 + ?w ..< ?k + 1 + ?w + ?r]"
    using small [OF make_preload_ok(3) [OF unat_lt_u64]] small [OF warm(2)] small [OF plan(2)] N by simp_all
  then have "map (unat \<circ> op_request_id) (make_preload ?k @ warm @ plan) = [1 ..< 1 + ?k + ?w + ?r]"
    using upt_add_eq_append [of 1 "1 + ?k" ?w] upt_add_eq_append [of 1 "1 + ?k + ?w" ?r] by (simp add: add.commute)
  with warm(1) plan(1) show ?thesis by blast
qed

end
