(* ===== verification/Benchmark_Progress.thy ===== *)
theory Benchmark_Progress
  imports Benchmark_Run
begin

text \<open>
  That a worker of the load generator ends by itself, and the one way in which it loses an operation.
  The event loop of \<^verbatim>\<open>ClientWorker::run\<close> waits as long as the kernel reports something. Here it is shown
  that reports with which something can be done, bytes that can be sent or have arrived or a connection
  that is gone, use up what is left to do: the bytes of the requests and of the responses they may
  get. So after a number of such reports that can be computed from the plan the loop has ended, and
  what would have been reported later does not matter.
\<close>

section \<open>Reports with which something can be done\<close>

fun send_progress :: "send_result list \<Rightarrow> bool" where
  "send_progress [] = False"
| "send_progress (Sent n # later) = True"
| "send_progress (Send_interrupted # later) = send_progress later"
| "send_progress (Send_would_block # later) = False"
| "send_progress (Send_failed # later) = True"

fun recv_progress :: "recv_result list \<Rightarrow> bool" where
  "recv_progress [] = False"
| "recv_progress (Received bs # later) = True"
| "recv_progress (Recv_closed # later) = True"
| "recv_progress (Recv_interrupted # later) = recv_progress later"
| "recv_progress (Recv_would_block # later) = False"
| "recv_progress (Recv_failed # later) = True"

definition productive :: "bench_event \<Rightarrow> client_conn \<Rightarrow> bool" where
  "productive ev c \<longleftrightarrow> cc_active c \<and>
     (ev_flags ev AND EPOLLERR \<noteq> 0 \<or> ev_flags ev AND (EPOLLRDHUP OR EPOLLHUP) \<noteq> 0 \<or>
      ev_flags ev AND (EPOLLIN OR EPOLLRDHUP OR EPOLLHUP) \<noteq> 0 \<and> recv_progress (ev_recvs ev) \<or>
      ev_flags ev AND EPOLLOUT \<noteq> 0 \<and> \<not> buffer_empty (cc_output c) \<and> send_progress (ev_sends ev))"

text \<open>
  What \<^verbatim>\<open>epoll_wait\<close> promises the loop until it ends: with the first event it reports something can be
  done at the connection it names.
\<close>

fun prompt ::
    "bench_work \<Rightarrow> (int \<times> nat) list \<Rightarrow> bench_wait list \<Rightarrow> client_conn list \<Rightarrow> bench_env \<Rightarrow> bool" where
  "prompt wk indexes waits cs env =
     (if \<not> handled (be_stats env) < bw_end wk - bw_begin wk \<or> active_connection_count cs = 0 then True
      else case waits of
        [] \<Rightarrow> True
      | Wait_interrupted # later \<Rightarrow> prompt wk indexes later cs env
      | Wait_failed m # later \<Rightarrow> True
      | Wait_ready evs # later \<Rightarrow>
          evs = [] \<or>
          (case map_of indexes (ev_fd (hd evs)) of
             None \<Rightarrow> False
           | Some i \<Rightarrow> i < length cs \<and> productive (hd evs) (cs ! i)) \<and>
          (case handle_events wk indexes evs cs env of
             None \<Rightarrow> True
           | Some (cs1, env1) \<Rightarrow> prompt wk indexes later cs1 env1))"

declare prompt.simps [simp del]

fun ready_waits :: "bench_wait list \<Rightarrow> nat" where
  "ready_waits [] = 0"
| "ready_waits (Wait_ready evs # later) = Suc (ready_waits later)"
| "ready_waits (_ # later) = ready_waits later"

text \<open>The same for a thread, which first connects and issues requests.\<close>

definition prompt_thread :: "bench_work \<Rightarrow> nat \<Rightarrow> thread_input \<Rightarrow> bool" where
  "prompt_thread wk n inp =
     (case new_client_worker inp n of
        (Inr (cs, indexes), h) \<Rightarrow>
          (case fill_all wk (ti_modify inp) 0 cs
                  \<lparr>be_next = bw_begin wk, be_stats = new_statistics, be_heap = h, be_calls = 0\<rparr> of
             Some (Inr _, cs1, env1) \<Rightarrow> prompt wk indexes (ti_waits inp) cs1 env1
           | _ \<Rightarrow> True)
      | _ \<Rightarrow> True)"

definition thread_load :: "bench_work \<Rightarrow> nat \<Rightarrow> nat" where
  "thread_load wk n =
     n * Suc max_response_frame_size +
     (bw_end wk - bw_begin wk) * (max_response_frame_size + frame_room wk)"

section \<open>They use up what is left to do\<close>

lemma bench_writable_progress:
  assumes "cc_live wk B env c" and "cc_active c" and "\<not> buffer_empty (cc_output c)" and "send_progress ss"
    and "bench_writable ss c = Some (True, c')"
  shows "conn_load c' < conn_load c"
  using assms(4,5)
proof (induction ss rule: send_progress.induct)
  case (2 n later)
  let ?n = "min n (readable_bytes (cc_output c))"
  have n: "n \<noteq> 0" using "2.prems"(2) assms(3) by (auto split: if_splits)
  have out: "buffer_inv (cc_output c)" using assms(1) by (simp add: cc_live_def buffers_ok_def)
  then have "?n \<le> length (readable_view (cc_output c))" by (simp add: length_readable_view)
  from bytes_in.retrieve_ok [OF out this] obtain b where
    b: "retrieve ?n (cc_output c) = Some b" "buffer_inv b" "readable_view b = drop ?n (readable_view (cc_output c))" by blast
  have "readable_bytes b < readable_bytes (cc_output c)"
    using arg_cong [OF b(3), of length] length_readable_view out b(2) n assms(3) by (simp add: buffer_empty_def)
  then have less: "conn_load (c\<lparr>cc_output := b\<rparr>) < conn_load c" "readable_bytes b \<le> readable_bytes (cc_output c)"
    using assms(2) by (simp_all add: conn_load_def)
  then have "cc_live wk B env (c\<lparr>cc_output := b\<rparr>)"
    using assms(1) b(2) retrieve_capacity [OF b(1)] by (auto simp: cc_live_def buffers_ok_def tracker_ok_def)
  from bench_writable_ok [OF this, of later] less(1) "2.prems"(2) assms(3) n b(1) show ?case by auto
qed (use assms(3) in auto)

lemma bench_readable_progress:
  assumes "work_ok wk B" and "env_ok wk env" and "cc_live wk B env c" and "cc_active c" and "recv_progress rs"
    and "bench_readable wk rs c env = Some (Inr True, c', env')"
  shows "conn_load c' + plan_load wk env' < conn_load c + plan_load wk env"
  using assms(5,6)
proof (induction rs rule: recv_progress.induct)
  case (2 bs later)
  then have "bs \<noteq> []" by (auto split: if_splits)
  from receive_ok [OF assms(1-3) this] obtain b r c1 env1 where
    ap: "append_view (take read_chunk_size bs) (cc_input c) (be_heap env) = Some (Inr (), b, be_heap env)"
    and d: "decode_responses wk (c\<lparr>cc_input := b\<rparr>) env = Some (r, c1, env1)"
    and d': "step_ok wk B c env (r = Inr ()) c1 env1"
    and less: "r = Inr () \<and> cc_active c \<longrightarrow> conn_load c1 + plan_load wk env1 < conn_load c + plan_load wk env" .
  have "env\<lparr>be_heap := be_heap env\<rparr> = env" by simp
  with "2.prems"(2) \<open>bs \<noteq> []\<close> ap d have r: "r = Inr ()" "bench_readable wk later c1 env1 = Some (Inr True, c', env')"
    by (auto split: sum.splits)
  then have "env_ok wk env1" "cc_live wk B env1 c1" using d' by (auto simp: step_ok_def)
  from bench_readable_ok [OF assms(1) this, of later] r less assms(4) show ?case by (auto simp: step_ok_def)
qed auto

lemma event_io_progress:
  assumes wk: "work_ok wk B" and env: "env_ok wk env" and live: "cc_live wk B env c" and prod: "productive ev c"
    and run: "event_io wk ev c env = Some (Inr True, c', env')"
  shows "conn_load c' + plan_load wk env' < conn_load c + plan_load wk env"
proof -
  have act: "cc_active c" using prod by (simp add: productive_def)
  from run have err: "ev_flags ev AND EPOLLERR = 0" and hup: "ev_flags ev AND (EPOLLRDHUP OR EPOLLHUP) = 0"
    by (auto simp: event_io_def Let_def split: option.splits prod.splits sum.splits if_splits)
  have "\<exists>keep c1. (if ev_flags ev AND EPOLLOUT \<noteq> 0 then bench_writable (ev_sends ev) c else Some (True, c)) = Some (keep, c1)"
    using bench_writable_ok [OF live, of "ev_sends ev"] by auto
  then obtain keep c1 where
    w: "(if ev_flags ev AND EPOLLOUT \<noteq> 0 then bench_writable (ev_sends ev) c else Some (True, c)) = Some (keep, c1)" by blast
  have c1: "cc_live wk B env c1" "cc_active c1" "conn_load c1 \<le> conn_load c"
    using w live act bench_writable_ok [OF live, of "ev_sends ev"] by (auto split: if_splits)
  have keep: keep using run w err by (auto simp: event_io_def Let_def split: if_splits)
  let ?in = "ev_flags ev AND (EPOLLIN OR EPOLLRDHUP OR EPOLLHUP) \<noteq> 0"
  have r: "(if ?in then bench_readable wk (ev_recvs ev) c1 env else Some (Inr True, c1, env)) = Some (Inr True, c', env')"
    using run w err keep by (auto simp: event_io_def Let_def split: option.splits prod.splits sum.splits if_splits)
  then have read: "conn_load c' + plan_load wk env' \<le> conn_load c1 + plan_load wk env"
    using bench_readable_ok [OF wk env c1(1), of "ev_recvs ev"] by (auto simp: step_ok_def split: if_splits)
  from prod err hup consider "?in" "recv_progress (ev_recvs ev)"
    | "ev_flags ev AND EPOLLOUT \<noteq> 0" "\<not> buffer_empty (cc_output c)" "send_progress (ev_sends ev)"
    by (auto simp: productive_def)
  then show ?thesis
  proof cases
    case 1
    then show ?thesis using bench_readable_progress [OF wk env c1(1,2) 1(2)] r c1(3) by fastforce
  next
    case 2
    then have "conn_load c1 < conn_load c" using bench_writable_progress [OF live act 2(2,3)] w keep by auto
    with read show ?thesis by simp
  qed
qed

lemma handle_event_progress:
  assumes wk: "work_ok wk B" and env: "env_ok wk env" and ok: "conn_ok wk B env c" and prod: "productive ev c"
    and run: "handle_event wk ev c env = Some (c', env')"
  shows "conn_load c' + plan_load wk env' < conn_load c + plan_load wk env"
proof -
  have act: "cc_active c" using prod by (simp add: productive_def)
  then have live: "cc_live wk B env c" using ok by (simp add: conn_ok_def)
  from event_io_ok [OF wk env live, of ev] obtain r c1 env1 where
    io: "event_io wk ev c env = Some (r, c1, env1)" "step_ok wk B c env (\<forall>x. r \<noteq> Inl x) c1 env1" by blast
  note failed = fail_connection_done [OF _ act live]
  show ?thesis
  proof (cases "r = Inr True")
    case False
    then show ?thesis
      using run io act failed [OF io(2), of "exn_what (projl r)"] failed [OF io(2), of "''benchmark connection closed''"]
      by (cases r) (auto simp: handle_event_def event_attempt_def split: prod.splits)
  next
    case True
    have less: "conn_load c1 + plan_load wk env1 < conn_load c + plan_load wk env"
      using event_io_progress [OF wk env live prod] io(1) True by simp
    have s1: "step_ok wk B c env True c1 env1" using io(2) True by simp
    then have "env_ok wk env1" "cc_live wk B env1 c1" by (auto simp: step_ok_def)
    from fill_pipeline_ok [OF wk this] obtain c2 env2 where
      f: "fill_pipeline wk c1 env1 = Some (Inr (), c2, env2)" "step_ok wk B c1 env1 True c2 env2" by blast
    obtain q c3 where u: "update_interest (ev_modify ev) c2 = (q, c3)" by fastforce
    have s3: "step_ok wk B c env True c3 env2" "step_ok wk B c1 env1 True c3 env2"
      using update_interest_ok [OF step_ok_trans [OF s1 f(2)] u] update_interest_ok [OF f(2) u] .
    show ?thesis
      using run io(1) True f(1) u act s3 less failed [OF s3(1), of "exn_what (projl q)"]
      by (cases q) (auto simp: handle_event_def event_attempt_def step_ok_def split: prod.splits)
  qed
qed

section \<open>The loop ends\<close>

definition work_load :: "bench_work \<Rightarrow> client_conn list \<Rightarrow> bench_env \<Rightarrow> int" where
  "work_load wk cs env = (\<Sum>c\<leftarrow>cs. conn_load c) + plan_load wk env"

lemma work_load_update:
  assumes "i < length cs"
  shows "work_load wk (cs[i := c]) env' = work_load wk cs env + (conn_load c + plan_load wk env') - (conn_load (cs ! i) + plan_load wk env)"
proof -
  have "(\<Sum>c\<leftarrow>cs. conn_load c) = (\<Sum>c\<leftarrow>take i cs @ cs ! i # drop (Suc i) cs. conn_load c)"
    using id_take_nth_drop [OF assms] by simp
  then show ?thesis using assms by (simp add: work_load_def upd_conv_take_nth_drop)
qed

lemma work_load_nonneg: "bench_inv wk B cs env \<Longrightarrow> 0 \<le> work_load wk cs env"
proof -
  assume inv: "bench_inv wk B cs env"
  have "0 \<le> conn_load c" if "c \<in> set cs" for c
  proof (cases "cc_active c")
    case True
    then have "cc_live wk B env c" using inv that by (auto simp: bench_inv_def conn_ok_def)
    from conn_load_live [OF this True] show ?thesis by simp
  qed (simp add: conn_load_def)
  then have "0 \<le> (\<Sum>c\<leftarrow>cs. conn_load c)" by (intro sum_list_nonneg) auto
  then show ?thesis by (simp add: work_load_def plan_load_def)
qed

lemma handle_events_load:
  assumes "work_ok wk B" and "bench_inv wk B cs env" and "\<forall>(fd, i) \<in> set indexes. i < length cs"
    and "handle_events wk indexes evs cs env = Some (cs', env')"
  shows "work_load wk cs' env' \<le> work_load wk cs env"
  using assms(2-4)
proof (induction evs arbitrary: cs env)
  case (Cons ev evs)
  show ?case
  proof (cases "map_of indexes (ev_fd ev)")
    case None
    then show ?thesis using Cons by simp
  next
    case (Some i)
    then have i: "i < length cs" using Cons.prems(2) map_of_SomeD by fastforce
    have "env_ok wk env" "conn_ok wk B env (cs ! i)" using Cons.prems(1) i by (auto simp: bench_inv_def)
    from handle_event_ok [OF assms(1) this, of ev] obtain c env1 where
      e: "handle_event wk ev (cs ! i) env = Some (c, env1)" "event_done wk B (cs ! i) env c env1" by blast
    have "work_load wk cs' env' \<le> work_load wk (cs[i := c]) env1"
      using Cons.IH [OF event_done_inv [OF Cons.prems(1) e(2) i]] Cons.prems(2,3) Some i e(1) by simp
    then show ?thesis using e(2) work_load_update [OF i, of wk c env1 env] by (simp add: event_done_def)
  qed
qed simp

lemma handle_events_progress:
  assumes "work_ok wk B" and inv: "bench_inv wk B cs env" and ix: "\<forall>(fd, i) \<in> set indexes. i < length cs"
    and "map_of indexes (ev_fd ev) = Some i" and prod: "productive ev (cs ! i)"
    and run: "handle_events wk indexes (ev # evs) cs env = Some (cs', env')"
  shows "work_load wk cs' env' < work_load wk cs env"
proof -
  have i: "i < length cs" using ix map_of_SomeD [OF assms(4)] by fastforce
  have ok: "env_ok wk env" "conn_ok wk B env (cs ! i)" using inv i by (auto simp: bench_inv_def)
  from handle_event_ok [OF assms(1) ok, of ev] obtain c env1 where
    e: "handle_event wk ev (cs ! i) env = Some (c, env1)" "event_done wk B (cs ! i) env c env1" by blast
  have "handle_events wk indexes evs (cs[i := c]) env1 = Some (cs', env')" using run assms(4) i e(1) by simp
  from handle_events_load [OF assms(1) event_done_inv [OF inv e(2) i] _ this] ix
  have "work_load wk cs' env' \<le> work_load wk (cs[i := c]) env1" by simp
  with handle_event_progress [OF assms(1) ok prod e(1)] work_load_update [OF i, of wk c env1 env] show ?thesis by simp
qed

lemma run_loop_ends:
  assumes "work_ok wk B" and "bench_inv wk B cs env" and "\<forall>(fd, i) \<in> set indexes. i < length cs"
    and "prompt wk indexes waits cs env" and "work_load wk cs env < int (ready_waits waits)"
  shows "run_loop wk indexes (waits @ rest) cs env = run_loop wk indexes waits cs env"
  using assms(2-5)
proof (induction waits arbitrary: cs env)
  case Nil
  then show ?case using work_load_nonneg [OF Nil.prems(1)] by simp
next
  case (Cons w waits)
  show ?case
  proof (cases "handled (be_stats env) < bw_end wk - bw_begin wk \<and> active_connection_count cs \<noteq> 0")
    case False
    then show ?thesis by (subst (1 2) run_loop.simps) auto
  next
    case True
    show ?thesis
    proof (cases w)
      case Wait_interrupted
      then have "prompt wk indexes waits cs env" using Cons.prems(3) True by (subst (asm) prompt.simps) simp
      from Cons.IH [OF Cons.prems(1,2) this] Cons.prems(4) Wait_interrupted True show ?thesis
        by (subst (1 2) run_loop.simps) simp
    next
      case (Wait_failed m)
      then show ?thesis using True by (subst (1 2) run_loop.simps) simp
    next
      case ready: (Wait_ready evs)
      show ?thesis
      proof (cases evs)
        case Nil
        then show ?thesis using True ready by (subst (1 2) run_loop.simps) simp
      next
        case evs: (Cons ev later)
        from handle_events_ok [OF assms(1) Cons.prems(1,2), of evs] obtain cs1 env1 where
          h: "handle_events wk indexes evs cs env = Some (cs1, env1)" "bench_inv wk B cs1 env1" "length cs1 = length cs" by blast
        from Cons.prems(3) True ready evs h(1) obtain i where
          i: "map_of indexes (ev_fd ev) = Some i" "productive ev (cs ! i)" "prompt wk indexes waits cs1 env1"
          by (subst (asm) prompt.simps) (auto split: option.splits)
        have "work_load wk cs1 env1 < work_load wk cs env"
          using handle_events_progress [OF assms(1) Cons.prems(1,2) i(1,2)] h(1) evs by simp
        with Cons.prems(4) ready have "work_load wk cs1 env1 < int (ready_waits waits)" by simp
        from Cons.IH [OF h(2) _ i(3) this] Cons.prems(2) h(1,3) True ready evs show ?thesis
          by (subst (1 2) run_loop.simps) simp
      qed
    qed
  qed
qed

section \<open>A thread ends\<close>

lemma connect_all_waits [simp]:
  "connect_all (inp\<lparr>ti_waits := ws\<rparr>) n cs indexes h = connect_all inp n cs indexes h"
  by (induction n arbitrary: cs indexes h) (auto simp: Let_def split: sum.splits prod.splits option.splits)

lemma new_client_worker_waits [simp]: "new_client_worker (inp\<lparr>ti_waits := ws\<rparr>) n = new_client_worker inp n"
  by (cases "ti_epoll inp") (auto simp: new_client_worker_def split: prod.splits sum.splits)

lemma connect_all_length:
  "connect_all inp n cs indexes h = (Inr (cs', indexes'), h') \<Longrightarrow> length cs' = length cs + n"
  by (induction n arbitrary: cs indexes h) (fastforce simp: Let_def split: sum.splits prod.splits option.splits)+

lemma new_client_worker_length:
  "new_client_worker inp n = (Inr (cs, indexes), h) \<Longrightarrow> length cs = n"
  using connect_all_length [of inp n "[]" "[]"]
  by (fastforce simp: new_client_worker_def split: sum.splits prod.splits option.splits)

lemma run_attempt_ends:
  assumes wk: "work_ok wk (2 ^ 60)" and mem: "oom h = []" and ix: "\<forall>(fd, i) \<in> set indexes. i < length cs"
    and fresh: "\<forall>c \<in> set cs. fresh_conn wk h c" and many: "thread_load wk (length cs) < ready_waits waits"
  defines "env \<equiv> \<lparr>be_next = bw_begin wk, be_stats = new_statistics, be_heap = h, be_calls = 0\<rparr>"
  assumes pr: "\<And>u cs1 env1. fill_all wk modify 0 cs env = Some (Inr u, cs1, env1) \<Longrightarrow> prompt wk indexes waits cs1 env1"
  shows "run_attempt wk indexes modify (waits @ rest) cs env = run_attempt wk indexes modify waits cs env"
proof -
  have env: "env_ok wk env"
    using wk mem by (simp add: env_def env_ok_def work_ok_def stats_ok_def handled_def new_statistics_def)
  have zero: "in_flight cs = 0" using fresh by (simp add: in_flight_def fresh_conn_def sum_list_eq_0_iff)
  from fill_all_ok [OF wk env, of cs modify 0] fresh obtain r cs1 env1 where
    f: "fill_all wk modify 0 cs env = Some (r, cs1, env1)" "env_ok wk env1" "length cs1 = length cs"
      "\<forall>c \<in> set cs1. cc_active c \<and> cc_live wk (2 ^ 60) env1 c"
      "(\<Sum>c\<leftarrow>cs1. conn_load c) + plan_load wk env1 \<le> (\<Sum>c\<leftarrow>cs. conn_load c) + plan_load wk env"
      "handled (be_stats env1) + in_flight cs1 + (bw_end wk - be_next env1) = bw_end wk - bw_begin wk"
    using zero by (auto simp: fresh_conn_def env_def handled_def new_statistics_def)
  have "map conn_load cs = replicate (length cs) (int (Suc max_response_frame_size))"
    using fresh by (intro replicate_eqI) (auto simp: fresh_conn_def)
  then have "(\<Sum>c\<leftarrow>cs. conn_load c) + plan_load wk env = int (thread_load wk (length cs))"
    by (simp add: sum_list_replicate thread_load_def plan_load_def env_def)
  with f(5) many have "work_load wk cs1 env1 < int (ready_waits waits)" by (simp add: work_load_def)
  moreover have "bench_inv wk (2 ^ 60) cs1 env1" using f by (auto simp: bench_inv_def conn_ok_def)
  ultimately show ?thesis
    using run_loop_ends [OF wk, of cs1 env1 indexes waits rest] pr f(1,3) ix
    by (cases r) (auto simp: run_attempt_def)
qed

lemma thread_statistics_ends:
  assumes wk: "work_ok wk (2 ^ 60)" and mem: "oom (ti_heap inp) = []" and pr: "prompt_thread wk n inp"
    and many: "thread_load wk n < ready_waits (ti_waits inp)"
  shows "thread_statistics wk n (inp\<lparr>ti_waits := ti_waits inp @ rest\<rparr>) = thread_statistics wk n inp"
  using mem
proof (cases rule: new_client_worker_ok [where n = n and wk = wk])
  case (made cs indexes)
  let ?env = "\<lparr>be_next = bw_begin wk, be_stats = new_statistics, be_heap = ti_heap inp, be_calls = 0\<rparr>"
  have len: "length cs = n" using new_client_worker_length [OF made(1)] .
  have "run_attempt wk indexes (ti_modify inp) (ti_waits inp @ rest) cs ?env =
      run_attempt wk indexes (ti_modify inp) (ti_waits inp) cs ?env"
    by (rule run_attempt_ends [OF wk mem made(2,3)]) (use many len pr made(1) in \<open>simp_all add: prompt_thread_def\<close>)
  with made(1) show ?thesis by (simp add: thread_statistics_def worker_run_def)
qed (simp add: thread_statistics_def)

section \<open>An operation that is lost\<close>

text \<open>
  \<^verbatim>\<open>fill_pipeline\<close> takes an operation from the plan before it has built and stored its request. If that
  throws, the operation is no longer among those that have not been issued, and not yet in flight.
\<close>

lemma issue_operation_balance:
  assumes "issue_operation wk c env = Some (r, c', env')" and "be_next env < bw_end wk"
  shows "cc_active c' = cc_active c" and "balance wk c' env' + (case r of Inl _ \<Rightarrow> 1 | Inr _ \<Rightarrow> 0) = balance wk c env"
  using assms
  by (auto simp: issue_operation_def tracker_add_def balance_def Let_def split: if_splits prod.splits sum.splits option.splits)

lemma fill_pipeline_balance:
  assumes "fill_pipeline wk c env = Some (r, c', env')"
  shows "cc_active c' = cc_active c \<and> balance wk c' env' + (case r of Inl _ \<Rightarrow> 1 | Inr _ \<Rightarrow> 0) = balance wk c env"
  using assms
proof (induction wk c env rule: fill_pipeline.induct)
  case (1 wk c env)
  show ?case
  proof (cases "length (cc_tracker c) < bw_pipeline wk \<and> be_next env < bw_end wk")
    case True
    then obtain q c1 env1 where i: "issue_operation wk c env = Some (q, c1, env1)"
      using "1.prems" by (auto simp: fill_pipeline.simps [of wk c env] split: option.splits)
    note b = issue_operation_balance [OF i] True
    show ?thesis
    proof (cases q)
      case (Inl x)
      then show ?thesis using b i "1.prems" by (auto simp: fill_pipeline.simps [of wk c env])
    next
      case (Inr u)
      then have "fill_pipeline wk c1 env1 = Some (r, c', env')"
        using True i "1.prems" by (simp add: fill_pipeline.simps [of wk c env])
      from "1.IH" [OF True i refl _ refl this] Inr b show ?thesis by auto
    qed
  next
    case False
    then show ?thesis using "1.prems" by (auto simp: fill_pipeline.simps [of wk c env])
  qed
qed

lemma fail_connection_balance:
  assumes "fail_connection m c env = (c', env')" and "cc_active c"
  shows "cc_tracker c' = []" and "\<not> cc_active c'" and "balance wk c' env' = balance wk c env"
  using assms
  by (auto simp: fail_connection_def fail_all_def record_failures_def record_error_def balance_def handled_def Let_def
      split: if_splits prod.splits sum.splits)

text \<open>What the worker still counts when it gives up, whatever memory there is.\<close>

lemma fail_connections_handled:
  assumes "\<forall>c \<in> set cs. cc_active c \<or> cc_tracker c = []" and "fail_connections cs env = (cs', env')"
  shows "be_next env' = be_next env \<and> handled (be_stats env') = handled (be_stats env) + in_flight cs"
  using assms
proof (induction cs arbitrary: env cs' env')
  case (Cons c cs)
  let ?env = "if cc_active c then env\<lparr>be_stats := record_failures (length (cc_tracker c)) (be_stats env)\<rparr> else env"
  obtain cs1 env1 where f: "fail_connections cs ?env = (cs1, env1)" by fastforce
  have "env' = env1" using Cons.prems(2) f by (auto simp: fail_all_def Let_def split: if_splits)
  with Cons.IH [OF _ f] Cons.prems(1) show ?case
    by (auto simp: in_flight_def record_failures_def handled_def split: if_splits)
qed (simp add: in_flight_def)

lemma fail_everything_handled:
  assumes "\<forall>c \<in> set cs. cc_active c \<or> cc_tracker c = []" and "fail_everything wk cs env = (cs', env')"
  shows "handled (be_stats env') = handled (be_stats env) + in_flight cs + (bw_end wk - be_next env)"
  using assms fail_connections_handled [OF assms(1), of env]
  by (auto simp: fail_everything_def fail_unissued_def record_failures_def handled_def split: prod.splits if_splits)

lemma first_round_loses:
  assumes fill: "fill_pipeline wk c \<lparr>be_next = bw_begin wk, be_stats = new_statistics, be_heap = h, be_calls = 0\<rparr> =
      Some (Inl x, c1, env1)"
    and act: "cc_active c" and fresh: "\<forall>d \<in> set (c # cs). cc_tracker d = []"
    and rec: "record_error (exn_what x) (be_stats env1) (be_heap env1) = (q, st1, h1)"
  shows "case q of Inl _ \<Rightarrow> worker_run wk indexes modify waits (c # cs) h = None
         | Inr _ \<Rightarrow> \<exists>st. worker_run wk indexes modify waits (c # cs) h = Some st \<and> handled st + 1 = bw_end wk - bw_begin wk"
proof -
  let ?env = "\<lparr>be_next = bw_begin wk, be_stats = new_statistics, be_heap = h, be_calls = 0\<rparr>"
  have bal: "cc_active c1" "handled (be_stats env1) + length (cc_tracker c1) + (bw_end wk - be_next env1) + 1 = bw_end wk - bw_begin wk"
    using fill_pipeline_balance [OF fill] act fresh by (auto simp: balance_def handled_def new_statistics_def)
  have att: "run_attempt wk indexes modify waits (c # cs) ?env = Some (Inl x, c1 # cs, env1)"
    using fill by (simp add: run_attempt_def)
  have st1: "handled st1 = handled (be_stats env1)"
    using rec by (auto simp: record_error_def handled_def split: prod.splits sum.splits)
  obtain cs2 env2 where fin: "fail_everything wk (c1 # cs) (env1\<lparr>be_stats := st1, be_heap := h1\<rparr>) = (cs2, env2)"
    by fastforce
  have "worker_run wk indexes modify waits (c # cs) h = (case q of Inl _ \<Rightarrow> None | Inr _ \<Rightarrow> Some (be_stats env2))"
    using att rec fin by (auto simp: worker_run_def split: sum.splits)
  moreover have "in_flight (c1 # cs) = length (cc_tracker c1)"
    using fresh by (simp add: in_flight_def sum_list_eq_0_iff)
  ultimately show ?thesis
    using fail_everything_handled [OF _ fin] bal st1 fresh by (auto split: sum.split)
qed

end
