(* ===== verification/Spec2Isabelle.thy ===== *)
theory Spec2Isabelle
  imports Cache_Liveness Server_Main Server_Progress Server_History Worker_Threads Engine_Threads Conversation Benchmark_Progress
begin

text \<open>
  HighCache is a cache server: keys are bound to byte strings for a limited time, the least
  recently used items make room for new ones, and clients reach it over TCP with a binary
  protocol. This development models its C++ sources, under \<^verbatim>\<open>include/highcache\<close> and \<^verbatim>\<open>src\<close>, and
  proves what they are meant to do. File names below are relative to these two directories,
  those of the load generator to the root of the repository.

  \<^bold>\<open>The program.\<close> The server program (\<^verbatim>\<open>server/main.cpp\<close>) reads a configuration
  (\<^verbatim>\<open>config/config.cpp\<close>) and builds an engine and a server from it. The engine
  (\<^verbatim>\<open>cache/cache_engine.cpp\<close>) divides the capacity among shards (\<^verbatim>\<open>cache/cache_shard.cpp\<close>), each a
  cache (\<^verbatim>\<open>cache/cache.cpp\<close>) behind a mutex with its own timing wheel
  (\<^verbatim>\<open>timer/timing_wheel.cpp\<close>) and its own allocator for the values
  (\<^verbatim>\<open>memory/value_allocator.cpp\<close>, \<^verbatim>\<open>memory/slab_allocator.cpp\<close>). The server
  (\<^verbatim>\<open>net/cache_server.cpp\<close>) has an acceptor thread, which hands accepted sockets to worker
  threads and ticks the engine once a second, and the workers, each of which runs the
  connections (\<^verbatim>\<open>net/connection.cpp\<close>) of its sockets: bytes go through a buffer
  (\<^verbatim>\<open>net/buffer.cpp\<close>) to the decoder (\<^verbatim>\<open>protocol/protocol_codec.cpp\<close>), requests to the engine,
  encoded responses back. The client (\<^verbatim>\<open>client/main.cpp\<close>) sends one request and prints the
  response. The load generator (\<^verbatim>\<open>benchmark/benchmark.cpp\<close>, \<^verbatim>\<open>benchmark/main.cpp\<close>) plans
  operations, sends them over many connections from several threads, and reports what came back.

  \<^bold>\<open>Conventions.\<close> A definition follows the member function of the same name, its branches
  and early returns in the same order. State is passed explicitly. An operation that can
  run into undefined behaviour, a failed assertion or an endless loop has the result
  \<^term>\<open>None\<close> there, so that a theorem with \<open>\<exists>\<close> and \<^term>\<open>Some\<close> says that it does none of this and
  returns. An exception is \<^term>\<open>Inl\<close>, together with the state after unwinding. Whether an
  allocation fails is an input: the field \<^term>\<open>oom\<close> of a heap lists the outcomes of the coming
  allocations, and theorems without a hypothesis on it hold for every such list. Each shard
  has a heap of its own, which changes nothing the code can observe. Integers are words of
  their C++ width where they can wrap; sizes bounded by a check of the code are natural
  numbers. The results of system calls are arguments, in the order of the calls; what the
  kernel promises of them (a \<^verbatim>\<open>recv\<close> gives at most what was asked for, a \<^verbatim>\<open>send\<close> takes at most
  what it is offered) is a hypothesis of its own name. \<^verbatim>\<open>std::hash\<close> and \<^verbatim>\<open>inet_pton\<close> are parameters, the
  latter with the hypothesis that it accepts every address in dotted-decimal form (\<^term>\<open>inet_pton_ok\<close>).

  \<^bold>\<open>Theories\<close>, each with the definitions of a component, its invariant and its lemmas:
  \<^item> \<^verbatim>\<open>HC_Prelude\<close>: machine types, error codes and exceptions (\<^verbatim>\<open>common/error.h\<close>), shared lemmas.
  \<^item> \<^verbatim>\<open>Free_Store\<close>: a byte-level heap with block identities.
  \<^item> \<^verbatim>\<open>Value_Allocator\<close>, \<^verbatim>\<open>Slab_Allocator\<close>, \<^verbatim>\<open>Allocator_Backend\<close>: the locale \<open>value_alloc\<close> is what the
    cache relies on; the system allocator, the slab allocator with its free lists inside the
    free blocks, and the choice between them are its three interpretations. Destructors are included: an allocator
    that has everything back returns all its memory to the system.
  \<^item> \<^verbatim>\<open>Timing_Wheel\<close>: sixty slots and rounds, an interpretation of the locale \<open>expiry_queue\<close>,
    which describes a wheel by its events, each with the number of ticks it has left.
  \<^item> \<^verbatim>\<open>Cache_Entry\<close>, \<^verbatim>\<open>Cache\<close>, \<^verbatim>\<open>Cache_Invariant\<close>, \<^verbatim>\<open>Cache_Correct\<close>, \<^verbatim>\<open>Cache_Liveness\<close>: the cache,
    its invariant, the simulation of the abstract timed LRU cache of \<^verbatim>\<open>Lru_Spec\<close>, and that it
    answers as long as there is memory.
  \<^item> \<^verbatim>\<open>Cache_Contract\<close>, \<^verbatim>\<open>Cache_Shard\<close>: the locale \<open>timed_lru\<close> is what a user of a cache relies on,
    with the users' lemmas; the cache and the locked shard are its interpretations. The
    threads of a shard are a step relation.
  \<^item> \<^verbatim>\<open>Cache_Engine\<close>: construction, routing, ticks and the summing observers.
  \<^item> \<^verbatim>\<open>Engine_Threads\<close>: any number of threads on the engine, which has no lock of its own, as a step
    relation on top of the steps at its shards; the order in which the bodies run is a sequential
    history of the engine.
  \<^item> \<^verbatim>\<open>Buffer\<close>, \<^verbatim>\<open>Protocol_Codec\<close>, \<^verbatim>\<open>Frame_Decoder\<close>: the byte queue (locale \<open>byte_queue\<close>) and the wire
    format; the locale \<open>frame_decoder\<close> is what readers of a socket rely on, with the facts on
    streams of frames, and the decoders of requests and of responses are its interpretations.
  \<^item> \<^verbatim>\<open>Connection\<close>, \<^verbatim>\<open>Connection_Stream\<close>, \<^verbatim>\<open>Conversation\<close>: one connection, a connection as a server of
    a stream of requests, and a whole conversation with any peer as a step relation.
  \<^item> \<^verbatim>\<open>Logger\<close>, \<^verbatim>\<open>Config\<close>: levels and logging; the reader of \<open>key=value\<close> files and the meaning of
    such a file as a set of settings.
  \<^item> \<^verbatim>\<open>Unique_Fd\<close>, \<^verbatim>\<open>Cache_Server\<close>, \<^verbatim>\<open>Server_Correct\<close>: owners of descriptors (\<^verbatim>\<open>net/unique_fd.h\<close>); what
    worker, acceptor and the starting and stopping thread do between two waits, and what this
    adds up to.
  \<^item> \<^verbatim>\<open>Dialogues\<close>: a record, beside the state, of what each client has sent and received; what the events
    of a worker mean for it; histories of requests and timer expirations.
  \<^item> \<^verbatim>\<open>Server_Run\<close>: the whole server, its threads taking turns, with the record of its dialogues; the
    invariant of all reachable states.
  \<^item> \<^verbatim>\<open>Server_Dialogues\<close>, \<^verbatim>\<open>Server_History\<close>, \<^verbatim>\<open>Server_Progress\<close>: one history explains all dialogues of the
    running server; what reads deliver in such a history; and that a worker can answer what has arrived,
    and the server be stopped, in every reachable state.
  \<^item> \<^verbatim>\<open>Worker_Threads\<close>: how worker, acceptor and stopping thread interleave on one worker, access by
    access.
  \<^item> \<^verbatim>\<open>Client\<close>, \<^verbatim>\<open>Server_Main\<close>: the two programs from their arguments to their exit status. While the
    main thread of the server waits, acceptor and workers take the turns of \<^verbatim>\<open>Server_Run\<close>, in an order
    that is an input.
  \<^item> \<^verbatim>\<open>Benchmark_Plan\<close>, \<^verbatim>\<open>Benchmark_Worker\<close>, \<^verbatim>\<open>Benchmark_Accounting\<close>, \<^verbatim>\<open>Benchmark_Run\<close>,
    \<^verbatim>\<open>Benchmark_Progress\<close>: the load generator: options, plans and latencies; a worker with its
    connections; the invariant that every operation is handled, in flight or not yet issued; threads,
    phases, report and exit status; that events with which something can be done end a worker, and
    how an operation gets lost without memory. A \<^verbatim>\<open>double\<close> is a whole multiple of its smallest positive number, and every rounding is
    written out.

  \<^bold>\<open>What is shown.\<close> Every operation of the cache refines the abstract cache, whatever
  allocation fails in it, without leaking or touching freed memory; values live exactly as
  long as they should; after any sequence of operations on a shard its destruction gives back every block of
  memory; shards and the engine are linearizable and cannot deadlock; the engine
  is one cache per shard within the configured memory. The allocators hand out memory that is
  not in use, and a block given back can be had again. The codec is a bijection between requests and
  frames; the decoder is total, accepts exactly the inputs that begin with a frame, and refuses only what
  nothing can turn into one. A connection turns the request stream into the response stream, however it is cut
  up, within its limits, and tells any peer at any moment only the beginning of the answers to
  what it asked. The running server keeps its tables and loses no socket; one sequence of requests
  explains what all its clients have seen, and a read in it delivers what was last written; it
  can answer an idle connection in one turn, and be stopped, in every state; each connection has
  bounded memory. No wakeup is lost; shutdown ends, and closes every socket of a worker whose loop has not
  failed before. Configurations are read with exactly the documented meaning; an accepted one whose
  host is an IPv4 address can be run, and one with another host is refused at the start. The client and
  the running server agree. The load generator, given memory, ends and counts every operation once. Three theorems describe behaviour that is not intended:
  sockets stranded with a worker whose \<^verbatim>\<open>epoll_wait\<close> failed, the repeated event of a peer that has
  half closed its connection, and operations of the load generator that get lost when memory
  runs out. Besides the numbered theorems, the root theory keeps some that follow from stronger
  ones or describe a part on its own.

  \<^bold>\<open>Loops.\<close> No fuel is used. The eviction loop and the loops over the input of a connection of the
  server and of the load generator are partial functions into option, and the theorems on them
  show that they return: eviction shortens the recency list, decoding shortens the input. The loops around system calls
  recurse on the list of the results, whose end stands for a call that has nothing to report: for the event
  loop of the load generator, the timeout. That this loop does not live by the timeout is shown
  apart, by the bytes that are left to send and to receive. Shutdown is shown to end by a measure on the states
  of the threads.

  \<^bold>\<open>Not modelled.\<close> The assertions on the metric counters of the allocators are not treated as
  checks; the counters wrap, and that they balance is proved. Of \<^verbatim>\<open>std::vector\<close> the capacity after
  \<^verbatim>\<open>reserve\<close> is taken to be exactly what was asked for, as the common implementations do.
  Running out of memory while the configuration is read or a log message is put together
  is left out. The workers' handling of an event is one step with respect to the other
  threads: they meet only in the mutexes of the shards, the queue and the stop flag, which
  are modelled as interleaved; memory orders weaker than that are not. The descriptors that
  the kernel hands out at start-up appear only through the outcomes of the calls that make
  them. Of the load generator, a thread that cannot be started and memory that runs out while
  options are parsed or the report is printed are left out; how an attempt to connect ends is an input; shuffling, drawing and generating
  pseudo-random numbers are parameters. In the running server a turn of a thread, from one wait to the
  next, is one step; the steps of several threads within the engine are those of \<^verbatim>\<open>Engine_Threads\<close>,
  which shows that they are equivalent to some order of whole calls. That a client eventually gets its answer
  depends on the scheduler and the network: what is shown is that nothing in the program stands in the way.
\<close>

section \<open>Example states\<close>

text \<open>Small concrete states at which the theorems are applied.\<close>

definition example_cache :: cache where
  "example_cache = new_cache 64 (make_value_allocator Backend_slab) (empty_heap [])"

definition example_hash :: "bytes \<Rightarrow> u64" where
  "example_hash key = of_nat (length key)"

definition example_engine :: cache_engine where
  "example_engine = projr (fst (new_engine 100 3 Backend_system (\<lambda>_. []) (empty_heap [])))"

definition example_buffer :: "bytes \<Rightarrow> buffer" where
  "example_buffer bs = \<lparr>storage = bs, storage_capacity = 4096, reader_index = 0\<rparr>"

definition example_connection :: connection where
  "example_connection =
     \<lparr>input_buffer = example_buffer [], output_buffer = example_buffer [], output_limit = 4096,
      peer_closed = False, close_after_write = False, closing = False\<rparr>"

definition example_env :: conn_env where
  "example_env = \<lparr>env_engine = example_engine, env_heap = empty_heap []\<rparr>"

definition example_request :: request where
  "example_request = \<lparr>opcode = 2, request_id = 7, req_key = [1], req_value = [2, 3], ttl_ms = 1500\<rparr>"

definition example_read :: request where
  "example_read = \<lparr>opcode = 1, request_id = 8, req_key = [1], req_value = [], ttl_ms = 0\<rparr>"

definition example_response :: response where
  "example_response = \<lparr>response_id = 7, status = 0, resp_value = [2, 3]\<rparr>"

lemma example_cache_ok:
  "cache_inv example_cache" "view example_cache = []" "oom (c_heap example_cache) = []"
  "generation_source example_cache \<noteq> - 1" "capacity_bytes example_cache = 64"
  using new_cache_inv [OF va_inv_new]
  by (simp_all add: example_cache_def new_cache_def empty_heap_def)

lemma example_engine_new: "fst (new_engine 100 3 Backend_system (\<lambda>_. []) (empty_heap [])) = Inr example_engine"
proof -
  obtain e where "new_engine 100 3 Backend_system (\<lambda>_. []) (empty_heap []) = (Inr e, empty_heap [])"
    using new_engine_defined [of "empty_heap []" 3 100 Backend_system "\<lambda>_. []"] by auto
  then show ?thesis by (simp add: example_engine_def)
qed

lemma example_engine_ok: "engine_inv hash example_engine"
  using new_engine_ok(1) example_engine_new by (metis prod.collapse)

lemma example_buffer_ok:
  "length bs \<le> 4096 \<Longrightarrow> buffer_inv (example_buffer bs)"
  "length bs \<le> 4096 \<Longrightarrow> readable_view (example_buffer bs) = bs"
  by (simp_all add: buffer_inv_def example_buffer_def vector_max_size_def readable_view_def
      buffer_empty_def readable_bytes_def)

lemma example_buffer_capacity [simp]: "storage_capacity (example_buffer bs) = 4096"
  by (simp add: example_buffer_def)

lemma example_request_ok: "encodable example_request" "length (request_frame example_request) = 35"
  by (simp_all add: encodable_def example_request_def is_valid_opcode_def length_request_frame)

lemma example_response_ok: "response_encodable example_response" "length (response_frame example_response) = 22"
  by (simp_all add: response_encodable_def example_response_def is_valid_status_def length_response_frame)

lemma example_connection_ok:
  "conn_idle hash example_connection example_env" "output_limit example_connection \<le> 2 ^ 60"
  "oom (env_heap example_env) = []" "readable_view (input_buffer example_connection) = []"
  "readable_view (output_buffer example_connection) = []"
  "readable_bytes (output_buffer example_connection) = 0"
  using example_engine_ok example_buffer_ok [of "[]"]
  by (simp_all add: conn_idle_def conn_inv_def example_connection_def example_env_def
      readable_bytes_def empty_heap_def example_buffer_def)

section \<open>The cache\<close>

text \<open>
  C1: \<^verbatim>\<open>Cache::set\<close> always returns or throws, keeps the representation invariant, and is the
  \<open>set\<close> of the abstract timed LRU cache: a refused call changes nothing and reports the
  first violated limit; an accepted one puts the item in front and evicts exactly the
  least recently used items that no longer fit; an exception can only be out of memory or
  the exhausted generation counter, and costs at most a tail of the old contents.
\<close>

theorem set_refines:
  assumes "cache_inv c"
  shows "\<exists>r c'. cache_set k v ttl c = Some (r, c') \<and> cache_inv c' \<and>
           capacity_bytes c' = capacity_bytes c \<and>
           (case r of
              Inr st \<Rightarrow> st = set_verdict (capacity_bytes c) k v ttl \<and>
                (if st = C_ok
                 then view c' = lru_set (unat (capacity_bytes c)) k v (ttl_deadline ttl) (view c)
                 else c' = c)
            | Inl x \<Rightarrow> (x = Bad_alloc \<or> x = Overflow_error ''cache entry generation exhausted'') \<and>
                (\<exists>n. view c' = take n (view c)))"
proof (cases "set_verdict (capacity_bytes c) k v ttl = C_ok")
  case True
  with set_accepts [OF assms True] show ?thesis by (auto simp: set_promise_def split: sum.splits)
next
  case False
  with set_rejects [OF False] assms show ?thesis by auto
qed

theorem set_refines_witness:
  "\<exists>r c'. cache_set [7] [1, 2] 1500 example_cache = Some (r, c') \<and> cache_inv c' \<and>
     capacity_bytes c' = 64"
  using set_refines [OF example_cache_ok(1), of "[7]" "[1, 2]" 1500] example_cache_ok(5) by auto

text \<open>
  C2: \<^verbatim>\<open>Cache::get\<close> with an acceptable key reports a hit exactly when the abstract cache
  holds the key, writes exactly the stored bytes to the output, makes the item the most
  recently used one, and counts hits and misses; running out of memory leaves contents,
  counters and output as they were.
\<close>

theorem get_refines:
  assumes "cache_inv c" and "validate_key k = C_ok"
  shows "\<exists>r out' c'. cache_get k out c = Some (r, out', c') \<and> cache_inv c' \<and>
           (case r of
              Inl x \<Rightarrow> x = Bad_alloc \<and> out' = out \<and> view c' = view c \<and> counters c' = counters c
            | Inr st \<Rightarrow>
                (case map_of (view c) k of
                   None \<Rightarrow> st = C_not_found \<and> out' = out \<and> view c' = view c \<and>
                     hit_count c' = hit_count c \<and> miss_count c' = miss_count c + 1
                 | Some (v, t) \<Rightarrow> st = C_ok \<and> out' = v \<and> view c' = lru_touch k (view c) \<and>
                     hit_count c' = hit_count c + 1 \<and> miss_count c' = miss_count c))"
  using get_ok [OF assms, of out] by (auto simp: get_promise_def)

theorem get_refines_witness:
  "validate_key [7] = C_ok \<and> (\<exists>r out' c'. cache_get [7] [9] example_cache = Some (r, out', c') \<and> cache_inv c')"
  using get_refines [OF example_cache_ok(1), of "[7]" "[9]"] by (auto simp: validate_key_def)

text \<open>
  C3: \<^verbatim>\<open>Cache::erase\<close> with an acceptable key removes exactly the given key, says whether it was there, and leaves
  the order and the values of all other items alone.
\<close>

theorem erase_refines:
  assumes "cache_inv c" and "validate_key k = C_ok"
  shows "\<exists>r c'. cache_erase k c = Some (r, c') \<and> cache_inv c' \<and> counters c' = counters c \<and>
           (case r of
              Inl x \<Rightarrow> x = Bad_alloc \<and> view c' = view c
            | Inr st \<Rightarrow> st = (if map_of (view c) k = None then C_not_found else C_ok) \<and>
                view c' = lru_remove k (view c))"
  using erase_ok [OF assms] unfolding erase_promise_def by blast

theorem erase_refines_witness:
  "\<exists>r c'. cache_erase [7] example_cache = Some (r, c') \<and> cache_inv c'"
proof -
  have "validate_key [7] = C_ok" by (simp add: validate_key_def)
  from erase_refines [OF example_cache_ok(1) this] show ?thesis by blast
qed

text \<open>
  C4: \<^verbatim>\<open>Cache::tick\<close> removes exactly the items in their last tick and counts down the others;
  the expired counter grows by the number of removed items. Timers of values that were
  overwritten or erased in the meantime remove nothing. Without memory nothing happens.
\<close>

theorem tick_refines:
  assumes "cache_inv c"
  shows "\<exists>r c'. cache_tick c = Some (r, c') \<and> cache_inv c' \<and>
           eviction_count c' = eviction_count c \<and>
           (case r of
              Inl x \<Rightarrow> x = Bad_alloc \<and> view c' = view c \<and> expired_count c' = expired_count c
            | Inr _ \<Rightarrow> view c' = lru_tick (view c) \<and>
                expired_count c' = expired_count c + of_nat (length (view c) - length (view c')))"
  using tick_ok [OF assms] by (auto simp: tick_promise_def)

theorem tick_refines_witness: "\<exists>r c'. cache_tick example_cache = Some (r, c') \<and> cache_inv c'"
  using tick_refines [OF example_cache_ok(1)] by blast

text \<open>
  C20: When no allocation fails and generations are left, a \<^verbatim>\<open>set\<close> whose arguments are within
  the limits succeeds and stores the value.
\<close>

theorem set_stores:
  assumes "cache_inv c" and "oom (c_heap c) = []" and "generation_source c \<noteq> - 1"
    and "set_verdict (capacity_bytes c) k v ttl = C_ok"
  shows "\<exists>c'. cache_set k v ttl c = Some (Inr C_ok, c') \<and>
           view c' = lru_set (unat (capacity_bytes c)) k v (ttl_deadline ttl) (view c)"
  using set_succeeds [OF assms(1-3), of k v ttl] assms(4) cache.set_stores [OF assms(1)] by fastforce

theorem set_stores_witness:
  "\<exists>c'. cache_set [7] [1, 2] 1500 example_cache = Some (Inr C_ok, c') \<and> view c' = [([7], [1, 2], Some 2)]"
proof -
  have "set_verdict (capacity_bytes example_cache) [7] [1, 2] 1500 = C_ok"
    by (simp add: set_verdict_def example_cache_ok(5))
  from set_stores [OF example_cache_ok(1,3,4) this] show ?thesis
    by (simp add: example_cache_ok(2) lru_set_def lru_remove_def ttl_deadline_def ttl_ticks_def)
qed

text \<open>
   Read your writes: after a successful \<^verbatim>\<open>set\<close>, a \<^verbatim>\<open>get\<close> of the same key that returns
  finds it and delivers exactly the bytes that were set.
\<close>

theorem read_after_write:
  assumes "cache_inv c" and "cache_set k v ttl c = Some (Inr C_ok, c1)"
    and "cache_get k out c1 = Some (Inr st, out', c2)"
  shows "st = C_ok \<and> out' = v"
  using cache.read_your_write [OF assms] by simp

lemma example_set:
  "\<exists>c'. cache_set [7] [1, 2] ttl example_cache = Some (Inr C_ok, c') \<and> cache_inv c' \<and>
     oom (c_heap c') = [] \<and> generation_source c' \<noteq> - 1" if "sint ttl \<ge> 0"
proof -
  have "set_verdict (capacity_bytes example_cache) [7] [1, 2] ttl = C_ok"
    using that by (simp add: set_verdict_def example_cache_ok(5))
  with set_succeeds [OF example_cache_ok(1,3,4), of "[7]" "[1, 2]" ttl] obtain c' where
    run: "cache_set [7] [1, 2] ttl example_cache = Some (Inr C_ok, c')" "oom (c_heap c') = []"
      "generation_source c' \<le> 0 + 1" by (auto simp: example_cache_def new_cache_def)
  have "generation_source c' \<noteq> - 1" using run(3) word_order.extremum_uniqueI [of "1 :: u64"] by auto
  with run cache.set_keeps [OF example_cache_ok(1) run(1)] show ?thesis by auto
qed

theorem read_after_write_witness:
  "\<exists>c1 c2. cache_set [7] [1, 2] 0 example_cache = Some (Inr C_ok, c1) \<and>
     cache_get [7] [] c1 = Some (Inr C_ok, [1, 2], c2)"
proof -
  obtain c1 where c1: "cache_set [7] [1, 2] 0 example_cache = Some (Inr C_ok, c1)" "cache_inv c1"
    "oom (c_heap c1) = []" using example_set [of 0] by auto
  from get_answers [OF c1(2,3), of "[7]" "[]"] obtain st out' c2 where
    get: "cache_get [7] [] c1 = Some (Inr st, out', c2)" by blast
  from read_after_write [OF example_cache_ok(1) c1(1) get] c1(1) get show ?thesis by blast
qed

text \<open>
  C12: A value set with a time to live of \<open>ttl\<close> milliseconds is in the cache until one tick
  before \<open>ttl / 1000\<close> (rounded up) ticks have passed, and gone from then on.
\<close>

theorem ttl_exact:
  assumes "cache_inv c" and "cache_set k v ttl c = Some (Inr C_ok, c1)" and "sint ttl > 0"
    and "cache_ticks n c1 = Some (Inr (), c2)"
  shows "map_option fst (map_of (view c2) k) = (if n < unat (ttl_ticks ttl) then Some v else None)"
  using cache.lives_exactly [OF assms(1-3), of n c2] assms(4) by (simp add: cache_ticks_eq)

theorem ttl_exact_witness:
  "\<exists>c1 c2. cache_set [7] [1, 2] 1500 example_cache = Some (Inr C_ok, c1) \<and>
     cache_ticks 2 c1 = Some (Inr (), c2) \<and> map_of (view c2) [7] = None"
proof -
  obtain c1 where c1: "cache_set [7] [1, 2] 1500 example_cache = Some (Inr C_ok, c1)" "cache_inv c1"
    "oom (c_heap c1) = []" using example_set [of 1500] by auto
  from ticks_succeed [OF c1(2,3)] obtain c2 where c2: "cache_ticks 2 c1 = Some (Inr (), c2)" by blast
  have "map_option fst (map_of (view c2) [7]) = (if 2 < unat (ttl_ticks 1500) then Some [1, 2] else None)"
    by (rule ttl_exact [OF example_cache_ok(1) c1(1) _ c2]) simp
  then show ?thesis using c1 c2 by (auto simp: ttl_ticks_def)
qed

text \<open>
  C22: A timer never outlives the value it was set for: once a key has been overwritten
  without a time to live, no number of ticks removes the new value.
\<close>

theorem stale_timer_harmless:
  assumes "cache_inv c" and "cache_set k v ttl c = Some (r, c1)"
    and "cache_set k w 0 c1 = Some (Inr C_ok, c2)" and "cache_ticks n c2 = Some (Inr (), c3)"
  shows "map_of (view c3) k = Some (w, None)"
proof -
  have inv1: "cache_inv c1" using cache.set_keeps [OF assms(1,2)] by simp
  have inv2: "cache_inv c2" using cache.set_keeps [OF inv1 assms(3)] by simp
  have "map_of (view c2) k = Some (w, None)"
    unfolding cache.set_stores [OF inv1 assms(3)] by (simp add: lru_set_lookup_same ttl_deadline_def)
  then show ?thesis using cache.ticks_lookup [OF inv2, of n c3 k] assms(4) by (simp add: cache_ticks_eq)
qed

theorem stale_timer_harmless_witness:
  "\<exists>c1 c2 c3. cache_set [7] [1, 2] 1500 example_cache = Some (Inr C_ok, c1) \<and>
     cache_set [7] [5] 0 c1 = Some (Inr C_ok, c2) \<and> cache_ticks 100 c2 = Some (Inr (), c3) \<and>
     map_of (view c3) [7] = Some ([5], None)"
proof -
  obtain c1 where c1: "cache_set [7] [1, 2] 1500 example_cache = Some (Inr C_ok, c1)" "cache_inv c1"
    "oom (c_heap c1) = []" "generation_source c1 \<noteq> - 1" using example_set [of 1500] by auto
  have "capacity_bytes c1 = 64"
    using cache.set_keeps [OF example_cache_ok(1) c1(1)] example_cache_ok(5) by simp
  then have "set_verdict (capacity_bytes c1) [7] [5] 0 = C_ok" by (simp add: set_verdict_def)
  with set_succeeds [OF c1(2-4), of "[7]" "[5]" 0] obtain c2 where
    c2: "cache_set [7] [5] 0 c1 = Some (Inr C_ok, c2)" "oom (c_heap c2) = []" by auto
  have "cache_inv c2" using cache.set_keeps [OF c1(2) c2(1)] by simp
  from ticks_succeed [OF this c2(2)] obtain c3 where c3: "cache_ticks 100 c2 = Some (Inr (), c3)" by blast
  from stale_timer_harmless [OF example_cache_ok(1) c1(1) c2(1) c3] c1(1) c2(1) c3 show ?thesis by blast
qed

text \<open>
  C23: The eviction loops of \<^verbatim>\<open>set\<close> return. With the first items protected and their charge
  credited, what remains is the protected part and the longest prefix of the rest that
  fits into the room; the eviction counter counts the removed items.
\<close>

theorem eviction_loop:
  assumes "cache_inv c" and "items c = keep @ rest" and "unat credit = sum_list (map item_size keep)"
  shows "\<exists>c'. evict_while credit room c = Some c' \<and> cache_inv c' \<and>
           items c' = keep @ fit item_size (unat room) rest \<and>
           eviction_count c' =
             eviction_count c + of_nat (length rest - length (fit item_size (unat room) rest))"
  using evict_while_ok [OF assms] by blast

theorem eviction_loop_witness: "\<exists>c'. evict_while 0 10 example_cache = Some c' \<and> items c' = []"
proof -
  have "items example_cache = [] @ []" using example_cache_ok(2) by (simp add: view_def)
  from eviction_loop [OF example_cache_ok(1) this, of 0 10] show ?thesis by auto
qed

text \<open>
  C8: Nothing leaks. Take a new shard with any capacity and either allocator, and let any of its
  allocations fail; after any sequence of \<^verbatim>\<open>set\<close>, \<^verbatim>\<open>get\<close>, \<^verbatim>\<open>erase\<close> and \<^verbatim>\<open>tick\<close> calls, all of which return,
  the bytes the allocator counts as in use are exactly the bytes of the values in the cache, and
  when the shard is destroyed, its entries, its cache and then its allocator, no block of memory that
  was obtained from the system is left, and none was given back twice.
\<close>

theorem no_leak:
  "\<exists>results s. run_shard_ops ops (new_shard capacity backend outcomes) = Some (results, s) \<and>
     length results = length ops \<and>
     used_bytes (allocator_metrics (shard_cache s)) = of_nat (\<Sum>x\<leftarrow>shard_view s. length (fst (snd x))) \<and>
     (\<exists>h. destroy_shard s = Some h \<and> blocks h = (\<lambda>_. None))"
proof -
  from run_shard_ops_ok [OF new_shard_inv(1), of ops capacity backend outcomes] obtain results s where
    "run_shard_ops ops (new_shard capacity backend outcomes) = Some (results, s)" "length results = length ops"
    "shard_inv s" by blast
  moreover from this(3) used_bytes_view [of "shard_cache s"] destroy_shard_clean [of s] have
    "used_bytes (allocator_metrics (shard_cache s)) = of_nat (\<Sum>x\<leftarrow>shard_view s. length (fst (snd x)))"
    "\<exists>h. destroy_shard s = Some h \<and> blocks h = (\<lambda>_. None)" by (auto simp: shard_inv_def)
  ultimately show ?thesis by blast
qed

text \<open>
   The memory usage the cache reports is exactly the total length of its keys and
  values, and never exceeds the capacity.
\<close>

theorem usage_exact:
  assumes "cache_inv c"
  shows "unat (memory_usage_bytes c) = total_charge (view c) \<and> total_charge (view c) \<le> unat (capacity_bytes c)"
  using view_charge [OF assms] cache.content_fits [OF assms] by simp

theorem usage_exact_witness: "unat (memory_usage_bytes example_cache) = 0"
  using usage_exact [OF example_cache_ok(1)] example_cache_ok(2) by simp

section \<open>Shards and threads\<close>

text \<open>
   Whatever way the threads interleave, at every moment exactly the owner of the mutex
  is in the critical section of a shard, and the cache is what the completed operations,
  run one after the other in the order in which they held the lock, make of the initial
  cache, with the same results.
\<close>

theorem shard_linearizable:
  assumes "shard_reach c s" and "cache_inv c"
  shows "(\<forall>t. in_critical (phases s t) \<longleftrightarrow> owner s = Some t) \<and> cache_inv (shared_cache s) \<and>
         replay (completed s) c = Some (shared_cache s)"
  using shard_reach_inv [OF assms] by blast

theorem shard_linearizable_witness:
  "shard_reach example_cache (start_shared example_cache) \<and>
     replay (completed (start_shared example_cache)) example_cache =
       Some (shared_cache (start_shared example_cache))"
  using shard_linearizable [OF shard_reach.start example_cache_ok(1)] shard_reach.start by blast

text \<open>
   The shard never deadlocks: as long as some thread has called it, some thread that
  has called it can take a step.
\<close>

theorem shard_progress:
  assumes "shard_reach c s" and "cache_inv c" and "phases s t \<noteq> Outside"
  shows "\<exists>t' s'. shard_step s s' \<and> phases s t' \<noteq> Outside \<and> phases s' t' \<noteq> phases s t'"
  by (rule shard_no_deadlock [OF assms])

theorem shard_progress_witness:
  "\<exists>t' s'. shard_step ((start_shared example_cache)\<lparr>phases := (\<lambda>_. Outside)(3 := Waiting Op_tick)\<rparr>) s' \<and>
     phases s' t' \<noteq> ((\<lambda>_. Outside)(3 := Waiting Op_tick)) t'"
proof -
  let ?s = "(start_shared example_cache)\<lparr>phases := (\<lambda>_. Outside)(3 := Waiting Op_tick)\<rparr>"
  have "shard_step (start_shared example_cache) ?s"
    using shard_step.call [of "start_shared example_cache" 3 Op_tick] by (simp add: start_shared_def)
  then have "shard_reach example_cache ?s" by (rule shard_reach.step [OF shard_reach.start])
  from shard_progress [OF this example_cache_ok(1), of 3] obtain t' s' where
    "shard_step ?s s'" and "phases s' t' \<noteq> phases ?s t'" by auto
  moreover have "phases ?s = (\<lambda>_. Outside)(3 := Waiting Op_tick)" by simp
  ultimately show ?thesis by metis
qed

section \<open>The engine\<close>

text \<open>
  C5: Any number of threads may call the engine at once, without a lock of its own: whatever way
  their steps interleave, at every shard exactly the owner of its mutex is in the critical
  section, and the engine is what the bodies that have run, one after the other in the order in
  which they ran, make of the initial engine by its member functions, with the same results;
  so every call for a key takes effect at one moment between its beginning and its end.
\<close>

theorem engine_linearizable:
  assumes "engine_reach hash e s" and "engine_inv hash e"
  shows "engine_replay hash (sys_history s) e = Some (engine_of e s) \<and> engine_inv hash (engine_of e s) \<and>
         (\<forall>i < length (shards e). \<forall>t.
            in_critical (phases (sys_shards s ! i) t) \<longleftrightarrow> owner (sys_shards s ! i) = Some t)"
  using engine_history [OF assms] by blast

lemma example_call:
  "engine_reach example_hash example_engine
     ((start_engine example_engine)\<lparr>sys_pc := (\<lambda>_. Away)(4 := Before 0 Call_tick)\<rparr>)"
  using engine_called [of "start_engine example_engine" 4 example_hash Call_tick]
  by (intro engine_reach.more [OF engine_reach.init]) (simp add: start_engine_def)

theorem engine_linearizable_witness:
  "engine_inv example_hash (engine_of example_engine
     ((start_engine example_engine)\<lparr>sys_pc := (\<lambda>_. Away)(4 := Before 0 Call_tick)\<rparr>))"
  using engine_linearizable [OF example_call example_engine_ok] by blast

text \<open>
  C26: The engine never deadlocks: as long as some thread is in a call, some such thread can take a
  step that brings its call nearer to the end and delays no other, and every step is such a
  step or the beginning of a call.
\<close>

theorem engine_progress:
  assumes "engine_reach hash e s" and "engine_inv hash e" and "sys_pc s t \<noteq> Away"
  shows "(\<exists>u s'. sys_pc s u \<noteq> Away \<and> engine_step hash s s' \<and> moves u s s') \<and>
         (\<forall>s'. engine_step hash s s' \<longrightarrow>
            (\<exists>u. sys_pc s u = Away \<and> sys_pc s' u \<noteq> Away) \<or> (\<exists>u. sys_pc s u \<noteq> Away \<and> moves u s s'))"
  using engine_can_move [OF assms] step_moves [OF engine_reach_inv [OF assms(1,2)]] by blast

theorem engine_progress_witness:
  "\<exists>u s'. engine_step example_hash
     ((start_engine example_engine)\<lparr>sys_pc := (\<lambda>_. Away)(4 := Before 0 Call_tick)\<rparr>) s' \<and>
     moves u ((start_engine example_engine)\<lparr>sys_pc := (\<lambda>_. Away)(4 := Before 0 Call_tick)\<rparr>) s'"
  using engine_progress [OF example_call example_engine_ok, of 4] by auto

text \<open>
  C32: A write to the engine is a write to the one shard its key hashes to: on success the
  key is bound to the value; a refused write changes nothing; other keys of that shard may
  be evicted but never change; keys of other shards are not affected at all.
\<close>

theorem engine_set_isolated:
  assumes "engine_inv hash e"
  shows "\<exists>r e'. engine_set hash k v ttl e = Some (r, e') \<and> engine_inv hash e' \<and>
           (r = Inr C_ok \<longrightarrow> engine_lookup hash e' k = Some (v, ttl_deadline ttl)) \<and>
           (\<forall>st. r = Inr st \<longrightarrow> st \<noteq> C_ok \<longrightarrow> e' = e) \<and>
           (\<forall>j. j \<noteq> k \<longrightarrow> shard_for hash j e = shard_for hash k e \<longrightarrow>
              engine_lookup hash e' j \<in> {None, engine_lookup hash e j}) \<and>
           (\<forall>j. shard_for hash j e \<noteq> shard_for hash k e \<longrightarrow>
              engine_lookup hash e' j = engine_lookup hash e j)"
  using engine_set_ok [OF assms, of k v ttl] by (elim exE conjE) (intro exI conjI; assumption)

theorem engine_set_isolated_witness:
  "\<exists>r e'. engine_set example_hash [1] [2] 0 example_engine = Some (r, e') \<and> engine_inv example_hash e'"
  using engine_set_isolated [OF example_engine_ok, of example_hash "[1]" "[2]" 0] by (elim exE conjE) auto

text \<open>
   A read from the engine delivers what is bound to the key, and does not change what
  any key is bound to.
\<close>

theorem engine_get_reads:
  assumes "engine_inv hash e" and "validate_key k = C_ok"
  shows "\<exists>r out' e'. engine_get hash k out e = Some ((r, out'), e') \<and> engine_inv hash e' \<and>
           engine_lookup hash e' = engine_lookup hash e \<and>
           (case r of
              Inl x \<Rightarrow> out' = out
            | Inr st \<Rightarrow> (case engine_lookup hash e k of
                            None \<Rightarrow> st = C_not_found \<and> out' = out
                          | Some (v, t) \<Rightarrow> st = C_ok \<and> out' = v))"
  using engine_get_ok [OF assms, of out] by blast

theorem engine_get_reads_witness:
  "\<exists>r out' e'. engine_get example_hash [1] [] example_engine = Some ((r, out'), e') \<and>
     engine_lookup example_hash e' = engine_lookup example_hash example_engine"
proof -
  have "validate_key [1] = C_ok" by (simp add: validate_key_def)
  from engine_get_reads [OF example_engine_ok this, of example_hash "[]"] show ?thesis by blast
qed

text \<open>
   A tick of the engine is a tick of every shard. When a shard runs out of memory in
  its tick, the exception leaves the loop: the shards before it have ticked, that shard
  and the later ones have not.
\<close>

theorem engine_tick_shards:
  assumes "engine_inv hash e"
  shows "\<exists>r e'. engine_tick e = Some (r, e') \<and> engine_inv hash e' \<and>
           (case r of
              Inr _ \<Rightarrow> map shard_view (shards e') = map (lru_tick \<circ> shard_view) (shards e)
            | Inl x \<Rightarrow> (\<exists>n < length (shards e). map shard_view (shards e') =
                map (lru_tick \<circ> shard_view) (take n (shards e)) @ map shard_view (drop n (shards e))))"
  using engine_tick_ok [OF assms] by blast

theorem engine_tick_shards_witness:
  "\<exists>r e'. engine_tick example_engine = Some (r, e') \<and> engine_inv example_hash e'"
  using engine_tick_shards [OF example_engine_ok, of example_hash] by blast

text \<open>
  C33: The constructor of the engine makes as many shards as asked for, in order and empty,
  with capacities that add up to exactly the given one.
\<close>

theorem engine_new_splits:
  assumes "new_engine capacity n backend outs h = (Inr e, h')"
  shows "engine_inv hash e \<and> length (shards e) = unat n \<and>
         (\<Sum>s\<leftarrow>shards e. unat (shard_capacity s)) = unat capacity \<and> engine_lookup hash e k = None"
  using new_engine_ok [OF assms] by (simp add: engine_inv_def)

theorem engine_new_splits_witness: "length (shards example_engine) = 3"
proof -
  obtain h' where "new_engine 100 3 Backend_system (\<lambda>_. []) (empty_heap []) = (Inr example_engine, h')"
    using example_engine_new by (metis prod.collapse)
  from engine_new_splits [OF this, of example_hash "[]"] show ?thesis by simp
qed

text \<open>
  C34: The memory usage the engine reports, summed over the shards in 64-bit arithmetic, is
  the exact total of all stored keys and values and never exceeds the configured capacity.
\<close>

theorem engine_memory_bounded:
  assumes "engine_inv hash e"
  shows "\<exists>m. engine_memory_usage e = Some m \<and>
           unat m = (\<Sum>s\<leftarrow>shards e. total_charge (shard_view s)) \<and> unat m \<le> unat (engine_capacity e)"
  by (rule engine_memory_bound [OF assms])

theorem engine_memory_bounded_witness: "\<exists>m. engine_memory_usage example_engine = Some m"
  using engine_memory_bounded [OF example_engine_ok] by blast

section \<open>The allocators\<close>

text \<open>
  C15: The slab allocator hands out memory that overlaps nothing it handed out before, and
  does not touch the contents of what it handed out before.
\<close>

theorem slab_allocate_fresh:
  assumes "slab_inv L a h" and "0 < n" and "slab_allocate n a h = Some (Inr r, a', h')"
  shows "\<exists>p. r = Some p \<and> L p = None \<and> slab_inv (L(p \<mapsto> n)) a' h' \<and> in_bounds h' p n \<and>
           footprint L \<inter> region p n = {} \<and> agree_on (footprint L) h h'"
proof -
  from slab_alloc.allocate_succeeds [OF assms] obtain p where
    p: "r = Some p" "L p = None" "slab_inv (L(p \<mapsto> n)) a' h'" "agree_on (footprint L) h h'" by blast
  with slab_alloc.fresh_region [OF p(3,2)] slab_alloc.live_bounds [OF p(3), of p n] show ?thesis by auto
qed

lemma example_slab:
  "\<exists>p a' h'. slab_allocate 100 new_slab_allocator (empty_heap []) = Some (Inr (Some p), a', h') \<and>
     slab_inv [p \<mapsto> 100] a' h'"
proof -
  have inv: "slab_inv Map.empty new_slab_allocator (empty_heap [])" by (rule slab_inv_new)
  from slab_alloc.allocate_defined [OF inv, of 100] obtain r a' h' where
    run: "slab_allocate 100 new_slab_allocator (empty_heap []) = Some (r, a', h')" by auto
  then have "va_allocate 100 (Slab new_slab_allocator) (empty_heap []) = Some (r, Slab a', h')" by simp
  from va_allocate_nil [OF this] obtain q where "r = Inr q" by (auto simp: empty_heap_def)
  with run slab_alloc.allocate_succeeds [OF inv, of 100 q a' h'] show ?thesis by auto
qed

theorem slab_allocate_fresh_witness:
  "\<exists>p a' h'. slab_allocate 100 new_slab_allocator (empty_heap []) = Some (Inr (Some p), a', h') \<and>
     in_bounds h' p 100"
proof -
  obtain p a' h' where run: "slab_allocate 100 new_slab_allocator (empty_heap []) = Some (Inr (Some p), a', h')"
    using example_slab by blast
  from slab_allocate_fresh [OF slab_inv_new _ run] run show ?thesis by auto
qed

text \<open>
  C36: Every block the slab allocator handed out can be given back with the size it was
  asked for; this never fails and disturbs no other block, and the memory is really available
  again: an object of a slab is what the next allocation of its size class returns, without
  asking the system, and the block of a larger value has been deleted and no other with it.
\<close>

theorem slab_deallocate_returns:
  assumes "slab_inv L a h" and "L p = Some n"
  shows "\<exists>a' h'. slab_deallocate (Some p) n a h = Some (a', h') \<and> slab_inv (L(p := None)) a' h' \<and>
           agree_on (footprint (L(p := None))) h h' \<and>
           (n \<le> max_class_size \<longrightarrow>
              (\<forall>m. 0 < m \<longrightarrow> m \<le> max_class_size \<longrightarrow> class_index m = class_index n \<longrightarrow>
                 (\<exists>a''. slab_allocate m a' h' = Some (Inr (Some p), a'', h')))) \<and>
           (max_class_size < n \<longrightarrow> blocks h' = (blocks h)(blk p := None))"
  using slab_alloc.deallocate_live [OF assms] slab_deallocate_small_reuse [OF _ assms(1)]
    slab_deallocate_large_frees by meson

theorem slab_deallocate_returns_witness:
  "\<exists>p a h a' h' a''. slab_inv [p \<mapsto> 100] a h \<and> slab_deallocate (Some p) 100 a h = Some (a', h') \<and>
     slab_inv Map.empty a' h' \<and> slab_allocate 128 a' h' = Some (Inr (Some p), a'', h')"
proof -
  obtain p a h where inv: "slab_inv [p \<mapsto> 100] a h" using example_slab by blast
  have idx: "class_index 128 = class_index 100" "max_class_size = 8192" by code_simp+
  from slab_deallocate_returns [OF inv, of p 100] obtain a' h' where
    "slab_deallocate (Some p) 100 a h = Some (a', h')" "slab_inv Map.empty a' h'"
    and reuse: "\<forall>m. 0 < m \<longrightarrow> m \<le> max_class_size \<longrightarrow> class_index m = class_index 100 \<longrightarrow>
       (\<exists>a''. slab_allocate m a' h' = Some (Inr (Some p), a'', h'))" by (auto simp: idx(2))
  moreover from reuse [rule_format, of 128] obtain a'' where
    "slab_allocate 128 a' h' = Some (Inr (Some p), a'', h')" by (auto simp: idx)
  ultimately show ?thesis using inv by blast
qed

text \<open>
   The metrics of a slab allocator balance: the bytes in use are the bytes asked for and
  not given back; everything obtained from the system is in use, free, or lost to
  rounding up; allocations and deallocations differ by the number of live blocks. All
  this holds in the wrapping arithmetic of the counters.
\<close>

theorem slab_metrics_balance:
  assumes "slab_inv L a h"
  shows "used_bytes (slab_metrics a) = live_sum of_nat L \<and>
         allocated_bytes (slab_metrics a) =
           used_bytes (slab_metrics a) + free_bytes (slab_metrics a) + internal_fragmentation (slab_metrics a) \<and>
         allocation_count (slab_metrics a) = deallocation_count (slab_metrics a) + of_nat (card (dom L))"
  using slab_alloc.metrics_exact [OF assms] by (simp add: metrics_ok_def)

theorem slab_metrics_balance_witness: "used_bytes (slab_metrics new_slab_allocator) = 0"
  using slab_metrics_balance [OF slab_inv_new [of "[]"]] by simp

section \<open>The timing wheel\<close>

text \<open>
   The \<open>i\<close>-th tick from now fires exactly the events that have \<open>i\<close> ticks left, and an
  event scheduled for \<open>ttl\<close> milliseconds has \<open>ttl / 1000\<close> ticks left, rounded up.
\<close>

theorem wheel_fires_on_time:
  assumes "wheel_inv w" and "0 < unat ttl" and "schedule k g ttl w h = (Inr u, w1, h1)"
    and "wheel_ticks n w1 h1 = Some (fired, w2, h2)"
  shows "mset (pending w1) = add_mset (k, g, (unat ttl + 999) div 1000) (mset (pending w)) \<and>
         length fired = n \<and>
         (\<forall>i < n. fired ! i = map (\<lambda>(k, g, d). (k, g)) (filter (\<lambda>(k, g, d). d = Suc i) (pending w1)))"
proof -
  have "(n + 999) div 1000 = n div 1000 + (if n mod 1000 \<noteq> 0 then 1 else 0)" for n :: nat
  proof -
    have "(n mod 1000 + 999) div 1000 = 1" if "n mod 1000 \<noteq> 0"
      using that by (intro div_nat_eqI) auto
    then show ?thesis by (auto simp: div_add1_eq [of n 999])
  qed
  then have "unat (ttl_ticks ttl) = (unat ttl + 999) div 1000" by (simp only: unat_ttl_ticks)
  with wheel.sched_ok [OF assms(1-3)] wheel.run_fires [of w1 n h1 fired w2 h2] assms(4)
  show ?thesis by (simp add: wheel_ticks_run)
qed

theorem wheel_fires_on_time_witness:
  "\<exists>w1 fired w2. schedule [7] 1 61000 new_timing_wheel (empty_heap []) = (Inr (), w1, empty_heap []) \<and>
     wheel_ticks 61 w1 (empty_heap []) = Some (fired, w2, empty_heap []) \<and> fired ! 60 = [([7], 1)]"
proof -
  have nil: "oom (empty_heap []) = []" by (simp add: empty_heap_def)
  obtain w1 where s: "schedule [7] 1 61000 new_timing_wheel (empty_heap []) = (Inr (), w1, empty_heap [])"
    using nil by (simp add: schedule_def Let_def)
  obtain fired w2 where r: "wheel_ticks 61 w1 (empty_heap []) = Some (fired, w2, empty_heap [])"
    using wheel_ticks_succeed [OF nil] by blast
  from wheel_fires_on_time [OF wheel_inv_new _ s r] have
    "mset (pending w1) = {#([7], 1, 61)#}"
    "fired ! 60 = map (\<lambda>(k, g, d). (k, g)) (filter (\<lambda>(k, g, d). d = Suc 60) (pending w1))"
    by auto
  then have "pending w1 = [([7], 1, 61)]" by (metis mset_single_iff)
  with s r \<open>fired ! 60 = _\<close> show ?thesis by simp
qed

section \<open>The protocol\<close>

text \<open>
  C14: Whatever request the client's encoder accepts, the server's decoder gets back from
  the bytes, and nothing else is consumed of what follows in the buffer; the only thing
  that can go wrong is a lack of memory, which leaves the buffer as it was.
\<close>

theorem request_roundtrip:
  assumes "encode_request r h0 = (Inr bytes, h1)" and "buffer_inv b" and "readable_view b = bytes @ rest"
  shows "\<exists>q b' req' err' h'. decode_request b req err h = Some (q, b', req', err', h') \<and>
           (case q of
              Inl x \<Rightarrow> x = Bad_alloc \<and> b' = b
            | Inr d \<Rightarrow> d = Decode_complete \<and> req' = r \<and> err' = no_error \<and>
                buffer_inv b' \<and> readable_view b' = rest)"
  using request_frame_exact(1) [OF assms(2)] encode_request_ok [OF assms(1)] assms(3) by blast

theorem request_roundtrip_witness:
  "\<exists>bytes q b' req' err' h'. encode_request example_request (empty_heap []) = (Inr bytes, empty_heap []) \<and>
     decode_request (example_buffer (bytes @ [1, 2, 3])) new_request no_error (empty_heap []) =
       Some (q, b', req', err', h')"
proof -
  let ?f = "request_frame example_request"
  have enc: "encode_request example_request (empty_heap []) = (Inr ?f, empty_heap [])"
    using encode_request_accepts [OF example_request_ok(1)] by (simp add: empty_heap_def)
  have "buffer_inv (example_buffer (?f @ [1, 2, 3]))" "readable_view (example_buffer (?f @ [1, 2, 3])) = ?f @ [1, 2, 3]"
    using example_request_ok(2) by (auto intro!: example_buffer_ok)
  from request_roundtrip [OF enc this, of new_request no_error "empty_heap []"] enc show ?thesis by blast
qed



text \<open>C25: Responses survive the wire: with memory for the value, the client's decoder gets back what the server encoded,
  and leaves the bytes that follow.\<close>

theorem response_roundtrip:
  assumes "encode_response r h0 = (Inr bytes, h1)" and "buffer_inv b"
    and "readable_view b = bytes @ rest" and "oom h = []"
  shows "\<exists>b'. decode_response b resp err h = Some (Inr Decode_complete, b', r, no_error, h) \<and>
           buffer_inv b' \<and> readable_view b' = rest"
  using response_frame_exact [OF assms(2)] encode_response_ok [OF assms(1)] assms(3,4) by blast

theorem response_roundtrip_witness:
  "\<exists>b'. decode_response (example_buffer (response_frame example_response)) new_response no_error (empty_heap []) =
     Some (Inr Decode_complete, b', example_response, no_error, empty_heap []) \<and> readable_view b' = []"
proof -
  let ?f = "response_frame example_response"
  have enc: "encode_response example_response (empty_heap []) = (Inr ?f, empty_heap [])"
    using encode_response_accepts [OF example_response_ok(1)] by (simp add: empty_heap_def)
  have "buffer_inv (example_buffer ?f)" "readable_view (example_buffer ?f) = ?f @ []"
    using example_response_ok(2) by (auto intro!: example_buffer_ok)
  from response_roundtrip [OF enc this, of "empty_heap []"] show ?thesis by (auto simp: empty_heap_def)
qed

section \<open>Connections\<close>

text \<open>
  C11: A connection answers a stream of requests correctly whatever way the network cuts it
  into chunks: when all of it has arrived, the queued output is the encoded responses of
  executing the requests one after the other on the engine, in order, each exactly once,
  as long as they fit under the output limit and memory does not run out.
\<close>

theorem connection_serves_stream:
  assumes "conn_idle hash c env" and "output_limit c \<le> 2 ^ 60" and "oom (env_heap env) = []"
    and "readable_view (input_buffer c) = []" and "\<not> close_after_write c" and "\<not> closing c"
    and "\<forall>r \<in> set reqs. encodable r" and "concat chunks = request_stream reqs"
    and "\<forall>bs \<in> set chunks. length bs \<le> 64 * 1024"
    and "serve hash reqs (env_engine env) = Some (resps, e')"
    and "pending_output_bytes c + length (response_stream resps) \<le> output_limit c"
  shows "\<exists>c'. handle_readable hash (map Received chunks) c env =
             Some (Inr True, c', env\<lparr>env_engine := e'\<rparr>) \<and>
           readable_view (input_buffer c') = [] \<and>
           readable_view (output_buffer c') = readable_view (output_buffer c) @ response_stream resps"
  using handle_readable_serves [OF assms] by force

theorem connection_serves_stream_witness:
  "\<exists>resps e' c'. serve example_hash [example_request] example_engine = Some (resps, e') \<and>
     handle_readable example_hash
       (map Received [take 5 (request_frame example_request), drop 5 (request_frame example_request)])
       example_connection example_env = Some (Inr True, c', example_env\<lparr>env_engine := e'\<rparr>) \<and>
     readable_view (output_buffer c') = response_stream resps"
proof -
  let ?f = "request_frame example_request"
  from serve_ok [OF example_engine_ok, of example_hash "[example_request]"] obtain resps e' where
    s: "serve example_hash [example_request] example_engine = Some (resps, e')" by blast
  then obtain resp where resps: "resps = [resp]" and
    run: "run_request example_hash example_request example_engine = Some (resp, e')"
    by (auto split: option.splits)
  obtain r e1 where "engine_set example_hash [1] [2, 3] 1500 example_engine = Some (r, e1)"
    using engine_set_ok [OF example_engine_ok, of example_hash "[1]" "[2, 3]" 1500] by (elim exE conjE)
  with run have "resp_value resp = []"
    by (cases r) (auto simp: run_request_def Let_def example_request_def new_response_def)
  then have "length (response_stream resps) = 20" by (simp add: resps length_response_frame)
  moreover have "env_engine example_env = example_engine" "output_limit example_connection = 4096"
    "\<not> close_after_write example_connection" "\<not> closing example_connection"
    "pending_output_bytes example_connection = 0"
    using example_connection_ok(6)
    by (simp_all add: example_env_def example_connection_def pending_output_bytes_def)
  ultimately obtain c' where
    "handle_readable example_hash (map Received [take 5 ?f, drop 5 ?f]) example_connection example_env =
       Some (Inr True, c', example_env\<lparr>env_engine := e'\<rparr>)"
    "readable_view (output_buffer c') = readable_view (output_buffer example_connection) @ response_stream resps"
    using connection_serves_stream [OF example_connection_ok(1) [of example_hash] example_connection_ok(2-4),
        of "[example_request]" "[take 5 ?f, drop 5 ?f]" resps e'] s example_request_ok by auto
  with s example_connection_ok(5) show ?thesis by auto
qed

text \<open>
  C9: At every moment of a conversation, whatever bytes the peer sends in whatever portions, however
  reads, writes, failures of memory and changes of the engine by others alternate: what was
  received is a sequence of requests and a rest; each of these requests was run on the engine
  in order, and what was sent is the beginning of their encoded answers, in order and
  each once, possibly followed by one message about a malformed request. While the connection
  is open, what is sent and what is queued is all of these answers; unless it is about to
  close after a malformed request, all complete requests have been answered and only less than
  a frame is waiting. If nobody else uses the engine, the answers are those of executing the
  requests one after the other from the initial engine.
\<close>

theorem connection_conversation:
  assumes "new_connection limit h = (Inr c, h')" and "engine_inv hash (env_engine env)"
    and "conv_reach hash shared c env v"
  shows "\<exists>reqs rest resps extra. (\<forall>r \<in> set reqs. encodable r) \<and>
           cv_received v = request_stream reqs @ rest \<and> answered hash reqs resps \<and>
           (extra = [] \<or> complains extra) \<and> prefix (cv_sent v) (response_stream resps @ extra) \<and>
           (\<not> shared \<longrightarrow> serve hash reqs (env_engine env) = Some (resps, env_engine (cv_env v))) \<and>
           (cv_open v \<longrightarrow>
              cv_sent v @ readable_view (output_buffer (cv_conn v)) = response_stream resps @ extra \<and>
              pending_output_bytes (cv_conn v) \<le> output_limit (cv_conn v) \<and>
              (if close_after_write (cv_conn v) then complains extra
               else extra = [] \<and> unfinished rest \<and> length rest < 32 + 250 + 1024 * 1024))"
proof -
  have inv: "conv_inv hash shared (env_engine env) v" using conv_reach_inv [OF assms(3,1,2)] by blast
  then obtain reqs rest resps extra where told: "conv_told hash reqs rest resps extra v"
    and served: "\<not> shared \<longrightarrow> serve hash reqs (env_engine env) = Some (resps, env_engine (cv_env v))"
    by (auto simp: conv_inv_def)
  have idle: "cv_open v \<Longrightarrow> conn_idle hash (cv_conn v) (cv_env v)" using inv by (simp add: conv_inv_def conv_alive_def)
  then have "cv_open v \<Longrightarrow> pending_output_bytes (cv_conn v) \<le> output_limit (cv_conn v)"
    and "cv_open v \<Longrightarrow> length (readable_view (input_buffer (cv_conn v))) < 32 + 250 + 1024 * 1024"
    by (auto simp: conn_idle_def conn_inv_def pending_output_bytes_def length_readable_view)
  with told served show ?thesis
    unfolding conv_told_def
    by - (rule exI [of _ reqs], rule exI [of _ rest], rule exI [of _ resps], rule exI [of _ extra], auto)
qed

theorem connection_conversation_witness:
  "\<exists>v. conv_reach example_hash True example_connection example_env v \<and> cv_received v = [1, 2, 3] \<and>
     (\<exists>resps extra. prefix (cv_sent v) (response_stream resps @ extra))"
proof -
  let ?rs = "[Received [1, 2, 3]]" and ?v = "start_conversation example_connection example_env"
  have new: "new_connection 4096 (empty_heap []) = (Inr example_connection, empty_heap [])"
    by (simp add: new_connection_def new_buffer_def vector_max_size_def container_alloc_nil empty_heap_def
        example_connection_def example_buffer_def)
  have rs: "recv_results_ok ?rs" by (simp add: recv_results_ok_def)
  from readable_loop_ok [OF example_connection_ok(1) rs, of example_hash] obtain r c env where
    "handle_readable example_hash ?rs example_connection example_env = Some (r, c, env)"
    by (auto simp: handle_readable_def)
  then have "conv_step example_hash True ?v
      (?v\<lparr>cv_conn := c, cv_env := env, cv_received := cv_received ?v @ taken ?rs, cv_open := (r = Inr True)\<rparr>)"
    using rs by (intro conv_read) (auto simp: start_conversation_def)
  then obtain w where w: "conv_reach example_hash True example_connection example_env w" "cv_received w = [1, 2, 3]"
    using conv_on [OF conv_start] by (fastforce simp: start_conversation_def)
  moreover have "engine_inv example_hash (env_engine example_env)" using example_engine_ok by (simp add: example_env_def)
  ultimately show ?thesis using connection_conversation [OF new _ w(1)] by blast
qed

text \<open>
  C21: Every request is answered, and the answer can be sent: dispatching a request on the engine
  always gives a response, with the identifier of the request, a status of the protocol that is
  never the one for malformed requests, and a value only for a read that has found one; the
  engine keeps its invariant.
\<close>

theorem answers_well_typed:
  assumes "engine_inv hash e"
  shows "\<exists>resp e'. run_request hash req e = Some (resp, e') \<and> engine_inv hash e' \<and>
           response_encodable resp \<and> response_id resp = request_id req \<and> status resp \<noteq> 7 \<and>
           (resp_value resp \<noteq> [] \<longrightarrow> opcode req = 1 \<and> status resp = 0)"
proof -
  from run_request_ok [OF assms, of req] obtain resp e' where
    r: "run_request hash req e = Some (resp, e')" "engine_inv hash e'" "response_encodable resp"
      "response_id resp = request_id req" by blast
  have wire: "to_wire_status st \<noteq> 7" "to_wire_status C_ok = 0" for st by (cases st; simp add: to_wire_status_def)+
  let ?r = "new_response\<lparr>response_id := request_id req\<rparr>"
  let ?answer = "\<lambda>(q :: exn + cache_status) v. case q of Inl x \<Rightarrow> ?r\<lparr>status := 8, resp_value := []\<rparr>
      | Inr st \<Rightarrow> ?r\<lparr>status := to_wire_status st, resp_value := v\<rparr>"
  have "\<exists>q v. resp = ?answer q v \<and> (v \<noteq> [] \<longrightarrow> opcode req = 1 \<and> q = Inr C_ok)"
    using r(1) unfolding run_request_def Let_def 
    by (auto split: if_splits intro: exI [of _ "Inr C_not_found"]) (rule exI [of _ "Inr C_ok"], auto)
  then obtain q v where resp: "resp = ?answer q v" "v \<noteq> [] \<longrightarrow> opcode req = 1 \<and> q = Inr C_ok" by blast
  have "status resp \<noteq> 7 \<and> (resp_value resp \<noteq> [] \<longrightarrow> opcode req = 1 \<and> status resp = 0)"
    using resp wire by (cases q) auto
  with r show ?thesis by blast
qed

theorem answers_well_typed_witness:
  "\<exists>resp e'. run_request example_hash example_request example_engine = Some (resp, e') \<and> response_id resp = 7"
proof -
  have "request_id example_request = 7" by (simp add: example_request_def)
  then show ?thesis using answers_well_typed [OF example_engine_ok, of example_hash example_request] by auto
qed

text \<open>
   Handling a readable socket is safe whatever arrives: it returns or throws, keeps the
  engine and the buffers in order and the queued output under its limit; unless the
  connection is being closed, less than one frame is left waiting, so the next chunk
  always fits.
\<close>

theorem connection_safe:
  assumes "conn_idle hash c env" and "recv_results_ok results"
  shows "\<exists>r c' env'. handle_readable hash results c env = Some (r, c', env') \<and> conn_inv hash c' env' \<and>
           pending_output_bytes c' \<le> output_limit c \<and>
           (\<forall>open. r = Inr open \<longrightarrow> open = (\<not> closing c') \<and> (closing c' \<or> conn_idle hash c' env'))"
proof -
  from readable_loop_ok [OF assms] obtain r c' env' where
    "readable_loop hash results c env = Some (r, c', env')" "conn_inv hash c' env'"
    "output_limit c' = output_limit c" "r = Inr () \<longrightarrow> closing c' \<or> conn_idle hash c' env'" by blast
  then show ?thesis
    by (cases r) (auto simp: handle_readable_def should_close_def pending_output_bytes_def conn_inv_def)
qed

theorem connection_safe_witness:
  "\<exists>r c' env'. handle_readable example_hash [Received [1, 2, 3], Recv_interrupted, Received [4], Recv_closed]
     example_connection example_env = Some (r, c', env') \<and> conn_inv example_hash c' env'"
proof -
  have "recv_results_ok [Received [1, 2, 3], Recv_interrupted, Received [4], Recv_closed]"
    by (simp add: recv_results_ok_def)
  from connection_safe [OF example_connection_ok(1) this, of example_hash] show ?thesis by blast
qed

text \<open>
   Output goes to the peer in order and without loss or repetition: what \<^verbatim>\<open>send\<close> took
  and what is still queued is together what was queued; the result says whether the
  connection stays open.
\<close>

theorem output_in_order:
  assumes "conn_inv hash c env" and "send_results_ok results (pending_output_bytes c)"
  shows "\<exists>open sent c'. handle_writable results c = Some (open, sent, c') \<and> conn_inv hash c' env \<and>
           sent @ readable_view (output_buffer c') = readable_view (output_buffer c) \<and>
           open = (\<not> closing c')"
proof -
  have "send_results_ok results (readable_bytes (output_buffer c))"
    using assms(2) by (simp add: pending_output_bytes_def)
  from handle_writable_ok [OF assms(1) this] show ?thesis by blast
qed

theorem output_in_order_witness:
  "\<exists>open sent c'. handle_writable [Sent 2, Send_interrupted, Sent 1]
     (example_connection\<lparr>output_buffer := example_buffer [1, 2, 3, 4]\<rparr>) = Some (open, sent, c') \<and>
     sent @ readable_view (output_buffer c') = [1, 2, 3, 4]"
proof -
  let ?c = "example_connection\<lparr>output_buffer := example_buffer [1, 2, 3, 4]\<rparr>"
  have b: "buffer_inv (example_buffer [1, 2, 3, 4])" "readable_view (example_buffer [1, 2, 3, 4]) = [1, 2, 3, 4]"
    using example_buffer_ok [of "[1, 2, 3, 4]"] by simp_all
  have len: "readable_bytes (example_buffer [1, 2, 3, 4]) = 4" by (simp add: readable_bytes_def example_buffer_def)
  have "conn_inv example_hash ?c example_env"
    using example_connection_ok(1) [of example_hash] b len
    by (simp add: conn_idle_def conn_inv_def example_connection_def)
  from output_in_order [OF this, of "[Sent 2, Send_interrupted, Sent 1]"] b len show ?thesis
    by (auto simp: pending_output_bytes_def)
qed

section \<open>Configuration\<close>

text \<open>
  C16: A configuration file is accepted exactly when, comments and empty lines aside, every
  line sets a known key to an acceptable value and no key is set twice; the configuration
  then has these values, and the defaults for what is not set. In particular the order of
  the lines does not matter.
\<close>

theorem config_meaning:
  "from_stream contents False source = Inr cfg \<longleftrightarrow>
     (\<exists>ps. file_settings (get_lines contents) = map Some ps \<and> distinct (map fst ps) \<and>
        list_all acceptable ps \<and> cfg = config_of (map_of ps))"
  unfolding from_stream_iff by (simp add: list_all_iff)

text \<open>
  C30: When a configuration is rejected, the message names the first line that is wrong, and
  all lines before it are in order; or reading the file failed after lines in order.
\<close>

theorem config_error_located:
  assumes "from_stream contents bad source = Inl x"
  shows "(\<exists>i < length (lines_read contents bad). \<exists>st d.
            config_lines source 0 (take i (lines_read contents bad)) start_config_state = Inr st \<and>
            config_line source (i + 1) (lines_read contents bad ! i) st = Inl x \<and>
            x = parse_error source (i + 1) d) \<or>
         bad \<and> x = High_cache_error Config_io (''failed while reading configuration: '' @ source)"
proof (cases "config_lines source 0 (lines_read contents bad) start_config_state")
  case (Inl y)
  with assms have "x = y" by (simp add: from_stream_def)
  with config_lines_error [OF has_read_start Inl] show ?thesis by auto
next
  case (Inr st)
  with assms show ?thesis by (simp add: from_stream_def split: if_splits)
qed

theorem config_error_located_witness:
  "\<exists>x. from_stream ''port'' False ''f'' = Inl x \<and> (\<exists>d. x = parse_error ''f'' 1 d)"
proof -
  have "get_lines ''port'' = [''port'']" by (simp add: get_lines.simps)
  then have run: "from_stream ''port'' False ''f'' = Inl (parse_error ''f'' 1 ''expected key=value'')"
    by (simp add: from_stream_def lines_read_def config_line_def trim_id whitespace_def)
  from config_error_located [OF this] run show ?thesis by blast
qed

text \<open> Writing a configuration to a file and reading it back gives the same configuration.\<close>

theorem config_roundtrip:
  assumes "config_printable cfg"
  shows "from_stream (print_config cfg) False source = Inr cfg"
  by (rule config_roundtrip_lemma [OF assms])

theorem config_roundtrip_witness: "from_stream (print_config default_config) False ''f'' = Inr default_config"
proof (rule config_roundtrip)
  show "config_printable default_config"
    by (simp add: config_printable_def default_config_def trim_id whitespace_def)
qed

section \<open>The server\<close>

definition example_worker :: worker where
  "example_worker =
     \<lparr>wk_output_limit = 4096, wk_stop = False, wk_pending = [make_fd 9], wk_connections = [(7, example_connection)],
      wk_watched = [7 \<mapsto> desired_events example_connection], wk_wakeup = 1, wk_closed = [5]\<rparr>"

text \<open>
   The acceptor hands the sockets round: as long as there is memory and no worker has
  been told to stop, the accepted socket number \<open>i\<close> goes to the end of the queue of the worker
  whose index is \<open>i\<close> modulo the number of workers, and nothing else changes in the queues.
\<close>

theorem accept_round_robin:
  assumes "srv_workers s \<noteq> []" and "length (srv_workers s) < 2 ^ 64" and "oom h = []"
    and "\<forall>w \<in> set (srv_workers s). \<not> wk_stop w"
    and "unat (srv_next_worker s) + length (accepted rs) < 2 ^ 64"
  shows "\<exists>s'. accept_connections rs s h = Some (s', h) \<and>
           length (srv_workers s') = length (srv_workers s) \<and>
           (\<forall>j < length (srv_workers s). queued (srv_workers s' ! j) = queued (srv_workers s ! j) @
              dealt (unat (srv_next_worker s)) (length (srv_workers s)) (accepted rs) j) \<and>
           srv_next_worker s' = srv_next_worker s + of_nat (length (accepted rs))"
  by (rule accept_connections_deals [OF assms])

definition example_server :: server where
  "example_server =
     \<lparr>srv_options = config_options default_config, srv_port = 11211, srv_workers = [example_worker, example_worker],
      srv_threads = [True, True], srv_acceptor = True, srv_ever_started = True, srv_stop = False,
      srv_running = True, srv_stop_event = 0, srv_next_worker = 5\<rparr>"

theorem accept_round_robin_witness:
  "\<exists>s'. accept_connections [Accepted 20 [Io_done 8], Accept_interrupted, Accepted 21 [Io_done 8], Accepted 22 []]
          example_server (empty_heap []) = Some (s', empty_heap []) \<and>
     queued (srv_workers s' ! 0) = [9, 21] \<and> queued (srv_workers s' ! 1) = [9, 20, 22]"
proof -
  have s: "srv_workers example_server = [example_worker, example_worker]" "srv_next_worker example_server = 5"
    "queued example_worker = [9]" "\<not> wk_stop example_worker"
    by (simp_all add: example_server_def example_worker_def queued_def make_fd_def)
  let ?rs = "[Accepted 20 [Io_done 8], Accept_interrupted, Accepted 21 [Io_done 8], Accepted 22 []]"
  have n: "length (srv_workers example_server) = 2" "unat (srv_next_worker example_server) = 5"
    "accepted ?rs = [20, 21, 22]"
    using s by simp_all
  have "\<exists>s'. accept_connections ?rs example_server (empty_heap []) = Some (s', empty_heap []) \<and>
      length (srv_workers s') = length (srv_workers example_server) \<and>
      (\<forall>j < length (srv_workers example_server). queued (srv_workers s' ! j) =
         queued (srv_workers example_server ! j) @
         dealt (unat (srv_next_worker example_server)) (length (srv_workers example_server)) (accepted ?rs) j) \<and>
      srv_next_worker s' = srv_next_worker example_server + of_nat (length (accepted ?rs))"
    by (rule accept_round_robin) (use s in simp_all)
  then obtain s' where r: "accept_connections ?rs example_server (empty_heap []) = Some (s', empty_heap [])"
    "\<forall>j < length (srv_workers example_server). queued (srv_workers s' ! j) =
         queued (srv_workers example_server ! j) @
         dealt (unat (srv_next_worker example_server)) (length (srv_workers example_server)) (accepted ?rs) j"
    by (elim exE conjE)
  note run = r(1) and q = r(2) [unfolded n, unfolded s(1), rule_format]
  have "queued (srv_workers s' ! 0) = [9, 21] \<and> queued (srv_workers s' ! 1) = [9, 20, 22]"
    using q [of 0] q [of 1] s(3) by (simp add: dealt_Cons dealt_def)
  with run show ?thesis by blast
qed

text \<open>
  C29: Time passes evenly: after the timer has expired \<open>n\<close> times every shard has ticked
  exactly \<open>n\<close> times if memory lasts. Otherwise the ticks after the one that failed are
  skipped, and at most the shards before the failing one are a tick ahead.
\<close>

theorem timer_catches_up:
  assumes "engine_inv hash e"
  shows "\<exists>e' k m. handle_timer reads e = Some e' \<and> engine_inv hash e' \<and> ticked k m e e' \<and>
           m < length (shards e) \<and>
           (k < timer_expirations reads \<or> k = timer_expirations reads \<and> m = 0) \<and>
           (engine_calm e \<longrightarrow> k = timer_expirations reads)"
  using tick_times_ok [OF assms] by (simp add: handle_timer_eq)

theorem timer_catches_up_witness:
  "\<exists>e' k m. handle_timer [Io_interrupted, Io_done 3] example_engine = Some e' \<and> ticked k m example_engine e' \<and> k \<le> 3"
  using timer_catches_up [OF example_engine_ok, of "[Io_interrupted, Io_done 3]"] by fastforce

text \<open>
  C13: No socket is lost between the threads. Each one handed to a worker is with the
  acceptor, in the queue, being installed, connected or closed, exactly once; and while a
  socket waits in the queue of a worker that has not died, the worker is not asleep: it
  is awake, or its event descriptor is readable, or about to become readable.
\<close>

theorem no_lost_socket:
  assumes "sys_reach s"
  shows "ws_handed s = mset (ws_pending s) + ws_conns s + ws_closed s + holding (ws_acceptor s) + to_install (ws_pc s) \<and>
         (ws_pending s \<noteq> [] \<and> ws_pc s = In_wait \<and> \<not> ws_failed s \<longrightarrow> waking s)"
  using sys_reach_inv [OF assms] queue_wakes_worker [OF assms] by (simp add: sys_inv_def accounted_def)

definition waiting_sys :: worker_sys where
  "waiting_sys = start_sys\<lparr>ws_pc := In_wait, ws_handed := {#9#}, ws_pending := [9], ws_acceptor := Acc_waking\<rparr>"

lemma waiting_sys_reached: "sys_reach waiting_sys"
proof -
  let ?s1 = "start_sys\<lparr>ws_pc := In_wait\<rparr>"
  let ?s2 = "?s1\<lparr>ws_acceptor := Acc_enqueue 9, ws_handed := {#9#}\<rparr>"
  let ?s3 = "?s2\<lparr>ws_acceptor := Acc_locked 9\<rparr>"
  have "internal_step start_sys ?s1"
    unfolding internal_step_def using top_go [of start_sys] by (simp add: start_sys_def)
  then have "sys_reach ?s1" by (rule sys_reach.internal [OF sys_reach.start])
  moreover have "call_step ?s1 ?s2" using call_enqueue [of ?s1 9] by (simp add: start_sys_def)
  ultimately have "sys_reach ?s2" by (rule sys_reach.call)
  moreover have "internal_step ?s2 ?s3"
    unfolding internal_step_def using enqueue_lock [of ?s2 9] by (simp add: start_sys_def)
  ultimately have "sys_reach ?s3" by (rule sys_reach.internal)
  moreover have "internal_step ?s3 waiting_sys"
    unfolding internal_step_def using enqueue_push [of ?s3 9] by (simp add: start_sys_def waiting_sys_def)
  ultimately show ?thesis by (rule sys_reach.internal)
qed

theorem no_lost_socket_witness:
  "sys_reach waiting_sys \<and> ws_handed waiting_sys = {#9#} \<and> ws_pc waiting_sys = In_wait \<and> waking waiting_sys"
  using no_lost_socket [OF waiting_sys_reached] waiting_sys_reached by (simp add: waiting_sys_def start_sys_def)

text \<open>
  C27: A worker that is told to stop stops: from then on the threads can only take finitely
  many steps, and they can only come to rest, without counting on any further event, when
  the worker has finished. Then every socket it was given has been closed or is still in its
  queue, exactly once; and if its loop was not left because \<^verbatim>\<open>epoll_wait\<close> failed, the queue is empty
  and every socket it was given has been closed.
\<close>

theorem shutdown_completes:
  assumes "sys_reach s" and "ws_stop s"
  shows "wf {(t', t). internal_step t t' \<and> ws_stop t} \<and>
         ((\<nexists>s'. own_step s s') \<longrightarrow>
            ws_pc s = Finished \<and> ws_handed s = ws_closed s + mset (ws_pending s) \<and>
            (\<not> ws_failed s \<longrightarrow> ws_pending s = [] \<and> ws_closed s = ws_handed s))"
proof -
  have "{(t', t). internal_step t t' \<and> ws_stop t} \<subseteq> stop_order" using stopping_decreases by blast
  then have "wf {(t', t). internal_step t t' \<and> ws_stop t}" using wf_subset [OF wf_stop_order] by blast
  with stop_progress [OF assms] finished_closed_all [OF assms(1)] show ?thesis by blast
qed

theorem shutdown_completes_witness:
  "\<exists>s. sys_reach s \<and> ws_stop s \<and> wf {(t', t). internal_step t t' \<and> ws_stop t}"
proof -
  let ?s1 = "start_sys\<lparr>ws_stopper := Stop_called\<rparr>"
  let ?s2 = "?s1\<lparr>ws_stop := True, ws_stopper := Stop_waking\<rparr>"
  have "sys_reach ?s1" by (rule sys_reach.call [OF sys_reach.start call_stop]) (simp add: start_sys_def)
  moreover have "internal_step ?s1 ?s2" unfolding internal_step_def using stop_store [of ?s1] by simp
  ultimately have r: "sys_reach ?s2" by (rule sys_reach.internal)
  have "ws_stop ?s2" by simp
  from shutdown_completes [OF r this] r this show ?thesis by blast
qed

text \<open>
  C38: A worker whose \<^verbatim>\<open>epoll_wait\<close> fails leaves its loop without setting the stop flag. Such a
  state can be reached with a socket in the queue; from then on nothing ever takes a
  socket out of the queue, so it is neither served nor closed.
\<close>

theorem dead_worker_strands_sockets:
  "(\<exists>s. sys_reach s \<and> ws_pc s = Finished \<and> ws_pending s = [fd] \<and> \<not> ws_stop s) \<and>
   (\<forall>s s'. ws_pc s = Finished \<and> (internal_step s s' \<or> call_step s s') \<longrightarrow>
      ws_pc s' = Finished \<and> (\<exists>more. ws_pending s' = ws_pending s @ more))"
  using dead_worker_reached [of fd] finished_keeps by blast

theorem dead_worker_strands_sockets_witness:
  "\<exists>s. sys_reach s \<and> ws_pc s = Finished \<and> ws_pending s = [12] \<and> \<not> ws_stop s"
  using dead_worker_strands_sockets [of 12] by blast

text \<open>
  C39: A connection whose peer has shut down its sending side while output is still pending
  stays watched for exactly that condition, and handling the event changes nothing: a
  level-triggered worker is woken by it again and again until the output can be written.
\<close>

theorem half_closed_peer_spins:
  assumes "worker_inv hash w env" and "map_of (wk_connections w) fd = Some c"
    and "peer_closed c" and "\<not> close_after_write c" and "wants_write c"
  shows "handle_connection_event hash fd EPOLLRDHUP [Recv_closed] [] True w env = Some ([], w, env) \<and>
         (\<exists>watched. wk_watched w fd = Some watched \<and> watched AND EPOLLRDHUP \<noteq> 0)"
proof -
  have "\<not> closing c" "wk_watched w fd = Some (desired_events c)"
    using assms(1) map_of_SomeD [OF assms(2)] by (auto simp: worker_inv_def served_def)
  then show ?thesis using half_closed_event [OF assms] desired_events_rdhup by blast
qed

definition half_closed_connection :: connection where
  "half_closed_connection = example_connection\<lparr>peer_closed := True, output_buffer := example_buffer [1, 2]\<rparr>"

definition half_closed_worker :: worker where
  "half_closed_worker =
     example_worker\<lparr>wk_connections := [(7, half_closed_connection)],
                   wk_watched := [7 \<mapsto> desired_events half_closed_connection]\<rparr>"

theorem half_closed_peer_spins_witness:
  "handle_connection_event example_hash 7 EPOLLRDHUP [Recv_closed] [] True half_closed_worker example_env =
     Some ([], half_closed_worker, example_env)"
proof -
  let ?c = half_closed_connection
  have b: "buffer_inv (example_buffer [1, 2])" by (simp add: example_buffer_ok)
  have c: "peer_closed ?c" "\<not> close_after_write ?c" "wants_write ?c" "\<not> closing ?c" "output_limit ?c = 4096"
    by (simp_all add: half_closed_connection_def example_connection_def wants_write_def buffer_empty_def
        readable_bytes_def example_buffer_def)
  have "conn_idle example_hash ?c example_env"
    using example_connection_ok(1) [of example_hash] b
    by (simp add: conn_idle_def conn_inv_def half_closed_connection_def,
        simp add: readable_bytes_def example_buffer_def example_connection_def)
  then have inv: "worker_inv example_hash half_closed_worker example_env"
    using c example_engine_ok [of example_hash]
    by (simp add: worker_inv_def served_def half_closed_worker_def example_worker_def fd_valid_def make_fd_def example_env_def)
  have "map_of (wk_connections half_closed_worker) 7 = Some ?c" by (simp add: half_closed_worker_def)
  from half_closed_peer_spins [OF inv this c(1-3)] show ?thesis by simp
qed

text \<open>
  C31: What becomes of a configuration that is accepted, when no system call fails and there is
  memory for the start. If its host is an IPv4 address, the server program builds the engine and
  the server from it and its threads take turns, in any order and whatever the kernel reports to
  them, until the signal; if then the acceptor and, told to stop, each worker get at least one turn,
  the program exits with status zero. The run it reports on is a run of the server on the new engine
  in which all threads have returned, and the log announces the server and the metrics of the engine
  the run ends with. If \<^verbatim>\<open>inet_pton\<close> does not accept the host, the program says so and exits with
  status one.
\<close>

theorem accepted_config_runs:
  assumes "main_config (in_files inp) argv = Inr (Run cfg)" and "oom h = []" and "calls_work inp"
  shows "(ipv4_text (c_str (cfg_host cfg)) \<and> (\<exists>r. Acceptor_turn r \<in> set (in_accepting inp)) \<and>
          (\<forall>i < unat (cfg_worker_threads cfg). \<exists>r out. Worker_turn i r out \<in> set (in_finishing inp)) \<longrightarrow>
            (\<exists>e srv s metrics.
               new_engine (cfg_capacity_bytes cfg) (cfg_shard_count cfg) (cfg_allocator cfg) (in_shard_memory inp) h = (Inr e, h) \<and>
               srv_options srv = config_options cfg \<and> srv_port srv = lo_port (so_listen (in_setup inp)) \<and>
               length (srv_workers srv) = unat (cfg_worker_threads cfg) \<and>
               run_reach hash s \<and> sr_first s = e \<and> \<not> sr_acceptor s \<and> Looping \<notin> set (sr_loops s) \<and>
               metrics_message (env_engine (sr_env s)) = Some metrics \<and>
               server_main hash argv inp h = Some \<lparr>main_exit = 0, main_out = [], main_err = [],
                 main_log = log_output (log_info_message ''HighCache stopped'' (log_info_message metrics
                   (log_info_message (startup_message srv e) (new_logger [] (cfg_log_level cfg)))))\<rparr>)) \<and>
         (\<not> lo_inet_pton (so_listen (in_setup inp)) (c_str (cfg_host cfg)) \<longrightarrow>
            server_main hash argv inp h = Some \<lparr>main_exit = 1, main_out = [],
              main_err = ''highcache_server: invalid_argument: server host must be an IPv4 address'' @ [newline],
              main_log = []\<rparr>)"
  using server_main_runs [OF assms] server_main_refuses_host [OF assms] by blast

definition example_inputs :: main_inputs where
  "example_inputs =
     \<lparr>in_files = (\<lambda>_. None), in_signal_set_ok = True, in_signal_mask_ok = True, in_shard_memory = (\<lambda>_. []),
      in_setup = \<lparr>so_listen = \<lparr>lo_socket = None, lo_setsockopt = None, lo_inet_pton = ipv4_text, lo_bind = None,
                               lo_listen = None, lo_getsockname = None, lo_port = 11211\<rparr>,
                  so_epoll = None, so_event = None, so_timer = None, so_adds = (None, None, None),
                  so_workers = (\<lambda>i. (int i, None, None, None))\<rparr>,
      in_timer = None, in_threads = (\<lambda>_. None), in_acceptor = None,
      in_serving = [Acceptor_turn (Wait_events [Listen_ready [Accepted 20 [Io_done 8]]]),
                    Worker_turn 0 (Wait_events [Wakeup [Io_done 1]]) (\<lambda>_. None)],
      in_wait_ok = True, in_accepting = [Acceptor_turn wait_result.Wait_interrupted],
      in_finishing = map (\<lambda>i. Worker_turn i wait_result.Wait_interrupted (\<lambda>_. None)) [0..<1024]\<rparr>"

lemma example_calls_work: "calls_work example_inputs"
  by (simp add: calls_work_def setup_works_def listen_works_def inet_pton_ok_def example_inputs_def)

lemma default_host_ipv4: "ipv4_text (c_str (cfg_host default_config))" "ipv4_text (c_str ''127.0.0.1'')"
  by code_simp+

theorem accepted_config_runs_witness:
  "(\<exists>log. server_main example_hash [''highcache_server''] example_inputs (empty_heap []) =
      Some \<lparr>main_exit = 0, main_out = [], main_err = [], main_log = log\<rparr>) \<and>
   server_main example_hash [''highcache_server'', ''local.conf'']
     (example_inputs\<lparr>in_files := [''local.conf'' \<mapsto> (''host=localhost'', False)]\<rparr>) (empty_heap []) =
     Some \<lparr>main_exit = 1, main_out = [],
       main_err = ''highcache_server: invalid_argument: server host must be an IPv4 address'' @ [newline], main_log = []\<rparr>"
proof
  have cfg: "main_config (in_files example_inputs) [''highcache_server''] = Inr (Run default_config)"
    by (simp add: main_config_def)
  have mem: "oom (empty_heap []) = []" by simp
  have "\<exists>r. Acceptor_turn r \<in> set (in_accepting example_inputs)"
    "\<forall>i < unat (cfg_worker_threads default_config). \<exists>r out. Worker_turn i r out \<in> set (in_finishing example_inputs)"
    by (auto simp: example_inputs_def default_config_def image_iff)
  with accepted_config_runs [OF cfg mem example_calls_work, of example_hash] default_host_ipv4(1)
  show "\<exists>log. server_main example_hash [''highcache_server''] example_inputs (empty_heap []) =
      Some \<lparr>main_exit = 0, main_out = [], main_err = [], main_log = log\<rparr>" by blast
next
  let ?inp = "example_inputs\<lparr>in_files := [''local.conf'' \<mapsto> (''host=localhost'', False)]\<rparr>"
  have cfg: "main_config (in_files ?inp) [''highcache_server'', ''local.conf''] =
      Inr (Run (default_config\<lparr>cfg_host := ''localhost''\<rparr>))"
    by (simp add: main_config_def from_file_def) code_simp
  have host: "\<not> ipv4_text (c_str ''localhost'')" by code_simp
  have mem: "oom (empty_heap []) = []" by simp
  have calls: "calls_work ?inp" using example_calls_work by (simp add: calls_work_def)
  from accepted_config_runs [OF cfg mem calls, of example_hash] host
  show "server_main example_hash [''highcache_server'', ''local.conf''] ?inp (empty_heap []) =
     Some \<lparr>main_exit = 1, main_out = [],
       main_err = ''highcache_server: invalid_argument: server host must be an IPv4 address'' @ [newline], main_log = []\<rparr>"
    by (simp add: example_inputs_def)
qed

text \<open>
  C17: Whatever the acceptor, the workers and the stopping thread do in turn, and however
  the system calls end, the running server is sound. The engine keeps its invariant; every
  connection in the table of a worker is open, well-formed and watched for exactly the events
  it wants; every socket that was accepted is queued, served or closed by exactly one
  worker; the next turn of each thread is defined and returns; and when the loops of all
  workers have ended as they should, every accepted socket has been closed exactly once.
\<close>

theorem server_run_safe:
  assumes "run_reach hash s"
  defines "ws \<equiv> srv_workers (sr_server s)" and "env \<equiv> sr_env s"
  shows "engine_inv hash (env_engine env) \<and>
         (\<forall>w \<in> set ws. \<forall>(fd, c) \<in> set (wk_connections w).
            conn_idle hash c env \<and> \<not> closing c \<and> wk_watched w fd = Some (desired_events c)) \<and>
         all_fds ws = sr_accepted s \<and>
         (\<forall>w \<in> set ws. \<forall>result outcomes. wait_ok hash result w env \<longrightarrow>
            worker_turn hash result outcomes w env \<noteq> None) \<and>
         (\<forall>result. (\<forall>fd \<in> set (sockets_of result (sr_server s)). fd \<ge> 0) \<longrightarrow>
            acceptor_turn result (sr_server s) env \<noteq> None) \<and>
         ((\<forall>st \<in> set (sr_loops s). st = Ended) \<longrightarrow> mset (concat (map wk_closed ws)) = sr_accepted s)"
proof -
  have inv: "server_inv hash (sr_server s) env" "all_fds ws = sr_accepted s"
    using run_reach_inv [OF assms(1)] by (simp_all add: run_inv_def ws_def env_def)
  then have "\<forall>w \<in> set ws. worker_inv hash w env" by (simp add: server_inv_def ws_def)
  then have "\<forall>w \<in> set ws. \<forall>(fd, c) \<in> set (wk_connections w).
      conn_idle hash c env \<and> \<not> closing c \<and> wk_watched w fd = Some (desired_events c)"
    and "\<forall>w \<in> set ws. \<forall>result outcomes. wait_ok hash result w env \<longrightarrow>
      worker_turn hash result outcomes w env \<noteq> None"
    using worker_turn_ok by (fastforce simp: worker_inv_def served_def)+
  moreover have "\<forall>result. (\<forall>fd \<in> set (sockets_of result (sr_server s)). fd \<ge> 0) \<longrightarrow>
      acceptor_turn result (sr_server s) env \<noteq> None"
    using acceptor_turn_ok [OF inv(1)] by fastforce
  ultimately show ?thesis
    using inv ended_closed_all [OF assms(1)] by (simp add: server_inv_def ws_def)
qed

lemma example_run:
  obtains s where "run_reach example_hash s" and "sr_accepted s = {#20#}"
proof -
  have "oom (empty_heap []) = []" by simp
  from new_server_defined [OF default_config_valid this _ default_host_ipv4(1), of "in_setup example_inputs"] obtain srv where
    srv: "new_server (config_options default_config) (in_setup example_inputs) (empty_heap []) = (Inr srv, empty_heap [])"
      "\<not> srv_ever_started srv"
    using example_calls_work by (auto simp: calls_work_def)
  let ?srv = "srv\<lparr>srv_ever_started := True, srv_threads := replicate (length (srv_workers srv)) True,
                  srv_acceptor := True, srv_running := True\<rparr>"
  have start: "server_start None (\<lambda>_. None) None srv = (Inr (), ?srv)" by (simp add: server_start_works srv(2))
  let ?s = "start_run ?srv example_engine (empty_heap [])"
  have reach: "run_reach example_hash ?s" by (rule run_reach.started [OF srv(1) start example_engine_ok])
  have "\<not> srv_stop srv" using srv(1)
    by (auto simp: new_server_def split: sum.splits prod.splits if_splits)
  then have socks: "sockets_of (Wait_events [Listen_ready [Accepted 20 [Io_done 8]]]) (sr_server ?s) = [20]"
    by (simp add: sockets_of_def start_run_def)
  have "sr_acceptor ?s" "sr_accepted ?s = {#}" by (simp_all add: start_run_def)
  with acceptor_can_turn [OF reach, of "Wait_events [Listen_ready [Accepted 20 [Io_done 8]]]"] socks
  obtain s' where "server_step example_hash ?s s'" "sr_accepted s' = {#20#}" by auto
  with that run_reach.stepped [OF reach] show thesis by blast
qed

theorem server_run_safe_witness:
  "\<exists>s. run_reach example_hash s \<and> sr_accepted s = {#20#} \<and> all_fds (srv_workers (sr_server s)) = {#20#}"
proof -
  obtain s where s: "run_reach example_hash s" "sr_accepted s = {#20#}" by (rule example_run)
  from server_run_safe [OF s(1)] s show ?thesis by auto
qed

lemma example_shards: "shards example_engine = map (\<lambda>i. new_shard (shard_capacity_of 100 3 i) Backend_system []) [0..<3]"
  by (simp add: example_engine_def new_engine_def container_alloc_nil upt_rec)

text \<open>A server with one worker, running and without connections.\<close>

definition running_options :: server_options where
  "running_options =
     \<lparr>opt_host = ''127.0.0.1'', opt_port = 0, opt_worker_threads = 1, opt_pending_output_limit = 2 * 1024 * 1024\<rparr>"

definition running_worker :: worker where
  "running_worker =
     \<lparr>wk_output_limit = 2 * 1024 * 1024, wk_stop = False, wk_pending = [], wk_connections = [],
      wk_watched = [0 \<mapsto> EPOLLIN], wk_wakeup = 0, wk_closed = []\<rparr>"

definition running_server :: server where
  "running_server =
     \<lparr>srv_options = running_options, srv_port = 11211, srv_workers = [running_worker],
      srv_threads = [True], srv_acceptor = True, srv_ever_started = True, srv_stop = False,
      srv_running = True, srv_stop_event = 0, srv_next_worker = 0\<rparr>"

lemma running_start:
  "run_reach hash (start_run running_server example_engine (empty_heap []))"
proof -
  have "new_server running_options (in_setup example_inputs) (empty_heap []) =
      (Inr (running_server\<lparr>srv_threads := [False], srv_acceptor := False, srv_ever_started := False, srv_running := False\<rparr>), empty_heap [])"
    using default_host_ipv4(2)
    by (simp add: new_server_def validate_options_def running_options_def example_inputs_def on_success_def
        create_listen_socket_def create_epoll_def create_event_def create_timer_def sys_call_def container_alloc_nil
        new_worker_def add_to_epoll_def running_server_def running_worker_def word_less_nat_alt)
  moreover have "server_start None (\<lambda>_. None) None
      (running_server\<lparr>srv_threads := [False], srv_acceptor := False, srv_ever_started := False, srv_running := False\<rparr>) =
      (Inr (), running_server)"
    by (simp add: server_start_def sys_call_def running_server_def Let_def)
  ultimately show ?thesis using run_reach.started [OF _ _ example_engine_ok] by blast
qed

text \<open>A socket is accepted, and the worker installs it.\<close>

definition roomy_connection :: connection where
  "roomy_connection = example_connection\<lparr>output_limit := 2 * 1024 * 1024\<rparr>"

lemma roomy_connection_new:
  "new_connection 2097152 (empty_heap []) = (Inr roomy_connection, empty_heap [])"
  by (simp add: new_connection_def new_buffer_def vector_max_size_def container_alloc_nil empty_heap_def
      roomy_connection_def example_connection_def example_buffer_def)

lemma running_served:
  "\<exists>s. run_reach example_hash s \<and> sr_dialogues s = [new_dialogue 0 20] \<and> sr_loops s = [Looping] \<and>
     length (srv_workers (sr_server s)) = 1 \<and> wk_connections (srv_workers (sr_server s) ! 0) = [(20, roomy_connection)] \<and>
     \<not> wk_stop (srv_workers (sr_server s) ! 0) \<and> 
     sr_first s = example_engine \<and> sr_env s = example_env \<and> sr_accepted s = {#20#}"
proof -
  let ?s = "start_run running_server example_engine (empty_heap [])"
  let ?w1 = "running_worker\<lparr>wk_pending := [make_fd 20], wk_wakeup := wake_event [Io_done 8] 0\<rparr>"
  let ?srv1 = "running_server\<lparr>srv_next_worker := 1, srv_workers := [?w1]\<rparr>"
  let ?s1 = "?s\<lparr>sr_server := ?srv1, sr_accepted := {#20#}\<rparr>"
  have "acceptor_turn (Wait_events [Listen_ready [Accepted 20 [Io_done 8]]]) running_server (sr_env ?s) =
      Some (True, ?srv1, sr_env ?s)"
    by (simp add: acceptor_turn_def running_server_def enqueue_def running_worker_def container_alloc_nil start_run_def
        fd_move_def fd_release_def make_fd_def Let_def)
  then have "server_step example_hash ?s ?s1"
    using acceptor_turns [of ?s "Wait_events [Listen_ready [Accepted 20 [Io_done 8]]]" True ?srv1 "sr_env ?s" example_hash]
    by (simp add: start_run_def sockets_of_def running_server_def)
  then have reach1: "run_reach example_hash ?s1" using run_reach.stepped [OF running_start] by blast
  let ?w2 = "?w1\<lparr>wk_pending := [], wk_connections := [(20, roomy_connection)], wk_wakeup := 0,
     wk_watched := (wk_watched ?w1)(20 \<mapsto> desired_events roomy_connection)\<rparr>"
  let ?s2 = "?s1\<lparr>sr_server := with_worker 0 ?w2 ?srv1, sr_dialogues := [new_dialogue 0 20]\<rparr>"
  let ?ev = "Wait_events [Wakeup [Io_done 1]]"
  have inst: "install_pending (\<lambda>_. None) (?w1\<lparr>wk_wakeup := 0\<rparr>) (sr_env ?s1) = (?w2, sr_env ?s1)"
    by (simp add: install_pending_def start_run_def container_alloc_nil roomy_connection_new running_worker_def make_fd_def fd_move_eq
        add_to_epoll_def sys_call_def destroy_all_def fd_destroy_def fd_reset_def Let_def)
  have "worker_turn example_hash ?ev (\<lambda>_. None) ?w1 (sr_env ?s1) = Some (Looping, [], ?w2, sr_env ?s1)"
    using inst by (simp add: worker_turn_def worker_round_def running_worker_def)
  moreover have "note_turn example_hash 0 ?ev (\<lambda>_. None) ?w1 (sr_env ?s1) [] = [new_dialogue 0 20]"
    using inst by (simp add: note_turn_def running_worker_def note_installed_def)
  ultimately have "server_step example_hash ?s1 ?s2"
    using worker_turns [of 0 ?s1 example_hash ?ev "\<lambda>_. None" Looping "[]" ?w2 "sr_env ?s1"]
    by (simp add: start_run_def wait_ok_def with_worker_def running_server_def)
  with run_reach.stepped [OF reach1] have "run_reach example_hash ?s2" by blast
  then show ?thesis by (intro exI [of _ ?s2]) (simp add: start_run_def example_env_def with_worker_def running_worker_def running_server_def)
qed

text \<open>
  C6: One history explains what every client of the running server has seen. Whatever the
  network, the system calls and the threads do, there is a single sequence of requests and
  timer expirations that takes the first engine to the present one, and for each dialogue,
  past or present, the bytes received so far are the encoded requests that the sequence has for
  it, in order, and an unfinished rest; the bytes sent are a beginning of the encoded answers
  given there, in order, each once, possibly followed by one protocol error. An open
  dialogue has one connection, in which all that is not yet sent is queued, and every
  connection has one open dialogue.
\<close>

theorem server_dialogues:
  assumes "run_reach hash s"
  defines "ds \<equiv> sr_dialogues s" and "conns \<equiv> conns_of (sr_server s)"
  shows "\<exists>hist. retrace hash hist (sr_first s) = Some (env_engine (sr_env s)) \<and>
     (\<forall>k < length ds. length (asked k hist) = length (answers k hist) \<and>
        (\<exists>rest extra. dg_received (ds ! k) = request_stream (asked k hist) @ rest \<and>
           (extra = [] \<or> complains extra) \<and>
           prefix (dg_sent (ds ! k)) (response_stream (answers k hist) @ extra) \<and>
           (dg_open (ds ! k) \<longrightarrow> (\<exists>c. conns (dg_key (ds ! k)) = Some c \<and>
              dg_sent (ds ! k) @ readable_view (output_buffer c) = response_stream (answers k hist) @ extra \<and>
              (if close_after_write c then complains extra
               else extra = [] \<and> readable_view (input_buffer c) = rest \<and> unfinished rest))))) \<and>
     (\<forall>i fd. conns (i, fd) \<noteq> None \<longleftrightarrow> (\<exists>!k. k < length ds \<and> speaks i fd (ds ! k)))"
proof -
  from run_reach_told [OF assms(1)] obtain hist where
    engine: "retrace hash hist (sr_first s) = Some (env_engine (sr_env s))" and talks: "talks hash hist conns ds"
    by (auto simp: told_all_def ds_def conns_def)
  have "\<exists>rest extra c. conv_told hash (asked k hist) rest (answers k hist) extra (conv_of (ds ! k) c (sr_env s)) \<and>
      (dg_open (ds ! k) \<longrightarrow> conns (dg_key (ds ! k)) = Some c)" if "k < length ds" for k
    using talksD(1) [OF talks that] conv_told_of_env unfolding dialogue_ok_def by blast
  then have "length (asked k hist) = length (answers k hist) \<and>
        (\<exists>rest extra. dg_received (ds ! k) = request_stream (asked k hist) @ rest \<and>
           (extra = [] \<or> complains extra) \<and>
           prefix (dg_sent (ds ! k)) (response_stream (answers k hist) @ extra) \<and>
           (dg_open (ds ! k) \<longrightarrow> (\<exists>c. conns (dg_key (ds ! k)) = Some c \<and>
              dg_sent (ds ! k) @ readable_view (output_buffer c) = response_stream (answers k hist) @ extra \<and>
              (if close_after_write c then complains extra
               else extra = [] \<and> readable_view (input_buffer c) = rest \<and> unfinished rest))))" if "k < length ds" for k
    using that by (fastforce simp: conv_told_def conv_of_def answered_def dest: list_all2_lengthD)
  moreover have "conns (i, fd) \<noteq> None \<longleftrightarrow> (\<exists>!k. k < length ds \<and> speaks i fd (ds ! k))" for i fd
    using talksD(2,3) [OF talks] by (metis (no_types, lifting))
  ultimately show ?thesis using engine by (intro exI [of _ hist] conjI) blast+
qed

theorem server_dialogues_witness:
  "\<exists>s hist. run_reach example_hash s \<and> retrace example_hash hist example_engine = Some (env_engine (sr_env s)) \<and>
     (\<exists>d rest. sr_dialogues s = [d] \<and> dg_received d = [1, 2, 3] \<and> [1, 2, 3] = request_stream (asked 0 hist) @ rest)"
proof -
  obtain s where s: "run_reach example_hash s" "sr_dialogues s = [new_dialogue 0 20]" "sr_loops s = [Looping]"
    "length (srv_workers (sr_server s)) = 1" "wk_connections (srv_workers (sr_server s) ! 0) = [(20, roomy_connection)]"
    "\<not> wk_stop (srv_workers (sr_server s) ! 0)" "sr_first s = example_engine"
    using running_served by blast
  let ?w = "srv_workers (sr_server s) ! 0" and ?ev = "Ready 20 EPOLLIN [Received [1, 2, 3]] [] True"
  have inv: "worker_inv example_hash ?w (sr_env s)"
    using run_reach_inv [OF s(1)] s(4) by (simp add: run_inv_def server_inv_def)
  have inputs: "\<forall>c. map_of (wk_connections ?w) 20 = Some c \<longrightarrow>
      event_inputs_ok example_hash EPOLLIN [Received [1, 2, 3]] [] c (sr_env s)"
    by (simp add: event_inputs_ok_def recv_results_ok_def)
  from handle_connection_event_ok [OF inv inputs, of True] obtain sent w1 env1 where
    ev: "handle_connection_event example_hash 20 EPOLLIN [Received [1, 2, 3]] [] True ?w (sr_env s) = Some (sent, w1, env1)"
    by blast
  have ok: "wait_ok example_hash (Wait_events [?ev]) ?w (sr_env s)"
    using inputs ev s(5) by (simp add: wait_ok_def)
  have "worker_turn example_hash (Wait_events [?ev]) (\<lambda>_. None) ?w (sr_env s) = Some (Looping, [(20, sent)], w1, env1)"
    using ev s(6) by (simp add: worker_turn_def worker_round_def)
  from worker_turns [OF _ _ ok this] s(3,4) have
    "server_step example_hash s (s\<lparr>sr_server := with_worker 0 w1 (sr_server s), sr_env := env1,
       sr_loops := (sr_loops s)[0 := Looping],
       sr_dialogues := note_turn example_hash 0 (Wait_events [?ev]) (\<lambda>_. None) ?w (sr_env s) (sr_dialogues s)\<rparr>)"
    (is "server_step _ _ ?s") by simp
  with run_reach.stepped [OF s(1)] have reach: "run_reach example_hash ?s" by blast
  obtain d where d: "sr_dialogues ?s = [d]" "dg_received d = [1, 2, 3]"
    using ev s(2,6)
    by (simp add: note_turn_def note_event_def new_dialogue_def speaks_def dg_key_def event_input_def)
  from server_dialogues [OF reach] obtain hist where
    "retrace example_hash hist (sr_first ?s) = Some (env_engine (sr_env ?s))"
    "\<exists>rest. dg_received (sr_dialogues ?s ! 0) = request_stream (asked 0 hist) @ rest" using d by auto
  with reach d s(7) show ?thesis by (intro exI [of _ ?s] exI [of _ hist]) auto
qed

text \<open>
  C7: A client reads what was last written. Whenever a read succeeds in a history of requests
  of any clients and timer expirations, starting from a new engine, the value it delivers is that of the last
  successful write to the key before it, and the key has not been erased since.
\<close>

theorem reads_latest_write:
  assumes "new_engine capacity n backend outs h = (Inr e, h')"
    and "retrace hash (pre @ Answered j req resp # post) e = Some e'"
    and "opcode req = 1" and "status resp = 0"
  shows "last_written (req_key req) pre = Some (resp_value resp)"
proof -
  have "current hash e (\<lambda>_. None)" using current_empty new_engine_ok [OF assms(1)] by blast
  from retrace_reads [OF this assms(2)] assms(3,4) show ?thesis by (simp add: last_written_def)
qed

theorem reads_latest_write_witness:
  "\<exists>ok found e'. retrace example_hash [Answered 0 example_request ok, Answered 1 example_read found] example_engine = Some e' \<and>
     status found = 0 \<and> last_written [1] [Answered 0 example_request ok] = Some (resp_value found)"
proof -
  obtain h' where new: "new_engine 100 3 Backend_system (\<lambda>_. []) (empty_heap []) = (Inr example_engine, h')"
    using example_engine_new by (metis prod.collapse)
  let ?c = "shard_cache (shards example_engine ! shard_for example_hash [1] example_engine)"
  have len: "length (shards example_engine) = 3" by (simp add: example_shards)
  then have "shard_for example_hash [1] example_engine = 1" by (simp add: shard_for_def example_hash_def)
  then have c: "?c = new_cache (shard_capacity_of 100 3 1) (make_value_allocator Backend_system) (empty_heap [])"
    by (simp add: example_shards new_shard_def)
  have "set_verdict (capacity_bytes ?c) [1] [2, 3] 1500 = C_ok"
    unfolding c by (simp add: new_cache_def shard_capacity_of_def set_verdict_def)
  moreover have "oom (c_heap ?c) = []" "generation_source ?c \<noteq> - 1" unfolding c by (simp_all add: new_cache_def)
  ultimately obtain ok e1 where w: "run_request example_hash example_request example_engine = Some (ok, e1)" "status ok = 0"
    "oom (c_heap (shard_cache (shards e1 ! shard_for example_hash [1] e1))) = []"
    using run_write_succeeds [OF example_engine_ok, of ?c example_hash example_request]
    by (auto simp: example_request_def)
  have "current example_hash example_engine (\<lambda>_. None)" using current_empty new_engine_ok [OF new] by blast
  then have inv1: "engine_inv example_hash e1" using run_request_current(1) [OF _ w(1)] by (auto simp: current_def)
  from w(1) have "held example_hash e1 [1] = Some [2, 3]"
  proof (cases rule: run_request_cases)
    case (set r)
    then show ?thesis using engine_set_held [OF example_engine_ok set(2), of "[1]"] w(2) by (simp add: example_request_def)
  qed (simp_all add: example_request_def)
  then obtain found e2 where r: "run_request example_hash example_read e1 = Some (found, e2)" "status found = 0"
    using run_read_answers [OF inv1, of _ example_read "[2, 3]"] w(3) by (auto simp: example_read_def validate_key_def)
  have "retrace example_hash ([Answered 0 example_request ok] @ Answered 1 example_read found # []) example_engine = Some e2"
    using w(1) r(1) by simp
  from reads_latest_write [OF new this] r(2) have "last_written [1] [Answered 0 example_request ok] = Some (resp_value found)"
    by (simp add: example_read_def)
  with w(1) r show ?thesis by (intro exI [of _ ok] exI [of _ found] exI [of _ e2]) simp
qed

text \<open>
  C28: The server can always be stopped. From every state it can reach there is a way to a
  state in which the acceptor has ended and every worker whose loop was running has ended;
  the accepted sockets are the same as before, and unless a worker had died they have all
  been closed, each exactly once, and no dialogue is open.
\<close>

theorem server_can_stop:
  assumes "run_reach hash s"
  shows "\<exists>s'. (server_step hash)\<^sup>*\<^sup>* s s' \<and> \<not> sr_acceptor s' \<and> Looping \<notin> set (sr_loops s') \<and>
           sr_accepted s' = sr_accepted s \<and>
           (Died \<notin> set (sr_loops s) \<longrightarrow>
              mset (concat (map wk_closed (srv_workers (sr_server s')))) = sr_accepted s \<and>
              (\<forall>d \<in> set (sr_dialogues s'). \<not> dg_open d))"
proof -
  from server_stops [OF assms] obtain s' where
    s': "(server_step hash)\<^sup>*\<^sup>* s s'" "run_reach hash s'" "\<not> sr_acceptor s'" "sr_accepted s' = sr_accepted s"
      "sr_loops s' = map ended (sr_loops s)" by blast
  have "Looping \<notin> set (sr_loops s')" using s'(5) by (auto simp: ended_def)
  moreover have "\<forall>st \<in> set (sr_loops s'). st = Ended" if "Died \<notin> set (sr_loops s)"
    using that s'(5) by (auto simp: ended_def) (metis loop_status.exhaust)
  ultimately show ?thesis
    using s' ended_closed_all [OF s'(2)] ended_silent [OF s'(2)] by (intro exI [of _ s']) auto
qed

theorem server_can_stop_witness:
  "\<exists>s s'. run_reach example_hash s \<and> sr_accepted s = {#20#} \<and> (server_step example_hash)\<^sup>*\<^sup>* s s' \<and>
     mset (concat (map wk_closed (srv_workers (sr_server s')))) = {#20#}"
proof -
  obtain s where s: "run_reach example_hash s" "sr_loops s = [Looping]" "sr_accepted s = {#20#}"
    using running_served by blast
  from server_can_stop [OF s(1)] s show ?thesis by fastforce
qed

text \<open>
  C35: The memory of a connection is bounded, whatever its peer sends and however little it
  reads: in every state of the running server the vectors behind the two buffers of each
  connection have a capacity of at most twice the input limit (one request frame and one
  chunk) and twice the configured output limit (or the 4096 bytes an output buffer starts with).
\<close>

theorem connection_memory_bounded:
  assumes "run_reach hash s" and "w \<in> set (srv_workers (sr_server s))" and "(fd, c) \<in> set (wk_connections w)"
  shows "storage_capacity (input_buffer c) \<le> 2 * ((32 + 250 + 1024 * 1024) + 64 * 1024) \<and>
         storage_capacity (output_buffer c) \<le> max 4096 (2 * wk_output_limit w) \<and>
         pending_output_bytes c \<le> wk_output_limit w"
proof -
  have "worker_inv hash w (sr_env s)"
    using run_reach_inv [OF assms(1)] assms(2) by (simp add: run_inv_def server_inv_def)
  with assms(3) have "conn_inv hash c (sr_env s)" "output_limit c = wk_output_limit w"
    by (auto simp: worker_inv_def served_def conn_idle_def)
  then show ?thesis by (simp add: conn_inv_def pending_output_bytes_def)
qed

theorem connection_memory_bounded_witness:
  "\<exists>s w. run_reach example_hash s \<and> w \<in> set (srv_workers (sr_server s)) \<and>
     (20, roomy_connection) \<in> set (wk_connections w) \<and>
     storage_capacity (output_buffer roomy_connection) \<le> max 4096 (2 * wk_output_limit w)"
proof -
  obtain s where s: "run_reach example_hash s" "length (srv_workers (sr_server s)) = 1"
    "wk_connections (srv_workers (sr_server s) ! 0) = [(20, roomy_connection)]"
    using running_served by blast
  let ?w = "srv_workers (sr_server s) ! 0"
  have w: "?w \<in> set (srv_workers (sr_server s))" "(20, roomy_connection) \<in> set (wk_connections ?w)"
    using s(2,3) by simp_all
  from connection_memory_bounded [OF s(1) w] s(1) w show ?thesis by blast
qed

section \<open>Client and server together\<close>

text \<open>
  C10: The client and the running server understand each other. In any state the server can
  reach, let a connection have nothing outstanding; then the bytes the client sends for its command
  line, however they are cut up, let its worker, in one turn, run exactly the request the
  command stands for and send exactly the encoded answer; and whatever way the network cuts
  the answer up, the client prints its status and value and exits with zero exactly
  when the status is ok. Memory must suffice, and the output limit must be large enough for the largest
  response.
\<close>

theorem client_meets_server:
  assumes "oom h = []" and "client_arguments argv h = (Inr (port, req), h1)" and "encodable req"
    and "send_all sends (request_frame req) 0 = Some (Inr (), out)"
    and "run_reach hash s" and "i < length (srv_workers (sr_server s))" and "sr_loops s ! i = Looping"
    and "\<not> wk_stop (srv_workers (sr_server s) ! i)" and "conns_of (sr_server s) (i, fd) = Some c"
    and "readable_view (input_buffer c) = []" and "pending_output_bytes c = 0"
    and "\<not> close_after_write c" and "\<not> peer_closed c"
    and "oom (env_heap (sr_env s)) = []" and "output_limit c \<le> 2 ^ 60" and "20 + 1024 * 1024 \<le> output_limit c"
    and "concat chunks = out" and "\<forall>bs \<in> set chunks. bs \<noteq> [] \<and> length bs \<le> 64 * 1024"
  shows "\<exists>resp e' s'. run_request hash req (env_engine (sr_env s)) = Some (resp, e') \<and>
           server_step hash s s' \<and> env_engine (sr_env s') = e' \<and>
           sr_dialogues s' = note_event i fd (request_frame req) (response_frame resp) True (sr_dialogues s) \<and>
           (\<forall>recvs. only_data recvs \<and> arrived recvs = response_frame resp \<longrightarrow>
              client_main argv Connected sends recvs h =
                Some \<lparr>exit_code = (if status resp = 0 then 0 else 2), std_out = print_response resp,
                      std_err = [], on_wire = request_frame req\<rparr>)"
proof -
  let ?w = "srv_workers (sr_server s) ! i" and ?e = "env_engine (sr_env s)"
  have "worker_inv hash ?w (sr_env s)"
    using run_reach_inv [OF assms(5)] assms(6) by (simp add: run_inv_def server_inv_def)
  moreover have "(fd, c) \<in> set (wk_connections ?w)" using assms(6,9) by (auto simp: conns_of_def dest: map_of_SomeD)
  ultimately have inv: "engine_inv hash ?e" "buffer_inv (output_buffer c)"
    by (auto simp: worker_inv_def served_def conn_idle_def conn_inv_def)
  from run_request_ok [OF inv(1), of req] obtain resp e' where
    r: "run_request hash req ?e = Some (resp, e')" "response_encodable resp" by blast
  have out: "out = request_frame req" using send_all_complete [OF assms(4)] by simp
  have view: "readable_view (output_buffer c) = []"
    using assms(11) length_readable_view [OF inv(2)] by (simp add: pending_output_bytes_def)
  have "serve hash [req] ?e = Some ([resp], e')" using r(1) by simp
  moreover have "pending_output_bytes c + length (response_stream [resp]) \<le> output_limit c"
    using assms(11,16) r(2) by (simp add: length_response_frame response_encodable_def)
  ultimately obtain s' where s': "server_step hash s s'" "env_engine (sr_env s') = e'"
    "sr_dialogues s' = note_event i fd (request_frame req) (response_frame resp) True (sr_dialogues s)"
    using server_answers [OF assms(5-10,12,14,15), of "[req]" chunks "[resp]" e'] assms(3,13,17,18) out view
    by auto
  have "client_main argv Connected sends recvs h =
      Some \<lparr>exit_code = (if status resp = 0 then 0 else 2), std_out = print_response resp,
            std_err = [], on_wire = request_frame req\<rparr>"
    if "only_data recvs \<and> arrived recvs = response_frame resp" for recvs
    using client_exchange_ok [OF assms(1-4) r(2), of recvs] that out by (simp add: client_main_def)
  with r(1) s' show ?thesis by blast
qed

theorem client_meets_server_witness:
  "\<exists>s s' resp e' out. run_reach example_hash s \<and>
     run_request example_hash
       \<lparr>opcode = 1, request_id = 1, req_key = [107], req_value = [], ttl_ms = 0\<rparr> example_engine = Some (resp, e') \<and>
     server_step example_hash s s' \<and>
     map dg_received (sr_dialogues s') = [out] \<and> map dg_sent (sr_dialogues s') = [response_frame resp] \<and>
     client_main [''highcache_client'', ''127.0.0.1'', ''11211'', ''get'', ''k''] Connected
       [Sent 3, Send_interrupted, Sent 30] [Recv_interrupted, Received (response_frame resp)] (empty_heap []) =
       Some \<lparr>exit_code = (if status resp = 0 then 0 else 2), std_out = print_response resp, std_err = [],
             on_wire = out\<rparr>"
proof -
  let ?argv = "[''highcache_client'', ''127.0.0.1'', ''11211'', ''get'', ''k'']" and ?h = "empty_heap []"
  let ?req = "\<lparr>opcode = 1, request_id = 1, req_key = [107], req_value = [], ttl_ms = 0\<rparr>"
  let ?c = roomy_connection and ?f = "request_frame ?req" and ?sends = "[Sent 3, Send_interrupted, Sent 30]"
  obtain s where s: "run_reach example_hash s" "sr_dialogues s = [new_dialogue 0 20]" "sr_loops s = [Looping]"
    "length (srv_workers (sr_server s)) = 1" "wk_connections (srv_workers (sr_server s) ! 0) = [(20, ?c)]"
    "\<not> wk_stop (srv_workers (sr_server s) ! 0)" "sr_env s = example_env"
    using running_served by blast
  have args: "client_arguments ?argv ?h = (Inr (11211, ?req), ?h)"
    by (simp add: client_arguments_def client_parse_unsigned_def from_chars_def is_digit_def digits_value_def
        parse_request_def string_assign_nil c_string_def new_request_def)
  have enc: "encodable ?req" by (simp add: encodable_def is_valid_opcode_def)
  have len: "length ?f = 33" by (simp add: length_request_frame)
  have "take 3 ?f @ take 30 (drop 3 ?f) = ?f" using len by simp
  then have sent: "send_all ?sends ?f 0 = Some (Inr (), ?f)" using len by simp
  have c: "readable_view (input_buffer ?c) = []" "pending_output_bytes ?c = 0" "\<not> close_after_write ?c"
    "\<not> peer_closed ?c" "output_limit ?c \<le> 2 ^ 60" "20 + 1024 * 1024 \<le> output_limit ?c"
    using example_connection_ok(4,6) by (simp_all add: roomy_connection_def pending_output_bytes_def)
      (simp_all add: example_connection_def)
  have run: "0 < length (srv_workers (sr_server s))" "sr_loops s ! 0 = Looping"
    "conns_of (sr_server s) (0, 20) = Some ?c" "oom (env_heap (sr_env s)) = []"
    using s example_connection_ok(3) by (simp_all add: conns_of_def)
  have "?f \<noteq> []" using len by auto
  then have "\<forall>bs \<in> set [?f]. bs \<noteq> [] \<and> length bs \<le> 64 * 1024" "concat [?f] = ?f" using len by simp_all
  from client_meets_server [OF _ args enc sent s(1) run(1,2) s(6) run(3) c(1-4) run(4) c(5,6) this(2,1)]
  obtain resp e' s' where x: "run_request example_hash ?req (env_engine (sr_env s)) = Some (resp, e')"
    "server_step example_hash s s'"
    "sr_dialogues s' = note_event 0 20 ?f (response_frame resp) True (sr_dialogues s)"
    "\<And>recvs. only_data recvs \<and> arrived recvs = response_frame resp \<Longrightarrow>
       client_main ?argv Connected ?sends recvs ?h =
         Some \<lparr>exit_code = (if status resp = 0 then 0 else 2), std_out = print_response resp, std_err = [], on_wire = ?f\<rparr>"
    by auto
  have "response_frame resp \<noteq> []" using length_response_frame [of resp] by auto
  then have "only_data [Recv_interrupted, Received (response_frame resp)]"
    "arrived [Recv_interrupted, Received (response_frame resp)] = response_frame resp"
    by (simp_all add: only_data_def arrived_def)
  then have "client_main ?argv Connected ?sends [Recv_interrupted, Received (response_frame resp)] ?h =
      Some \<lparr>exit_code = (if status resp = 0 then 0 else 2), std_out = print_response resp, std_err = [], on_wire = ?f\<rparr>"
    using x(4) by blast
  moreover have "map dg_received (sr_dialogues s') = [?f]" "map dg_sent (sr_dialogues s') = [response_frame resp]"
    using x(3) s(2) by (simp_all add: note_event_def new_dialogue_def speaks_def dg_key_def)
  ultimately show ?thesis using x(1,2) s(1,7) by (intro exI conjI) (simp_all add: example_env_def)
qed

section \<open>The load generator\<close>

definition example_random :: bench_random where
  "example_random = \<lparr>rn_shuffle = (\<lambda>_ xs. rev xs), rn_draw = (\<lambda>_ _ k i. i mod k), rn_generator = (\<lambda>_ _. 0)\<rparr>"

definition example_input :: thread_input where
  "example_input = \<lparr>ti_epoll = None, ti_connect = (\<lambda>i. Bc_connected (int i + 5)), ti_add = (\<lambda>_. None),
     ti_modify = (\<lambda>_. None), ti_waits = [Wait_interrupted], ti_clock = int, ti_heap = empty_heap []\<rparr>"

lemma example_random_ok: "fair_shuffle (rn_shuffle example_random)" "fair_draw (rn_draw example_random)"
  by (simp_all add: example_random_def fair_shuffle_def fair_draw_def)

lemma example_input_ok: "oom (ti_heap example_input) = []"
  by (simp add: example_input_def empty_heap_def)

lemma default_options_ok: "valid_options default_options" "run_fits default_options"
proof -
  have "round_double (8 * double_one) 10 \<le> double_one"
    by (rule round_double_bound) (use integer_digits [of 1] in auto)
  then show "valid_options default_options" by (simp add: valid_options_def default_options_def)
qed (simp add: run_fits_def default_options_def)

text \<open>
  C18: A run of the load generator with accepted options ends, whatever the server and the network do
  in any finite number of reports before they fall silent, if memory suffices and the requests of the run
  fit into it (this covers the default options with values of any accepted size): either it reports how many requests of the preload or the
  warm-up failed, or its result accounts for every measured request exactly once, as a success
  or a failure, with hits and misses among the successes and percentiles in order.
\<close>

theorem benchmark_accounts:
  assumes "valid_options opts" and "run_fits opts" and "fair_shuffle (rn_shuffle rn)" and "fair_draw (rn_draw rn)"
    and "oom h = []" and "\<forall>p i. oom (ti_heap (inputs p i)) = []"
  shows "\<exists>out. run_benchmark rn opts inputs duration h = Some out \<and>
           (case out of
              Inl x \<Rightarrow> phase_failed x
            | Inr res \<Rightarrow> br_requests res = unat (bo_requests opts) \<and>
                br_successful res + br_failed res = br_requests res \<and>
                br_get_hits res + br_get_misses res \<le> br_successful res \<and>
                ls_p50 (br_latency res) \<le> ls_p95 (br_latency res) \<and> ls_p95 (br_latency res) \<le> ls_p99 (br_latency res))"
  using run_benchmark_ok [OF assms(1-5)] assms(6) by blast

theorem benchmark_accounts_witness:
  "\<exists>out. run_benchmark example_random (default_options\<lparr>bo_value_size := 1048576\<rparr>) (\<lambda>_ _. example_input) double_one
     (empty_heap []) = Some out"
proof -
  let ?opts = "default_options\<lparr>bo_value_size := 1048576\<rparr>"
  have "valid_options ?opts" "run_fits ?opts"
    using default_options_ok by (simp_all add: valid_options_def run_fits_def default_options_def)
  from benchmark_accounts [OF this example_random_ok, of "empty_heap []" "\<lambda>_ _. example_input" double_one]
  show ?thesis using example_input_ok by (auto simp: empty_heap_def)
qed

text \<open>
  C19: A worker of the load generator that has memory, and whose requests fit into it, counts every
  operation of its part of the plan exactly once, as a success or as a failure, whatever connections
  fail and whatever arrives: for every finite sequence of reports of \<^verbatim>\<open>epoll_wait\<close>, the one after the
  last being the timeout. Nor does it need the timeout to end: when the first event of each report is one
  with which something can be done, more such reports than the bytes to send and to receive for the plan
  are never used up, and what the system would have reported after them makes no difference.
\<close>

theorem worker_accounts:
  assumes "work_ok wk (2 ^ 60)" and "oom (ti_heap inp) = []"
  shows "\<exists>st. thread_statistics wk n inp = Some st \<and> handled st = bw_end wk - bw_begin wk \<and>
           st_get_hits st + st_get_misses st \<le> st_successful st \<and> length (st_latencies st) \<le> handled st \<and>
           (prompt_thread wk n inp \<and> thread_load wk n < ready_waits (ti_waits inp) \<longrightarrow>
              (\<forall>rest. thread_statistics wk n (inp\<lparr>ti_waits := ti_waits inp @ rest\<rparr>) = Some st))"
  using thread_statistics_ok [OF assms, of n] thread_statistics_ends [OF assms] by (auto simp: stats_ok_def)

definition hangup :: bench_wait where
  "hangup = Wait_ready [\<lparr>ev_fd = 5, ev_flags = EPOLLHUP, ev_sends = [], ev_recvs = [], ev_modify = None\<rparr>]"

definition hangup_input :: thread_input where
  "hangup_input = example_input\<lparr>ti_waits := hangup # replicate 10000000 hangup\<rparr>"

definition example_work :: bench_work where
  "example_work = \<lparr>bw_plan = make_preload 2, bw_keys = make_keys 2, bw_value = [1], bw_pipeline = 1,
     bw_begin = 0, bw_end = 2, bw_clock = int\<rparr>"

lemma example_work_ok: "work_ok example_work (2 ^ 60)"
  using make_preload_ok [of 2] make_keys_ok [of 2] by (simp add: example_work_def work_ok_def frame_room_def)

lemma hangup_worker:
  "\<exists>c. new_client_worker hangup_input 1 = (Inr ([c], [(5, 0)]), empty_heap []) \<and> fresh_conn wk (empty_heap []) c"
proof -
  have none: "container_alloc (empty_heap []) = (Inr (), empty_heap [])" by (simp add: empty_heap_def)
  show ?thesis unfolding One_nat_def
    by (simp add: new_client_worker_def reserve_def hangup_input_def example_input_def none connect_socket_def
        new_client_conn_def new_buffer_def vector_max_size_def fresh_conn_def conn_load_def cc_live_def
        tracker_ok_def buffers_ok_def buffer_inv_def readable_bytes_def)
qed

lemma hangup_prompt: "prompt_thread example_work 1 hangup_input"
proof -
  let ?wk = example_work and ?env = "\<lparr>be_next = 0, be_stats = new_statistics, be_heap = empty_heap [], be_calls = 0\<rparr>"
  obtain c where c: "new_client_worker hangup_input 1 = (Inr ([c], [(5, 0)]), empty_heap [])" "fresh_conn ?wk (empty_heap []) c"
    using hangup_worker by blast
  have first: "bw_begin ?wk = 0" by (simp add: example_work_def)
  have env: "env_ok ?wk ?env"
    by (simp add: env_ok_def example_work_def stats_ok_def handled_def new_statistics_def empty_heap_def)
  from fill_all_ok [OF example_work_ok env, of "[c]" "ti_modify hangup_input" 0] c(2) first obtain r cs1 env1 where
    f: "fill_all ?wk (ti_modify hangup_input) 0 [c] ?env = Some (r, cs1, env1)" "length cs1 = 1"
      "\<forall>c \<in> set cs1. cc_active c" by (auto simp: fresh_conn_def)
  then obtain d where d: "cs1 = [d]" "cc_active d" by (cases cs1) auto
  obtain d2 env2 where gone: "fail_connection ''benchmark connection closed'' d env1 = (d2, env2)" by fastforce
  have run: "handle_events ?wk [(5, 0)] [\<lparr>ev_fd = 5, ev_flags = EPOLLHUP, ev_sends = [], ev_recvs = [], ev_modify = None\<rparr>] [d] env1 =
      Some ([d2], env2)"
    using d(2) gone by (simp add: handle_event_def event_attempt_def event_io_def)
  have "\<not> cc_active d2" using fail_connection_balance(2) [OF gone d(2)] .
  then have "prompt ?wk [(5, 0)] waits [d2] env2" for waits
    by (subst prompt.simps) (simp add: active_connection_count_def)
  then have "prompt ?wk [(5, 0)] (hangup # waits) [d] env1" for waits
    using run d(2) by (subst prompt.simps) (simp add: hangup_def productive_def)
  then show ?thesis
    using c(1) f(1) d(1) by (cases r) (simp_all add: prompt_thread_def first, simp_all add: hangup_input_def)
qed

lemma ready_waits_replicate: "ready_waits (replicate n hangup) = n"
  by (induction n) (simp_all add: hangup_def)

theorem worker_accounts_witness:
  "\<exists>st. thread_statistics example_work 1 hangup_input = Some st \<and> handled st = 2 \<and>
     (\<forall>rest. thread_statistics example_work 1 (hangup_input\<lparr>ti_waits := ti_waits hangup_input @ rest\<rparr>) = Some st)"
proof -
  have "oom (ti_heap hangup_input) = []" using example_input_ok by (simp add: hangup_input_def)
  moreover have "ready_waits (ti_waits hangup_input) = Suc 10000000"
    using ready_waits_replicate [of 10000000] by (simp add: hangup_input_def hangup_def)
  then have "thread_load example_work 1 < ready_waits (ti_waits hangup_input)"
    by (simp add: thread_load_def example_work_def frame_room_def)
  ultimately show ?thesis
    using worker_accounts [OF example_work_ok, of hangup_input 1] hangup_prompt by (auto simp: example_work_def)
qed

text \<open>
   The request identifiers of the three phases are the numbers from one on, without a gap, a
  repetition or a wrap-around, if the options are accepted and the plans fit into memory.
\<close>

theorem benchmark_ids:
  assumes "valid_options opts" and "run_fits opts" and "fair_shuffle (rn_shuffle rn)" and "fair_draw (rn_draw rn)"
    and "oom h = []"
  shows "\<exists>warm plan.
           workload rn opts (bo_warmup_requests opts) seed (bo_key_space opts + 1) h = Some (Inr warm, h) \<and>
           workload rn opts (bo_requests opts) (bo_seed opts) (bo_key_space opts + 1 + bo_warmup_requests opts) h =
             Some (Inr plan, h) \<and>
           map (unat \<circ> op_request_id) (make_preload (unat (bo_key_space opts)) @ warm @ plan) =
             [1 ..< 1 + unat (bo_key_space opts) + unat (bo_warmup_requests opts) + unat (bo_requests opts)]"
  by (rule phase_ids [OF assms])

theorem benchmark_ids_witness:
  "\<exists>warm. workload example_random default_options 10000 0 100001 (empty_heap []) = Some (Inr warm, empty_heap [])"
  using benchmark_ids [OF default_options_ok example_random_ok, of "empty_heap []" 0]
  by (auto simp: empty_heap_def default_options_def)

text \<open>
  C37: The percentiles of a run are measured latencies, their positions are within the list, and they
  are in order, although the positions are computed with rounded numbers.
\<close>

theorem percentiles_ordered:
  assumes "latencies \<noteq> []" and "length latencies \<le> 2 ^ 53"
  shows "\<exists>s. summarize_latencies latencies = Some s \<and> {ls_p50 s, ls_p95 s, ls_p99 s} \<subseteq> micros ` set latencies \<and>
           ls_p50 s \<le> ls_p95 s \<and> ls_p95 s \<le> ls_p99 s"
  by (rule summarize_latencies_ok [OF assms])

theorem percentiles_ordered_witness:
  "\<exists>s. summarize_latencies [30, 10, 20] = Some s \<and> ls_p50 s \<le> ls_p95 s"
  using percentiles_ordered [of "[30, 10, 20]"] by auto

text \<open>
  C40: \<^verbatim>\<open>fill_pipeline\<close> takes an operation from the plan before it has the memory to build its request
  and to keep track of it. Whenever it throws, that operation is counted neither as a success nor as a
  failure: after the connection has been given up, what is counted, in flight and not issued is one less
  than before. If this happens on the first connection before any event, the worker returns with
  one operation less than its part of the plan, or, when there is not even memory to note the
  error, the program is terminated.
\<close>

theorem lost_operation:
  assumes "fill_pipeline wk c env = Some (Inl x, c1, env1)" and "cc_active c"
  shows "(\<forall>message c2 env2. fail_connection message c1 env1 = (c2, env2) \<longrightarrow>
            cc_tracker c2 = [] \<and>
            handled (be_stats env2) + (bw_end wk - be_next env2) + 1 =
              handled (be_stats env) + length (cc_tracker c) + (bw_end wk - be_next env)) \<and>
         (\<forall>h cs indexes modify waits.
            env = \<lparr>be_next = bw_begin wk, be_stats = new_statistics, be_heap = h, be_calls = 0\<rparr> \<and>
            (\<forall>d \<in> set (c # cs). cc_tracker d = []) \<longrightarrow>
            (case fst (record_error (exn_what x) (be_stats env1) (be_heap env1)) of
               Inr _ \<Rightarrow> \<exists>st. worker_run wk indexes modify waits (c # cs) h = Some st \<and> handled st + 1 = bw_end wk - bw_begin wk
             | Inl _ \<Rightarrow> worker_run wk indexes modify waits (c # cs) h = None))"
proof -
  note bal = fill_pipeline_balance [OF assms(1)]
  have "cc_tracker c2 = [] \<and> handled (be_stats env2) + (bw_end wk - be_next env2) + 1 =
      handled (be_stats env) + length (cc_tracker c) + (bw_end wk - be_next env)"
    if "fail_connection message c1 env1 = (c2, env2)" for message c2 env2
    using fail_connection_balance [OF that] bal assms(2) by (auto simp: balance_def)
  moreover have "case fst (record_error (exn_what x) (be_stats env1) (be_heap env1)) of
       Inr _ \<Rightarrow> \<exists>st. worker_run wk indexes modify waits (c # cs) h = Some st \<and> handled st + 1 = bw_end wk - bw_begin wk
     | Inl _ \<Rightarrow> worker_run wk indexes modify waits (c # cs) h = None"
    if "env = \<lparr>be_next = bw_begin wk, be_stats = new_statistics, be_heap = h, be_calls = 0\<rparr>"
      and "\<forall>d \<in> set (c # cs). cc_tracker d = []" for h cs indexes modify waits
    using first_round_loses [OF _ assms(2) that(2)] assms(1) that(1)
    by (cases "record_error (exn_what x) (be_stats env1) (be_heap env1)") (simp split: sum.splits)
  ultimately show ?thesis by blast
qed

text \<open>
  The only request of a phase is never sent, and the phase still counts as successful.
\<close>

theorem lost_operation_witness:
  "\<exists>st. thread_statistics \<lparr>bw_plan = make_preload 1, bw_keys = make_keys 1, bw_value = [1], bw_pipeline = 1,
       bw_begin = 0, bw_end = 1, bw_clock = int\<rparr> 1
       (example_input\<lparr>ti_heap := empty_heap [False, False, False, False, True]\<rparr>) = Some st \<and>
     handled st = 0 \<and> require_success st ''preload'' = Inr ()"
proof -
  let ?wk = "\<lparr>bw_plan = make_preload 1, bw_keys = make_keys 1, bw_value = [1], bw_pipeline = 1,
       bw_begin = 0, bw_end = 1, bw_clock = int\<rparr>"
  have alloc: "container_alloc (empty_heap (b # bs)) = (if b then Inl Bad_alloc else Inr (), empty_heap bs)" for b bs
    by (simp add: container_alloc_def request_memory_def empty_heap_def)
  have none: "container_alloc (empty_heap []) = (Inr (), empty_heap [])" by (simp add: empty_heap_def)
  let ?b = "\<lparr>storage = [], storage_capacity = 4096, reader_index = 0\<rparr>"
  let ?c = "\<lparr>cc_fd = 5, cc_input = ?b, cc_output = ?b, cc_tracker = [], cc_active = True, cc_interest = 0x2001\<rparr>"
  let ?inp = "example_input\<lparr>ti_heap := empty_heap [False, False, False, False, True]\<rparr>"
  let ?env = "\<lparr>be_next = 0, be_stats = new_statistics, be_heap = empty_heap [True], be_calls = 0\<rparr>"
  have worker: "new_client_worker ?inp 1 = (Inr ([?c], [(5, 0)]), empty_heap [True])"
    unfolding One_nat_def
    by (simp add: new_client_worker_def reserve_def example_input_def alloc connect_socket_def new_client_conn_def new_buffer_def
        vector_max_size_def)
  have fill: "fill_pipeline ?wk ?c ?env = Some (Inl Bad_alloc, ?c, ?env\<lparr>be_next := 1, be_heap := empty_heap []\<rparr>)"
    by (simp add: fill_pipeline.simps issue_operation_def encode_planned_def planned_request_def string_assign_def
        alloc make_keys_def make_preload_def Let_def)
  have noted: "fst (record_error (exn_what Bad_alloc) new_statistics (empty_heap [])) = Inr ()"
    by (simp add: record_error_def string_assign_def none split: prod.splits)
  have "\<exists>st. worker_run ?wk [(5, 0)] (ti_modify ?inp) (ti_waits ?inp) [?c] (empty_heap [True]) = Some st \<and>
      handled st + 1 = bw_end ?wk - bw_begin ?wk"
  proof -
    from lost_operation [OF fill, THEN conjunct2, rule_format, of "empty_heap [True]" "[]" "[(5, 0)]" "ti_modify ?inp" "ti_waits ?inp"]
    have "case fst (record_error (exn_what Bad_alloc) new_statistics (empty_heap [])) of
       Inr _ \<Rightarrow> \<exists>st. worker_run ?wk [(5, 0)] (ti_modify ?inp) (ti_waits ?inp) [?c] (empty_heap [True]) = Some st \<and>
         handled st + 1 = bw_end ?wk - bw_begin ?wk
     | Inl _ \<Rightarrow> worker_run ?wk [(5, 0)] (ti_modify ?inp) (ti_waits ?inp) [?c] (empty_heap [True]) = None" by simp
    then show ?thesis unfolding noted by (simp only: sum.case)
  qed
  then obtain st where st: "worker_run ?wk [(5, 0)] (ti_modify ?inp) (ti_waits ?inp) [?c] (empty_heap [True]) = Some st"
    "handled st = 0" by auto
  then show ?thesis
    using worker st by (simp add: thread_statistics_def require_success_def handled_def)
qed

end
